(* ===== verification/Cik_Prelude.thy ===== *)
theory Cik_Prelude
  imports Main "HOL-Library.Word" "HOL-Library.Monad_Syntax" "HOL-Library.List_Lexorder"
begin

text \<open>
  Prelude of the development: the machine types of \<open>src/src/types.h\<close>, byte buffers with
  explicit offsets, the byte order of the host (x86-64, little endian) and of the network, and the
  generic lemmas every component uses.

  Two conventions hold throughout.

  \<^item> A C function that may reach undefined behaviour (an access outside an object, a null
    dereference) or that may never return (spinning on a lock nobody will release) is a HOL
    function into an \<open>option\<close> type: \<open>None\<close> is "the C execution has no defined result".
    Errors the code itself reports (\<open>StatusCode\<close>, a \<open>NULL\<close> result) are ordinary values
    inside \<open>Some\<close>.
  \<^item> Pointers are natural numbers, \<open>NULL\<close> is the \<open>None\<close> of \<open>addr option\<close>;
    integers that wrap in the code are words of their C width.
\<close>

unbundle bit_operations_syntax

type_synonym u8  = "8 word"
type_synonym u16 = "16 word"
type_synonym u32 = "32 word"
type_synonym u64 = "64 word"

type_synonym time_t = "64 word"   \<comment> \<open>signed; compared with \<open>sint\<close>\<close>
type_synonym addr = nat
type_synonym buffer = "nat \<Rightarrow> u8"

named_theorems buffer_simps \<open>reading back what was written into a byte buffer\<close>
named_theorems frame_simps \<open>fields an operation leaves alone\<close>

section \<open>Options\<close>

lemma bind_SomeI: "m = Some x \<Longrightarrow> f x = Some y \<Longrightarrow> Option.bind m f = Some y"
  by simp

lemma bind_SomeE:
  assumes "Option.bind m f = Some y"
  obtains x where "m = Some x" and "f x = Some y"
  using assms by (cases m) auto

text \<open>A loop over a list whose body may be undefined.\<close>

fun fold_opt :: "('a \<Rightarrow> 'u \<Rightarrow> 'u option) \<Rightarrow> 'a list \<Rightarrow> 'u \<Rightarrow> 'u option" where
  "fold_opt f [] u = Some u"
| "fold_opt f (x # xs) u = Option.bind (f x u) (fold_opt f xs)"

lemma fold_opt_append: "fold_opt f (xs @ ys) u = Option.bind (fold_opt f xs u) (fold_opt f ys)"
proof (induction xs arbitrary: u)
  case (Cons x xs)
  then show ?case by (cases "f x u") simp_all
qed simp

lemma fold_opt_Some: "fold_opt (\<lambda>x u. Some (g x u)) xs u = Some (fold g xs u)"
  by (induction xs arbitrary: u) auto

lemma fold_opt_upt:
  assumes "\<And>i u. i < n \<Longrightarrow> I i u \<Longrightarrow> \<exists>u'. f i u = Some u' \<and> I (Suc i) u'" and "I 0 u"
  shows "\<exists>u'. fold_opt f [0..<n] u = Some u' \<and> I n u'"
  using assms
proof (induction n)
  case (Suc n)
  then obtain u1 where u1: "fold_opt f [0..<n] u = Some u1" "I n u1" by auto
  obtain u2 where "f n u1 = Some u2" "I (Suc n) u2" using Suc.prems(1) [OF _ u1(2)] by auto
  with u1 show ?case by (simp add: fold_opt_append)
qed simp

section \<open>Byte buffers\<close>

text \<open>
  An array of bytes the code writes through a pointer and an offset. \<open>store_bytes\<close> is
  \<open>memcpy (base + off, bs, length bs)\<close>, \<open>load_bytes\<close> the bytes read back. Whether the
  range lies inside the object is checked by the operation that writes.
\<close>

definition load_bytes :: "buffer \<Rightarrow> nat \<Rightarrow> nat \<Rightarrow> u8 list" where
  "load_bytes f off n = map f [off..<off + n]"

definition store_bytes :: "buffer \<Rightarrow> nat \<Rightarrow> u8 list \<Rightarrow> buffer" where
  "store_bytes f off bs = (\<lambda>i. if off \<le> i \<and> i < off + length bs then bs ! (i - off) else f i)"

lemma length_load_bytes [simp]: "length (load_bytes f off n) = n"
  by (simp add: load_bytes_def)

lemma load_bytes_0 [simp]: "load_bytes f off 0 = []"
  by (simp add: load_bytes_def)

lemma nth_load_bytes [simp]: "i < n \<Longrightarrow> load_bytes f off n ! i = f (off + i)"
  by (simp add: load_bytes_def)

lemma store_bytes_Nil [simp]: "store_bytes f off [] = f"
  by (rule ext) (simp add: store_bytes_def, linarith)

lemma store_bytes_outside [buffer_simps]:
  "i < off \<or> off + length bs \<le> i \<Longrightarrow> store_bytes f off bs i = f i"
  by (auto simp: store_bytes_def)

lemma load_store_same [buffer_simps]:
  "length bs = n \<Longrightarrow> load_bytes (store_bytes f off bs) off n = bs"
  by (rule nth_equalityI) (simp_all add: store_bytes_def)

lemma load_store_disjoint [buffer_simps]:
  "off' + n \<le> off \<or> off + length bs \<le> off' \<Longrightarrow>
   load_bytes (store_bytes f off bs) off' n = load_bytes f off' n"
  by (rule nth_equalityI) (auto simp: store_bytes_outside)

lemma load_bytes_append:
  "load_bytes f off (m + n) = load_bytes f off m @ load_bytes f (off + m) n"
  using upt_add_eq_append [of off "off + m" n] by (simp add: load_bytes_def add.assoc)

lemma load_bytes_split:
  "load_bytes f off (m + n) = xs @ ys \<Longrightarrow> length xs = m \<Longrightarrow>
   load_bytes f off m = xs \<and> load_bytes f (off + m) n = ys"
  by (simp add: load_bytes_append)

lemma load_bytes_cong:
  "(\<And>i. off \<le> i \<Longrightarrow> i < off + n \<Longrightarrow> f i = g i) \<Longrightarrow> load_bytes f off n = load_bytes g off n"
  by (simp add: load_bytes_def)

lemma store_bytes_append:
  "store_bytes (store_bytes f off xs) (off + length xs) ys = store_bytes f off (xs @ ys)"
proof (rule ext)
  fix i
  consider "i < off" | "off \<le> i" "i < off + length xs" | "off + length xs \<le> i"
    by linarith
  then show "store_bytes (store_bytes f off xs) (off + length xs) ys i = store_bytes f off (xs @ ys) i"
    by cases (auto simp: store_bytes_def nth_append less_diff_conv2)
qed

lemma load_store_prefix [buffer_simps]:
  "load_bytes (store_bytes f off (xs @ ys)) off (length xs) = xs"
  by (rule nth_equalityI) (simp_all add: store_bytes_def nth_append)

section \<open>Host and network byte order\<close>

text \<open>The object representation of an integer on the little-endian host.\<close>

definition u32_bytes :: "u32 \<Rightarrow> u8 list" where
  "u32_bytes x = [ucast x, ucast (drop_bit 8 x), ucast (drop_bit 16 x), ucast (drop_bit 24 x)]"

definition bytes_u32 :: "u8 list \<Rightarrow> u32" where
  "bytes_u32 bs = ucast (bs ! 0) OR push_bit 8 (ucast (bs ! 1))
     OR push_bit 16 (ucast (bs ! 2)) OR push_bit 24 (ucast (bs ! 3))"

definition u64_bytes :: "u64 \<Rightarrow> u8 list" where
  "u64_bytes x = map (\<lambda>i. ucast (drop_bit (8 * i) x)) [0..<8]"

text \<open>Big-endian (network order) bytes of an integer: what the protocol carries.\<close>

definition be32 :: "u32 \<Rightarrow> u8 list" where
  "be32 x = [ucast (drop_bit 24 x), ucast (drop_bit 16 x), ucast (drop_bit 8 x), ucast x]"

text \<open>
  \<open>htonl\<close> and \<open>ntohl\<close> of the C library: \<open>htonl x\<close> is the integer whose bytes in
  memory are the network-order bytes of \<open>x\<close>. On the little-endian host both swap the bytes.
\<close>

definition htonl :: "u32 \<Rightarrow> u32" where
  "htonl x = bytes_u32 (be32 x)"

definition ntohl :: "u32 \<Rightarrow> u32" where
  "ntohl x = bytes_u32 (rev (u32_bytes x))"

lemma length_u32_bytes [simp]: "length (u32_bytes x) = 4"
  by (simp add: u32_bytes_def)

lemma length_be32 [simp]: "length (be32 x) = 4"
  by (simp add: be32_def)

lemma length_u64_bytes [simp]: "length (u64_bytes x) = 8"
  by (simp add: u64_bytes_def)

lemma be32_rev: "be32 x = rev (u32_bytes x)"
  by (simp add: be32_def u32_bytes_def)

lemma bit_u8_high [simp]: "8 \<le> n \<Longrightarrow> \<not> bit (b :: u8) n"
  using bit_imp_le_length [of b n] by auto

lemma bytes_u32_bytes [simp]: "bytes_u32 (u32_bytes x) = x"
proof -
  have byte2: "n - 16 < 8" if "\<not> bit x (24 + (n - 24))" "bit x n" for n
  proof -
    from that have "n \<noteq> 24 + (n - 24)" by metis
    then show ?thesis by linarith
  qed
  show ?thesis
    unfolding bytes_u32_def u32_bytes_def
    by (rule bit_word_eqI) (auto simp: bit_simps intro: byte2)
qed

lemma u32_bytes_bytes:
  assumes "length bs = 4"
  shows "u32_bytes (bytes_u32 bs) = bs"
proof -
  obtain a b c d where "bs = [a, b, c, d]"
    using assms by (auto simp: length_Suc_conv eval_nat_numeral)
  then show ?thesis
    by (auto simp: u32_bytes_def bytes_u32_def bit_simps intro!: bit_word_eqI)
qed

lemma u32_bytes_htonl [simp]: "u32_bytes (htonl x) = be32 x"
  by (simp add: htonl_def u32_bytes_bytes)

lemma ntohl_be32: "ntohl (bytes_u32 (be32 x)) = x"
  by (simp add: ntohl_def u32_bytes_bytes be32_rev)

lemma ntohl_htonl [simp]: "ntohl (htonl x) = x"
  by (simp add: ntohl_be32 htonl_def)

end
