(* ===== verification/Cik_Types.thy ===== *)
theory Cik_Types
  imports Cik_Prelude
begin

text \<open>
  The constants of \<open>src/src/config.h\<close> and the data of \<open>src/src/types.h\<close> that several
  components share: status codes, clear and list modes, the packed 16-byte request and 8-byte
  response, and the sizes of the structures the allocator is asked for (System V x86-64 layout).
\<close>

section \<open>Configuration constants\<close>

definition MIN_BUCKET_SIZE :: nat where "MIN_BUCKET_SIZE = 0x100"
definition MAX_BUCKET_SIZE :: nat where "MAX_BUCKET_SIZE = 0x800000"
definition MAX_TOTAL_MEMORY :: nat where "MAX_TOTAL_MEMORY = 0xFFFFFFFF"
definition NUM_CACHE_ENTRY_MAPS :: nat where "NUM_CACHE_ENTRY_MAPS = 6421"
definition CACHE_ENTRY_MAP_SIZE :: nat where "CACHE_ENTRY_MAP_SIZE = 797"
definition NUM_WORKERS :: nat where "NUM_WORKERS = 0x10"
definition MAX_NUM_CLIENTS :: nat where "MAX_NUM_CLIENTS = 0x100"
definition NUM_LOG_QUEUE_ELEMS :: nat where "NUM_LOG_QUEUE_ELEMS = 0x100"

lemma NUM_CACHE_ENTRY_MAPS_pos [simp]: "0 < NUM_CACHE_ENTRY_MAPS"
  by (simp add: NUM_CACHE_ENTRY_MAPS_def)

lemma CACHE_ENTRY_MAP_SIZE_pos [simp]: "0 < CACHE_ENTRY_MAP_SIZE"
  by (simp add: CACHE_ENTRY_MAP_SIZE_def)

text \<open>Object sizes (\<open>sizeof\<close>) and the strictest alignment (\<open>alignof (max_align_t)\<close>).\<close>

definition sizeof_CacheTag :: nat where "sizeof_CacheTag = 16"
definition sizeof_CacheEntry :: nat where "sizeof_CacheEntry = 72"
definition sizeof_KeyElem :: nat where "sizeof_KeyElem = 24"
definition sizeof_TagNode :: nat where "sizeof_TagNode = 48"
definition sizeof_TagElem :: nat where "sizeof_TagElem = 16"
definition sizeof_pointer :: nat where "sizeof_pointer = 8"
definition sizeof_CacheEntryHashMap :: nat where "sizeof_CacheEntryHashMap = 11160"
definition sizeof_Request :: nat where "sizeof_Request = 16"
definition sizeof_NFOResponsePayload :: nat where "sizeof_NFOResponsePayload = 16"
definition alignof_max_align_t :: nat where "alignof_max_align_t = 16"

section \<open>Status codes\<close>

datatype StatusCode =
    STATUS_OK
  | MASK_INTERNAL_ERROR | STATUS_BUG | STATUS_CONNECTION_CLOSED | STATUS_NETWORK_ERROR
  | MASK_CLIENT_ERROR | STATUS_PROTOCOL_ERROR
  | MASK_CLIENT_MESSAGE | STATUS_NOT_FOUND | STATUS_EXPIRED | STATUS_OUT_OF_MEMORY

fun status_code :: "StatusCode \<Rightarrow> u32" where
  "status_code STATUS_OK = 0x00"
| "status_code MASK_INTERNAL_ERROR = 0x10"
| "status_code STATUS_BUG = 0x11"
| "status_code STATUS_CONNECTION_CLOSED = 0x12"
| "status_code STATUS_NETWORK_ERROR = 0x13"
| "status_code MASK_CLIENT_ERROR = 0x20"
| "status_code STATUS_PROTOCOL_ERROR = 0x21"
| "status_code MASK_CLIENT_MESSAGE = 0x40"
| "status_code STATUS_NOT_FOUND = 0x41"
| "status_code STATUS_EXPIRED = 0x42"
| "status_code STATUS_OUT_OF_MEMORY = 0x43"

fun get_status_code_name :: "StatusCode \<Rightarrow> string" where
  "get_status_code_name STATUS_OK = ''OK''"
| "get_status_code_name MASK_INTERNAL_ERROR = ''[MASK_INTERNAL_ERROR]''"
| "get_status_code_name STATUS_BUG = ''BUG!''"
| "get_status_code_name STATUS_CONNECTION_CLOSED = ''Connection closed''"
| "get_status_code_name STATUS_NETWORK_ERROR = ''Network error''"
| "get_status_code_name MASK_CLIENT_ERROR = ''[MASK_CLIENT_ERROR]''"
| "get_status_code_name STATUS_PROTOCOL_ERROR = ''Protocol error''"
| "get_status_code_name MASK_CLIENT_MESSAGE = ''[MASK_CLIENT_MESSAGE]''"
| "get_status_code_name STATUS_NOT_FOUND = ''Not found''"
| "get_status_code_name STATUS_EXPIRED = ''Expired''"
| "get_status_code_name STATUS_OUT_OF_MEMORY = ''Out of memory''"

text \<open>The tests \<open>status & MASK_INTERNAL_ERROR\<close> and
  \<open>status & (MASK_CLIENT_ERROR | MASK_CLIENT_MESSAGE)\<close> of the event loop.\<close>

definition closes_connection :: "StatusCode \<Rightarrow> bool" where
  "closes_connection st \<longleftrightarrow> status_code st AND status_code MASK_INTERNAL_ERROR \<noteq> 0"

definition sends_failure :: "StatusCode \<Rightarrow> bool" where
  "sends_failure st \<longleftrightarrow>
     status_code st AND (status_code MASK_CLIENT_ERROR OR status_code MASK_CLIENT_MESSAGE) \<noteq> 0"

lemma closes_connection_iff:
  "closes_connection st \<longleftrightarrow>
     st \<in> {MASK_INTERNAL_ERROR, STATUS_BUG, STATUS_CONNECTION_CLOSED, STATUS_NETWORK_ERROR}"
  by (cases st) (simp_all add: closes_connection_def)

lemma sends_failure_iff:
  "sends_failure st \<longleftrightarrow>
     st \<in> {MASK_CLIENT_ERROR, STATUS_PROTOCOL_ERROR, MASK_CLIENT_MESSAGE, STATUS_NOT_FOUND,
           STATUS_EXPIRED, STATUS_OUT_OF_MEMORY}"
  by (cases st) (simp_all add: sends_failure_def)

lemma status_code_inj: "status_code a = status_code b \<longleftrightarrow> a = b"
  by (cases a; cases b) simp_all

section \<open>Clear and list modes\<close>

datatype ClearMode =
  CLEAR_MODE_ALL | CLEAR_MODE_OLD | CLEAR_MODE_MATCH_ALL | CLEAR_MODE_MATCH_NONE | CLEAR_MODE_MATCH_ANY

datatype ListMode =
  LIST_MODE_ALL_KEYS | LIST_MODE_ALL_TAGS | LIST_MODE_MATCH_ALL | LIST_MODE_MATCH_NONE | LIST_MODE_MATCH_ANY

text \<open>The cast of the request's mode byte; \<open>None\<close> is a value with no \<open>case\<close> label.\<close>

definition to_ClearMode :: "u8 \<Rightarrow> ClearMode option" where
  "to_ClearMode b =
     (if b = 0x00 then Some CLEAR_MODE_ALL
      else if b = 0x01 then Some CLEAR_MODE_OLD
      else if b = 0x02 then Some CLEAR_MODE_MATCH_ALL
      else if b = 0x03 then Some CLEAR_MODE_MATCH_NONE
      else if b = 0x04 then Some CLEAR_MODE_MATCH_ANY
      else None)"

definition to_ListMode :: "u8 \<Rightarrow> ListMode option" where
  "to_ListMode b =
     (if b = 0x00 then Some LIST_MODE_ALL_KEYS
      else if b = 0x01 then Some LIST_MODE_ALL_TAGS
      else if b = 0x02 then Some LIST_MODE_MATCH_ALL
      else if b = 0x03 then Some LIST_MODE_MATCH_NONE
      else if b = 0x04 then Some LIST_MODE_MATCH_ANY
      else None)"

section \<open>The packed request\<close>

definition CONTROL_BYTE_1 :: u8 where "CONTROL_BYTE_1 = 0x43"
definition CONTROL_BYTE_2 :: u8 where "CONTROL_BYTE_2 = 0x69"
definition CONTROL_BYTE_3 :: u8 where "CONTROL_BYTE_3 = 0x4B"
definition CMD_BYTE_GET :: u8 where "CMD_BYTE_GET = 0x67"
definition CMD_BYTE_SET :: u8 where "CMD_BYTE_SET = 0x73"
definition CMD_BYTE_DEL :: u8 where "CMD_BYTE_DEL = 0x64"
definition CMD_BYTE_CLR :: u8 where "CMD_BYTE_CLR = 0x63"
definition CMD_BYTE_LST :: u8 where "CMD_BYTE_LST = 0x6C"
definition CMD_BYTE_NFO :: u8 where "CMD_BYTE_NFO = 0x6E"
definition SUCCESS_BYTE :: u8 where "SUCCESS_BYTE = 0x74"
definition FAILURE_BYTE :: u8 where "FAILURE_BYTE = 0x66"

definition GET_FLAG_IGNORE_EXPIRES :: u8 where "GET_FLAG_IGNORE_EXPIRES = 0x01"
definition SET_FLAG_NONE :: u8 where "SET_FLAG_NONE = 0x00"
definition SET_FLAG_ONLY_TTL :: u8 where "SET_FLAG_ONLY_TTL = 0x01"

lemmas command_byte_defs = CMD_BYTE_GET_def CMD_BYTE_SET_def CMD_BYTE_DEL_def CMD_BYTE_CLR_def
  CMD_BYTE_LST_def CMD_BYTE_NFO_def

lemmas control_byte_defs = CONTROL_BYTE_1_def CONTROL_BYTE_2_def CONTROL_BYTE_3_def

text \<open>
  \<open>Request\<close> is a packed struct with a packed union over its last 12 bytes, so it is its 16
  bytes; a member of the union is the bytes at its offset.
\<close>

type_synonym Request = "u8 list"

definition req_cik :: "Request \<Rightarrow> u8 list" where "req_cik r = take 3 r"
definition req_op :: "Request \<Rightarrow> u8" where "req_op r = r ! 3"
definition req_g_klen :: "Request \<Rightarrow> u8" where "req_g_klen r = r ! 4"
definition req_g_flags :: "Request \<Rightarrow> u8" where "req_g_flags r = r ! 5"
definition req_s_klen :: "Request \<Rightarrow> u8" where "req_s_klen r = r ! 4"
definition req_s_ntags :: "Request \<Rightarrow> u8" where "req_s_ntags r = r ! 5"
definition req_s_flags :: "Request \<Rightarrow> u8" where "req_s_flags r = r ! 6"
definition req_s_vlen :: "Request \<Rightarrow> u32" where "req_s_vlen r = bytes_u32 (take 4 (drop 8 r))"
definition req_s_ttl :: "Request \<Rightarrow> u32" where "req_s_ttl r = bytes_u32 (take 4 (drop 12 r))"
definition req_d_klen :: "Request \<Rightarrow> u8" where "req_d_klen r = r ! 4"
definition req_c_mode :: "Request \<Rightarrow> u8" where "req_c_mode r = r ! 4"
definition req_c_ntags :: "Request \<Rightarrow> u8" where "req_c_ntags r = r ! 5"
definition req_n_klen :: "Request \<Rightarrow> u8" where "req_n_klen r = r ! 4"

lemmas request_field_defs = req_cik_def req_op_def req_g_klen_def req_g_flags_def req_s_klen_def
  req_s_ntags_def req_s_flags_def req_s_vlen_def req_s_ttl_def req_d_klen_def req_c_mode_def
  req_c_ntags_def req_n_klen_def

text \<open>The fields of each member of the union in order, with their sizes: a packed struct has no
  gaps, so an offset is the sum of the sizes before it.\<close>

type_synonym layout = "(string \<times> nat) list"

definition request_head :: layout where
  "request_head = [(''cik'', 3), (''op'', 1)]"
definition layout_g :: layout where
  "layout_g = request_head @ [(''klen'', 1), (''flags'', 1), (''_padding'', 10)]"
definition layout_s :: layout where
  "layout_s = request_head @
     [(''klen'', 1), (''ntags'', 1), (''flags'', 1), (''_padding'', 1), (''vlen'', 4), (''ttl'', 4)]"
definition layout_d :: layout where
  "layout_d = request_head @ [(''klen'', 1), (''_padding'', 11)]"
definition layout_c :: layout where
  "layout_c = request_head @ [(''mode'', 1), (''ntags'', 1), (''_padding'', 10)]"
definition layout_l :: layout where
  "layout_l = request_head @ [(''mode'', 1), (''ntags'', 1), (''_padding'', 10)]"
definition layout_n :: layout where
  "layout_n = request_head @ [(''klen'', 1), (''_padding'', 11)]"

lemmas layout_defs = request_head_def layout_g_def layout_s_def layout_d_def layout_c_def
  layout_l_def layout_n_def

fun sizeof_layout :: "layout \<Rightarrow> nat" where
  "sizeof_layout [] = 0"
| "sizeof_layout ((_, n) # fs) = n + sizeof_layout fs"

fun sizeof_field :: "layout \<Rightarrow> string \<Rightarrow> nat option" where
  "sizeof_field [] f = None"
| "sizeof_field ((g, n) # fs) f = (if g = f then Some n else sizeof_field fs f)"

fun offsetof :: "layout \<Rightarrow> string \<Rightarrow> nat option" where
  "offsetof [] f = None"
| "offsetof ((g, n) # fs) f = (if g = f then Some 0 else map_option ((+) n) (offsetof fs f))"

definition IS_REQUEST_STRUCT_VALID :: bool where
  "IS_REQUEST_STRUCT_VALID \<longleftrightarrow>
     (\<forall>l \<in> set [layout_g, layout_s, layout_d, layout_c, layout_l, layout_n].
        sizeof_layout l = 16 \<and> sizeof_field l ''cik'' = Some 3 \<and> sizeof_field l ''op'' = Some 1
        \<and> offsetof l ''cik'' = Some 0 \<and> offsetof l ''op'' = Some 3)
     \<and> sizeof_field layout_g ''klen'' = Some 1 \<and> sizeof_field layout_g ''flags'' = Some 1
     \<and> sizeof_field layout_g ''_padding'' = Some 10
     \<and> sizeof_field layout_s ''klen'' = Some 1 \<and> sizeof_field layout_s ''ntags'' = Some 1
     \<and> sizeof_field layout_s ''flags'' = Some 1 \<and> sizeof_field layout_s ''vlen'' = Some 4
     \<and> sizeof_field layout_s ''_padding'' = Some 1
     \<and> sizeof_field layout_d ''klen'' = Some 1 \<and> sizeof_field layout_d ''_padding'' = Some 11
     \<and> sizeof_field layout_c ''mode'' = Some 1 \<and> sizeof_field layout_c ''ntags'' = Some 1
     \<and> sizeof_field layout_c ''_padding'' = Some 10
     \<and> sizeof_field layout_l ''mode'' = Some 1 \<and> sizeof_field layout_l ''ntags'' = Some 1
     \<and> sizeof_field layout_l ''_padding'' = Some 10
     \<and> sizeof_field layout_n ''klen'' = Some 1 \<and> sizeof_field layout_n ''_padding'' = Some 11
     \<and> offsetof layout_g ''klen'' = Some 4 \<and> offsetof layout_g ''flags'' = Some 5
     \<and> offsetof layout_g ''_padding'' = Some 6
     \<and> offsetof layout_s ''klen'' = Some 4 \<and> offsetof layout_s ''ntags'' = Some 5
     \<and> offsetof layout_s ''flags'' = Some 6 \<and> offsetof layout_s ''_padding'' = Some 7
     \<and> offsetof layout_s ''vlen'' = Some 8
     \<and> offsetof layout_d ''klen'' = Some 4 \<and> offsetof layout_d ''_padding'' = Some 5
     \<and> offsetof layout_c ''mode'' = Some 4 \<and> offsetof layout_c ''ntags'' = Some 5
     \<and> offsetof layout_c ''_padding'' = Some 6
     \<and> offsetof layout_l ''mode'' = Some 4 \<and> offsetof layout_l ''ntags'' = Some 5
     \<and> offsetof layout_l ''_padding'' = Some 6
     \<and> offsetof layout_n ''klen'' = Some 4 \<and> offsetof layout_n ''_padding'' = Some 5"

section \<open>The response\<close>

text \<open>Both members of its union are four bytes in the same place.\<close>

definition layout_response :: layout where
  "layout_response = [(''cik'', 3), (''status'', 1), (''payload_size'', 4)]"
definition layout_error_response :: layout where
  "layout_error_response = [(''cik'', 3), (''status'', 1), (''error_code'', 4)]"

definition IS_RESPONSE_STRUCT_VALID :: bool where
  "IS_RESPONSE_STRUCT_VALID \<longleftrightarrow>
     (\<forall>l \<in> set [layout_response, layout_error_response].
        sizeof_layout l = 8 \<and> sizeof_field l ''cik'' = Some 3 \<and> sizeof_field l ''status'' = Some 1
        \<and> offsetof l ''cik'' = Some 0 \<and> offsetof l ''status'' = Some 3)
     \<and> sizeof_field layout_response ''payload_size'' = Some 4 \<and> sizeof_field layout_error_response ''error_code'' = Some 4
     \<and> offsetof layout_response ''payload_size'' = Some 4 \<and> offsetof layout_error_response ''error_code'' = Some 4"

type_synonym Response = "u8 list"

definition MAKE_SUCCESS_RESPONSE :: "u32 \<Rightarrow> Response" where
  "MAKE_SUCCESS_RESPONSE payload_size =
     [CONTROL_BYTE_1, CONTROL_BYTE_2, CONTROL_BYTE_3, SUCCESS_BYTE] @ u32_bytes (htonl payload_size)"

definition MAKE_FAILURE_RESPONSE :: "StatusCode \<Rightarrow> Response" where
  "MAKE_FAILURE_RESPONSE err =
     [CONTROL_BYTE_1, CONTROL_BYTE_2, CONTROL_BYTE_3, FAILURE_BYTE] @ u32_bytes (htonl (status_code err))"

text \<open>How a peer reads those 8 bytes: the tag byte, then the number in network order.\<close>

definition parse_response :: "u8 list \<Rightarrow> (bool \<times> u32) option" where
  "parse_response bs =
     (if length bs = 8 \<and> take 3 bs = [CONTROL_BYTE_1, CONTROL_BYTE_2, CONTROL_BYTE_3] then
        if bs ! 3 = SUCCESS_BYTE then Some (True, ntohl (bytes_u32 (drop 4 bs)))
        else if bs ! 3 = FAILURE_BYTE then Some (False, ntohl (bytes_u32 (drop 4 bs)))
        else None
      else None)"

lemma length_MAKE_SUCCESS_RESPONSE [simp]: "length (MAKE_SUCCESS_RESPONSE n) = 8"
  by (simp add: MAKE_SUCCESS_RESPONSE_def)

lemma length_MAKE_FAILURE_RESPONSE [simp]: "length (MAKE_FAILURE_RESPONSE e) = 8"
  by (simp add: MAKE_FAILURE_RESPONSE_def)

lemma parse_success: "parse_response (MAKE_SUCCESS_RESPONSE n) = Some (True, n)"
  by (simp add: parse_response_def MAKE_SUCCESS_RESPONSE_def ntohl_be32)

lemma parse_failure: "parse_response (MAKE_FAILURE_RESPONSE e) = Some (False, status_code e)"
  by (simp add: parse_response_def MAKE_FAILURE_RESPONSE_def ntohl_be32 SUCCESS_BYTE_def
      FAILURE_BYTE_def)

end
