(* ===== verification/Cik_Util.thy ===== *)
theory Cik_Util
  imports Cik_Types
begin

text \<open>
  \<open>src/src/util.h\<close> and \<open>src/src/util.c\<close>: the in-place byte reversal every key and tag goes
  through on its way in and out, and the printable copies of keys and tags used by the logger.
\<close>

section \<open>reverse\_bytes\<close>

text \<open>
  The pointers \<open>i\<close> and \<open>j\<close> are offsets into the object \<open>base\<close> points into, whose
  size is \<open>cap\<close>. The three assignments swap two bytes by exclusive or; a \<open>j\<close> outside the
  object is undefined.
\<close>

definition xor_swap :: "buffer \<Rightarrow> nat \<Rightarrow> nat \<Rightarrow> buffer" where
  "xor_swap buf i j =
     (let b1 = buf(i := buf i XOR buf j);
          b2 = b1(j := b1 j XOR b1 i);
          b3 = b2(i := b2 i XOR b2 j)
      in b3)"

function reverse_loop :: "nat \<Rightarrow> buffer \<Rightarrow> nat \<Rightarrow> nat \<Rightarrow> buffer option" where
  "reverse_loop cap buf i j =
     (if i < j then
        if j < cap then reverse_loop cap (xor_swap buf i j) (i + 1) (j - 1) else None
      else Some buf)"
  by pat_completeness auto
termination
  by (relation "measure (\<lambda>(cap, buf, i, j). j - i)") auto

declare reverse_loop.simps [simp del]

text \<open>\<open>base + (nmemb - 1)\<close>: the subtraction is on \<open>u32\<close>, so it wraps for \<open>nmemb = 0\<close>.\<close>

definition reverse_bytes :: "nat \<Rightarrow> buffer \<Rightarrow> nat \<Rightarrow> u32 \<Rightarrow> buffer option" where
  "reverse_bytes cap buf base nmemb = reverse_loop cap buf base (base + unat (nmemb - 1))"

lemma xor_swap_eq:
  assumes "i \<noteq> j"
  shows "xor_swap buf i j = buf(i := buf j, j := buf i)"
proof -
  have "a XOR b XOR (b XOR (a XOR b)) = b" and "b XOR (a XOR b) = a" for a b :: u8
    by (auto intro!: bit_word_eqI simp: bit_simps)
  then show ?thesis
    using assms by (auto simp: xor_swap_def Let_def fun_eq_iff)
qed

lemma reverse_loop_eq:
  assumes "j < cap"
  shows "reverse_loop cap buf i j =
    Some (\<lambda>k. if i \<le> k \<and> k \<le> j then buf (i + j - k) else buf k)"
  using assms
proof (induction cap buf i j rule: reverse_loop.induct)
  case (1 cap buf i j)
  show ?case
  proof (cases "i < j")
    case True
    have "reverse_loop cap buf i j = reverse_loop cap (xor_swap buf i j) (i + 1) (j - 1)"
      using True "1.prems" by (subst reverse_loop.simps) simp
    also have "\<dots> = Some (\<lambda>k. if i + 1 \<le> k \<and> k \<le> j - 1
        then xor_swap buf i j (i + 1 + (j - 1) - k) else xor_swap buf i j k)"
      using True "1.prems" by (intro "1.IH") auto
    also have "\<dots> = Some (\<lambda>k. if i \<le> k \<and> k \<le> j then buf (i + j - k) else buf k)"
      using True by (auto simp: xor_swap_eq fun_eq_iff)
    finally show ?thesis .
  next
    case False
    then show ?thesis
      by (subst reverse_loop.simps) (auto simp: fun_eq_iff intro!: arg_cong [where f = buf])
  qed
qed

lemma unat_pred_u32: "0 < n \<Longrightarrow> unat ((n :: u32) - 1) = unat n - 1"
  by (metis unat_minus_one word_gt_0)

lemma reverse_bytes_eq:
  assumes "0 < nmemb" and "base + unat nmemb \<le> cap"
  shows "reverse_bytes cap buf base nmemb =
    Some (store_bytes buf base (rev (load_bytes buf base (unat nmemb))))"
proof -
  have n: "0 < unat nmemb"
    using assms(1) by (simp add: word_gt_0 unat_gt_0)
  then show ?thesis
    using assms(2)
    by (auto simp: reverse_bytes_def unat_pred_u32 [OF assms(1)] reverse_loop_eq store_bytes_def
        rev_nth fun_eq_iff intro!: arg_cong [where f = buf])
qed

text \<open>
  With \<open>nmemb = 0\<close> the last-byte pointer is \<open>4 GiB - 1\<close> past the base, and the first swap
  already reads outside any object of less than 4 GiB.
\<close>

lemma reverse_bytes_zero:
  assumes "cap < 2 ^ 32"
  shows "reverse_bytes cap buf base 0 = None"
proof -
  have "unat (0 - 1 :: u32) = 2 ^ 32 - 1"
    by (simp add: unsigned_minus_1_eq_mask mask_eq_exp_minus_1)
  then show ?thesis
    using assms by (simp add: reverse_bytes_def reverse_loop.simps)
qed

section \<open>Printable copies\<close>

text \<open>
  \<open>key2str\<close> and \<open>tag2str\<close> copy the stored (reversed) bytes back to front into a
  256-byte thread-local buffer and terminate them: the loop counter is a \<open>u8\<close>, and
  \<open>buffer[nmemb] = 0\<close> needs \<open>nmemb < 256\<close>. Both have the same body.
\<close>

fun copy_back :: "buffer \<Rightarrow> u8 list \<Rightarrow> nat \<Rightarrow> nat \<Rightarrow> buffer" where
  "copy_back buf base i 0 = buf"
| "copy_back buf base i (Suc n) =
     copy_back (buf(i := base ! ((length base - 1) - i))) base (i + 1) n"

definition key2str :: "buffer \<Rightarrow> u8 list \<Rightarrow> buffer option" where
  "key2str buf key =
     (if length key < 0x100 then Some (copy_back (buf(length key := 0)) key 0 (length key)) else None)"

definition tag2str :: "buffer \<Rightarrow> u8 list \<Rightarrow> buffer option" where
  "tag2str buf tag =
     (if length tag < 0x100 then Some (copy_back (buf(length tag := 0)) tag 0 (length tag)) else None)"

text \<open>What \<open>%s\<close> prints of the buffer \<open>key2str\<close> or \<open>tag2str\<close> returns: the bytes
  back in the client's order, up to the first zero.\<close>

definition printed :: "u8 list \<Rightarrow> u8 list" where
  "printed bs = takeWhile (\<lambda>b. b \<noteq> 0) (rev bs)"

lemma copy_back_eq:
  "i + n = length base \<Longrightarrow>
   copy_back buf base i n = (\<lambda>k. if i \<le> k \<and> k < i + n then rev base ! k else buf k)"
proof (induction buf base i n rule: copy_back.induct)
  case (1 buf base i)
  then show ?case by (auto simp: fun_eq_iff)
next
  case (2 buf base i n)
  have "copy_back buf base i (Suc n) =
      (\<lambda>k. if i + 1 \<le> k \<and> k < i + 1 + n then rev base ! k
           else (buf(i := base ! ((length base - 1) - i))) k)"
    using "2.IH" "2.prems" by (simp del: fun_upd_apply)
  then show ?case
    using "2.prems" by (auto simp: fun_eq_iff rev_nth)
qed

lemma copy_back_string:
  "load_bytes (copy_back (buf(length key := 0)) key 0 (length key)) 0 (length key + 1) = rev key @ [0]"
  by (rule nth_equalityI) (auto simp: copy_back_eq nth_append less_Suc_eq)

end
