(* ===== verification/Cik_Memory.thy ===== *)
theory Cik_Memory
  imports Cik_Util
begin

text \<open>
  \<open>src/src/memory.c\<close>: one region of \<open>MAX_TOTAL_MEMORY\<close> bytes, a cursor that only grows,
  and sixteen partitions of power-of-two buckets with a free list each.

  A bucket is a 24-byte header, padded to 32 bytes, in front of its data. The header holds the data
  pointer (always 32 bytes further), the partition, and the link of the free list. The model keeps the
  partition of every bucket ever cut from the region in \<open>buckets\<close> (indexed by the header's
  address) and a free list as the list of the headers linked through \<open>next\<close>; \<open>free_mark\<close>
  is the least significant bit of the list's head pointer, the spin bit of \<open>MARK_POINTER\<close>.
  Addresses are natural numbers: the 64-bit cursor cannot wrap, since it grows by at most 8 MiB and
  a header per call.
\<close>

section \<open>State\<close>

record Partition =
  p_size :: u32
  free_buckets :: "addr list"
  free_mark :: bool
  num_used :: u32
  num_free :: u32
  num_reused :: u32

record memory =
  main_memory :: addr
  memory_cursor :: addr
  partitions :: "Partition list"   \<comment> \<open>in list order: smallest size first\<close>
  buckets :: "addr \<rightharpoonup> nat"
  total_system_size :: nat

definition PADDING :: "nat \<Rightarrow> nat" where
  "PADDING s = (alignof_max_align_t - s mod alignof_max_align_t) mod alignof_max_align_t"

definition PADDED :: "nat \<Rightarrow> nat" where
  "PADDED s = s + PADDING s"

definition sizeof_Partition :: nat where "sizeof_Partition = 40"
definition sizeof_Bucket :: nat where "sizeof_Bucket = 24"

definition TPADDED_Bucket :: nat where
  "TPADDED_Bucket = PADDED sizeof_Bucket"

lemma TPADDED_Bucket_eq [simp]: "TPADDED_Bucket = 32"
  by (simp add: TPADDED_Bucket_def PADDED_def PADDING_def alignof_max_align_t_def sizeof_Bucket_def)

lemma PADDED_mult_16: "s mod 16 = 0 \<Longrightarrow> PADDED s = s"
  by (simp add: PADDED_def PADDING_def alignof_max_align_t_def)

section \<open>Operations\<close>

definition push_memory :: "memory \<Rightarrow> nat \<Rightarrow> addr option \<times> memory" where
  "push_memory m n =
     (let ptr = memory_cursor m;
          m' = m\<lparr>memory_cursor := ptr + n\<rparr>
      in if ptr + n > main_memory m + MAX_TOTAL_MEMORY then (None, m') else (Some ptr, m'))"

fun find_partition :: "Partition list \<Rightarrow> u32 \<Rightarrow> nat option" where
  "find_partition [] n = None"
| "find_partition (p # ps) n = (if n \<le> p_size p then Some 0 else map_option Suc (find_partition ps n))"

definition upd_partition :: "nat \<Rightarrow> (Partition \<Rightarrow> Partition) \<Rightarrow> memory \<Rightarrow> memory" where
  "upd_partition i f m = m\<lparr>partitions := (partitions m)[i := f (partitions m ! i)]\<rparr>"

text \<open>The part of \<open>reserve_memory\<close> under \<open>MARK_POINTER\<close>: who finds the bit set has lost the
  race and gets no bucket from the list; writing the next pointer clears the bit.\<close>

definition pop_free :: "Partition \<Rightarrow> addr option \<times> Partition" where
  "pop_free p =
     (if free_mark p then (None, p)
      else case free_buckets p of
        [] \<Rightarrow> (None, p\<lparr>free_mark := False\<rparr>)
      | b # bs \<Rightarrow> (Some b, p\<lparr>free_buckets := bs, free_mark := False,
                            num_free := num_free p - 1, num_reused := num_reused p + 1\<rparr>))"

definition reserve_memory :: "memory \<Rightarrow> u32 \<Rightarrow> addr option \<times> memory" where
  "reserve_memory m n =
     (case find_partition (partitions m) n of
        None \<Rightarrow> (None, m)
      | Some i \<Rightarrow>
          let (bucket, p) = pop_free (partitions m ! i);
              m1 = upd_partition i (\<lambda>_. p) m
          in case bucket of
               Some b \<Rightarrow>
                 (Some (b + TPADDED_Bucket), upd_partition i (num_used_update (\<lambda>u. u + 1)) m1)
             | None \<Rightarrow>
                 (case push_memory m1 (TPADDED_Bucket + PADDED (unat (p_size p))) of
                    (None, m2) \<Rightarrow> (None, m2)
                  | (Some b, m2) \<Rightarrow>
                      (Some (b + TPADDED_Bucket),
                       upd_partition i (num_used_update (\<lambda>u. u + 1))
                         (m2\<lparr>buckets := (buckets m2)(b \<mapsto> i)\<rparr>))))"

text \<open>
  Releasing pushes the bucket on its partition's free list. \<open>None\<close>: the pointer is not the data
  pointer of a bucket, or the compare-and-swap loop spins because the list stays marked.
\<close>

definition release_memory :: "memory \<Rightarrow> addr \<Rightarrow> memory option" where
  "release_memory m a =
     (if a < TPADDED_Bucket then None
      else let b = a - TPADDED_Bucket
           in case buckets m b of
                None \<Rightarrow> None
              | Some i \<Rightarrow>
                  if free_mark (partitions m ! i) then None
                  else Some (upd_partition i
                         (\<lambda>p. p\<lparr>free_buckets := b # free_buckets p,
                                num_free := num_free p + 1, num_used := num_used p - 1\<rparr>) m))"

section \<open>Initialisation\<close>

function count_sizes :: "nat \<Rightarrow> nat" where
  "count_sizes n = (if 0 < n \<and> n \<le> MAX_BUCKET_SIZE then 1 + count_sizes (2 * n) else 0)"
  by pat_completeness auto
termination
  by (relation "measure (\<lambda>n. Suc MAX_BUCKET_SIZE - n)") auto

declare count_sizes.simps [simp del]

definition total_partition_size :: nat where
  "total_partition_size =
     (let t = count_sizes MIN_BUCKET_SIZE * sizeof_Partition in t + PADDING t)"

definition total_hash_map_array_size :: nat where
  "total_hash_map_array_size =
     (let t = NUM_CACHE_ENTRY_MAPS * sizeof_pointer in t + PADDING t)"

definition total_hash_maps_size :: nat where
  "total_hash_maps_size = NUM_CACHE_ENTRY_MAPS * PADDED sizeof_CacheEntryHashMap"

definition system_size :: nat where
  "system_size = total_partition_size + total_hash_map_array_size + total_hash_maps_size"

definition new_partition :: "nat \<Rightarrow> Partition" where
  "new_partition n = \<lparr>p_size = of_nat n, free_buckets = [], free_mark = False,
     num_used = 0, num_free = 0, num_reused = 0\<rparr>"

text \<open>\<open>for (size = MAX; size >= MIN; size >>= 1)\<close>: writing through a \<open>NULL\<close> partition
  would fault.\<close>

function push_partitions :: "memory \<Rightarrow> nat \<Rightarrow> memory option" where
  "push_partitions m n =
     (if MIN_BUCKET_SIZE \<le> n then
        case push_memory m sizeof_Partition of
          (None, _) \<Rightarrow> None
        | (Some _, m') \<Rightarrow> push_partitions (m'\<lparr>partitions := new_partition n # partitions m'\<rparr>) (n div 2)
      else Some m)"
  by pat_completeness auto
termination
  by (relation "measure snd") (auto simp: MIN_BUCKET_SIZE_def)

declare push_partitions.simps [simp del]

text \<open>The hash maps; the assertion after each push is a real \<open>assert\<close>.\<close>

fun push_maps :: "memory \<Rightarrow> nat \<Rightarrow> (addr option list \<times> memory) option" where
  "push_maps m 0 = Some ([], m)"
| "push_maps m (Suc k) =
     (case push_memory m (PADDED sizeof_CacheEntryHashMap) of
        (a, m') \<Rightarrow>
          if memory_cursor m' mod alignof_max_align_t \<noteq> 0 then None
          else do { (as, m'') \<leftarrow> push_maps m' k; Some (a # as, m'') })"

text \<open>
  \<open>init_memory\<close>. The results of \<open>mmap\<close> (\<open>None\<close> for \<open>MAP_FAILED\<close>),
  \<open>mprotect\<close> and \<open>errno\<close> are arguments. The value is the returned \<open>int\<close> with the state;
  \<open>None\<close> is a failed assertion or a fault.
\<close>

definition init_memory ::
    "addr option \<Rightarrow> bool \<Rightarrow> int \<Rightarrow> (int \<times> (addr option list \<times> memory) option) option" where
  "init_memory mmap_result mprotect_ok errno =
     (case mmap_result of
        None \<Rightarrow> Some (errno, None)
      | Some base \<Rightarrow>
          if \<not> mprotect_ok then Some (errno, None)
          else
            if base mod alignof_max_align_t \<noteq> 0 then None
            else do {
              m1 \<leftarrow> push_partitions
                \<lparr>main_memory = base, memory_cursor = base, partitions = [], buckets = Map.empty,
                  total_system_size = system_size\<rparr> MAX_BUCKET_SIZE;
              let (_, m2) = push_memory m1 (PADDING total_partition_size);
              let (_, m3) = push_memory m2 total_hash_map_array_size;
              (maps, m4) \<leftarrow> push_maps m3 NUM_CACHE_ENTRY_MAPS;
              if memory_cursor m4 - base \<noteq> system_size then None
              else Some (0, Some (maps, m4))
            })"

section \<open>Clients of the allocator in the same file\<close>

record Payload =
  payload_base :: "addr option"
  payload_data :: buffer
  payload_nmemb :: u32
  payload_cap :: u32

definition reserve_biggest_possible_payload :: "memory \<Rightarrow> Payload \<Rightarrow> bool \<times> Payload \<times> memory" where
  "reserve_biggest_possible_payload m pl =
     (case reserve_memory m (of_nat MAX_BUCKET_SIZE) of
        (Some a, m') \<Rightarrow>
          (True, pl\<lparr>payload_base := Some a, payload_nmemb := 0, payload_cap := of_nat MAX_BUCKET_SIZE\<rparr>, m')
      | (None, m') \<Rightarrow> (False, pl\<lparr>payload_base := None\<rparr>, m'))"

text \<open>The region is gone, unless \<open>munmap\<close> fails, which is only printed.\<close>

definition release_all_memory :: "int \<Rightarrow> memory \<Rightarrow> memory option" where
  "release_all_memory munmap_result m = (if munmap_result \<noteq> 0 then Some m else None)"

record NFOServer =
  bytes_reserved :: u32
  bytes_used :: u32
  bytes_free :: u32
  bytes_reused :: u32

fun nfo_loop :: "Partition list \<Rightarrow> NFOServer \<Rightarrow> NFOServer" where
  "nfo_loop [] nfo = nfo"
| "nfo_loop (p # ps) nfo =
     nfo_loop ps (nfo\<lparr>bytes_used := bytes_used nfo + p_size p * num_used p,
                      bytes_free := bytes_free nfo + p_size p * num_free p,
                      bytes_reused := bytes_reused nfo + p_size p * num_reused p\<rparr>)"

definition populate_nfo_response :: "memory \<Rightarrow> NFOServer" where
  "populate_nfo_response m =
     nfo_loop (partitions m)
       \<lparr>bytes_reserved = of_nat (MAX_TOTAL_MEMORY - total_system_size m),
         bytes_used = 0, bytes_free = 0, bytes_reused = 0\<rparr>"

text \<open>\<open>write_memory_stats\<close>: the numbers of the printed lines. The difference of two
  pointers is narrowed to \<open>u32\<close>.\<close>

definition memory_used :: "memory \<Rightarrow> u32" where
  "memory_used m = of_nat (memory_cursor m - main_memory m)"

definition memory_left :: "memory \<Rightarrow> u32" where
  "memory_left m =
     (if of_nat MAX_TOTAL_MEMORY > memory_used m then of_nat MAX_TOTAL_MEMORY - memory_used m else 0)"

definition write_memory_stats :: "memory \<Rightarrow> (u32 \<times> u32 \<times> u32 \<times> u32 \<times> u32) list" where
  "write_memory_stats m =
     map (\<lambda>p. (p_size p, num_used p, num_free p, num_reused p, memory_left m div p_size p)) (partitions m)"

end
