(* ===== verification/Cik_Allocator.thy ===== *)
theory Cik_Allocator
  imports Cik_Memory
begin

text \<open>
  What \<open>src/src/memory.c\<close> promises its callers. \<open>mem_inv\<close> is the allocator's invariant:
  sixteen classes of 256 to 8388608 bytes, buckets inside the region and pairwise disjoint, free lists
  without repetition that only hold buckets of their own class, and counters that count. \<open>live\<close>
  is the set of data pointers handed out and not released. The laws are collected in the locale
  \<open>allocator\<close>, which the components that reserve memory use.
\<close>

section \<open>Invariant\<close>

definition class_size :: "nat \<Rightarrow> nat" where
  "class_size i = MIN_BUCKET_SIZE * 2 ^ i"

definition NUM_CLASSES :: nat where "NUM_CLASSES = 16"

definition used_in :: "memory \<Rightarrow> nat \<Rightarrow> addr set" where
  "used_in m i = {b. buckets m b = Some i} - set (free_buckets (partitions m ! i))"

definition live :: "memory \<Rightarrow> addr set" where
  "live m = {b + TPADDED_Bucket | b i. buckets m b = Some i \<and> b \<in> used_in m i}"

definition block_size :: "memory \<Rightarrow> addr \<Rightarrow> nat" where
  "block_size m a = (case buckets m (a - TPADDED_Bucket) of None \<Rightarrow> 0 | Some i \<Rightarrow> class_size i)"

definition wf_classes :: "memory \<Rightarrow> bool" where
  "wf_classes m \<longleftrightarrow> length (partitions m) = NUM_CLASSES \<and>
     (\<forall>i < NUM_CLASSES. unat (p_size (partitions m ! i)) = class_size i \<and> \<not> free_mark (partitions m ! i))"

definition wf_layout :: "memory \<Rightarrow> bool" where
  "wf_layout m \<longleftrightarrow>
     finite (dom (buckets m)) \<and> main_memory m + total_system_size m \<le> memory_cursor m \<and>
     (\<forall>b i. buckets m b = Some i \<longrightarrow> i < NUM_CLASSES \<and> main_memory m + total_system_size m \<le> b \<and>
        b + TPADDED_Bucket + class_size i \<le> memory_cursor m \<and>
        b + TPADDED_Bucket + class_size i \<le> main_memory m + MAX_TOTAL_MEMORY) \<and>
     (\<forall>b i b' i'. buckets m b = Some i \<longrightarrow> buckets m b' = Some i' \<longrightarrow> b < b' \<longrightarrow>
        b + TPADDED_Bucket + class_size i \<le> b')"

definition wf_lists :: "memory \<Rightarrow> bool" where
  "wf_lists m \<longleftrightarrow> (\<forall>i < NUM_CLASSES.
     distinct (free_buckets (partitions m ! i)) \<and>
     (\<forall>b \<in> set (free_buckets (partitions m ! i)). buckets m b = Some i))"

definition wf_counts :: "memory \<Rightarrow> bool" where
  "wf_counts m \<longleftrightarrow> (\<forall>i < NUM_CLASSES.
     num_free (partitions m ! i) = of_nat (length (free_buckets (partitions m ! i))) \<and>
     num_used (partitions m ! i) = of_nat (card (used_in m i)))"

definition mem_inv :: "memory \<Rightarrow> bool" where
  "mem_inv m \<longleftrightarrow> wf_classes m \<and> wf_layout m \<and> wf_lists m \<and> wf_counts m"

lemma class_size_bounds: "i < NUM_CLASSES \<Longrightarrow> 256 \<le> class_size i \<and> class_size i \<le> MAX_BUCKET_SIZE"
  unfolding class_size_def NUM_CLASSES_def MIN_BUCKET_SIZE_def MAX_BUCKET_SIZE_def
proof -
  assume "i < 16"
  then have "(2::nat) ^ i \<le> 2 ^ 15" by (intro power_increasing) auto
  then show "256 \<le> 0x100 * (2::nat) ^ i \<and> 0x100 * (2::nat) ^ i \<le> 0x800000" by simp
qed

lemma class_size_padded: "PADDED (class_size i) = class_size i"
  by (rule PADDED_mult_16) (simp add: class_size_def MIN_BUCKET_SIZE_def mod_mult_left_eq)

section \<open>Choice of the partition\<close>

lemma find_partition_Some:
  "find_partition ps n = Some i \<Longrightarrow>
   i < length ps \<and> n \<le> p_size (ps ! i) \<and> (\<forall>j < i. p_size (ps ! j) < n)"
proof (induction ps n arbitrary: i rule: find_partition.induct)
  case (2 p ps n)
  then show ?case
    by (auto split: if_splits simp: less_Suc_eq_0_disj)
qed simp

lemma find_partition_None:
  "find_partition ps n = None \<Longrightarrow> \<forall>p \<in> set ps. p_size p < n"
  by (induction ps n rule: find_partition.induct) (auto split: if_splits)

lemma length_upd_partition [simp]:
  "length (partitions (upd_partition i f m)) = length (partitions m)"
  by (simp add: upd_partition_def)

lemma upd_partition_fields [simp]:
  "memory_cursor (upd_partition i f m) = memory_cursor m"
  "main_memory (upd_partition i f m) = main_memory m"
  "buckets (upd_partition i f m) = buckets m"
  "total_system_size (upd_partition i f m) = total_system_size m"
  by (simp_all add: upd_partition_def)

lemma nth_upd_partition:
  "i < length (partitions m) \<Longrightarrow>
   partitions (upd_partition i f m) ! j = (if j = i then f (partitions m ! i) else partitions m ! j)"
  by (simp add: upd_partition_def nth_list_update)

lemma push_memory_cases:
  obtains (fail) "push_memory m n = (None, m\<lparr>memory_cursor := memory_cursor m + n\<rparr>)"
      "memory_cursor m + n > main_memory m + MAX_TOTAL_MEMORY"
  | (ok) "push_memory m n = (Some (memory_cursor m), m\<lparr>memory_cursor := memory_cursor m + n\<rparr>)"
      "memory_cursor m + n \<le> main_memory m + MAX_TOTAL_MEMORY"
  by (cases "memory_cursor m + n > main_memory m + MAX_TOTAL_MEMORY")
    (auto simp: push_memory_def Let_def not_less)

text \<open>The four outcomes of a reservation in a well-formed memory.\<close>

lemma reserve_memory_cases:
  assumes wf: "mem_inv m"
  obtains (too_big) "reserve_memory m n = (None, m)" "find_partition (partitions m) n = None"
  | (reuse) i b bs where "find_partition (partitions m) n = Some i" "i < NUM_CLASSES"
      "free_buckets (partitions m ! i) = b # bs"
      "reserve_memory m n = (Some (b + TPADDED_Bucket),
         upd_partition i (\<lambda>p. p\<lparr>free_buckets := bs, num_used := num_used p + 1,
           num_free := num_free p - 1, num_reused := num_reused p + 1\<rparr>) m)"
  | (full) i where "find_partition (partitions m) n = Some i" "i < NUM_CLASSES"
      "free_buckets (partitions m ! i) = []"
      "memory_cursor m + TPADDED_Bucket + class_size i > main_memory m + MAX_TOTAL_MEMORY"
      "reserve_memory m n = (None,
         m\<lparr>memory_cursor := memory_cursor m + TPADDED_Bucket + class_size i\<rparr>)"
  | (fresh) i where "find_partition (partitions m) n = Some i" "i < NUM_CLASSES"
      "free_buckets (partitions m ! i) = []"
      "memory_cursor m + TPADDED_Bucket + class_size i \<le> main_memory m + MAX_TOTAL_MEMORY"
      "reserve_memory m n = (Some (memory_cursor m + TPADDED_Bucket),
         upd_partition i (num_used_update (\<lambda>u. u + 1))
           (m\<lparr>memory_cursor := memory_cursor m + TPADDED_Bucket + class_size i,
              buckets := (buckets m)(memory_cursor m \<mapsto> i)\<rparr>))"
proof (cases "find_partition (partitions m) n")
  case None
  then have "reserve_memory m n = (None, m)" by (simp add: reserve_memory_def)
  with None show ?thesis by (rule too_big[rotated])
next
  case (Some i)
  let ?p = "partitions m ! i"
  have i: "i < length (partitions m)" using find_partition_Some [OF Some] by simp
  then have i16: "i < NUM_CLASSES" and unmarked: "\<not> free_mark ?p"
    and psize: "unat (p_size ?p) = class_size i"
    using wf by (auto simp: mem_inv_def wf_classes_def)
  show ?thesis
  proof (cases "free_buckets ?p")
    case (Cons b bs)
    then have "reserve_memory m n = (Some (b + TPADDED_Bucket),
         upd_partition i (\<lambda>p. p\<lparr>free_buckets := bs, num_used := num_used p + 1,
           num_free := num_free p - 1, num_reused := num_reused p + 1\<rparr>) m)"
      using Some unmarked i
      by (cases "partitions m ! i") (simp add: reserve_memory_def pop_free_def upd_partition_def)
    with Some i16 Cons show ?thesis by (intro reuse)
  next
    case Nil
    have "?p\<lparr>free_mark := False\<rparr> = ?p"
      using unmarked by (cases ?p) simp
    then have same: "upd_partition i (\<lambda>_. ?p\<lparr>free_mark := False\<rparr>) m = m"
      by (simp add: upd_partition_def)
    have pop: "pop_free ?p = (None, ?p\<lparr>free_mark := False\<rparr>)"
      using Nil unmarked by (simp add: pop_free_def)
    show ?thesis
    proof (cases rule: push_memory_cases [of m "TPADDED_Bucket + class_size i"])
      case fail
      then have "reserve_memory m n = (None,
         m\<lparr>memory_cursor := memory_cursor m + TPADDED_Bucket + class_size i\<rparr>)"
        using Some by (simp add: reserve_memory_def pop same psize class_size_padded add.assoc)
      with Some i16 Nil fail show ?thesis by (intro full) auto
    next
      case ok
      then have "reserve_memory m n = (Some (memory_cursor m + TPADDED_Bucket),
         upd_partition i (num_used_update (\<lambda>u. u + 1))
           (m\<lparr>memory_cursor := memory_cursor m + TPADDED_Bucket + class_size i,
              buckets := (buckets m)(memory_cursor m \<mapsto> i)\<rparr>))"
        using Some by (simp add: reserve_memory_def pop same psize class_size_padded add.assoc)
      with Some i16 Nil ok show ?thesis by (intro fresh) auto
    qed
  qed
qed

section \<open>Preservation\<close>

lemma used_in_upd_partition:
  assumes "i < length (partitions m)"
  shows "used_in (upd_partition i f m) j =
    (if j = i then {b. buckets m b = Some i} - set (free_buckets (f (partitions m ! i)))
     else used_in m j)"
  using assms by (simp add: used_in_def nth_upd_partition)

lemma mem_invD:
  assumes "mem_inv m" and "i < NUM_CLASSES"
  shows "i < length (partitions m)" "\<not> free_mark (partitions m ! i)"
    "unat (p_size (partitions m ! i)) = class_size i"
    "distinct (free_buckets (partitions m ! i))"
    "b \<in> set (free_buckets (partitions m ! i)) \<Longrightarrow> buckets m b = Some i"
    "num_free (partitions m ! i) = of_nat (length (free_buckets (partitions m ! i)))"
    "num_used (partitions m ! i) = of_nat (card (used_in m i))"
  using assms by (simp_all add: mem_inv_def wf_classes_def wf_lists_def wf_counts_def)

lemma mem_inv_finite:
  assumes "mem_inv m"
  shows "finite (used_in m i)"
proof (rule finite_subset)
  show "used_in m i \<subseteq> dom (buckets m)" by (auto simp: used_in_def)
  show "finite (dom (buckets m))" using assms by (simp add: mem_inv_def wf_layout_def)
qed

lemma used_in_cursor [simp]: "used_in (m\<lparr>memory_cursor := c\<rparr>) i = used_in m i"
  by (simp add: used_in_def)

lemma wf_cursor [simp]:
  "wf_classes (m\<lparr>memory_cursor := c\<rparr>) = wf_classes m"
  "wf_lists (m\<lparr>memory_cursor := c\<rparr>) = wf_lists m"
  "wf_counts (m\<lparr>memory_cursor := c\<rparr>) = wf_counts m"
  by (simp_all add: wf_classes_def wf_lists_def wf_counts_def)

lemma wf_layout_cursor:
  "wf_layout m \<Longrightarrow> memory_cursor m \<le> c \<Longrightarrow> wf_layout (m\<lparr>memory_cursor := c\<rparr>)"
  by (auto simp: wf_layout_def dest: order_trans)

lemma mem_inv_cursor:
  "mem_inv m \<Longrightarrow> memory_cursor m \<le> c \<Longrightarrow> mem_inv (m\<lparr>memory_cursor := c\<rparr>)"
  by (simp add: mem_inv_def wf_layout_cursor)

lemma live_cursor [simp]: "live (m\<lparr>memory_cursor := c\<rparr>) = live m"
  by (simp add: live_def used_in_def)

lemma block_size_cursor [simp]: "block_size (m\<lparr>memory_cursor := c\<rparr>) a = block_size m a"
  by (simp add: block_size_def)

lemma block_size_upd_partition [simp]: "block_size (upd_partition i f m) a = block_size m a"
  by (simp add: block_size_def)

lemma wf_layout_upd_partition [simp]: "wf_layout (upd_partition i f m) = wf_layout m"
  by (simp add: wf_layout_def)

lemma mem_inv_reuse:
  assumes inv: "mem_inv m" and i: "i < NUM_CLASSES" and l: "free_buckets (partitions m ! i) = b # bs"
  defines "m' \<equiv> upd_partition i (\<lambda>p. p\<lparr>free_buckets := bs, num_used := num_used p + 1,
           num_free := num_free p - 1, num_reused := num_reused p + 1\<rparr>) m"
  shows "mem_inv m'" and "live m' = insert (b + TPADDED_Bucket) (live m)"
    and "b + TPADDED_Bucket \<notin> live m" and "block_size m' (b + TPADDED_Bucket) = class_size i"
proof -
  note D = mem_invD [OF inv i]
  have b: "buckets m b = Some i" and nb: "b \<notin> set bs" and bs: "distinct bs"
    using D(4,5) l by auto
  have used: "used_in m' j = (if j = i then insert b (used_in m i) else used_in m j)" for j
    unfolding m'_def used_in_upd_partition [OF D(1)] using l b nb by (auto simp: used_in_def)
  have nused: "b \<notin> used_in m i" using l by (simp add: used_in_def)
  have sel: "partitions m' ! j = (if j = i then (partitions m ! i)\<lparr>free_buckets := bs,
      num_used := num_used (partitions m ! i) + 1, num_free := num_free (partitions m ! i) - 1,
      num_reused := num_reused (partitions m ! i) + 1\<rparr> else partitions m ! j)" for j
    using D(1) by (simp add: m'_def nth_upd_partition)
  have "wf_classes m'"
    using inv by (auto simp: mem_inv_def wf_classes_def sel) (simp add: m'_def)
  moreover have "wf_lists m'"
    using inv l b bs by (auto simp: mem_inv_def wf_lists_def sel) (auto simp: m'_def)
  moreover have "wf_counts m'"
    using inv i nused l mem_inv_finite [OF inv, of i]
    by (auto simp: mem_inv_def wf_counts_def sel used)
  ultimately show "mem_inv m'"
    using inv by (simp add: mem_inv_def m'_def)
  show "live m' = insert (b + TPADDED_Bucket) (live m)"
    using b by (auto simp: live_def used) (auto simp: m'_def split: if_splits)
  show "b + TPADDED_Bucket \<notin> live m"
    using nused b by (auto simp: live_def)
  show "block_size m' (b + TPADDED_Bucket) = class_size i"
    using b by (simp add: block_size_def m'_def)
qed

lemma mem_inv_fresh:
  assumes inv: "mem_inv m" and i: "i < NUM_CLASSES"
    and room: "memory_cursor m + TPADDED_Bucket + class_size i \<le> main_memory m + MAX_TOTAL_MEMORY"
  defines "b \<equiv> memory_cursor m"
  defines "m' \<equiv> upd_partition i (num_used_update (\<lambda>u. u + 1))
           (m\<lparr>memory_cursor := b + TPADDED_Bucket + class_size i, buckets := (buckets m)(b \<mapsto> i)\<rparr>)"
  shows "mem_inv m'" and "live m' = insert (b + TPADDED_Bucket) (live m)"
    and "b + TPADDED_Bucket \<notin> live m" and "block_size m' (b + TPADDED_Bucket) = class_size i"
    and "\<And>a. a \<in> live m \<Longrightarrow> block_size m' a = block_size m a"
proof -
  note D = mem_invD [OF inv]
  have lay: "wf_layout m" using inv by (simp add: mem_inv_def)
  then have new: "buckets m b = None"
  proof -
    have "buckets m b \<noteq> Some j" for j
      using lay unfolding wf_layout_def b_def by fastforce
    then show ?thesis by (cases "buckets m b") auto
  qed
  have notfree: "b \<notin> set (free_buckets (partitions m ! j))" if "j < NUM_CLASSES" for j
    using D(5) [OF that, of b] new by auto
  have sel: "partitions m' ! j = (if j = i then num_used_update (\<lambda>u. u + 1) (partitions m ! i)
      else partitions m ! j)" for j
    using D(1) [OF i] by (simp add: m'_def nth_upd_partition)
  have bk: "buckets m' = (buckets m)(b \<mapsto> i)" by (simp add: m'_def)
  have used: "used_in m' j = (if j = i then insert b (used_in m i) else used_in m j)"
    for j
    using new notfree [OF i] by (auto simp: used_in_def sel bk split: if_splits)
  have nused: "b \<notin> used_in m j" for j using new by (simp add: used_in_def)
  have "wf_classes m'"
    using inv by (auto simp: mem_inv_def wf_classes_def sel) (simp add: m'_def)
  moreover have "wf_lists m'"
    using inv new by (auto simp: mem_inv_def wf_lists_def sel bk)
  moreover have "wf_counts m'"
    using inv i nused mem_inv_finite [OF inv, of i] used
    by (auto simp: mem_inv_def wf_counts_def sel)
  moreover have "wf_layout m'"
  proof -
    have "memory_cursor m' = b + TPADDED_Bucket + class_size i" "main_memory m' = main_memory m"
      "total_system_size m' = total_system_size m"
      by (simp_all add: m'_def)
    moreover have "c + TPADDED_Bucket + class_size j \<le> b" if "buckets m c = Some j" for c j
      using lay that by (auto simp: wf_layout_def b_def)
    ultimately show ?thesis
      using lay room i unfolding wf_layout_def bk b_def [symmetric]
      by (auto split: if_splits) (fastforce simp: b_def)+
  qed
  ultimately show "mem_inv m'" by (simp add: mem_inv_def)
  show "live m' = insert (b + TPADDED_Bucket) (live m)"
    using new by (auto simp: live_def bk used split: if_splits)
  show "b + TPADDED_Bucket \<notin> live m"
    using nused by (auto simp: live_def)
  show "block_size m' (b + TPADDED_Bucket) = class_size i"
    by (simp add: block_size_def bk)
  show "block_size m' a = block_size m a" if "a \<in> live m" for a
    using that new by (auto simp: live_def block_size_def bk)
qed

lemma release_memory_live:
  assumes inv: "mem_inv m" and a: "a \<in> live m"
  obtains m' where "release_memory m a = Some m'" "mem_inv m'" "live m' = live m - {a}"
    "\<And>c. block_size m' c = block_size m c"
proof -
  obtain b i where ab: "a = b + TPADDED_Bucket" and b: "buckets m b = Some i" and u: "b \<in> used_in m i"
    using a by (auto simp: live_def)
  have lay: "wf_layout m" using inv by (simp add: mem_inv_def)
  then have i: "i < NUM_CLASSES" using b by (auto simp: wf_layout_def)
  note D = mem_invD [OF inv i]
  define m' where "m' = upd_partition i (\<lambda>p. p\<lparr>free_buckets := b # free_buckets p,
                num_free := num_free p + 1, num_used := num_used p - 1\<rparr>) m"
  have sel: "partitions m' ! j = (if j = i then (partitions m ! i)\<lparr>
      free_buckets := b # free_buckets (partitions m ! i), num_free := num_free (partitions m ! i) + 1,
      num_used := num_used (partitions m ! i) - 1\<rparr> else partitions m ! j)" for j
    using D(1) by (simp add: m'_def nth_upd_partition)
  have used: "used_in m' j = (if j = i then used_in m i - {b} else used_in m j)" for j
    unfolding m'_def used_in_upd_partition [OF D(1)] by (auto simp: used_in_def)
  have cardi: "0 < card (used_in m i)"
    using u mem_inv_finite [OF inv] card_gt_0_iff by blast
  have rel: "release_memory m a = Some m'"
    using D(2) b by (simp add: release_memory_def ab m'_def Let_def)
  have "wf_classes m'"
    using inv by (auto simp: mem_inv_def wf_classes_def sel) (simp add: m'_def)
  moreover have "wf_lists m'"
    using inv b u by (auto simp: mem_inv_def wf_lists_def sel used_in_def) (auto simp: m'_def)
  moreover have "wf_counts m'"
    using inv i u cardi mem_inv_finite [OF inv, of i]
    by (auto simp: mem_inv_def wf_counts_def sel used of_nat_diff)
  ultimately have inv': "mem_inv m'"
    using inv by (simp add: mem_inv_def m'_def)
  have lv: "live m' = live m - {a}"
    using b by (auto simp: live_def used ab) (auto simp: m'_def split: if_splits)
  have "block_size m' c = block_size m c" for c by (simp add: m'_def)
  with rel inv' lv that show thesis by blast
qed

section \<open>The allocator's contract\<close>

text \<open>The interface the rest of the program sees.\<close>

locale allocator =
  fixes inv :: "'m \<Rightarrow> bool"
    and lives :: "'m \<Rightarrow> addr set"
    and bsize :: "'m \<Rightarrow> addr \<Rightarrow> nat"
    and reserve :: "'m \<Rightarrow> u32 \<Rightarrow> addr option \<times> 'm"
    and release :: "'m \<Rightarrow> addr \<Rightarrow> 'm option"
  assumes reserve_inv: "inv m \<Longrightarrow> reserve m n = (r, m') \<Longrightarrow> inv m'"
    and reserve_None: "inv m \<Longrightarrow> reserve m n = (None, m') \<Longrightarrow> lives m' = lives m"
    and reserve_Some: "inv m \<Longrightarrow> reserve m n = (Some a, m') \<Longrightarrow>
      a \<notin> lives m \<and> lives m' = insert a (lives m) \<and> unat n \<le> bsize m' a"
    and reserve_keeps: "inv m \<Longrightarrow> reserve m n = (r, m') \<Longrightarrow> a \<in> lives m \<Longrightarrow> bsize m' a = bsize m a"
    and release_ok: "inv m \<Longrightarrow> a \<in> lives m \<Longrightarrow>
      \<exists>m'. release m a = Some m' \<and> inv m' \<and> lives m' = lives m - {a}"
    and release_keeps: "inv m \<Longrightarrow> a \<in> lives m \<Longrightarrow> release m a = Some m' \<Longrightarrow> bsize m' c = bsize m c"
begin

text \<open>Releasing a list of distinct live blocks, one after the other.\<close>

lemma release_Some:
  "inv m \<Longrightarrow> a \<in> lives m \<Longrightarrow> release m a = Some m' \<Longrightarrow> inv m' \<and> lives m' = lives m - {a}"
  using release_ok [of m a] by auto

lemma release_list:
  assumes "inv m" and "distinct as" and "set as \<subseteq> lives m"
  shows "\<exists>m'. fold (\<lambda>a r. Option.bind r (\<lambda>m. release m a)) as (Some m) = Some m' \<and> inv m' \<and>
    lives m' = lives m - set as"
  using assms
proof (induction as arbitrary: m)
  case (Cons a as)
  then obtain m1 where m1: "release m a = Some m1" "inv m1" "lives m1 = lives m - {a}"
    using release_ok [of m a] by auto
  with Cons.prems have "set as \<subseteq> lives m1" by auto
  with Cons.IH [OF m1(2)] Cons.prems obtain m' where
    "fold (\<lambda>a r. Option.bind r (\<lambda>m. release m a)) as (Some m1) = Some m'" "inv m'"
    "lives m' = lives m1 - set as" by auto
  then show ?case using m1 by auto
qed simp

lemma reserve_release:
  assumes "inv m" and "reserve m n = (Some a, m1)" and "release m1 a = Some m2"
  shows "inv m2 \<and> lives m2 = lives m"
  using assms reserve_inv [OF assms(1,2)] reserve_Some [OF assms(1,2)] release_Some [of m1 a m2]
  by auto

end

lemma reserve_memory_laws:
  assumes inv: "mem_inv m" and res: "reserve_memory m n = (r, m')"
  shows "mem_inv m'"
    and "r = None \<Longrightarrow> live m' = live m"
    and "r = Some a \<Longrightarrow> a \<notin> live m \<and> live m' = insert a (live m) \<and> unat n \<le> block_size m' a"
    and "c \<in> live m \<Longrightarrow> block_size m' c = block_size m c"
proof -
  have big: "unat n \<le> class_size i" if "find_partition (partitions m) n = Some i" "i < NUM_CLASSES" for i
    using find_partition_Some [OF that(1)] mem_invD(3) [OF inv that(2)] by (simp add: word_le_nat_alt)
  have "mem_inv m' \<and> (r = None \<longrightarrow> live m' = live m) \<and>
    (\<forall>a. r = Some a \<longrightarrow> a \<notin> live m \<and> live m' = insert a (live m) \<and> unat n \<le> block_size m' a) \<and>
    (\<forall>c \<in> live m. block_size m' c = block_size m c)"
  proof (cases rule: reserve_memory_cases [OF inv, of n])
    case 1
    then show ?thesis using inv res by simp
  next
    case (2 i b bs)
    then show ?thesis
      using res mem_inv_reuse [OF inv 2(2,3)] big [OF 2(1,2)] by auto
  next
    case (3 i)
    then show ?thesis using res mem_inv_cursor [OF inv] by auto
  next
    case (4 i)
    then show ?thesis
      using res mem_inv_fresh [OF inv 4(2) 4(4)] big [OF 4(1,2)] by auto
  qed
  then show "mem_inv m'" and "r = None \<Longrightarrow> live m' = live m"
    and "r = Some a \<Longrightarrow> a \<notin> live m \<and> live m' = insert a (live m) \<and> unat n \<le> block_size m' a"
    and "c \<in> live m \<Longrightarrow> block_size m' c = block_size m c"
    by blast+
qed

interpretation mem: allocator mem_inv live block_size reserve_memory release_memory
proof unfold_locales
  fix m n r m' a c
  show "mem_inv m \<Longrightarrow> reserve_memory m n = (r, m') \<Longrightarrow> mem_inv m'"
    by (rule reserve_memory_laws(1))
  show "mem_inv m \<Longrightarrow> reserve_memory m n = (None, m') \<Longrightarrow> live m' = live m"
    by (rule reserve_memory_laws(2)) auto
  show "mem_inv m \<Longrightarrow> reserve_memory m n = (Some a, m') \<Longrightarrow>
      a \<notin> live m \<and> live m' = insert a (live m) \<and> unat n \<le> block_size m' a"
    by (rule reserve_memory_laws(3)) auto
  show "mem_inv m \<Longrightarrow> reserve_memory m n = (r, m') \<Longrightarrow> a \<in> live m \<Longrightarrow>
      block_size m' a = block_size m a"
    by (rule reserve_memory_laws(4))
  show "mem_inv m \<Longrightarrow> a \<in> live m \<Longrightarrow>
      \<exists>m'. release_memory m a = Some m' \<and> mem_inv m' \<and> live m' = live m - {a}"
    by (metis release_memory_live)
  show "mem_inv m \<Longrightarrow> a \<in> live m \<Longrightarrow> release_memory m a = Some m' \<Longrightarrow>
      block_size m' c = block_size m c"
    by (metis option.inject release_memory_live)
qed

text \<open>Live blocks never overlap.\<close>

lemma live_disjoint:
  assumes inv: "mem_inv m" and a: "a \<in> live m" and c: "c \<in> live m" and ne: "a \<noteq> c"
  shows "{a ..< a + block_size m a} \<inter> {c ..< c + block_size m c} = {}"
proof -
  have lay: "wf_layout m" using inv by (simp add: mem_inv_def)
  obtain b i where b: "a = b + TPADDED_Bucket" "buckets m b = Some i"
    using a by (auto simp: live_def)
  obtain d j where d: "c = d + TPADDED_Bucket" "buckets m d = Some j"
    using c by (auto simp: live_def)
  have "b < d \<or> d < b" using ne b d by auto
  then have "b + TPADDED_Bucket + class_size i \<le> d \<or> d + TPADDED_Bucket + class_size j \<le> b"
    using lay b d unfolding wf_layout_def by blast
  then show ?thesis using b d by (auto simp: block_size_def)
qed

lemma live_in_region:
  assumes inv: "mem_inv m" and a: "a \<in> live m"
  shows "main_memory m + total_system_size m + TPADDED_Bucket \<le> a \<and>
    a + block_size m a \<le> main_memory m + MAX_TOTAL_MEMORY"
  using assms by (fastforce simp: mem_inv_def wf_layout_def live_def block_size_def)

section \<open>Initialisation\<close>

lemma count_sizes_MIN: "count_sizes MIN_BUCKET_SIZE = 16"
  by (simp add: count_sizes.simps MIN_BUCKET_SIZE_def MAX_BUCKET_SIZE_def)

lemma init_sizes:
  "total_partition_size = 640" "PADDING total_partition_size = 0" "total_hash_map_array_size = 51376"
  "PADDED sizeof_CacheEntryHashMap = 11168" "total_hash_maps_size = 71709728" "system_size = 71761744"
  by (simp_all add: total_partition_size_def count_sizes_MIN sizeof_Partition_def PADDING_def
      alignof_max_align_t_def total_hash_map_array_size_def NUM_CACHE_ENTRY_MAPS_def sizeof_pointer_def
      total_hash_maps_size_def PADDED_def sizeof_CacheEntryHashMap_def system_size_def)

lemma push_partitions_init:
  "push_partitions \<lparr>main_memory = base, memory_cursor = base, partitions = [], buckets = Map.empty,
     total_system_size = s\<rparr> MAX_BUCKET_SIZE =
   Some \<lparr>main_memory = base, memory_cursor = base + 640,
     partitions = map (\<lambda>i. new_partition (class_size i)) [0..<NUM_CLASSES],
     buckets = Map.empty, total_system_size = s\<rparr>"
  by (simp add: push_partitions.simps MAX_BUCKET_SIZE_def MIN_BUCKET_SIZE_def push_memory_def Let_def
      sizeof_Partition_def MAX_TOTAL_MEMORY_def NUM_CLASSES_def class_size_def upt_rec)

lemma push_maps_eq:
  assumes "memory_cursor m mod 16 = 0"
    and "memory_cursor m + k * 11168 \<le> main_memory m + MAX_TOTAL_MEMORY"
  shows "push_maps m k = Some (map (\<lambda>j. Some (memory_cursor m + j * 11168)) [0..<k],
           m\<lparr>memory_cursor := memory_cursor m + k * 11168\<rparr>)"
  using assms
proof (induction k arbitrary: m)
  case (Suc k)
  let ?m = "m\<lparr>memory_cursor := memory_cursor m + 11168\<rparr>"
  have "push_memory m (PADDED sizeof_CacheEntryHashMap) = (Some (memory_cursor m), ?m)"
    using Suc.prems(2) by (simp add: push_memory_def init_sizes Let_def)
  moreover have "memory_cursor ?m mod 16 = 0"
    using Suc.prems(1) by (simp add: mod_add_eq [symmetric])
  moreover from this have "push_maps ?m k = Some (map (\<lambda>j. Some (memory_cursor ?m + j * 11168)) [0..<k],
           ?m\<lparr>memory_cursor := memory_cursor ?m + k * 11168\<rparr>)"
    using Suc.prems(2) by (intro Suc.IH) (simp_all add: add.assoc)
  moreover have "map (\<lambda>j. Some (memory_cursor m + j * 11168)) [0..<Suc k] =
      Some (memory_cursor m) # map (\<lambda>j. Some (memory_cursor m + 11168 + j * 11168)) [0..<k]"
    by (simp add: upt_conv_Cons map_Suc_upt [symmetric] del: upt_Suc)
  ultimately show ?case
    by (simp add: alignof_max_align_t_def add.assoc)
qed simp

definition init_state :: "addr \<Rightarrow> memory" where
  "init_state base = \<lparr>main_memory = base, memory_cursor = base + system_size,
     partitions = map (\<lambda>i. new_partition (class_size i)) [0..<NUM_CLASSES],
     buckets = Map.empty, total_system_size = system_size\<rparr>"

lemma init_memory_eq:
  assumes "base mod 16 = 0"
  shows "init_memory (Some base) True errno =
    Some (0, Some (map (\<lambda>j. Some (base + 52016 + j * 11168)) [0..<NUM_CACHE_ENTRY_MAPS], init_state base))"
proof -
  have "(52016 + base) mod 16 = 0"
    using assms by (simp add: mod_add_eq [symmetric])
  then show ?thesis
    using assms
    by (simp add: init_memory_def push_partitions_init push_memory_def init_sizes push_maps_eq
        MAX_TOTAL_MEMORY_def alignof_max_align_t_def NUM_CACHE_ENTRY_MAPS_def init_state_def Let_def
        PADDING_def)
qed

lemma init_state_inv: "mem_inv (init_state base)" and init_state_live: "live (init_state base) = {}"
proof -
  have "unat (p_size (new_partition (class_size i))) = class_size i" if "i < NUM_CLASSES" for i
    using class_size_bounds [OF that]
    by (simp add: new_partition_def unat_of_nat MAX_BUCKET_SIZE_def take_bit_nat_eq_self)
  then show "mem_inv (init_state base)"
    by (auto simp: mem_inv_def wf_classes_def wf_layout_def wf_lists_def wf_counts_def init_state_def
        used_in_def new_partition_def)
  show "live (init_state base) = {}"
    by (auto simp: live_def init_state_def)
qed

section \<open>Accounting\<close>

lemma nfo_loop_sums:
  "bytes_used (nfo_loop ps nfo) = bytes_used nfo + (\<Sum>p\<leftarrow>ps. p_size p * num_used p)"
  "bytes_free (nfo_loop ps nfo) = bytes_free nfo + (\<Sum>p\<leftarrow>ps. p_size p * num_free p)"
  "bytes_reserved (nfo_loop ps nfo) = bytes_reserved nfo"
  by (induction ps arbitrary: nfo) (simp_all add: algebra_simps)

lemma live_eq_UN:
  assumes "mem_inv m"
  shows "live m = (\<Union>i < NUM_CLASSES. (\<lambda>b. b + TPADDED_Bucket) ` used_in m i)"
  using assms by (fastforce simp: live_def used_in_def mem_inv_def wf_layout_def)

lemma finite_live: "mem_inv m \<Longrightarrow> finite (live m)"
  by (simp add: live_eq_UN mem_inv_finite)

lemma sum_live:
  assumes inv: "mem_inv m"
  shows "(\<Sum>a \<in> live m. block_size m a) = (\<Sum>i < NUM_CLASSES. class_size i * card (used_in m i))"
proof -
  let ?shift = "\<lambda>b. b + TPADDED_Bucket"
  have "(\<Sum>a \<in> live m. block_size m a) =
      (\<Sum>i < NUM_CLASSES. \<Sum>a \<in> ?shift ` used_in m i. block_size m a)"
    unfolding live_eq_UN [OF inv]
  proof (rule sum.UNION_disjoint)
    show "\<forall>i \<in> {..<NUM_CLASSES}. finite (?shift ` used_in m i)"
      by (simp add: mem_inv_finite [OF inv])
  qed (auto simp: used_in_def)
  also have "\<dots> = (\<Sum>i < NUM_CLASSES. class_size i * card (used_in m i))"
  proof (rule sum.cong [OF refl])
    fix i assume "i \<in> {..<NUM_CLASSES}"
    have "(\<Sum>a \<in> ?shift ` used_in m i. block_size m a) = (\<Sum>b \<in> used_in m i. block_size m (?shift b))"
      by (rule sum.reindex_cong [where l = ?shift]) (auto simp: inj_on_def)
    also have "\<dots> = (\<Sum>b \<in> used_in m i. class_size i)"
      by (rule sum.cong) (auto simp: used_in_def block_size_def)
    finally show "(\<Sum>a \<in> ?shift ` used_in m i. block_size m a) = class_size i * card (used_in m i)"
      by simp
  qed
  finally show ?thesis .
qed

lemma sum_live_bound:
  assumes inv: "mem_inv m"
  shows "(\<Sum>a \<in> live m. block_size m a) \<le> MAX_TOTAL_MEMORY"
proof -
  have "(\<Sum>a \<in> live m. block_size m a) = (\<Sum>a \<in> live m. card {a ..< a + block_size m a})"
    by simp
  also have "\<dots> = card (\<Union>a \<in> live m. {a ..< a + block_size m a})"
    by (rule card_UN_disjoint [symmetric]) (auto simp: finite_live [OF inv] dest: live_disjoint [OF inv])
  also have "\<dots> \<le> card {main_memory m ..< main_memory m + MAX_TOTAL_MEMORY}"
    by (rule card_mono) (use live_in_region [OF inv] in \<open>fastforce\<close>)+
  finally show ?thesis by simp
qed

lemma populate_nfo_used:
  assumes inv: "mem_inv m"
  shows "unat (bytes_used (populate_nfo_response m)) = (\<Sum>a \<in> live m. block_size m a)"
proof -
  have len: "length (partitions m) = NUM_CLASSES"
    using inv by (simp add: mem_inv_def wf_classes_def)
  have "bytes_used (populate_nfo_response m) =
      (\<Sum>i < NUM_CLASSES. p_size (partitions m ! i) * num_used (partitions m ! i))"
    by (simp add: populate_nfo_response_def nfo_loop_sums sum_list_sum_nth len atLeast0LessThan)
  also have "\<dots> = (\<Sum>i < NUM_CLASSES. of_nat (class_size i * card (used_in m i)))"
  proof (rule sum.cong [OF refl])
    fix i assume "i \<in> {..<NUM_CLASSES}"
    then have i: "i < NUM_CLASSES" by simp
    have "of_nat (unat (p_size (partitions m ! i))) = p_size (partitions m ! i)"
      by simp
    then have "p_size (partitions m ! i) = of_nat (class_size i)"
      using mem_invD(3) [OF inv i] by simp
    then show "p_size (partitions m ! i) * num_used (partitions m ! i) =
        of_nat (class_size i * card (used_in m i))"
      using mem_invD(7) [OF inv i] by simp
  qed
  also have "\<dots> = of_nat (\<Sum>a \<in> live m. block_size m a)"
    by (simp add: sum_live [OF inv])
  finally have used: "bytes_used (populate_nfo_response m) = of_nat (\<Sum>a \<in> live m. block_size m a)" .
  show ?thesis
    unfolding used using sum_live_bound [OF inv]
    by (simp add: unat_of_nat MAX_TOTAL_MEMORY_def take_bit_nat_eq_self del: of_nat_sum)
qed

end
