(* ===== verification/Cik_Allocator_Props.thy ===== *)
theory Cik_Allocator_Props
  imports Cik_Allocator
begin

text \<open>The properties of the allocator of \<open>src/src/memory.c\<close>: safety and fit of a reservation, release,
  exhaustion, initialisation and the statistics.\<close>

lemma reserve_memory_class:
  assumes inv: "mem_inv m" and res: "reserve_memory m n = (Some a, m')"
  obtains i where "find_partition (partitions m) n = Some i" "i < NUM_CLASSES"
    "block_size m' a = class_size i"
proof (cases rule: reserve_memory_cases [OF inv, of n])
  case (2 i b bs)
  then show ?thesis using that res mem_inv_reuse [OF inv 2(2,3)] by auto
next
  case (4 i)
  then show ?thesis using that res mem_inv_fresh [OF inv 4(2,4)] by auto
qed (use res in auto)

lemma find_partition_bound:
  assumes inv: "mem_inv m" and f: "find_partition (partitions m) n = Some i"
  shows "i = 0 \<or> class_size i < 2 * unat n"
proof (cases i)
  case (Suc j)
  have i: "i < NUM_CLASSES" and "p_size (partitions m ! j) < n"
    using find_partition_Some [OF f] inv Suc by (auto simp: mem_inv_def wf_classes_def)
  then have "class_size j < unat n"
    using mem_invD(3) [OF inv, of j] Suc by (simp add: word_less_nat_alt)
  then show ?thesis using Suc by (simp add: class_size_def)
qed simp

lemma push_exhausted:
  "memory_cursor m > main_memory m + MAX_TOTAL_MEMORY \<Longrightarrow> fst (push_memory m k) = None"
  by (simp add: push_memory_def Let_def)

lemma find_partition_cong:
  "map p_size ps = map p_size qs \<Longrightarrow> find_partition ps n = find_partition qs n"
proof (induction ps arbitrary: qs)
  case (Cons p ps)
  then obtain q qs' where "qs = q # qs'" "p_size p = p_size q" "map p_size ps = map p_size qs'"
    by (cases qs) auto
  with Cons.IH [of qs'] show ?case by simp
qed simp

lemma class_size_inj [simp]: "class_size i = class_size j \<longleftrightarrow> i = j"
  by (simp add: class_size_def MIN_BUCKET_SIZE_def)

lemma find_partition_fits:
  assumes "mem_inv m" and "unat n \<le> MAX_BUCKET_SIZE"
  shows "find_partition (partitions m) n \<noteq> None"
proof
  assume none: "find_partition (partitions m) n = None"
  have "15 < NUM_CLASSES" by (simp add: NUM_CLASSES_def)
  note D = mem_invD(1,3) [OF assms(1) this]
  have "unat (p_size (partitions m ! 15)) < unat n"
    using find_partition_None [OF none] nth_mem [OF D(1)] by (simp add: word_less_nat_alt)
  then show False
    using assms(2) D(2) by (simp add: class_size_def MIN_BUCKET_SIZE_def MAX_BUCKET_SIZE_def)
qed

text \<open>C18. \<open>reserve_memory\<close> returns a block nobody else holds: its \<open>n\<close> bytes lie inside the
  region behind the system area and are disjoint from every block still in use, whose sizes do not
  change, and the allocator's invariant is kept.\<close>

theorem reserve_memory_safe:
  assumes "mem_inv m" and "reserve_memory m n = (Some a, m')"
  shows "mem_inv m' \<and> live m' = insert a (live m) \<and> unat n \<le> block_size m' a
    \<and> main_memory m' + total_system_size m' + TPADDED_Bucket \<le> a
    \<and> a + unat n \<le> main_memory m' + MAX_TOTAL_MEMORY
    \<and> (\<forall>c \<in> live m. block_size m' c = block_size m c \<and>
         {a ..< a + unat n} \<inter> {c ..< c + block_size m c} = {})"
proof -
  have inv': "mem_inv m'"
    using assms by (rule mem.reserve_inv)
  have a: "a \<notin> live m" "live m' = insert a (live m)" "unat n \<le> block_size m' a"
    using mem.reserve_Some [OF assms] by auto
  have keep: "block_size m' c = block_size m c" if "c \<in> live m" for c
    using assms that by (rule mem.reserve_keeps)
  have "{a ..< a + unat n} \<inter> {c ..< c + block_size m c} = {}" if "c \<in> live m" for c
  proof -
    have "{a ..< a + block_size m' a} \<inter> {c ..< c + block_size m' c} = {}"
      using a that by (intro live_disjoint [OF inv']) auto
    then show ?thesis using a(3) keep [OF that] by fastforce
  qed
  moreover have "main_memory m' + total_system_size m' + TPADDED_Bucket \<le> a"
    "a + unat n \<le> main_memory m' + MAX_TOTAL_MEMORY"
    using live_in_region [OF inv', of a] a by auto
  ultimately show ?thesis using inv' a keep by blast
qed

definition mem_100 :: memory where
  "mem_100 = snd (reserve_memory (init_state 4096) 100)"

lemmas init_eval = reserve_memory_def init_state_def NUM_CLASSES_def upt_rec new_partition_def
  class_size_def MIN_BUCKET_SIZE_def pop_free_def push_memory_def PADDED_mult_16 init_sizes
  MAX_TOTAL_MEMORY_def upd_partition_def Let_def

lemma reserve_init_100:
  "fst (reserve_memory (init_state 4096) 100) = Some (4096 + system_size + 32)"
  by (simp add: init_eval)

lemma mem_100_facts:
  "reserve_memory (init_state 4096) 100 = (Some (4096 + system_size + 32), mem_100)"
  "find_partition (partitions mem_100) 100 = Some 0"
  "block_size mem_100 (4096 + system_size + 32) = class_size 0"
  using reserve_init_100 by (simp_all add: mem_100_def prod_eq_iff) (simp_all add: init_eval block_size_def)

lemma mem_100_inv: "mem_inv mem_100" and mem_100_live: "live mem_100 = {4096 + system_size + 32}"
  using mem.reserve_inv [OF init_state_inv mem_100_facts(1)]
    mem.reserve_Some [OF init_state_inv mem_100_facts(1)] by (simp_all add: init_state_live)

theorem reserve_memory_safe_witness:
  "mem_inv (init_state 4096) \<and> reserve_memory (init_state 4096) 100 = (Some (4096 + system_size + 32), mem_100) \<and>
   live mem_100 = {4096 + system_size + 32} \<and> 100 \<le> block_size mem_100 (4096 + system_size + 32)"
  using reserve_memory_safe [OF init_state_inv mem_100_facts(1)] init_state_inv mem_100_facts(1)
  by (simp add: init_state_live)

text \<open>C27. The bucket a request gets is the smallest class that holds it: it is less than twice the
  request, or the smallest bucket there is. So rounding to buckets never wastes more than half.\<close>

theorem reserve_memory_best_fit:
  assumes "mem_inv m" and "reserve_memory m n = (Some a, m')"
  shows "block_size m' a = MIN_BUCKET_SIZE \<or>
    (unat n \<le> block_size m' a \<and> block_size m' a < 2 * unat n)"
proof -
  obtain i where i: "find_partition (partitions m) n = Some i" "block_size m' a = class_size i"
    using reserve_memory_class [OF assms] by metis
  then show ?thesis
    using find_partition_bound [OF assms(1) i(1)] mem.reserve_Some [OF assms]
    by (auto simp: class_size_def)
qed

theorem reserve_memory_best_fit_witness:
  "block_size mem_100 (4096 + system_size + 32) = MIN_BUCKET_SIZE \<or>
    (100 \<le> block_size mem_100 (4096 + system_size + 32) \<and>
     block_size mem_100 (4096 + system_size + 32) < 200)"
  using reserve_memory_best_fit [OF init_state_inv mem_100_facts(1)] by simp

text \<open>Releasing a block in use never faults, takes exactly that block out of use and keeps the
  invariant; the next request of the same class gets the same block back (the free lists are stacks).\<close>

theorem release_then_reserve:
  assumes "mem_inv m" and "a \<in> live m" and "find_partition (partitions m) n = Some i"
    and "block_size m a = class_size i"
  shows "\<exists>m1. release_memory m a = Some m1 \<and> mem_inv m1 \<and> live m1 = live m - {a} \<and>
    (\<exists>m2. reserve_memory m1 n = (Some a, m2) \<and> live m2 = live m)"
proof -
  obtain m1 where m1: "release_memory m a = Some m1" "mem_inv m1" "live m1 = live m - {a}"
    using mem.release_ok [OF assms(1,2)] by auto
  obtain b j where ab: "a = b + TPADDED_Bucket" and "buckets m b = Some j"
    using assms(2) by (auto simp: live_def)
  then have b: "buckets m b = Some i"
    using assms(4) by (simp add: block_size_def)
  have i: "i < NUM_CLASSES"
    using assms(1) b by (auto simp: mem_inv_def wf_layout_def)
  have m1_eq: "m1 = upd_partition i (\<lambda>p. p\<lparr>free_buckets := b # free_buckets p,
      num_free := num_free p + 1, num_used := num_used p - 1\<rparr>) m"
    using m1(1) b mem_invD(2) [OF assms(1) i] by (simp add: release_memory_def ab Let_def)
  have "find_partition (partitions m1) n = Some i"
    using assms(3) mem_invD(1) [OF assms(1) i]
    by (subst find_partition_cong [of _ "partitions m"])
      (auto simp: m1_eq nth_upd_partition intro!: nth_equalityI)
  moreover have "free_buckets (partitions m1 ! i) = b # free_buckets (partitions m ! i)"
    using mem_invD(1) [OF assms(1) i] by (simp add: m1_eq nth_upd_partition)
  ultimately obtain m2 where m2: "reserve_memory m1 n = (Some a, m2)"
    using ab by (cases rule: reserve_memory_cases [OF m1(2), of n]) auto
  then have "live m2 = live m"
    using mem.reserve_Some [OF m1(2) m2] m1(3) assms(2) by auto
  with m1 m2 show ?thesis by blast
qed

theorem release_then_reserve_witness:
  "\<exists>m1. release_memory mem_100 (4096 + system_size + 32) = Some m1 \<and> live m1 = {} \<and>
     (\<exists>m2. reserve_memory m1 100 = (Some (4096 + system_size + 32), m2))"
  using release_then_reserve [OF mem_100_inv _ mem_100_facts(2,3)] by (auto simp: mem_100_live)

text \<open>Running out of memory is permanent for the region: once a request of a legal size has been
  refused because the region is used up, no request is ever again served by cutting a new
  bucket, however small (the cursor is advanced even by a request that fails): only a released
  bucket of the same class can be handed out.\<close>

theorem exhaustion_is_permanent:
  assumes "mem_inv m" and "reserve_memory m n = (None, m')" and "unat n \<le> MAX_BUCKET_SIZE"
    and "find_partition (partitions m') k = Some i" and "free_buckets (partitions m' ! i) = []"
  shows "fst (reserve_memory m' k) = None"
proof -
  have inv': "mem_inv m'"
    using assms(1,2) by (rule mem.reserve_inv)
  have "memory_cursor m' > main_memory m' + MAX_TOTAL_MEMORY"
    using assms(2) find_partition_fits [OF assms(1,3)]
    by (cases rule: reserve_memory_cases [OF assms(1), of n]) auto
  then show ?thesis
    using assms(4,5) by (cases rule: reserve_memory_cases [OF inv', of k]) auto
qed

theorem exhaustion_is_permanent_witness:
  "\<exists>m'. reserve_memory (init_state 4096\<lparr>memory_cursor := 4096 + MAX_TOTAL_MEMORY\<rparr>) 100 = (None, m') \<and>
     fst (reserve_memory m' 200) = None"
proof -
  let ?m = "init_state 4096\<lparr>memory_cursor := 4096 + MAX_TOTAL_MEMORY\<rparr>"
  have inv: "mem_inv ?m"
    by (rule mem_inv_cursor [OF init_state_inv]) (simp add: init_state_def init_sizes MAX_TOTAL_MEMORY_def)
  have "fst (reserve_memory ?m 100) = None"
    and f: "find_partition (partitions (snd (reserve_memory ?m 100))) 200 = Some 0"
      "free_buckets (partitions (snd (reserve_memory ?m 100)) ! 0) = []"
    by (simp_all add: init_eval)
  then have r: "reserve_memory ?m 100 = (None, snd (reserve_memory ?m 100))"
    by (simp add: prod_eq_iff)
  show ?thesis
    using exhaustion_is_permanent [OF inv r _ f] r by (auto simp: MAX_BUCKET_SIZE_def)
qed

text \<open>\<open>init_memory\<close>, when the region can be mapped: none of its assertions fails, all 6421
  hash maps get their memory right behind the partitions, and the allocator starts with its invariant,
  no block in use and the cursor at the end of the system area.\<close>

theorem init_memory_ok:
  assumes "base mod alignof_max_align_t = 0"
  shows "\<exists>maps m. init_memory (Some base) True errno = Some (0, Some (maps, m))
    \<and> mem_inv m \<and> live m = {} \<and> memory_cursor m = base + system_size
    \<and> length maps = NUM_CACHE_ENTRY_MAPS
    \<and> (\<forall>i < NUM_CACHE_ENTRY_MAPS. maps ! i = Some (base + total_partition_size
          + total_hash_map_array_size + i * PADDED sizeof_CacheEntryHashMap))"
  using init_memory_eq [of base errno] assms
  by (simp add: init_state_inv init_state_live init_sizes alignof_max_align_t_def)
    (simp add: init_state_def init_sizes)

theorem init_memory_ok_witness:
  "\<exists>maps m. init_memory (Some 4096) True 0 = Some (0, Some (maps, m)) \<and> mem_inv m \<and> live m = {}"
  using init_memory_ok [of 4096 0] by (auto simp: alignof_max_align_t_def)

text \<open>The \<open>bytes_used\<close> of a server \<open>NFO\<close> answer is exactly the sum of the sizes of the
  blocks in use: neither the products nor the sums wrap around.\<close>

theorem nfo_bytes_used:
  assumes "mem_inv m"
  shows "unat (bytes_used (populate_nfo_response m)) = (\<Sum>a \<in> live m. block_size m a)"
  using assms by (rule populate_nfo_used)

theorem nfo_bytes_used_witness:
  "unat (bytes_used (populate_nfo_response mem_100)) = 256"
  using nfo_bytes_used [OF mem_100_inv] mem_100_facts(3)
  by (simp add: mem_100_live class_size_def MIN_BUCKET_SIZE_def)

text \<open>A request repeated, whatever is answered.\<close>

fun repeat_request :: "nat \<Rightarrow> u32 \<Rightarrow> memory \<Rightarrow> memory" where
  "repeat_request 0 n m = m"
| "repeat_request (Suc k) n m = repeat_request k n (snd (reserve_memory m n))"

text \<open>Every request that fails for want of memory moves the cursor, by the size of the bucket it wanted.\<close>

lemma failed_request:
  assumes "mem_inv m" and "find_partition (partitions m) n = Some i" and "fst (reserve_memory m n) = None"
  shows "snd (reserve_memory m n) = m\<lparr>memory_cursor := memory_cursor m + TPADDED_Bucket + class_size i\<rparr>"
    and "free_buckets (partitions m ! i) = []"
    and "memory_cursor m + TPADDED_Bucket + class_size i > main_memory m + MAX_TOTAL_MEMORY"
  using assms(2,3) by (cases rule: reserve_memory_cases [OF assms(1), of n]; simp)+

lemma repeated_failure:
  assumes "mem_inv m" and "find_partition (partitions m) n = Some i" and "fst (reserve_memory m n) = None"
  shows "repeat_request k n m = m\<lparr>memory_cursor := memory_cursor m + k * (TPADDED_Bucket + class_size i)\<rparr> \<and>
    fst (reserve_memory (repeat_request k n m) n) = None"
  using assms
proof (induction k arbitrary: m)
  case (Suc k)
  note F = failed_request [OF Suc.prems]
  let ?m = "snd (reserve_memory m n)"
  have inv: "mem_inv ?m" by (rule mem.reserve_inv [OF Suc.prems(1)]) (rule prod.collapse [symmetric])
  have part: "partitions ?m = partitions m" "memory_cursor ?m = memory_cursor m + TPADDED_Bucket + class_size i"
    "main_memory ?m = main_memory m" by (simp_all add: F(1))
  have fp: "find_partition (partitions ?m) n = Some i" using Suc.prems(2) by (simp add: part)
  have "fst (reserve_memory ?m n) = None"
    using fp F(2,3) part by (cases rule: reserve_memory_cases [OF inv, of n]) auto
  note IH = Suc.IH [OF inv fp this]
  have e: "repeat_request (Suc k) n m = repeat_request k n ?m" by simp
  show ?case unfolding e
  proof (rule conjI [OF _ conjunct2 [OF IH]])
    show "repeat_request k n ?m = m\<lparr>memory_cursor := memory_cursor m + Suc k * (TPADDED_Bucket + class_size i)\<rparr>"
      using conjunct1 [OF IH] by (simp add: F(1) algebra_simps)
  qed
qed simp

text \<open>C28. The memory statistics narrow the distance of the cursor from the start of the region to 32
  bits, and requests that fail still advance the cursor: once a request of a legal size has been refused, a
  number of repetitions of it, all refused as well and with no other effect, makes the statistics report the
  whole region as available but for less than one bucket with its header.\<close>

theorem memory_stats_wrap:
  assumes "mem_inv m" and "find_partition (partitions m) n = Some i" and "fst (reserve_memory m n) = None"
    and "memory_cursor m - main_memory m < 2 ^ 32"
  shows "\<exists>k. memory_cursor (repeat_request k n m) = memory_cursor m + k * (TPADDED_Bucket + class_size i) \<and>
    MAX_TOTAL_MEMORY - (TPADDED_Bucket + class_size i) < unat (memory_left (repeat_request k n m)) \<and>
    fst (reserve_memory (repeat_request k n m) n) = None \<and> live (repeat_request k n m) = live m"
proof -
  define c where "c = TPADDED_Bucket + class_size i"
  define d where "d = memory_cursor m - main_memory m"
  have i: "i < NUM_CLASSES" using assms(2,3) by (cases rule: reserve_memory_cases [OF assms(1), of n]) auto
  have c: "0 < c" "c < MAX_TOTAL_MEMORY" using class_size_bounds [OF i] by (simp_all add: c_def MAX_BUCKET_SIZE_def MAX_TOTAL_MEMORY_def)
  have base: "memory_cursor m = main_memory m + d"
    using assms(1) by (simp add: d_def mem_inv_def wf_layout_def)
  define k where "k = (2 ^ 32 - d + c - 1) div c"
  have d: "d < 2 ^ 32" using assms(4) by (simp add: d_def)
  have low: "2 ^ 32 \<le> d + k * c" and high: "d + k * c < 2 ^ 32 + c"
  proof -
    have "k * c = 2 ^ 32 - d + c - 1 - (2 ^ 32 - d + c - 1) mod c" by (simp add: k_def minus_mod_eq_div_mult)
    moreover have "(2 ^ 32 - d + c - 1) mod c < c" using c by simp
    ultimately show "2 ^ 32 \<le> d + k * c" "d + k * c < 2 ^ 32 + c" using d c by linarith+
  qed
  let ?m = "repeat_request k n m"
  note R = repeated_failure [OF assms(1-3), of k, folded c_def]
  define r where "r = d + k * c - 2 ^ 32"
  have r: "r < c" "d + k * c = 2 ^ 32 + r" using low high by (simp_all add: r_def)
  have "memory_cursor ?m - main_memory ?m = 2 ^ 32 + r" using R r(2) base by simp
  then have u: "memory_used ?m = of_nat r" by (simp add: memory_used_def)
  have rn: "unat (of_nat r :: u32) = r" using r(1) c(2) by (simp add: unat_of_nat take_bit_nat_eq_self MAX_TOTAL_MEMORY_def)
  then have lt: "(of_nat r :: u32) < of_nat MAX_TOTAL_MEMORY"
    using r(1) c(2) by (simp add: word_less_nat_alt MAX_TOTAL_MEMORY_def)
  then have "unat (memory_left ?m) = MAX_TOTAL_MEMORY - r"
    using rn by (simp add: memory_left_def u unat_sub word_le_less_eq MAX_TOTAL_MEMORY_def)
  then have "MAX_TOTAL_MEMORY - c < unat (memory_left ?m)" using r(1) c(2) by simp
  moreover have "live ?m = live m" "memory_cursor ?m = memory_cursor m + k * c" using conjunct1 [OF R] by simp_all
  ultimately show ?thesis using conjunct2 [OF R] unfolding c_def by blast
qed

theorem memory_stats_wrap_witness:
  "\<exists>k. fst (reserve_memory (repeat_request k 100 (init_state 4096\<lparr>memory_cursor := 4096 + MAX_TOTAL_MEMORY\<rparr>)) 100) = None \<and>
     MAX_TOTAL_MEMORY - 288 < unat (memory_left (repeat_request k 100 (init_state 4096\<lparr>memory_cursor := 4096 + MAX_TOTAL_MEMORY\<rparr>)))"
proof -
  let ?m = "init_state 4096\<lparr>memory_cursor := 4096 + MAX_TOTAL_MEMORY\<rparr>"
  have inv: "mem_inv ?m"
    by (rule mem_inv_cursor [OF init_state_inv]) (simp add: init_state_def init_sizes MAX_TOTAL_MEMORY_def)
  have f: "find_partition (partitions ?m) 100 = Some 0" "fst (reserve_memory ?m 100) = None"
    by (simp_all add: init_eval)
  have "memory_cursor ?m - main_memory ?m < 2 ^ 32" by (simp add: init_state_def MAX_TOTAL_MEMORY_def)
  from memory_stats_wrap [OF inv f this] show ?thesis by (auto simp: class_size_def MIN_BUCKET_SIZE_def)
qed

end
