(* ===== verification/Cik_Entry.thy ===== *)
theory Cik_Entry
  imports Cik_Allocator
begin

text \<open>
  \<open>src/src/entry.h\<close> and \<open>src/src/entry.c\<close>: cache entries and the open-addressing hash
  maps that hold pointers to them.

  Entries live in a store indexed by their address, because the maps, the handlers and the locks share
  them by pointer. A map is the code's four parallel arrays. A spin lock is a boolean; waiting for one
  that is held has no result, since in the sequential model nobody else can release it. An entry's
  key, tags and value are the byte strings its pointers delimit.
\<close>

section \<open>Entries and locks\<close>

record CacheEntry =
  e_key :: "u8 list"
  e_tags :: "u8 list list"
  e_value :: "u8 list"
  mtime :: time_t
  expires :: time_t
  nhits :: u32
  guard :: bool

type_synonym store = "addr \<rightharpoonup> CacheEntry"

definition CACHE_EXPIRES_INIT :: time_t where
  "CACHE_EXPIRES_INIT = -1"

definition CACHE_ENTRY_INIT :: "time_t \<Rightarrow> CacheEntry" where
  "CACHE_ENTRY_INIT now = \<lparr>e_key = [], e_tags = [], e_value = [], mtime = now,
     expires = CACHE_EXPIRES_INIT, nhits = 0, guard = False\<rparr>"

definition LOCK_ENTRY :: "store \<Rightarrow> addr \<Rightarrow> store option" where
  "LOCK_ENTRY st a = (case st a of
     None \<Rightarrow> None
   | Some e \<Rightarrow> if guard e then None else Some (st(a \<mapsto> e\<lparr>guard := True\<rparr>)))"

definition UNLOCK_ENTRY :: "store \<Rightarrow> addr \<Rightarrow> store option" where
  "UNLOCK_ENTRY st a = (case st a of
     None \<Rightarrow> None
   | Some e \<Rightarrow> Some (st(a \<mapsto> e\<lparr>guard := False\<rparr>)))"

section \<open>The maps\<close>

record CacheEntryHashMap =
  mask :: "nat \<Rightarrow> bool"
  guards :: "nat \<Rightarrow> bool"
  hashes :: "nat \<Rightarrow> u32"
  entries :: "nat \<Rightarrow> addr option"

fun get_hash_loop :: "u32 \<Rightarrow> u8 list \<Rightarrow> u32" where
  "get_hash_loop hash [] = hash"
| "get_hash_loop hash (b # bs) = get_hash_loop ((push_bit 5 hash + hash) XOR ucast b) bs"

definition get_hash :: "u8 list \<Rightarrow> u32" where
  "get_hash bs = get_hash_loop 5381 bs"

definition get_key_hash :: "u8 list \<Rightarrow> u32" where
  "get_key_hash key = get_hash key"

definition init_cache_entry_map :: CacheEntryHashMap where
  "init_cache_entry_map = \<lparr>mask = (\<lambda>_. False), guards = (\<lambda>_. False), hashes = (\<lambda>_. 0),
     entries = (\<lambda>_. None)\<rparr>"

definition LOCK_SLOT :: "CacheEntryHashMap \<Rightarrow> nat \<Rightarrow> CacheEntryHashMap option" where
  "LOCK_SLOT m s = (if guards m s then None else Some (m\<lparr>guards := (guards m)(s := True)\<rparr>))"

definition UNLOCK_SLOT :: "CacheEntryHashMap \<Rightarrow> nat \<Rightarrow> CacheEntryHashMap" where
  "UNLOCK_SLOT m s = m\<lparr>guards := (guards m)(s := False)\<rparr>"

definition unset_slot :: "CacheEntryHashMap \<Rightarrow> nat \<Rightarrow> CacheEntryHashMap" where
  "unset_slot m s = m\<lparr>mask := (mask m)(s := False), hashes := (hashes m)(s := 0),
     entries := (entries m)(s := None)\<rparr>"

definition slot_of :: "u32 \<Rightarrow> nat" where
  "slot_of hash = unat hash mod CACHE_ENTRY_MAP_SIZE"

definition next_pos :: "nat \<Rightarrow> nat" where
  "next_pos pos = (if pos + 1 \<ge> CACHE_ENTRY_MAP_SIZE then 0 else pos + 1)"

text \<open>The distance still to go until the probing is back at its first slot.\<close>

definition probe_left :: "nat \<Rightarrow> nat \<Rightarrow> nat" where
  "probe_left slot pos =
     (if pos < CACHE_ENTRY_MAP_SIZE
      then (slot + CACHE_ENTRY_MAP_SIZE - 1 - pos) mod CACHE_ENTRY_MAP_SIZE
      else CACHE_ENTRY_MAP_SIZE)"

lemma slot_of_less [simp]: "slot_of h < CACHE_ENTRY_MAP_SIZE"
  by (simp add: slot_of_def)

lemma probe_left_decreases:
  assumes "next_pos pos \<noteq> slot" and "slot < CACHE_ENTRY_MAP_SIZE"
  shows "probe_left slot (next_pos pos) < probe_left slot pos"
proof (cases "pos < CACHE_ENTRY_MAP_SIZE")
  case True
  show ?thesis
  proof (cases "pos < slot")
    case True
    then have "pos + 1 < slot" using assms by (auto simp: next_pos_def split: if_splits)
    moreover from this have "(slot + CACHE_ENTRY_MAP_SIZE - 1 - pos) mod CACHE_ENTRY_MAP_SIZE = slot - 1 - pos"
      "(slot + CACHE_ENTRY_MAP_SIZE - 1 - (pos + 1)) mod CACHE_ENTRY_MAP_SIZE = slot - 2 - pos"
      using assms(2) by (auto simp: le_mod_geq mod_if)
    ultimately show ?thesis
      using assms(2) by (simp add: probe_left_def next_pos_def)
  next
    case False
    then have *: "(slot + CACHE_ENTRY_MAP_SIZE - 1 - pos) mod CACHE_ENTRY_MAP_SIZE =
        slot + CACHE_ENTRY_MAP_SIZE - 1 - pos"
      using \<open>pos < CACHE_ENTRY_MAP_SIZE\<close> by simp
    show ?thesis
    proof (cases "pos + 1 < CACHE_ENTRY_MAP_SIZE")
      case True
      then show ?thesis
        using False * by (simp add: probe_left_def next_pos_def)
    next
      case wrap: False
      then have "pos = CACHE_ENTRY_MAP_SIZE - 1" and "0 < slot"
        using assms True by (auto simp: next_pos_def)
      moreover from this have "(slot + CACHE_ENTRY_MAP_SIZE - 1) mod CACHE_ENTRY_MAP_SIZE = slot - 1"
        using assms(2) by (auto simp: mod_if)
      ultimately show ?thesis
        using assms(2) by (simp add: probe_left_def next_pos_def)
    qed
  qed
next
  case False
  then show ?thesis
    by (auto simp: probe_left_def next_pos_def)
qed

section \<open>Lookup, removal, insertion\<close>

text \<open>The body of the probing loops: lock the occupant of a slot whose hash matches and compare keys.\<close>

definition match_locked :: "CacheEntryHashMap \<Rightarrow> store \<Rightarrow> u32 \<Rightarrow> u8 list \<Rightarrow> nat \<Rightarrow> (addr option \<times> store) option"
  where
  "match_locked m st hash key pos =
     (if mask m pos \<and> hashes m pos = hash then do {
        a \<leftarrow> entries m pos;
        st1 \<leftarrow> LOCK_ENTRY st a;
        e \<leftarrow> st1 a;
        if e_key e = key then Some (Some a, st1)
        else do { st2 \<leftarrow> UNLOCK_ENTRY st1 a; Some (None, st2) }
      } else Some (None, st))"

function lock_and_get_loop ::
    "CacheEntryHashMap \<Rightarrow> store \<Rightarrow> u32 \<Rightarrow> u8 list \<Rightarrow> nat \<Rightarrow>
     (addr option \<times> CacheEntryHashMap \<times> store) option" where
  "lock_and_get_loop m st hash key pos = do {
     m1 \<leftarrow> LOCK_SLOT m pos;
     (r, st1) \<leftarrow> match_locked m1 st hash key pos;
     let m2 = UNLOCK_SLOT m1 pos;
     case r of
       Some a \<Rightarrow> Some (Some a, m2, st1)
     | None \<Rightarrow>
         (let pos' = next_pos pos
          in if pos' \<noteq> slot_of hash then lock_and_get_loop m2 st1 hash key pos'
             else Some (None, m2, st1))
   }"
  by pat_completeness auto
termination
  by (relation "measure (\<lambda>(m, st, hash, key, pos). probe_left (slot_of hash) pos)")
    (auto intro: probe_left_decreases)

declare lock_and_get_loop.simps [simp del]

definition lock_and_get_cache_entry ::
    "CacheEntryHashMap \<Rightarrow> store \<Rightarrow> u8 list \<Rightarrow> (addr option \<times> CacheEntryHashMap \<times> store) option" where
  "lock_and_get_cache_entry m st key =
     (let hash = get_key_hash key in lock_and_get_loop m st hash key (slot_of hash))"

function lock_and_unset_loop ::
    "CacheEntryHashMap \<Rightarrow> store \<Rightarrow> u32 \<Rightarrow> u8 list \<Rightarrow> nat \<Rightarrow>
     (addr option \<times> CacheEntryHashMap \<times> store) option" where
  "lock_and_unset_loop m st hash key pos = do {
     m1 \<leftarrow> LOCK_SLOT m pos;
     (r, st1) \<leftarrow> match_locked m1 st hash key pos;
     case r of
       Some a \<Rightarrow> Some (Some a, UNLOCK_SLOT (unset_slot m1 pos) pos, st1)
     | None \<Rightarrow>
         (let m2 = UNLOCK_SLOT m1 pos;
              pos' = next_pos pos
          in if pos' \<noteq> slot_of hash then lock_and_unset_loop m2 st1 hash key pos'
             else Some (None, m2, st1))
   }"
  by pat_completeness auto
termination
  by (relation "measure (\<lambda>(m, st, hash, key, pos). probe_left (slot_of hash) pos)")
    (auto intro: probe_left_decreases)

declare lock_and_unset_loop.simps [simp del]

definition lock_and_unset_cache_entry ::
    "CacheEntryHashMap \<Rightarrow> store \<Rightarrow> u8 list \<Rightarrow> (addr option \<times> CacheEntryHashMap \<times> store) option" where
  "lock_and_unset_cache_entry m st key =
     (let hash = get_key_hash key in lock_and_unset_loop m st hash key (slot_of hash))"

text \<open>
  Insertion stops at the first slot that is free or holds the key. What the loop ends with:
  the entry was there already; a slot (still locked) with the entry it replaces, if any; no slot.
\<close>

datatype set_result = AlreadySet | Slot nat "addr option" | NoSlot

function set_loop ::
    "CacheEntryHashMap \<Rightarrow> store \<Rightarrow> u32 \<Rightarrow> addr \<Rightarrow> nat \<Rightarrow>
     (set_result \<times> CacheEntryHashMap \<times> store) option" where
  "set_loop m st hash entry pos = do {
     m1 \<leftarrow> LOCK_SLOT m pos;
     if mask m1 pos then
       if hashes m1 pos = hash \<and> entries m1 pos = Some entry then
         Some (AlreadySet, UNLOCK_SLOT m1 pos, st)
       else do {
         e \<leftarrow> st entry;
         (r, st1) \<leftarrow> match_locked m1 st hash (e_key e) pos;
         case r of
           Some old \<Rightarrow> Some (Slot pos (Some old), m1, st1)
         | None \<Rightarrow>
             (let m2 = UNLOCK_SLOT m1 pos;
                  pos' = next_pos pos
              in if pos' \<noteq> slot_of hash then set_loop m2 st1 hash entry pos'
                 else Some (NoSlot, m2, st1))
       }
     else Some (Slot pos None, m1, st)
   }"
  by pat_completeness auto
termination
  by (relation "measure (\<lambda>(m, st, hash, entry, pos). probe_left (slot_of hash) pos)")
    (auto intro: probe_left_decreases)

declare set_loop.simps [simp del]

text \<open>The result is the returned boolean and \<open>*old_entry\<close>, initially \<open>NULL\<close>.\<close>

definition set_locked_cache_entry ::
    "CacheEntryHashMap \<Rightarrow> store \<Rightarrow> addr \<Rightarrow>
     (bool \<times> addr option \<times> CacheEntryHashMap \<times> store) option" where
  "set_locked_cache_entry m st entry = do {
     e \<leftarrow> st entry;
     let hash = get_key_hash (e_key e);
     (r, m1, st1) \<leftarrow> set_loop m st hash entry (slot_of hash);
     case r of
       AlreadySet \<Rightarrow> Some (True, None, m1, st1)
     | NoSlot \<Rightarrow> Some (False, None, m1, st1)
     | Slot pos old \<Rightarrow>
         Some (True, old,
           UNLOCK_SLOT (m1\<lparr>mask := (mask m1)(pos := True), hashes := (hashes m1)(pos := hash),
                           entries := (entries m1)(pos := Some entry)\<rparr>) pos, st1)
   }"

section \<open>Walking a map\<close>

text \<open>
  The callback may change the store and its own data \<open>'u\<close>; a result of true takes the entry out
  of the map and leaves its lock with the callback.
\<close>

type_synonym 'u CacheEntryWalkCb = "addr \<Rightarrow> store \<Rightarrow> 'u \<Rightarrow> (bool \<times> store \<times> 'u) option"

definition walk_step ::
    "'u CacheEntryWalkCb \<Rightarrow> nat \<Rightarrow> CacheEntryHashMap \<times> store \<times> 'u \<Rightarrow>
     (CacheEntryHashMap \<times> store \<times> 'u) option" where
  "walk_step callback pos = (\<lambda>(m, st, u). do {
     m1 \<leftarrow> LOCK_SLOT m pos;
     (m2, st2, u2) \<leftarrow>
       (if mask m1 pos then do {
          a \<leftarrow> entries m1 pos;
          st1 \<leftarrow> LOCK_ENTRY st a;
          (unset, st2, u2) \<leftarrow> callback a st1 u;
          if unset then Some (unset_slot m1 pos, st2, u2)
          else do { st3 \<leftarrow> UNLOCK_ENTRY st2 a; Some (m1, st3, u2) }
        } else Some (m1, st, u));
     Some (UNLOCK_SLOT m2 pos, st2, u2)
   })"

fun walk_loop ::
    "'u CacheEntryWalkCb \<Rightarrow> nat \<Rightarrow> nat \<Rightarrow> CacheEntryHashMap \<times> store \<times> 'u \<Rightarrow>
     (CacheEntryHashMap \<times> store \<times> 'u) option" where
  "walk_loop callback pos 0 s = Some s"
| "walk_loop callback pos (Suc n) s = do {
     s' \<leftarrow> walk_step callback pos s;
     walk_loop callback (pos + 1) n s'
   }"

definition walk_entries ::
    "'u CacheEntryWalkCb \<Rightarrow> CacheEntryHashMap \<times> store \<times> 'u \<Rightarrow>
     (CacheEntryHashMap \<times> store \<times> 'u) option" where
  "walk_entries callback s = walk_loop callback 0 CACHE_ENTRY_MAP_SIZE s"

section \<open>Entry statistics\<close>

text \<open>The fields of one printed line: hits, size, tags, age, time to live, map, key.\<close>

type_synonym stats_line = "u32 \<times> nat \<times> nat \<times> time_t \<times> time_t \<times> nat \<times> u8 list"

definition write_entry_stats_cb :: "time_t \<Rightarrow> nat \<Rightarrow> stats_line list CacheEntryWalkCb" where
  "write_entry_stats_cb now map_index a st lines = do {
     e \<leftarrow> st a;
     let ttl = (if expires e \<noteq> CACHE_EXPIRES_INIT then expires e - now else expires e);
     Some (False, st, lines @ [(nhits e, length (e_value e), length (e_tags e), now - mtime e, ttl,
                                map_index, printed (e_key e))])
   }"

definition write_entry_stats ::
    "time_t \<Rightarrow> (nat \<Rightarrow> CacheEntryHashMap) \<Rightarrow> store \<Rightarrow> nat \<Rightarrow>
     ((nat \<Rightarrow> CacheEntryHashMap) \<times> store \<times> stats_line list) option" where
  "write_entry_stats now maps st nmaps =
     fold_opt (\<lambda>i (maps, st, lines). do {
         (m, st', lines') \<leftarrow> walk_entries (write_entry_stats_cb now i) (maps i, st, lines);
         Some (maps(i := m), st', lines')
       }) [0..<nmaps] (maps, st, [])"

end
