(* ===== verification/Cik_Hash_Map.thy ===== *)
theory Cik_Hash_Map
  imports Cik_Entry
begin

text \<open>
  What the hash maps of \<open>src/src/entry.c\<close> compute. The probing visits the 797 slots in cyclic
  order from the key's home slot; \<open>hm_abs\<close> is the finite map a hash map stands for: the entry of the
  first slot in that order whose occupant has the key. The locks are all free before and after each
  operation, except the entry lock an operation hands to its caller.
\<close>

section \<open>Entry locks in the store\<close>

definition set_guard :: "bool \<Rightarrow> addr \<Rightarrow> store \<Rightarrow> store" where
  "set_guard b a st = (case st a of None \<Rightarrow> st | Some e \<Rightarrow> st(a \<mapsto> e\<lparr>guard := b\<rparr>))"

lemma set_guard_other [simp]: "c \<noteq> a \<Longrightarrow> set_guard b a st c = st c"
  by (auto simp: set_guard_def split: option.splits)

lemma set_guard_same: "st a = Some e \<Longrightarrow> set_guard b a st a = Some (e\<lparr>guard := b\<rparr>)"
  by (simp add: set_guard_def)

lemma dom_set_guard [simp]: "dom (set_guard b a st) = dom st"
  by (auto simp: set_guard_def split: option.splits)

lemma set_guard_set_guard [simp]: "set_guard b a (set_guard c a st) = set_guard b a st"
  by (auto simp: set_guard_def fun_eq_iff split: option.splits)

lemma set_guard_idem: "st a = Some e \<Longrightarrow> guard e = b \<Longrightarrow> set_guard b a st = st"
  by (cases e) (auto simp: set_guard_def fun_eq_iff)

lemma LOCK_ENTRY_eq:
  "st a = Some e \<Longrightarrow> \<not> guard e \<Longrightarrow> LOCK_ENTRY st a = Some (set_guard True a st)"
  by (simp add: LOCK_ENTRY_def set_guard_def)

lemma UNLOCK_ENTRY_eq: "st a = Some e \<Longrightarrow> UNLOCK_ENTRY st a = Some (set_guard False a st)"
  by (simp add: UNLOCK_ENTRY_def set_guard_def)

definition entry_key :: "store \<Rightarrow> addr \<Rightarrow> u8 list option" where
  "entry_key st a = map_option e_key (st a)"

lemma entry_key_set_guard [simp]: "entry_key (set_guard b a st) = entry_key st"
  by (auto simp: entry_key_def set_guard_def fun_eq_iff split: option.splits)

section \<open>Well-formed maps\<close>

definition slot_key :: "CacheEntryHashMap \<Rightarrow> store \<Rightarrow> nat \<Rightarrow> u8 list option" where
  "slot_key m st pos = (if mask m pos then Option.bind (entries m pos) (entry_key st) else None)"

definition map_ok :: "CacheEntryHashMap \<Rightarrow> store \<Rightarrow> bool" where
  "map_ok m st \<longleftrightarrow>
     (\<forall>p < CACHE_ENTRY_MAP_SIZE. \<not> guards m p) \<and>
     (\<forall>p < CACHE_ENTRY_MAP_SIZE. mask m p \<longrightarrow>
        (\<exists>a e. entries m p = Some a \<and> st a = Some e \<and> hashes m p = get_key_hash (e_key e))) \<and>
     (\<forall>p < CACHE_ENTRY_MAP_SIZE. \<forall>q < CACHE_ENTRY_MAP_SIZE.
        mask m p \<longrightarrow> mask m q \<longrightarrow> entries m p = entries m q \<longrightarrow> p = q)"

definition occupants :: "CacheEntryHashMap \<Rightarrow> addr set" where
  "occupants m = {a. \<exists>p < CACHE_ENTRY_MAP_SIZE. mask m p \<and> entries m p = Some a}"

definition unlocked :: "store \<Rightarrow> addr set \<Rightarrow> bool" where
  "unlocked st A \<longleftrightarrow> (\<forall>a \<in> A. \<forall>e. st a = Some e \<longrightarrow> \<not> guard e)"

lemma slot_key_set_guard [simp]: "slot_key m (set_guard b a st) = slot_key m st"
  by (simp add: slot_key_def fun_eq_iff)

lemma map_ok_set_guard [simp]: "map_ok m (set_guard b a st) = map_ok m st"
proof -
  have "(\<exists>e. set_guard b a st c = Some e \<and> h = get_key_hash (e_key e)) \<longleftrightarrow>
      (\<exists>e. st c = Some e \<and> h = get_key_hash (e_key e))" for c h
    by (cases "c = a"; cases "st a") (auto simp: set_guard_def)
  then show ?thesis by (simp add: map_ok_def)
qed

lemma map_okD:
  assumes "map_ok m st" and "p < CACHE_ENTRY_MAP_SIZE"
  shows "\<not> guards m p"
    and "mask m p \<Longrightarrow> \<exists>a e. entries m p = Some a \<and> st a = Some e \<and> hashes m p = get_key_hash (e_key e)"
  using assms by (auto simp: map_ok_def)

lemma map_ok_inj:
  "map_ok m st \<Longrightarrow> p < CACHE_ENTRY_MAP_SIZE \<Longrightarrow> q < CACHE_ENTRY_MAP_SIZE \<Longrightarrow>
   mask m p \<Longrightarrow> mask m q \<Longrightarrow> entries m p = entries m q \<Longrightarrow> p = q"
  by (simp add: map_ok_def)

lemma slot_relock:
  assumes "\<not> guards m p"
  shows "LOCK_SLOT m p = Some (m\<lparr>guards := (guards m)(p := True)\<rparr>)"
    and "UNLOCK_SLOT (m\<lparr>guards := (guards m)(p := True)\<rparr>) p = m"
  using assms by (simp_all add: LOCK_SLOT_def UNLOCK_SLOT_def fun_upd_idem)

section \<open>The probe sequence\<close>

definition probe_seq :: "nat \<Rightarrow> nat list" where
  "probe_seq slot = map (\<lambda>i. (slot + i) mod CACHE_ENTRY_MAP_SIZE) [0..<CACHE_ENTRY_MAP_SIZE]"

definition home :: "u8 list \<Rightarrow> nat" where
  "home key = slot_of (get_key_hash key)"

lemma home_less [simp]: "home key < CACHE_ENTRY_MAP_SIZE"
  by (simp add: home_def)

lemma length_probe_seq [simp]: "length (probe_seq s) = CACHE_ENTRY_MAP_SIZE"
  by (simp add: probe_seq_def)

lemma next_pos_probe:
  "s < CACHE_ENTRY_MAP_SIZE \<Longrightarrow>
   next_pos ((s + i) mod CACHE_ENTRY_MAP_SIZE) = (s + Suc i) mod CACHE_ENTRY_MAP_SIZE"
proof -
  have "(s + i) mod CACHE_ENTRY_MAP_SIZE < CACHE_ENTRY_MAP_SIZE" by simp
  then consider "(s + i) mod CACHE_ENTRY_MAP_SIZE + 1 = CACHE_ENTRY_MAP_SIZE"
    | "(s + i) mod CACHE_ENTRY_MAP_SIZE + 1 < CACHE_ENTRY_MAP_SIZE"
    by linarith
  then show ?thesis by cases (simp_all add: next_pos_def mod_Suc)
qed

lemma probe_inj:
  assumes "i < CACHE_ENTRY_MAP_SIZE" "j < CACHE_ENTRY_MAP_SIZE"
    and "(s + i) mod CACHE_ENTRY_MAP_SIZE = (s + j) mod CACHE_ENTRY_MAP_SIZE"
  shows "i = j"
proof -
  have "a = b" if "a \<le> b" "b < CACHE_ENTRY_MAP_SIZE"
      "(s + b) mod CACHE_ENTRY_MAP_SIZE = (s + a) mod CACHE_ENTRY_MAP_SIZE" for a b
  proof -
    have "CACHE_ENTRY_MAP_SIZE dvd (s + b) - (s + a)"
      using that by (subst mod_eq_dvd_iff_nat [symmetric]) auto
    then have "CACHE_ENTRY_MAP_SIZE dvd b - a" by simp
    then show ?thesis using that by (cases "b - a = 0") (auto dest!: dvd_imp_le)
  qed
  from this [of i j] this [of j i] show ?thesis using assms by (metis nat_le_linear)
qed

lemma distinct_probe_seq: "distinct (probe_seq s)"
  by (auto simp: probe_seq_def distinct_map inj_on_def intro: probe_inj)

lemma set_probe_seq: "set (probe_seq s) = {..<CACHE_ENTRY_MAP_SIZE}"
proof (rule card_subset_eq)
  show "set (probe_seq s) \<subseteq> {..<CACHE_ENTRY_MAP_SIZE}" by (auto simp: probe_seq_def)
  show "card (set (probe_seq s)) = card {..<CACHE_ENTRY_MAP_SIZE}"
    by (simp add: distinct_card [OF distinct_probe_seq])
qed simp

lemma drop_probe_seq:
  "i < CACHE_ENTRY_MAP_SIZE \<Longrightarrow>
   drop i (probe_seq s) = (s + i) mod CACHE_ENTRY_MAP_SIZE # drop (Suc i) (probe_seq s)"
  by (subst Cons_nth_drop_Suc [symmetric]) (simp_all add: probe_seq_def)

section \<open>Lookup\<close>

definition find_key :: "CacheEntryHashMap \<Rightarrow> store \<Rightarrow> u8 list \<Rightarrow> nat option" where
  "find_key m st key = find (\<lambda>p. slot_key m st p = Some key) (probe_seq (home key))"

definition hm_abs :: "CacheEntryHashMap \<Rightarrow> store \<Rightarrow> u8 list \<rightharpoonup> addr" where
  "hm_abs m st key = Option.bind (find_key m st key) (entries m)"

text \<open>One iteration of the probing, in a well-formed map whose entries are unlocked: the hash test
  never hides an occupant with the right key.\<close>

lemma match_locked_eq:
  assumes ok: "map_ok m st" and un: "unlocked st (occupants m)" and p: "p < CACHE_ENTRY_MAP_SIZE"
  shows "match_locked (m\<lparr>guards := g\<rparr>) st (get_key_hash key) key p =
    (if slot_key m st p = Some key
     then Some (entries m p, set_guard True (the (entries m p)) st) else Some (None, st))"
proof (cases "mask m p")
  case True
  then obtain a e where ae: "entries m p = Some a" "st a = Some e" "hashes m p = get_key_hash (e_key e)"
    using map_okD(2) [OF ok p] by auto
  have ng: "\<not> guard e"
    using un ae p True by (auto simp: unlocked_def occupants_def)
  have key: "slot_key m st p = Some (e_key e)"
    using True ae by (simp add: slot_key_def entry_key_def)
  show ?thesis
    using True ae ng key
    by (simp add: match_locked_def LOCK_ENTRY_eq set_guard_same UNLOCK_ENTRY_eq [where e = "e\<lparr>guard := True\<rparr>"]
        set_guard_idem)
qed (simp add: match_locked_def slot_key_def)

lemma slot_relock':
  assumes "map_ok m st" "p < CACHE_ENTRY_MAP_SIZE"
  shows "LOCK_SLOT m p = Some (m\<lparr>guards := (guards m)(p := True)\<rparr>)"
    and "UNLOCK_SLOT (m\<lparr>guards := (guards m)(p := True)\<rparr>) p = m"
  using slot_relock map_okD(1) [OF assms] by auto

lemma lock_and_get_loop_eq:
  assumes ok: "map_ok m st" and un: "unlocked st (occupants m)"
    and i: "i < CACHE_ENTRY_MAP_SIZE" and pos: "pos = (home key + i) mod CACHE_ENTRY_MAP_SIZE"
  shows "lock_and_get_loop m st (get_key_hash key) key pos =
    (case find (\<lambda>p. slot_key m st p = Some key) (drop i (probe_seq (home key))) of
       None \<Rightarrow> Some (None, m, st)
     | Some p \<Rightarrow> Some (entries m p, m, set_guard True (the (entries m p)) st))"
  using i pos
proof (induction "CACHE_ENTRY_MAP_SIZE - i" arbitrary: i pos rule: less_induct)
  case less
  let ?h = "get_key_hash key"
  have p: "pos < CACHE_ENTRY_MAP_SIZE" using less.prems by simp
  note re = slot_relock' [OF ok p] and ml = match_locked_eq [OF ok un p]
  have nxt: "next_pos pos = (home key + Suc i) mod CACHE_ENTRY_MAP_SIZE"
    using less.prems by (simp add: next_pos_probe)
  have dr: "drop i (probe_seq (home key)) = pos # drop (Suc i) (probe_seq (home key))"
    using less.prems by (simp add: drop_probe_seq)
  show ?case
  proof (cases "slot_key m st pos = Some key")
    case True
    then have "entries m pos \<noteq> None" by (auto simp: slot_key_def bind_eq_Some_conv split: if_splits)
    with True show ?thesis
      by (subst lock_and_get_loop.simps) (auto simp: re ml dr)
  next
    case False
    show ?thesis
    proof (cases "Suc i < CACHE_ENTRY_MAP_SIZE")
      case True
      then have "next_pos pos \<noteq> slot_of ?h"
        using probe_inj [of "Suc i" 0 "home key"] by (auto simp: nxt home_def)
      moreover have "lock_and_get_loop m st ?h key (next_pos pos) =
          (case find (\<lambda>p. slot_key m st p = Some key) (drop (Suc i) (probe_seq (home key))) of
             None \<Rightarrow> Some (None, m, st)
           | Some p \<Rightarrow> Some (entries m p, m, set_guard True (the (entries m p)) st))"
        using True less.prems nxt by (intro less.hyps) auto
      ultimately show ?thesis
        using False by (subst lock_and_get_loop.simps) (simp add: re ml dr)
    next
      case wrap: False
      then have "Suc i = CACHE_ENTRY_MAP_SIZE" using less.prems by simp
      then have "next_pos pos = slot_of ?h"
        using nxt by (simp add: home_def)
      then show ?thesis
        using False wrap by (subst lock_and_get_loop.simps) (simp add: re ml dr)
    qed
  qed
qed

lemma find_key_SomeD:
  "find_key m st key = Some p \<Longrightarrow> p < CACHE_ENTRY_MAP_SIZE \<and> slot_key m st p = Some key"
  using set_probe_seq [of "home key"] by (auto simp: find_key_def find_Some_iff)

lemma find_key_None:
  "find_key m st key = None \<longleftrightarrow> (\<forall>p < CACHE_ENTRY_MAP_SIZE. slot_key m st p \<noteq> Some key)"
  using set_probe_seq [of "home key"] by (auto simp: find_key_def find_None_iff)

lemma slot_key_SomeE:
  assumes "slot_key m st p = Some key"
  obtains a e where "mask m p" "entries m p = Some a" "st a = Some e" "e_key e = key"
  using assms by (auto simp: slot_key_def entry_key_def bind_eq_Some_conv split: if_splits)

lemma hm_abs_SomeD:
  assumes "hm_abs m st key = Some a"
  shows "a \<in> occupants m \<and> (\<exists>e. st a = Some e \<and> e_key e = key)"
proof -
  obtain p where p: "find_key m st key = Some p" "entries m p = Some a"
    using assms by (auto simp: hm_abs_def bind_eq_Some_conv)
  from find_key_SomeD [OF p(1)] show ?thesis
    using p(2) by (auto simp: occupants_def elim!: slot_key_SomeE)
qed

lemma hm_abs_None: "hm_abs m st key = None \<longleftrightarrow> find_key m st key = None"
  by (cases "find_key m st key") (auto simp: hm_abs_def dest!: find_key_SomeD elim!: slot_key_SomeE)

lemma lock_and_get_eq:
  assumes "map_ok m st" and "unlocked st (occupants m)"
  shows "lock_and_get_cache_entry m st key =
    (case hm_abs m st key of None \<Rightarrow> Some (None, m, st) | Some a \<Rightarrow> Some (Some a, m, set_guard True a st))"
proof -
  have "lock_and_get_cache_entry m st key =
    (case find_key m st key of
       None \<Rightarrow> Some (None, m, st)
     | Some p \<Rightarrow> Some (entries m p, m, set_guard True (the (entries m p)) st))"
    using lock_and_get_loop_eq [OF assms, of 0 _ key]
    by (simp add: lock_and_get_cache_entry_def find_key_def home_def Let_def)
  then show ?thesis
    by (auto simp: hm_abs_def split: option.splits dest!: find_key_SomeD elim!: slot_key_SomeE)
qed

section \<open>Removal\<close>

lemma UNLOCK_unset_slot:
  "\<not> guards m p \<Longrightarrow> UNLOCK_SLOT (unset_slot (m\<lparr>guards := (guards m)(p := True)\<rparr>) p) p = unset_slot m p"
  by (simp add: UNLOCK_SLOT_def unset_slot_def fun_upd_idem)

lemma lock_and_unset_loop_eq:
  assumes ok: "map_ok m st" and un: "unlocked st (occupants m)"
    and i: "i < CACHE_ENTRY_MAP_SIZE" and pos: "pos = (home key + i) mod CACHE_ENTRY_MAP_SIZE"
  shows "lock_and_unset_loop m st (get_key_hash key) key pos =
    (case find (\<lambda>p. slot_key m st p = Some key) (drop i (probe_seq (home key))) of
       None \<Rightarrow> Some (None, m, st)
     | Some p \<Rightarrow> Some (entries m p, unset_slot m p, set_guard True (the (entries m p)) st))"
  using i pos
proof (induction "CACHE_ENTRY_MAP_SIZE - i" arbitrary: i pos rule: less_induct)
  case less
  let ?h = "get_key_hash key"
  have p: "pos < CACHE_ENTRY_MAP_SIZE" using less.prems by simp
  note re = slot_relock' [OF ok p] UNLOCK_unset_slot [OF map_okD(1) [OF ok p]]
    and ml = match_locked_eq [OF ok un p]
  have nxt: "next_pos pos = (home key + Suc i) mod CACHE_ENTRY_MAP_SIZE"
    using less.prems by (simp add: next_pos_probe)
  have dr: "drop i (probe_seq (home key)) = pos # drop (Suc i) (probe_seq (home key))"
    using less.prems by (simp add: drop_probe_seq)
  show ?case
  proof (cases "slot_key m st pos = Some key")
    case True
    then have "entries m pos \<noteq> None" by (auto simp: slot_key_def bind_eq_Some_conv split: if_splits)
    with True show ?thesis
      by (subst lock_and_unset_loop.simps) (auto simp: re ml dr)
  next
    case False
    show ?thesis
    proof (cases "Suc i < CACHE_ENTRY_MAP_SIZE")
      case True
      then have "next_pos pos \<noteq> slot_of ?h"
        using probe_inj [of "Suc i" 0 "home key"] by (auto simp: nxt home_def)
      moreover have "lock_and_unset_loop m st ?h key (next_pos pos) =
          (case find (\<lambda>p. slot_key m st p = Some key) (drop (Suc i) (probe_seq (home key))) of
             None \<Rightarrow> Some (None, m, st)
           | Some p \<Rightarrow> Some (entries m p, unset_slot m p, set_guard True (the (entries m p)) st))"
        using True less.prems nxt by (intro less.hyps) auto
      ultimately show ?thesis
        using False by (subst lock_and_unset_loop.simps) (simp add: re ml dr)
    next
      case wrap: False
      then have "Suc i = CACHE_ENTRY_MAP_SIZE" using less.prems by simp
      then have "next_pos pos = slot_of ?h"
        using nxt by (simp add: home_def)
      then show ?thesis
        using False wrap by (subst lock_and_unset_loop.simps) (simp add: re ml dr)
    qed
  qed
qed

lemma lock_and_unset_eq:
  assumes "map_ok m st" and "unlocked st (occupants m)"
  shows "lock_and_unset_cache_entry m st key =
    (case find_key m st key of None \<Rightarrow> Some (None, m, st)
     | Some p \<Rightarrow> Some (entries m p, unset_slot m p, set_guard True (the (entries m p)) st))"
  using lock_and_unset_loop_eq [OF assms, of 0 _ key]
  by (simp add: lock_and_unset_cache_entry_def find_key_def home_def Let_def)

lemma slot_key_unset: "slot_key (unset_slot m p) st q = (if q = p then None else slot_key m st q)"
  by (simp add: slot_key_def unset_slot_def)

lemma map_ok_unset: "map_ok m st \<Longrightarrow> map_ok (unset_slot m p) st"
  by (auto simp: map_ok_def unset_slot_def)

lemma occupants_unset:
  assumes "map_ok m st" "p < CACHE_ENTRY_MAP_SIZE" "mask m p" "entries m p = Some a"
  shows "occupants (unset_slot m p) = occupants m - {a}"
proof -
  have "(q \<noteq> p \<and> entries m q = Some c) = (c \<noteq> a \<and> entries m q = Some c)"
    if "q < CACHE_ENTRY_MAP_SIZE" "mask m q" for q c
    using map_ok_inj [OF assms(1,2) that(1) assms(3) that(2)] assms(4) by auto
  then show ?thesis
    by (auto simp: occupants_def unset_slot_def)
qed

lemma hm_abs_unset_other:
  assumes "slot_key m st p = Some key" and "key' \<noteq> key"
  shows "hm_abs (unset_slot m p) st key' = hm_abs m st key'"
proof -
  have "(slot_key (unset_slot m p) st q = Some key') = (slot_key m st q = Some key')" for q
    using assms by (simp add: slot_key_unset)
  then have eq: "find_key (unset_slot m p) st key' = find_key m st key'"
    by (simp add: find_key_def)
  show ?thesis
  proof (cases "find_key m st key'")
    case (Some q)
    then have "q \<noteq> p" using assms by (auto dest: find_key_SomeD)
    with Some show ?thesis by (simp add: hm_abs_def eq) (simp add: unset_slot_def)
  qed (simp add: hm_abs_def eq)
qed

definition key_slots :: "CacheEntryHashMap \<Rightarrow> store \<Rightarrow> u8 list \<Rightarrow> nat set" where
  "key_slots m st key = {p. p < CACHE_ENTRY_MAP_SIZE \<and> slot_key m st p = Some key}"

lemma finite_key_slots [simp]: "finite (key_slots m st key)"
  by (simp add: key_slots_def)

lemma key_slots_unset: "key_slots (unset_slot m p) st key = key_slots m st key - {p}"
  by (auto simp: key_slots_def slot_key_unset)

lemma key_slots_empty: "key_slots m st key = {} \<longleftrightarrow> hm_abs m st key = None"
  by (auto simp: hm_abs_None find_key_None key_slots_def)

section \<open>Insertion\<close>

definition find_slot :: "CacheEntryHashMap \<Rightarrow> store \<Rightarrow> u8 list \<Rightarrow> nat option" where
  "find_slot m st key = find (\<lambda>p. \<not> mask m p \<or> slot_key m st p = Some key) (probe_seq (home key))"

definition put_slot :: "CacheEntryHashMap \<Rightarrow> nat \<Rightarrow> u32 \<Rightarrow> addr \<Rightarrow> CacheEntryHashMap" where
  "put_slot m p h a = m\<lparr>mask := (mask m)(p := True), hashes := (hashes m)(p := h),
     entries := (entries m)(p := Some a)\<rparr>"

lemma slot_key_put:
  "st a = Some e \<Longrightarrow> slot_key (put_slot m p h a) st q = (if q = p then Some (e_key e) else slot_key m st q)"
  by (simp add: slot_key_def put_slot_def entry_key_def)

lemma find_slot_SomeD:
  "find_slot m st key = Some p \<Longrightarrow>
   p < CACHE_ENTRY_MAP_SIZE \<and> (\<not> mask m p \<or> slot_key m st p = Some key)"
  using set_probe_seq [of "home key"] by (auto simp: find_slot_def find_Some_iff)

lemma find_slot_None:
  "find_slot m st key = None \<longleftrightarrow> (\<forall>p < CACHE_ENTRY_MAP_SIZE. mask m p \<and> slot_key m st p \<noteq> Some key)"
  using set_probe_seq [of "home key"] by (auto simp: find_slot_def find_None_iff)

lemma set_loop_eq:
  assumes ok: "map_ok m st" and un: "unlocked st (occupants m)"
    and a: "st a = Some e" "a \<notin> occupants m"
    and i: "i < CACHE_ENTRY_MAP_SIZE" and pos: "pos = (home (e_key e) + i) mod CACHE_ENTRY_MAP_SIZE"
  shows "set_loop m st (get_key_hash (e_key e)) a pos =
    (case find (\<lambda>p. \<not> mask m p \<or> slot_key m st p = Some (e_key e)) (drop i (probe_seq (home (e_key e)))) of
       None \<Rightarrow> Some (NoSlot, m, st)
     | Some p \<Rightarrow> Some (Slot p (if mask m p then entries m p else None),
                       m\<lparr>guards := (guards m)(p := True)\<rparr>,
                       if mask m p then set_guard True (the (entries m p)) st else st))"
  using i pos
proof (induction "CACHE_ENTRY_MAP_SIZE - i" arbitrary: i pos rule: less_induct)
  case less
  let ?h = "get_key_hash (e_key e)"
  have p: "pos < CACHE_ENTRY_MAP_SIZE" using less.prems by simp
  note re = slot_relock' [OF ok p] and ml = match_locked_eq [OF ok un p]
  have nxt: "next_pos pos = (home (e_key e) + Suc i) mod CACHE_ENTRY_MAP_SIZE"
    using less.prems by (simp add: next_pos_probe)
  have dr: "drop i (probe_seq (home (e_key e))) = pos # drop (Suc i) (probe_seq (home (e_key e)))"
    using less.prems by (simp add: drop_probe_seq)
  have notself: "mask m pos \<Longrightarrow> entries m pos \<noteq> Some a"
    using a(2) p by (auto simp: occupants_def)
  show ?case
  proof (cases "\<not> mask m pos \<or> slot_key m st pos = Some (e_key e)")
    case True
    then have "mask m pos \<Longrightarrow> entries m pos \<noteq> None"
      by (auto simp: slot_key_def bind_eq_Some_conv split: if_splits)
    with True show ?thesis
      using notself a(1) by (subst set_loop.simps) (auto simp: re ml dr)
  next
    case False
    show ?thesis
    proof (cases "Suc i < CACHE_ENTRY_MAP_SIZE")
      case True
      then have "next_pos pos \<noteq> slot_of ?h"
        using probe_inj [of "Suc i" 0 "home (e_key e)"] by (auto simp: nxt home_def)
      moreover have "set_loop m st ?h a (next_pos pos) =
          (case find (\<lambda>p. \<not> mask m p \<or> slot_key m st p = Some (e_key e)) (drop (Suc i) (probe_seq (home (e_key e)))) of
             None \<Rightarrow> Some (NoSlot, m, st)
           | Some p \<Rightarrow> Some (Slot p (if mask m p then entries m p else None),
                       m\<lparr>guards := (guards m)(p := True)\<rparr>,
                       if mask m p then set_guard True (the (entries m p)) st else st))"
        using True less.prems nxt by (intro less.hyps) auto
      ultimately show ?thesis
        using False notself a(1) by (subst set_loop.simps) (simp add: re ml dr)
    next
      case wrap: False
      then have "Suc i = CACHE_ENTRY_MAP_SIZE" using less.prems by simp
      then have "next_pos pos = slot_of ?h"
        using nxt by (simp add: home_def)
      then show ?thesis
        using False wrap notself a(1) by (subst set_loop.simps) (simp add: re ml dr)
    qed
  qed
qed

lemma set_locked_eq:
  assumes ok: "map_ok m st" and un: "unlocked st (occupants m)"
    and a: "st a = Some e" "a \<notin> occupants m"
  shows "set_locked_cache_entry m st a =
    (case find_slot m st (e_key e) of
       None \<Rightarrow> Some (False, None, m, st)
     | Some p \<Rightarrow> Some (True, if mask m p then entries m p else None,
                       put_slot m p (get_key_hash (e_key e)) a,
                       if mask m p then set_guard True (the (entries m p)) st else st))"
proof -
  have "\<not> guards m p" if "find_slot m st (e_key e) = Some p" for p
    using find_slot_SomeD [OF that] map_okD(1) [OF ok] by auto
  then show ?thesis
    using set_loop_eq [OF ok un a, of 0] a(1)
    by (auto simp: set_locked_cache_entry_def find_slot_def home_def Let_def put_slot_def
        UNLOCK_SLOT_def fun_upd_idem split: option.splits)
qed

lemma find_first_SomeI:
  assumes "i < length xs" "P (xs ! i)" "\<And>j. j < i \<Longrightarrow> \<not> P (xs ! j)"
  shows "find P xs = Some (xs ! i)"
  using assms by (auto simp: find_Some_iff)

lemma hm_abs_put:
  assumes a: "st a = Some e" and p: "find_slot m st (e_key e) = Some p"
  shows "hm_abs (put_slot m p h a) st = (hm_abs m st)(e_key e \<mapsto> a)"
proof (rule ext)
  fix k
  have slot: "\<not> mask m p \<or> slot_key m st p = Some (e_key e)"
    using find_slot_SomeD [OF p] by simp
  show "hm_abs (put_slot m p h a) st k = ((hm_abs m st)(e_key e \<mapsto> a)) k"
  proof (cases "k = e_key e")
    case True
    obtain i where i: "i < CACHE_ENTRY_MAP_SIZE" "probe_seq (home k) ! i = p"
      "\<forall>j < i. mask m (probe_seq (home k) ! j) \<and> slot_key m st (probe_seq (home k) ! j) \<noteq> Some k"
      using p True by (auto simp: find_slot_def find_Some_iff)
    have "probe_seq (home k) ! j \<noteq> p" if "j < i" for j
      using that i distinct_probe_seq [of "home k"] by (auto simp: distinct_conv_nth)
    then have "find_key (put_slot m p h a) st k = Some (probe_seq (home k) ! i)"
      unfolding find_key_def using i True
      by (intro find_first_SomeI) (auto simp: slot_key_put [where st = st and a = a, OF a])
    then show ?thesis
      using True i by (simp add: hm_abs_def) (simp add: put_slot_def)
  next
    case False
    have "(slot_key (put_slot m p h a) st q = Some k) = (slot_key m st q = Some k)" for q
      using slot False by (auto simp: slot_key_put [where st = st and a = a, OF a]) (simp add: slot_key_def)
    then have eq: "find_key (put_slot m p h a) st k = find_key m st k"
      by (simp add: find_key_def)
    show ?thesis
    proof (cases "find_key m st k")
      case (Some q)
      then have "q \<noteq> p"
        using slot False by (auto dest!: find_key_SomeD elim!: slot_key_SomeE simp: slot_key_def entry_key_def)
      with Some False show ?thesis
        by (simp add: hm_abs_def eq) (simp add: put_slot_def)
    qed (simp add: hm_abs_def eq False)
  qed
qed

lemma map_ok_put:
  assumes ok: "map_ok m st" and a: "st a = Some e" "a \<notin> occupants m"
  shows "map_ok (put_slot m p (get_key_hash (e_key e)) a) st"
proof -
  let ?m = "put_slot m p (get_key_hash (e_key e)) a"
  have new: "entries m q \<noteq> Some a" if "q < CACHE_ENTRY_MAP_SIZE" "mask m q" for q
    using a(2) that by (auto simp: occupants_def)
  have at: "mask ?m q = (q = p \<or> mask m q)" "entries ?m q = (if q = p then Some a else entries m q)"
    "hashes ?m q = (if q = p then get_key_hash (e_key e) else hashes m q)" "guards ?m q = guards m q" for q
    by (auto simp: put_slot_def)
  have "\<exists>c f. entries ?m q = Some c \<and> st c = Some f \<and> hashes ?m q = get_key_hash (e_key f)"
    if "q < CACHE_ENTRY_MAP_SIZE" "mask ?m q" for q
    using that ok a(1) unfolding map_ok_def at by (cases "q = p") auto
  moreover have "q = r" if "q < CACHE_ENTRY_MAP_SIZE" "r < CACHE_ENTRY_MAP_SIZE" "mask ?m q" "mask ?m r"
    "entries ?m q = entries ?m r" for q r
    using that new map_ok_inj [OF ok] unfolding at by (metis (full_types))
  ultimately show ?thesis
    using ok unfolding map_ok_def at by blast
qed

lemma occupants_put:
  assumes ok: "map_ok m st" and p: "p < CACHE_ENTRY_MAP_SIZE"
  shows "occupants (put_slot m p h a) =
    insert a (occupants m - (if mask m p then set_option (entries m p) else {}))"
proof (cases "mask m p")
  case True
  have "(q \<noteq> p \<and> entries m q = Some c) = (entries m p \<noteq> Some c \<and> entries m q = Some c)"
    if "q < CACHE_ENTRY_MAP_SIZE" "mask m q" for q c
    using map_ok_inj [OF ok p that(1) True that(2)] by auto
  then show ?thesis
    using p True by (auto simp: occupants_def put_slot_def)
next
  case False
  have "(q = p \<longrightarrow> \<not> mask m q)" for q using False by simp
  then show ?thesis
    using p False by (auto simp: occupants_def put_slot_def)
qed

end
