(* ===== verification/Cik_Map_Laws.thy ===== *)
theory Cik_Map_Laws
  imports Cik_Hash_Map
begin

text \<open>
  The contract of the entry index: the locale \<open>entry_index\<close> says what a client of
  \<open>src/src/entry.c\<close> may rely on (lookup, insertion, removal and the lock handed over), its lemmas
  are the client's view, and the interpretation \<open>hm\<close> discharges the contract for the hash maps of
  the code. The walk over a map is related to the list of its occupants.
\<close>

section \<open>The interface\<close>

text \<open>
  \<open>look\<close> is the abstract map, \<open>copies\<close> the number of slots that hold a key (shadowed ones
  included), \<open>fresh s k a\<close> that \<open>a\<close> is an entry with key \<open>k\<close> the index does not hold.
\<close>

locale entry_index =
  fixes ok :: "'s \<Rightarrow> bool"
    and look :: "'s \<Rightarrow> 'k \<Rightarrow> 'a option"
    and copies :: "'s \<Rightarrow> 'k \<Rightarrow> nat"
    and fresh :: "'s \<Rightarrow> 'k \<Rightarrow> 'a \<Rightarrow> bool"
    and unlock :: "'s \<Rightarrow> 'a option \<Rightarrow> 's"
    and get :: "'s \<Rightarrow> 'k \<Rightarrow> ('a option \<times> 's) option"
    and unset :: "'s \<Rightarrow> 'k \<Rightarrow> ('a option \<times> 's) option"
    and put :: "'s \<Rightarrow> 'a \<Rightarrow> (bool \<times> 'a option \<times> 's) option"
  assumes copies_0: "ok s \<Longrightarrow> copies s k = 0 \<longleftrightarrow> look s k = None"
    and get_law: "ok s \<Longrightarrow> \<exists>s'. get s k = Some (look s k, s') \<and> unlock s' (look s k) = s"
    and unset_law: "ok s \<Longrightarrow> \<exists>s'. unset s k = Some (look s k, s') \<and> ok (unlock s' (look s k)) \<and>
        (look s k = None \<longrightarrow> unlock s' (look s k) = s) \<and>
        (look s k \<noteq> None \<longrightarrow> copies s k = Suc (copies (unlock s' (look s k)) k)) \<and>
        (\<forall>k'. k' \<noteq> k \<longrightarrow> look (unlock s' (look s k)) k' = look s k')"
    and put_law: "ok s \<Longrightarrow> fresh s k a \<Longrightarrow>
        (\<exists>old s'. put s a = Some (True, old, s') \<and>
           (let s'' = unlock (unlock s' old) (Some a) in ok s'' \<and> look s'' = (look s)(k \<mapsto> a))) \<or>
        (put s a = Some (False, None, s) \<and> look s k = None)"
begin

text \<open>Taking every copy of a key out, as a deletion does: one removal per copy.\<close>

fun drain :: "nat \<Rightarrow> 's \<Rightarrow> 'k \<Rightarrow> 's option" where
  "drain 0 s k = None"
| "drain (Suc n) s k =
     (case unset s k of
        None \<Rightarrow> None
      | Some (None, s') \<Rightarrow> Some (unlock s' None)
      | Some (Some a, s') \<Rightarrow> drain n (unlock s' (Some a)) k)"

lemma get_after_put:
  assumes "ok s" "fresh s k a" "put s a = Some (True, old, s')"
  shows "\<exists>s1. get (unlock (unlock s' old) (Some a)) k' =
    Some (if k' = k then Some a else look s k', s1)"
proof -
  let ?s = "unlock (unlock s' old) (Some a)"
  have "ok ?s" and l: "look ?s = (look s)(k \<mapsto> a)"
    using put_law [OF assms(1,2)] assms(3) by (auto simp: Let_def)
  from get_law [OF this(1), of k'] show ?thesis
    by (auto simp: l)
qed

lemma put_fails:
  assumes "ok s" "fresh s k a" "put s a = Some (False, old, s')"
  shows "s' = s \<and> old = None \<and> look s k = None"
  using put_law [OF assms(1,2)] assms(3) by auto

lemma drain_total:
  assumes "ok s" "copies s k < n"
  shows "\<exists>s'. drain n s k = Some s' \<and> ok s' \<and> look s' = (look s)(k := None)"
  using assms
proof (induction n arbitrary: s)
  case (Suc n)
  obtain s' where s': "unset s k = Some (look s k, s')" "ok (unlock s' (look s k))"
    "look s k = None \<longrightarrow> unlock s' (look s k) = s"
    "look s k \<noteq> None \<longrightarrow> copies s k = Suc (copies (unlock s' (look s k)) k)"
    "\<forall>k'. k' \<noteq> k \<longrightarrow> look (unlock s' (look s k)) k' = look s k'"
    using unset_law [OF Suc.prems(1), of k] by (elim exE conjE) (rule that)
  show ?case
  proof (cases "look s k")
    case None
    then show ?thesis using s' Suc.prems(1) by (auto simp: fun_eq_iff)
  next
    case (Some a)
    with s' Suc.prems(2) have "copies (unlock s' (Some a)) k < n" by simp
    from Suc.IH [OF _ this] Some s' show ?thesis by (auto simp: fun_eq_iff)
  qed
qed simp

end

section \<open>The hash maps provide it\<close>

type_synonym hstate = "CacheEntryHashMap \<times> store"

definition hm_ok :: "hstate \<Rightarrow> bool" where
  "hm_ok s \<longleftrightarrow> (case s of (m, st) \<Rightarrow> map_ok m st \<and> unlocked st (occupants m))"

definition hm_look :: "hstate \<Rightarrow> u8 list \<rightharpoonup> addr" where
  "hm_look s = (case s of (m, st) \<Rightarrow> hm_abs m st)"

definition hm_copies :: "hstate \<Rightarrow> u8 list \<Rightarrow> nat" where
  "hm_copies s key = (case s of (m, st) \<Rightarrow> card (key_slots m st key))"

definition hm_fresh :: "hstate \<Rightarrow> u8 list \<Rightarrow> addr \<Rightarrow> bool" where
  "hm_fresh s key a \<longleftrightarrow> (case s of (m, st) \<Rightarrow> (\<exists>e. st a = Some e \<and> e_key e = key) \<and> a \<notin> occupants m)"

definition hm_unlock :: "hstate \<Rightarrow> addr option \<Rightarrow> hstate" where
  "hm_unlock s r = (case s of (m, st) \<Rightarrow> (m, case r of None \<Rightarrow> st | Some a \<Rightarrow> set_guard False a st))"

lemma hm_abs_set_guard [simp]: "hm_abs m (set_guard b a st) = hm_abs m st"
  by (simp add: hm_abs_def find_key_def fun_eq_iff)

lemma key_slots_set_guard [simp]: "key_slots m (set_guard b a st) = key_slots m st"
  by (simp add: key_slots_def fun_eq_iff)

lemma unlocked_set_guard:
  "unlocked st (A - {a}) \<Longrightarrow> unlocked (set_guard False a st) A"
proof -
  assume u: "unlocked st (A - {a})"
  have "\<not> guard e" if "c \<in> A" "set_guard False a st c = Some e" for c e
    using u that by (cases "c = a") (auto simp: unlocked_def set_guard_def split: option.splits)
  then show ?thesis by (auto simp: unlocked_def)
qed

lemma relock_id: "unlocked st A \<Longrightarrow> a \<in> A \<Longrightarrow> set_guard False a st = st"
  by (cases "st a") (auto simp: unlocked_def set_guard_idem, auto simp: set_guard_def)

lemma unlocked_mono: "unlocked st A \<Longrightarrow> B \<subseteq> A \<Longrightarrow> unlocked st B"
  by (auto simp: unlocked_def)

lemma find_slot_at_key:
  assumes ok: "map_ok m st" and p: "find_slot m st key = Some p" and mp: "mask m p"
  shows "p < CACHE_ENTRY_MAP_SIZE \<and> entries m p \<noteq> None \<and> set_option (entries m p) \<subseteq> occupants m"
  using find_slot_SomeD [OF p] mp by (auto simp: occupants_def elim!: slot_key_SomeE)

lemma put_slot_ok:
  assumes ok: "hm_ok (m, st)" and a: "st a = Some e" "a \<notin> occupants m"
    and p: "find_slot m st (e_key e) = Some p"
  shows "hm_ok (put_slot m p (get_key_hash (e_key e)) a, set_guard False a st)"
proof -
  let ?m = "put_slot m p (get_key_hash (e_key e)) a"
  have pl: "p < CACHE_ENTRY_MAP_SIZE" using find_slot_SomeD [OF p] by simp
  have mok: "map_ok m st" and un: "unlocked st (occupants m)" using ok by (auto simp: hm_ok_def)
  have "occupants ?m - {a} \<subseteq> occupants m"
    by (auto simp: occupants_put [OF mok pl])
  then show ?thesis
    using map_ok_put [OF mok a] unlocked_set_guard [OF unlocked_mono [OF un]] by (simp add: hm_ok_def)
qed

interpretation hm: entry_index hm_ok hm_look hm_copies hm_fresh hm_unlock
  "\<lambda>s k. lock_and_get_cache_entry (fst s) (snd s) k"
  "\<lambda>s k. lock_and_unset_cache_entry (fst s) (snd s) k"
  "\<lambda>s a. set_locked_cache_entry (fst s) (snd s) a"
proof (unfold_locales, goal_cases)
  case (1 s k)
  then show ?case
    by (cases s) (simp add: hm_copies_def hm_look_def key_slots_empty)
next
  case (2 s k)
  obtain m st where s: "s = (m, st)" by (cases s)
  have "map_ok m st" and un: "unlocked st (occupants m)" using 2 by (auto simp: hm_ok_def s)
  then show ?case
    using lock_and_get_eq [of m st k] hm_abs_SomeD [of m st k]
    by (cases "hm_abs m st k") (auto simp: s hm_look_def hm_unlock_def relock_id)
next
  case (3 s k)
  obtain m st where s: "s = (m, st)" by (cases s)
  have ok: "map_ok m st" and un: "unlocked st (occupants m)" using 3 by (auto simp: hm_ok_def s)
  note eq = lock_and_unset_eq [OF ok un, of k]
  show ?case
  proof (cases "find_key m st k")
    case None
    then show ?thesis
      using eq 3 hm_abs_None [of m st k] by (simp add: s hm_look_def hm_unlock_def)
  next
    case (Some p)
    then have p: "p < CACHE_ENTRY_MAP_SIZE" "slot_key m st p = Some k" using find_key_SomeD by auto
    then obtain a e where a: "mask m p" "entries m p = Some a" "st a = Some e" "e_key e = k"
      by (auto elim: slot_key_SomeE)
    have "a \<in> occupants m" using p a by (auto simp: occupants_def)
    moreover have "hm_ok (unset_slot m p, st)"
      using map_ok_unset [OF ok] unlocked_mono [OF un] occupants_unset [OF ok p(1) a(1,2)]
      by (auto simp: hm_ok_def)
    moreover have "card (key_slots m st k) = Suc (card (key_slots (unset_slot m p) st k))"
      unfolding key_slots_unset using p by (subst card_Suc_Diff1) (auto simp: key_slots_def)
    ultimately show ?thesis
      using Some eq a hm_abs_unset_other [OF p(2)]
      by (auto simp: s hm_look_def hm_unlock_def hm_abs_def relock_id [OF un] hm_copies_def)
  qed
next
  case (4 s k a)
  obtain m st where s: "s = (m, st)" by (cases s)
  have ok: "map_ok m st" and un: "unlocked st (occupants m)" using 4 by (auto simp: hm_ok_def s)
  obtain e where a: "st a = Some e" "a \<notin> occupants m" and k: "e_key e = k"
    using 4 by (auto simp: hm_fresh_def s)
  note eq = set_locked_eq [OF ok un a]
  show ?case
  proof (cases "find_slot m st k")
    case None
    then have "hm_abs m st k = None"
      by (simp add: hm_abs_None find_key_None find_slot_None)
    then show ?thesis
      using eq None by (simp add: k s hm_look_def)
  next
    case (Some p)
    let ?m = "put_slot m p (get_key_hash k) a"
    have same: "hm_unlock (hm_unlock (?m, if mask m p then set_guard True (the (entries m p)) st else st)
        (if mask m p then entries m p else None)) (Some a) = (?m, set_guard False a st)"
      using find_slot_at_key [OF ok Some] relock_id [OF un] by (auto simp: hm_unlock_def)
    have "hm_ok (?m, set_guard False a st)"
      using put_slot_ok [of m st a e p] 4(1) a Some k s by simp
    moreover have "hm_look (?m, set_guard False a st) = (hm_look s)(k \<mapsto> a)"
      using hm_abs_put [where st = st and a = a, OF a(1)] Some k by (simp add: hm_look_def s)
    ultimately have "hm_ok (?m, set_guard False a st) \<and> hm_look (?m, set_guard False a st) = (hm_look s)(k \<mapsto> a)" ..
    then show ?thesis
      unfolding Let_def using eq Some k same by (intro disjI1) (simp add: s)
  qed
qed

section \<open>Walking\<close>

text \<open>The occupants in slot order, and the rule for a walk: a property the callback keeps at every
  occupied slot holds at the end, and the walk ends.\<close>

fun opt_list :: "'a option \<Rightarrow> 'a list" where
  "opt_list None = []"
| "opt_list (Some a) = [a]"

fun entries_upto :: "CacheEntryHashMap \<Rightarrow> nat \<Rightarrow> addr list" where
  "entries_upto m 0 = []"
| "entries_upto m (Suc n) = entries_upto m n @ (if mask m n then opt_list (entries m n) else [])"

definition slot_entries :: "CacheEntryHashMap \<Rightarrow> addr list" where
  "slot_entries m = entries_upto m CACHE_ENTRY_MAP_SIZE"

lemma set_entries_upto: "set (entries_upto m n) = {a. \<exists>p < n. mask m p \<and> entries m p = Some a}"
proof (induction n)
  case (Suc n)
  have "{a. \<exists>p < Suc n. mask m p \<and> entries m p = Some a} =
      {a. \<exists>p < n. mask m p \<and> entries m p = Some a} \<union> {a. mask m n \<and> entries m n = Some a}"
    using less_Suc_eq by blast
  with Suc show ?case by (cases "entries m n") auto
qed simp

lemma set_slot_entries: "set (slot_entries m) = occupants m"
  by (simp add: slot_entries_def set_entries_upto occupants_def)

lemma distinct_slot_entries:
  assumes "map_ok m st"
  shows "distinct (slot_entries m)"
proof -
  have "distinct (entries_upto m n)" if "n \<le> CACHE_ENTRY_MAP_SIZE" for n
    using that
  proof (induction n)
    case (Suc n)
    have "entries m p \<noteq> entries m n" if "mask m n" "p < n" "mask m p" for p
      using map_ok_inj [OF assms, of n p] that Suc.prems by auto
    then have "a \<notin> set (entries_upto m n)" if "mask m n" "entries m n = Some a" for a
      using that by (fastforce simp: set_entries_upto)
    with Suc show ?case
      by (cases "entries m n") simp_all
  qed simp
  then show ?thesis by (simp add: slot_entries_def)
qed

lemma walk_loop_rule:
  assumes step: "\<And>p s. pos \<le> p \<Longrightarrow> p < pos + n \<Longrightarrow> I p s \<Longrightarrow> \<exists>s'. walk_step callback p s = Some s' \<and> I (Suc p) s'"
    and "I pos s"
  shows "\<exists>s'. walk_loop callback pos n s = Some s' \<and> I (pos + n) s'"
  using assms
proof (induction n arbitrary: pos s)
  case (Suc n)
  obtain s1 where s1: "walk_step callback pos s = Some s1" "I (Suc pos) s1"
    using Suc.prems(1) [of pos s] Suc.prems(2) by auto
  have "\<exists>s'. walk_loop callback (Suc pos) n s1 = Some s' \<and> I (Suc pos + n) s'"
    using Suc.prems(1) s1(2) by (intro Suc.IH) auto
  with s1(1) show ?case by simp
qed simp

lemma walk_entries_rule:
  assumes "\<And>p s. p < CACHE_ENTRY_MAP_SIZE \<Longrightarrow> I p s \<Longrightarrow> \<exists>s'. walk_step callback p s = Some s' \<and> I (Suc p) s'"
    and "I 0 s"
  shows "\<exists>s'. walk_entries callback s = Some s' \<and> I CACHE_ENTRY_MAP_SIZE s'"
  using walk_loop_rule [of 0 CACHE_ENTRY_MAP_SIZE I callback s] assms by (simp add: walk_entries_def)

text \<open>A callback that only reads its entry (it may look at the locked entry and extend its own data).\<close>

lemma walk_entries_read:
  assumes ok: "hm_ok (m, st)"
    and cb: "\<And>a e u. st a = Some e \<Longrightarrow> callback a (set_guard True a st) u = Some (False, set_guard True a st, f a u)"
  shows "walk_entries callback (m, st, u) = Some (m, st, fold f (slot_entries m) u)"
proof -
  have mok: "map_ok m st" and un: "unlocked st (occupants m)" using ok by (auto simp: hm_ok_def)
  let ?I = "\<lambda>p s. s = (m, st, fold f (entries_upto m p) u)"
  have "\<exists>s'. walk_step callback p s = Some s' \<and> ?I (Suc p) s'"
    if p: "p < CACHE_ENTRY_MAP_SIZE" and I: "?I p s" for p s
  proof (cases "mask m p")
    case False
    then show ?thesis using slot_relock' [OF mok p] I by (simp add: walk_step_def)
  next
    case True
    then obtain a e where ae: "entries m p = Some a" "st a = Some e"
      using map_okD(2) [OF mok p] by auto
    then have "a \<in> occupants m" using p True by (auto simp: occupants_def)
    moreover from this have "\<not> guard e" using un ae by (auto simp: unlocked_def)
    ultimately show ?thesis
      using slot_relock' [OF mok p] I True ae relock_id [OF un] cb
      by (simp add: walk_step_def LOCK_ENTRY_eq set_guard_same UNLOCK_ENTRY_eq [where e = "e\<lparr>guard := True\<rparr>"])
  qed
  from walk_entries_rule [of ?I callback, OF this, of "(m, st, u)"] show ?thesis
    by (simp add: slot_entries_def)
qed

text \<open>A slot that is taken over from an entry with the same key is the one a lookup stops at.\<close>

lemma find_slot_occupied:
  assumes "find_slot m st key = Some p" and "mask m p"
  shows "find_key m st key = Some p"
proof -
  obtain i where i: "i < CACHE_ENTRY_MAP_SIZE" "p = probe_seq (home key) ! i" "slot_key m st p = Some key"
    "\<forall>j < i. mask m (probe_seq (home key) ! j) \<and> slot_key m st (probe_seq (home key) ! j) \<noteq> Some key"
    using assms by (auto simp: find_slot_def find_Some_iff)
  then show ?thesis unfolding find_key_def by (auto intro!: find_first_SomeI)
qed

section \<open>Properties\<close>

text \<open>C24. Looking a key up in a well-formed map with free locks always returns: the entry of the first
  slot of the probe sequence that holds the key, with that entry's lock (and no other) taken, or no
  entry exactly when no slot of the map holds the key; the map itself is unchanged.\<close>

theorem get_entry_correct:
  assumes "hm_ok (m, st)"
  shows "(\<exists>a e. hm_abs m st key = Some a \<and> st a = Some e \<and> e_key e = key \<and>
            lock_and_get_cache_entry m st key = Some (Some a, m, st(a \<mapsto> e\<lparr>guard := True\<rparr>))) \<or>
         ((\<forall>p < CACHE_ENTRY_MAP_SIZE. slot_key m st p \<noteq> Some key) \<and>
            lock_and_get_cache_entry m st key = Some (None, m, st))"
proof (cases "hm_abs m st key")
  case None
  moreover from this have "\<forall>p < CACHE_ENTRY_MAP_SIZE. slot_key m st p \<noteq> Some key"
    by (simp add: hm_abs_None find_key_None)
  ultimately show ?thesis
    using lock_and_get_eq [of m st key] assms by (simp add: hm_ok_def)
next
  case (Some a)
  with hm_abs_SomeD [OF Some] show ?thesis
    using lock_and_get_eq [of m st key] assms by (auto simp: hm_ok_def set_guard_def)
qed

lemma hm_ok_init [simp]: "hm_ok (init_cache_entry_map, st)"
  by (auto simp: hm_ok_def map_ok_def init_cache_entry_map_def unlocked_def occupants_def)

theorem get_entry_correct_witness:
  "lock_and_get_cache_entry init_cache_entry_map Map.empty [1, 2] = Some (None, init_cache_entry_map, Map.empty)"
  using get_entry_correct [of init_cache_entry_map Map.empty "[1, 2]"] hm_abs_SomeD
  by auto

text \<open>C17. Setting an entry that the map does not hold always returns. It succeeds when the probing finds a
  slot: the entry that held the key in that slot, if any, is handed back with its lock (and no other) taken, it
  is the one a lookup found before, and it is the only one that has left the map; once both locks are released,
  a lookup returns the new entry for its key and what it returned before for every other key, and the map is
  well-formed again. If it fails, nothing has changed.\<close>

theorem set_then_get:
  assumes "hm_ok (m, st)" and "st a = Some e" and "a \<notin> occupants m"
  shows "\<exists>done old m' st'. set_locked_cache_entry m st a = Some (done, old, m', st') \<and>
    (if done then
      occupants m' = insert a (occupants m - set_option old) \<and>
      (case old of
         None \<Rightarrow> st' = st
       | Some b \<Rightarrow> hm_abs m st (e_key e) = Some b \<and>
           (\<exists>f. st b = Some f \<and> e_key f = e_key e \<and> st' = st(b \<mapsto> f\<lparr>guard := True\<rparr>))) \<and>
      hm_ok (hm_unlock (hm_unlock (m', st') old) (Some a)) \<and>
      hm_look (hm_unlock (hm_unlock (m', st') old) (Some a)) = (hm_abs m st)(e_key e \<mapsto> a) \<and>
      (\<forall>key. \<exists>s1. lock_and_get_cache_entry m' (snd (hm_unlock (hm_unlock (m', st') old) (Some a))) key =
          Some (if key = e_key e then Some a else hm_abs m st key, s1))
    else old = None \<and> m' = m \<and> st' = st)"
proof -
  have fresh: "hm_fresh (m, st) (e_key e) a"
    using assms by (auto simp: hm_fresh_def)
  have ok: "map_ok m st" and un: "unlocked st (occupants m)" using assms(1) by (auto simp: hm_ok_def)
  have [simp]: "fst (hm_unlock s r) = fst s" for s r by (cases s) (simp add: hm_unlock_def)
  note eq = set_locked_eq [OF ok un assms(2,3)]
  show ?thesis
  proof (cases "find_slot m st (e_key e)")
    case None
    then show ?thesis using eq by (intro exI [of _ False]) simp
  next
    case (Some p)
    define old where "old = (if mask m p then entries m p else None)"
    define st' where "st' = (if mask m p then set_guard True (the (entries m p)) st else st)"
    let ?m = "put_slot m p (get_key_hash (e_key e)) a"
    have r: "set_locked_cache_entry m st a = Some (True, old, ?m, st')" using eq Some by (simp add: old_def st'_def)
    have p: "p < CACHE_ENTRY_MAP_SIZE" using find_slot_SomeD [OF Some] by simp
    have occ: "occupants ?m = insert a (occupants m - set_option old)"
      using occupants_put [OF ok p] by (simp add: old_def)
    have handed: "case old of None \<Rightarrow> st' = st
       | Some b \<Rightarrow> hm_abs m st (e_key e) = Some b \<and> (\<exists>f. st b = Some f \<and> e_key f = e_key e \<and> st' = st(b \<mapsto> f\<lparr>guard := True\<rparr>))"
    proof (cases "mask m p")
      case True
      then have "slot_key m st p = Some (e_key e)" using find_slot_SomeD [OF Some] by simp
      then obtain b f where b: "entries m p = Some b" "st b = Some f" "e_key f = e_key e" by (rule slot_key_SomeE)
      then show ?thesis
        using True find_slot_occupied [OF Some True] by (auto simp: old_def st'_def hm_abs_def set_guard_def)
    qed (simp add: old_def st'_def)
    let ?s = "hm_unlock (hm_unlock (?m, st') old) (Some a)"
    have look: "hm_look (m, st) = hm_abs m st" by (simp add: hm_look_def fun_eq_iff)
    have get: "\<exists>s1. lock_and_get_cache_entry ?m (snd ?s) key = Some (if key = e_key e then Some a else hm_abs m st key, s1)" for key
      using hm.get_after_put [OF assms(1) fresh, of old "(?m, st')" key] r unfolding look by (simp split del: if_split)
    have law: "hm_ok ?s \<and> hm_look ?s = (hm_abs m st)(e_key e \<mapsto> a)"
      using hm.put_law [OF assms(1) fresh] r by (simp add: Let_def hm_look_def)
    show ?thesis
      by (rule exI [of _ True], rule exI [of _ old], rule exI [of _ ?m], rule exI [of _ st'])
        (use r occ handed law get in \<open>simp only: if_True simp_thms\<close>)
  qed
qed

definition sample_entry :: "u8 list \<Rightarrow> CacheEntry" where
  "sample_entry key = (CACHE_ENTRY_INIT 0)\<lparr>e_key := key\<rparr>"

lemma find_slot_init: "find_slot init_cache_entry_map st key = Some (home key)"
proof -
  have "find_slot init_cache_entry_map st key = Some (probe_seq (home key) ! 0)"
    unfolding find_slot_def
    by (rule find_first_SomeI) (simp_all add: init_cache_entry_map_def)
  then show ?thesis by (simp add: probe_seq_def)
qed

lemma set_init:
  assumes "st a = Some e"
  shows "set_locked_cache_entry init_cache_entry_map st a =
    Some (True, None, put_slot init_cache_entry_map (home (e_key e)) (get_key_hash (e_key e)) a, st)"
proof -
  have *: "\<not> mask init_cache_entry_map p" "occupants init_cache_entry_map = {}" for p
    by (auto simp: init_cache_entry_map_def occupants_def)
  show ?thesis
    using set_locked_eq [of init_cache_entry_map st a e] assms hm_ok_init [of st]
    by (simp add: find_slot_init hm_ok_def *)
qed

theorem set_then_get_witness:
  "\<exists>m'. set_locked_cache_entry init_cache_entry_map [9 \<mapsto> sample_entry [1]] 9 =
      Some (True, None, m', [9 \<mapsto> sample_entry [1]]) \<and> occupants m' = {9} \<and>
    hm_look (hm_unlock (hm_unlock (m', [9 \<mapsto> sample_entry [1]]) None) (Some 9)) [1] = Some 9"
proof -
  have r: "set_locked_cache_entry init_cache_entry_map [9 \<mapsto> sample_entry [1]] 9 =
      Some (True, None, put_slot init_cache_entry_map (home [1]) (get_key_hash [1]) 9, [9 \<mapsto> sample_entry [1]])"
    using set_init [of "[9 \<mapsto> sample_entry [1]]" 9] by (simp add: sample_entry_def)
  have empty: "occupants init_cache_entry_map = {}"
    by (simp add: occupants_def init_cache_entry_map_def)
  then have "(9 :: nat) \<notin> occupants init_cache_entry_map" by simp
  from set_then_get [OF hm_ok_init _ this, of "[9 \<mapsto> sample_entry [1]]" "sample_entry [1]"] r empty show ?thesis
    by (auto simp: sample_entry_def)
qed

text \<open>C26. A map refuses a new entry exactly when all of its 797 slots are occupied by entries with
  other keys; an insertion never gives up while a slot is free, wherever the key hashes to.\<close>

theorem set_fails_iff_full:
  assumes "hm_ok (m, st)" and "st a = Some e" and "a \<notin> occupants m"
  shows "(\<exists>old m' st'. set_locked_cache_entry m st a = Some (False, old, m', st')) \<longleftrightarrow>
    (\<forall>p < CACHE_ENTRY_MAP_SIZE. mask m p \<and> slot_key m st p \<noteq> Some (e_key e))"
proof -
  have "map_ok m st" "unlocked st (occupants m)" using assms(1) by (auto simp: hm_ok_def)
  note eq = set_locked_eq [OF this assms(2,3)]
  show ?thesis
  proof (cases "find_slot m st (e_key e)")
    case None
    then show ?thesis using eq find_slot_None [of m st "e_key e"] by simp
  next
    case (Some p)
    then have "\<not> (\<forall>p < CACHE_ENTRY_MAP_SIZE. mask m p \<and> slot_key m st p \<noteq> Some (e_key e))"
      using find_slot_None [of m st "e_key e"] by auto
    then show ?thesis using eq Some by simp
  qed
qed

theorem set_fails_iff_full_witness:
  "\<not> (\<exists>old m' st'. set_locked_cache_entry init_cache_entry_map [9 \<mapsto> sample_entry [1]] 9 =
     Some (False, old, m', st'))"
proof -
  have "\<not> mask init_cache_entry_map 0" and "(9 :: nat) \<notin> occupants init_cache_entry_map"
    by (simp_all add: occupants_def init_cache_entry_map_def)
  then show ?thesis
    using set_fails_iff_full [OF hm_ok_init, of "[9 \<mapsto> sample_entry [1]]" 9 "sample_entry [1]"]
    by (auto simp: CACHE_ENTRY_MAP_SIZE_def)
qed

text \<open>C25. Removing a key repeatedly, as a deletion does, ends after at most one removal more than the
  map has copies of the key: the key is then gone, every other key is looked up as before, and the map
  is well-formed.\<close>

theorem unset_until_gone:
  assumes "hm_ok s" and "hm_copies s key < n"
  shows "\<exists>s'. hm.drain n s key = Some s' \<and> hm_ok s' \<and> hm_look s' = (hm_look s)(key := None)"
  using hm.drain_total [OF assms] .

theorem unset_until_gone_witness:
  "\<exists>s'. hm.drain 1 (init_cache_entry_map, Map.empty) [1] = Some s' \<and> hm_look s' [1] = None"
proof -
  have "key_slots init_cache_entry_map st k = {}" for st k
    by (simp add: key_slots_def slot_key_def init_cache_entry_map_def)
  then show ?thesis
    using unset_until_gone [of "(init_cache_entry_map, Map.empty)" "[1]" 1] by (auto simp: hm_copies_def)
qed

definition stats_of :: "store \<Rightarrow> time_t \<Rightarrow> nat \<Rightarrow> addr \<Rightarrow> stats_line" where
  "stats_of st now i a = (case st a of Some e \<Rightarrow>
     (nhits e, length (e_value e), length (e_tags e), now - mtime e,
      if expires e = CACHE_EXPIRES_INIT then CACHE_EXPIRES_INIT else expires e - now, i, printed (e_key e)))"

text \<open>Writing the entry statistics of a map visits every entry of the map once, in slot order,
  prints its hits, value size, tag count, age, remaining time to live and reversed key, and changes
  neither the map nor an entry.\<close>

theorem entry_stats_walk:
  assumes "hm_ok (m, st)"
  shows "walk_entries (write_entry_stats_cb now i) (m, st, lines) =
    Some (m, st, lines @ map (stats_of st now i) (slot_entries m)) \<and>
    distinct (slot_entries m) \<and> set (slot_entries m) = occupants m"
proof -
  have f: "fold (\<lambda>a l. l @ [stats_of st now i a]) as lines = lines @ map (stats_of st now i) as" for as
    by (induction as arbitrary: lines) simp_all
  have "write_entry_stats_cb now i a (set_guard True a st) l = Some (False, set_guard True a st, l @ [stats_of st now i a])"
    if "st a = Some e" for a e l
    using that by (simp add: write_entry_stats_cb_def set_guard_same stats_of_def)
  then have "walk_entries (write_entry_stats_cb now i) (m, st, lines) =
      Some (m, st, fold (\<lambda>a l. l @ [stats_of st now i a]) (slot_entries m) lines)"
    by (rule walk_entries_read [OF assms])
  then show ?thesis
    using assms by (auto simp: f set_slot_entries hm_ok_def intro: distinct_slot_entries)
qed

lemma sample_map_ok:
  defines "m \<equiv> put_slot init_cache_entry_map (home [1]) (get_key_hash [1]) 9"
  shows "hm_ok (m, [9 \<mapsto> sample_entry [1]])" and "slot_entries m = [9]"
proof -
  let ?st = "[9 \<mapsto> sample_entry [1]]"
  have e: "occupants init_cache_entry_map = {}" and ok: "map_ok init_cache_entry_map ?st"
    using hm_ok_init [of ?st] by (auto simp: occupants_def init_cache_entry_map_def hm_ok_def)
  have "set_guard False 9 ?st = ?st"
    by (simp add: set_guard_idem sample_entry_def CACHE_ENTRY_INIT_def)
  then show mok: "hm_ok (m, ?st)"
    using put_slot_ok [OF hm_ok_init [of ?st], of 9 "sample_entry [1]" "home [1]"] e
    by (simp add: find_slot_init sample_entry_def m_def)
  have "occupants m = {9}"
    using occupants_put [OF ok home_less, of "[1]" "get_key_hash [1]" 9] by (simp add: m_def e)
  then have "set (slot_entries m) = {9}" and "distinct (slot_entries m)"
    using mok by (auto simp: set_slot_entries hm_ok_def intro: distinct_slot_entries)
  then show "slot_entries m = [9]"
    by (cases "slot_entries m"; cases "tl (slot_entries m)") auto
qed

theorem entry_stats_walk_witness:
  "walk_entries (write_entry_stats_cb 5 0)
     (put_slot init_cache_entry_map (home [1]) (get_key_hash [1]) 9, [9 \<mapsto> sample_entry [1]], []) =
   Some (put_slot init_cache_entry_map (home [1]) (get_key_hash [1]) 9, [9 \<mapsto> sample_entry [1]],
         [(0, 0, 0, 5, -1, 0, [1])])"
  using entry_stats_walk [OF sample_map_ok(1), of 5 0 "[]"]
  by (simp add: sample_map_ok(2) stats_of_def sample_entry_def CACHE_ENTRY_INIT_def CACHE_EXPIRES_INIT_def
      printed_def)

section \<open>Shadowed copies\<close>

text \<open>The operations with the locks they take released again, and a run of them.\<close>

definition put_entry :: "hstate \<Rightarrow> addr \<Rightarrow> (bool \<times> addr option \<times> hstate) option" where
  "put_entry s a = do {
     (ok, old, s1) \<leftarrow> set_locked_cache_entry (fst s) (snd s) a;
     Some (ok, old, hm_unlock (hm_unlock s1 old) (Some a))
   }"

definition take_entry :: "hstate \<Rightarrow> u8 list \<Rightarrow> (addr option \<times> hstate) option" where
  "take_entry s key = do {
     (r, s1) \<leftarrow> lock_and_unset_cache_entry (fst s) (snd s) key;
     Some (r, hm_unlock s1 r)
   }"

definition look_up :: "hstate \<Rightarrow> u8 list \<Rightarrow> (addr option \<times> hstate) option" where
  "look_up s key = do {
     (r, s1) \<leftarrow> lock_and_get_cache_entry (fst s) (snd s) key;
     Some (r, hm_unlock s1 r)
   }"

text \<open>\<open>shadow_run s a b c key' key\<close>: \<open>a\<close> is set under \<open>key'\<close> and \<open>b\<close> under
  \<open>key\<close>, \<open>key'\<close> is removed, \<open>c\<close> is set under \<open>key\<close>, which is then removed and looked
  up. The answers in this order.\<close>

definition shadow_run :: "hstate \<Rightarrow> addr \<Rightarrow> addr \<Rightarrow> addr \<Rightarrow> u8 list \<Rightarrow> u8 list \<Rightarrow>
    ((bool \<times> addr option) list \<times> addr option list) option" where
  "shadow_run s a b c key' key = do {
     (ok1, old1, s1) \<leftarrow> put_entry s a;
     (ok2, old2, s2) \<leftarrow> put_entry s1 b;
     (r1, s3) \<leftarrow> take_entry s2 key';
     (ok3, old3, s4) \<leftarrow> put_entry s3 c;
     (r2, s5) \<leftarrow> take_entry s4 key;
     (r3, s6) \<leftarrow> look_up s5 key;
     Some ([(ok1, old1), (ok2, old2), (ok3, old3)], [r1, r2, r3])
   }"

lemma put_entry_eq:
  assumes ok: "hm_ok (m, st)" and a: "st a = Some e" "a \<notin> occupants m" "\<not> guard e"
    and p: "find_slot m st (e_key e) = Some p" and free: "\<not> mask m p"
  shows "put_entry (m, st) a = Some (True, None, put_slot m p (get_key_hash (e_key e)) a, st)"
    and "hm_ok (put_slot m p (get_key_hash (e_key e)) a, st)"
    and "occupants (put_slot m p (get_key_hash (e_key e)) a) = insert a (occupants m)"
proof -
  have mok: "map_ok m st" "unlocked st (occupants m)" using ok by (auto simp: hm_ok_def)
  have g: "set_guard False a st = st" using a by (simp add: set_guard_idem)
  show "put_entry (m, st) a = Some (True, None, put_slot m p (get_key_hash (e_key e)) a, st)"
    using set_locked_eq [OF mok a(1,2)] p free g by (simp add: put_entry_def hm_unlock_def)
  show "hm_ok (put_slot m p (get_key_hash (e_key e)) a, st)" using put_slot_ok [OF ok a(1,2) p] g by simp
  show "occupants (put_slot m p (get_key_hash (e_key e)) a) = insert a (occupants m)"
    using occupants_put [OF mok(1)] find_slot_SomeD [OF p] free by simp
qed

lemma take_entry_eq:
  assumes ok: "hm_ok (m, st)" and p: "find_key m st key = Some p" "entries m p = Some a"
  shows "take_entry (m, st) key = Some (Some a, unset_slot m p, st)"
    and "hm_ok (unset_slot m p, st)"
    and "occupants (unset_slot m p) = occupants m - {a}"
proof -
  have mok: "map_ok m st" "unlocked st (occupants m)" using ok by (auto simp: hm_ok_def)
  have q: "p < CACHE_ENTRY_MAP_SIZE" "mask m p"
    using find_key_SomeD [OF p(1)] by (auto elim: slot_key_SomeE)
  then have "a \<in> occupants m" using p(2) by (auto simp: occupants_def)
  then show "take_entry (m, st) key = Some (Some a, unset_slot m p, st)"
    using lock_and_unset_eq [OF mok, of key] p relock_id [OF mok(2)] by (simp add: take_entry_def hm_unlock_def)
  show occ: "occupants (unset_slot m p) = occupants m - {a}" by (rule occupants_unset [OF mok(1) q p(2)])
  show "hm_ok (unset_slot m p, st)"
    using map_ok_unset [OF mok(1)] unlocked_mono [OF mok(2)] by (auto simp: hm_ok_def occ)
qed

text \<open>The slot found in the probe sequence of a key, by its place in the sequence.\<close>

lemma find_slot_nth:
  assumes "i < CACHE_ENTRY_MAP_SIZE" and "\<not> mask m (probe_seq (home key) ! i)"
    and "\<And>j. j < i \<Longrightarrow> mask m (probe_seq (home key) ! j) \<and> slot_key m st (probe_seq (home key) ! j) \<noteq> Some key"
  shows "find_slot m st key = Some (probe_seq (home key) ! i)"
  unfolding find_slot_def using assms by (intro find_first_SomeI) auto

lemma find_key_nth:
  assumes "i < CACHE_ENTRY_MAP_SIZE" and "slot_key m st (probe_seq (home key) ! i) = Some key"
    and "\<And>j. j < i \<Longrightarrow> slot_key m st (probe_seq (home key) ! j) \<noteq> Some key"
  shows "find_key m st key = Some (probe_seq (home key) ! i)"
  unfolding find_key_def using assms by (intro find_first_SomeI) auto

text \<open>The first two free slots of a probe sequence.\<close>

lemma two_free_slots:
  assumes "p < CACHE_ENTRY_MAP_SIZE" "q < CACHE_ENTRY_MAP_SIZE" "p \<noteq> q" "\<not> mask m p" "\<not> mask m q"
  obtains i j where "i < j" "j < CACHE_ENTRY_MAP_SIZE" "\<not> mask m (probe_seq h ! i)" "\<not> mask m (probe_seq h ! j)"
    "\<And>k. k < j \<Longrightarrow> k \<noteq> i \<Longrightarrow> mask m (probe_seq h ! k)"
proof -
  let ?free = "{k. k < CACHE_ENTRY_MAP_SIZE \<and> \<not> mask m (probe_seq h ! k)}"
  have "p \<in> set (probe_seq h)" "q \<in> set (probe_seq h)" using assms(1,2) set_probe_seq [of h] by auto
  then obtain k l where kl: "k < CACHE_ENTRY_MAP_SIZE" "probe_seq h ! k = p" "l < CACHE_ENTRY_MAP_SIZE" "probe_seq h ! l = q"
    by (auto simp: in_set_conv_nth)
  then have k: "k \<in> ?free" and l: "l \<in> ?free" and "k \<noteq> l" using assms(3-5) by auto
  define i where "i = (LEAST x. x \<in> ?free)"
  have i: "i \<in> ?free" unfolding i_def by (rule LeastI [where P = "\<lambda>x. x \<in> ?free", OF k])
  have i_least: "i \<le> x" if "x \<in> ?free" for x unfolding i_def by (rule Least_le [where P = "\<lambda>x. x \<in> ?free", OF that])
  define other where "other = (if k = i then l else k)"
  have other: "other \<in> ?free - {i}" using k l \<open>k \<noteq> l\<close> by (auto simp: other_def)
  define j where "j = (LEAST x. x \<in> ?free - {i})"
  have j: "j \<in> ?free - {i}" unfolding j_def by (rule LeastI [where P = "\<lambda>x. x \<in> ?free - {i}", OF other])
  have j_least: "j \<le> x" if "x \<in> ?free - {i}" for x unfolding j_def by (rule Least_le [where P = "\<lambda>x. x \<in> ?free - {i}", OF that])
  show thesis
  proof (rule that [of i j])
    show "i < j" using i_least [of j] j by auto
    show "mask m (probe_seq h ! x)" if "x < j" "x \<noteq> i" for x using j_least [of x] that j by fastforce
  qed (use i j in auto)
qed

text \<open>C29. Known defect (the comment marked \<open>@Bug\<close> in the set loop of \<open>entry.c\<close>), in every map with
  two free slots and for any two keys that are not in it and hash to the same slot: when one is set before the
  other and then removed, setting the other one again stores it a second time in front of the first entry (no
  old entry is handed back); removing it takes the new entry out, and a lookup then returns the old one.\<close>

theorem removed_key_resurfaces:
  assumes "hm_ok (m, st)" and "home (e_key ea) = home (e_key eb)" and "e_key ea \<noteq> e_key eb" and "e_key ec = e_key eb"
    and "hm_abs m st (e_key ea) = None" and "hm_abs m st (e_key eb) = None"
    and "p < CACHE_ENTRY_MAP_SIZE" "q < CACHE_ENTRY_MAP_SIZE" "p \<noteq> q" "\<not> mask m p" "\<not> mask m q"
    and "st a = Some ea" "st b = Some eb" "st c = Some ec" "\<not> guard ea" "\<not> guard eb" "\<not> guard ec"
    and "distinct [a, b, c]" and "{a, b, c} \<inter> occupants m = {}"
  shows "shadow_run (m, st) a b c (e_key ea) (e_key eb) =
    Some ([(True, None), (True, None), (True, None)], [Some a, Some c, Some b])"
proof -
  let ?k' = "e_key ea" and ?k = "e_key eb" and ?seq = "probe_seq (home (e_key eb))" and ?h = "get_key_hash"
  obtain i j where ij: "i < j" "j < CACHE_ENTRY_MAP_SIZE" "\<not> mask m (?seq ! i)" "\<not> mask m (?seq ! j)"
    "\<And>x. x < j \<Longrightarrow> x \<noteq> i \<Longrightarrow> mask m (?seq ! x)" by (rule two_free_slots [OF assms(7-11)]) blast
  have i: "i < CACHE_ENTRY_MAP_SIZE" using ij by simp
  have absent: "slot_key m st s \<noteq> Some ?k'" "slot_key m st s \<noteq> Some ?k" if "s < CACHE_ENTRY_MAP_SIZE" for s
    using assms(5,6) that by (simp_all add: hm_abs_None find_key_None)
  have in_seq: "?seq ! x < CACHE_ENTRY_MAP_SIZE" if "x < CACHE_ENTRY_MAP_SIZE" for x using that by (simp add: probe_seq_def)
  have inj: "?seq ! x = ?seq ! y \<longleftrightarrow> x = y" if "x < CACHE_ENTRY_MAP_SIZE" "y < CACHE_ENTRY_MAP_SIZE" for x y
    using that distinct_probe_seq [of "home ?k"] by (simp add: nth_eq_iff_index_eq)
  have no: "slot_key m st (?seq ! x) \<noteq> Some ?k'" "slot_key m st (?seq ! x) \<noteq> Some ?k" if "x \<le> j" for x
    using absent in_seq that ij(2) by auto
  have masked: "mask m (?seq ! x)" "?seq ! x \<noteq> ?seq ! i" "?seq ! x \<noteq> ?seq ! j" if "x < i" for x
    using that ij inj by auto
  have pq: "?seq ! i \<noteq> ?seq ! j" using ij inj by simp
  let ?p = "?seq ! i" and ?q = "?seq ! j"
  let ?m1 = "put_slot m ?p (?h ?k') a"
  let ?m2 = "put_slot ?m1 ?q (?h ?k) b"
  let ?m3 = "unset_slot ?m2 ?p"
  let ?m4 = "put_slot ?m3 ?p (?h ?k) c"
  let ?m5 = "unset_slot ?m4 ?p"
  have sk: "slot_key ?m1 st s = (if s = ?p then Some ?k' else slot_key m st s)"
    "slot_key ?m2 st s = (if s = ?q then Some ?k else if s = ?p then Some ?k' else slot_key m st s)"
    "slot_key ?m3 st s = (if s = ?p then None else if s = ?q then Some ?k else slot_key m st s)"
    "slot_key ?m4 st s = (if s = ?p then Some ?k else if s = ?q then Some ?k else slot_key m st s)"
    "slot_key ?m5 st s = (if s = ?p then None else if s = ?q then Some ?k else slot_key m st s)" for s
    using assms(4,12-14) by (simp_all add: slot_key_put slot_key_unset)
  have mk: "mask ?m1 = (mask m)(?p := True)" "mask ?m2 = (mask m)(?p := True, ?q := True)"
    "mask ?m3 = (mask m)(?p := False, ?q := True)"
    using pq by (auto simp: put_slot_def unset_slot_def fun_eq_iff)
  have "find_slot m st ?k' = Some (probe_seq (home ?k') ! i)"
    unfolding assms(2) using i ij(3) masked no ij(1) by (intro find_slot_nth [where key = ?k', unfolded assms(2)]) auto
  then have f1: "find_slot m st ?k' = Some ?p" unfolding assms(2) .
  note P1 = put_entry_eq [OF assms(1,12) _ assms(15) f1 ij(3)]
  have f2: "find_slot ?m1 st ?k = Some ?q"
    using ij pq no assms(3) by (intro find_slot_nth) (auto simp: mk sk)
  have u2: "\<not> mask ?m1 ?q" using ij(4) pq by (simp add: mk)
  have a_out: "a \<notin> occupants m" "b \<notin> occupants m" "c \<notin> occupants m" "a \<noteq> b" "a \<noteq> c" "b \<noteq> c" using assms(18,19) by auto
  note O1 = P1(3) [OF a_out(1)] and K1 = P1(2) [OF a_out(1)]
  note P2 = put_entry_eq [OF K1 assms(13) _ assms(16) f2 u2, unfolded O1]
  have n2: "b \<notin> insert a (occupants m)" using a_out by simp
  note O2 = P2(3) [OF n2] and K2 = P2(2) [OF n2]
  have "find_key ?m2 st ?k' = Some (probe_seq (home ?k') ! i)"
    using i ij(1) pq no masked assms(3) by (intro find_key_nth) (auto simp: sk assms(2))
  then have f3: "find_key ?m2 st ?k' = Some ?p" unfolding assms(2) .
  have e3: "entries ?m2 ?p = Some a" using pq by (simp add: put_slot_def)
  note P3 = take_entry_eq [OF K2 f3 e3]
  have f4: "find_slot ?m3 st (e_key ec) = Some ?p"
    unfolding assms(4) using i ij(1) pq no masked by (intro find_slot_nth) (auto simp: mk sk)
  have u4: "\<not> mask ?m3 ?p" using pq by (simp add: mk)
  have n4: "c \<notin> occupants ?m3" using a_out by (simp add: P3(3) O2)
  note P4 = put_entry_eq [OF P3(2) assms(14) n4 assms(17) f4 u4, unfolded assms(4)]
  have f5: "find_key ?m4 st ?k = Some ?p"
    using i ij(1) no masked by (intro find_key_nth) (auto simp: sk)
  have e5: "entries ?m4 ?p = Some c" by (simp add: put_slot_def)
  note P5 = take_entry_eq [OF P4(2) f5 e5]
  have f6: "find_key ?m5 st ?k = Some ?q"
    using ij no pq inj by (intro find_key_nth) (auto simp: sk)
  have e6: "entries ?m5 ?q = Some b" using pq by (simp add: put_slot_def unset_slot_def)
  have ok5: "map_ok ?m5 st" "unlocked st (occupants ?m5)" using P5(2) by (auto simp: hm_ok_def)
  have "hm_abs ?m5 st ?k = Some b" using f6 e6 by (simp add: hm_abs_def)
  then have "\<exists>s6. look_up (?m5, st) ?k = Some (Some b, s6)"
    using lock_and_get_eq [OF ok5, of ?k] by (simp add: look_up_def)
  then show ?thesis
    unfolding shadow_run_def using P1(1) [OF a_out(1)] P2(1) [OF n2] P3(1) P4(1) P5(1) by auto
qed

theorem removed_key_resurfaces_witness:
  "\<exists>st. shadow_run (init_cache_entry_map, st) 1 2 3 [101, 121] [114, 97] =
     Some ([(True, None), (True, None), (True, None)], [Some 1, Some 3, Some 2])"
proof -
  let ?e = "\<lambda>key. (sample_entry key)\<lparr>guard := False\<rparr>"
  let ?st = "[1 \<mapsto> ?e [101, 121], 2 \<mapsto> ?e [114, 97], 3 \<mapsto> ?e [114, 97]]"
  have h: "home [101, 121] = home [114, 97]"
    by (simp add: home_def get_key_hash_def get_hash_def slot_of_def CACHE_ENTRY_MAP_SIZE_def)
  have none: "hm_abs init_cache_entry_map ?st key = None" for key
    by (simp add: hm_abs_None find_key_None slot_key_def init_cache_entry_map_def)
  have "\<not> mask init_cache_entry_map s" "occupants init_cache_entry_map = {}" for s
    by (simp_all add: init_cache_entry_map_def occupants_def)
  then have "shadow_run (init_cache_entry_map, ?st) 1 2 3 (e_key (?e [101, 121])) (e_key (?e [114, 97])) =
      Some ([(True, None), (True, None), (True, None)], [Some 1, Some 3, Some 2])"
    using h none by (intro removed_key_resurfaces [OF hm_ok_init, where p = 0 and q = 1 and ec = "?e [114, 97]"])
      (simp_all add: sample_entry_def CACHE_ENTRY_INIT_def CACHE_ENTRY_MAP_SIZE_def)
  then show ?thesis by (intro exI [of _ ?st]) (simp add: sample_entry_def CACHE_ENTRY_INIT_def)
qed

end
