(* ===== verification/Cik_Tag.thy ===== *)
theory Cik_Tag
  imports Cik_Memory "HOL-Library.Tree"
begin

text \<open>
  \<open>src/src/tag.c\<close>: the index from tags to the keys of the entries that carry them, an unbalanced
  binary search tree of tag nodes below a static root whose tag is \<open>ROOT\<close>, each node with a linked
  list of keys.

  A \<open>KeyElem\<close> list is the list of its elements in \<open>next\<close> order, each with the address
  \<open>reserve_memory\<close> gave it; a pointer to a node is its path from the root. \<open>cik_assert\<close> is
  empty in the release build and has no counterpart; a null dereference that follows is the
  undefined behaviour \<open>None\<close>, as is spinning on a key lock that nobody releases.
\<close>

section \<open>State\<close>

type_synonym key_elem = "addr \<times> u8 list"

record TagNode =
  t_addr :: addr
  t_tag :: "u8 list"
  t_keys :: "key_elem list"
  keys_lock :: bool
  num_keys :: u32

type_synonym tags = "TagNode tree"

datatype dir = L | R

type_synonym path = "dir list"

definition root :: TagNode where
  "root = \<lparr>t_addr = 0, t_tag = [0x52, 0x4F, 0x4F, 0x54], t_keys = [], keys_lock = False, num_keys = 0\<rparr>"

definition init_tags :: tags where
  "init_tags = Node Leaf root Leaf"

fun node_at :: "tags \<Rightarrow> path \<Rightarrow> TagNode option" where
  "node_at Leaf p = None"
| "node_at (Node l n r) [] = Some n"
| "node_at (Node l n r) (L # p) = node_at l p"
| "node_at (Node l n r) (R # p) = node_at r p"

fun upd_node :: "(TagNode \<Rightarrow> TagNode) \<Rightarrow> tags \<Rightarrow> path \<Rightarrow> tags" where
  "upd_node f Leaf p = Leaf"
| "upd_node f (Node l n r) [] = Node l (f n) r"
| "upd_node f (Node l n r) (L # p) = Node (upd_node f l p) n r"
| "upd_node f (Node l n r) (R # p) = Node l n (upd_node f r p)"

definition LOCK_KEYS :: "tags \<Rightarrow> path \<Rightarrow> tags option" where
  "LOCK_KEYS t p = (case node_at t p of
     None \<Rightarrow> None
   | Some n \<Rightarrow> if keys_lock n then None else Some (upd_node (keys_lock_update (\<lambda>_. True)) t p))"

definition UNLOCK_KEYS :: "tags \<Rightarrow> path \<Rightarrow> tags" where
  "UNLOCK_KEYS t p = upd_node (keys_lock_update (\<lambda>_. False)) t p"

section \<open>Keys and tags\<close>

text \<open>The sign of \<open>memcmp\<close> on the first \<open>n\<close> bytes.\<close>

fun memcmp :: "u8 list \<Rightarrow> u8 list \<Rightarrow> nat \<Rightarrow> int" where
  "memcmp (a # as) (b # bs) (Suc n) = (if a = b then memcmp as bs n else if a < b then -1 else 1)"
| "memcmp as bs n = 0"

definition keys_are_equal :: "u8 list \<Rightarrow> u8 list \<Rightarrow> bool" where
  "keys_are_equal a b = (if length a \<noteq> length b then False else memcmp a b (length a) = 0)"

definition compare_tags :: "u8 list \<Rightarrow> u8 list \<Rightarrow> int" where
  "compare_tags a b =
     (let n = (if length a > length b then length b else length a);
          result = (if n = 0 then 0 else memcmp a b n)
      in if result = 0
         then (if length a < length b then -1 else if length b < length a then 1 else result)
         else result)"

definition create_key_elem :: "memory \<Rightarrow> u8 list \<Rightarrow> key_elem option \<times> memory" where
  "create_key_elem m key =
     (case reserve_memory m (of_nat (sizeof_KeyElem + length key)) of
        (None, m') \<Rightarrow> (None, m')
      | (Some a, m') \<Rightarrow> (Some (a, key), m'))"

definition create_tag_node :: "memory \<Rightarrow> u8 list \<Rightarrow> (TagNode \<times> memory) option" where
  "create_tag_node m tag =
     (case reserve_memory m (of_nat (sizeof_TagNode + length tag)) of
        (None, _) \<Rightarrow> None
      | (Some a, m') \<Rightarrow>
          Some (\<lparr>t_addr = a, t_tag = tag, t_keys = [], keys_lock = False, num_keys = 0\<rparr>, m'))"

fun list_has_key :: "key_elem list \<Rightarrow> u8 list \<Rightarrow> bool" where
  "list_has_key [] key = False"
| "list_has_key (elem # es) key = (if keys_are_equal (snd elem) key then True else list_has_key es key)"

definition insert_if_unique :: "memory \<Rightarrow> key_elem list \<Rightarrow> u8 list \<Rightarrow> bool \<times> key_elem list \<times> memory" where
  "insert_if_unique m list key =
     (if list_has_key list key then (False, list, m)
      else case create_key_elem m key of
             (None, m') \<Rightarrow> (False, list, m')
           | (Some elem, m') \<Rightarrow> (True, elem # list, m'))"

section \<open>The tree\<close>

text \<open>Descending from a node. Without other threads the compare-and-swap that hangs the new node below
  its parent succeeds, and the comparison with the new node's own tag ends the loop there.\<close>

fun get_or_create_loop :: "memory \<Rightarrow> tags \<Rightarrow> u8 list \<Rightarrow> (path \<times> tags \<times> memory) option" where
  "get_or_create_loop m Leaf tag = do {
     (node, m') \<leftarrow> create_tag_node m tag;
     Some ([], Node Leaf node Leaf, m')
   }"
| "get_or_create_loop m (Node l n r) tag =
     (let diff = compare_tags tag (t_tag n)
      in if diff < 0 then do {
           (p, l', m') \<leftarrow> get_or_create_loop m l tag;
           Some (L # p, Node l' n r, m')
         } else if diff > 0 then do {
           (p, r', m') \<leftarrow> get_or_create_loop m r tag;
           Some (R # p, Node l n r', m')
         } else Some ([], Node l n r, m))"

definition get_or_create_node :: "memory \<Rightarrow> tags \<Rightarrow> u8 list \<Rightarrow> (path \<times> tags \<times> memory) option" where
  "get_or_create_node m t tag = get_or_create_loop m t tag"

fun get_tag_if_exists :: "tags \<Rightarrow> u8 list \<Rightarrow> path option" where
  "get_tag_if_exists Leaf tag = None"
| "get_tag_if_exists (Node l n r) tag =
     (let diff = compare_tags tag (t_tag n)
      in if diff = 0 then Some []
         else if diff < 0 then map_option ((#) L) (get_tag_if_exists l tag)
         else map_option ((#) R) (get_tag_if_exists r tag))"

section \<open>Key lists\<close>

text \<open>The copy is linked through the element created last: when no element can be created, the address
  of its \<open>next\<close> field is taken from a null pointer.\<close>

fun copy_key_list :: "memory \<Rightarrow> key_elem list \<Rightarrow> (key_elem list \<times> memory) option" where
  "copy_key_list m [] = Some ([], m)"
| "copy_key_list m (elem # es) =
     (case create_key_elem m (snd elem) of
        (None, _) \<Rightarrow> None
      | (Some e, m1) \<Rightarrow> do { (copy, m2) \<leftarrow> copy_key_list m1 es; Some (e # copy, m2) })"

definition get_key_list_copy_by_tag :: "memory \<Rightarrow> tags \<Rightarrow> u8 list \<Rightarrow> (key_elem list \<times> tags \<times> memory) option"
  where
  "get_key_list_copy_by_tag m t tag =
     (case get_tag_if_exists t tag of
        None \<Rightarrow> Some ([], t, m)
      | Some p \<Rightarrow> do {
          t1 \<leftarrow> LOCK_KEYS t p;
          n \<leftarrow> node_at t1 p;
          (copy, m') \<leftarrow> copy_key_list m (t_keys n);
          Some (copy, UNLOCK_KEYS t1 p, m')
        })"

definition add_key_to_tag :: "memory \<Rightarrow> tags \<Rightarrow> u8 list \<Rightarrow> u8 list \<Rightarrow> (tags \<times> memory) option" where
  "add_key_to_tag m t tag key = do {
     (p, t1, m1) \<leftarrow> get_or_create_node m t tag;
     t2 \<leftarrow> LOCK_KEYS t1 p;
     n \<leftarrow> node_at t2 p;
     let (unique, keys, m2) = insert_if_unique m1 (t_keys n) key;
     let t3 = upd_node (t_keys_update (\<lambda>_. keys)) t2 p;
     let t4 = (if unique then upd_node (num_keys_update (\<lambda>k. k + 1)) t3 p else t3);
     Some (UNLOCK_KEYS t4 p, m2)
   }"

text \<open>The first element with the key is unlinked and released; whether one was is returned too.\<close>

fun unlink_key :: "memory \<Rightarrow> key_elem list \<Rightarrow> u8 list \<Rightarrow> (bool \<times> key_elem list \<times> memory) option" where
  "unlink_key m [] key = Some (False, [], m)"
| "unlink_key m (elem # es) key =
     (if keys_are_equal (snd elem) key then do {
        m' \<leftarrow> release_memory m (fst elem);
        Some (True, es, m')
      } else do {
        (found, es', m') \<leftarrow> unlink_key m es key;
        Some (found, elem # es', m')
      })"

definition remove_key_from_tag :: "memory \<Rightarrow> tags \<Rightarrow> u8 list \<Rightarrow> u8 list \<Rightarrow> (tags \<times> memory) option" where
  "remove_key_from_tag m t tag key =
     (case get_tag_if_exists t tag of
        None \<Rightarrow> Some (t, m)
      | Some p \<Rightarrow> do {
          t1 \<leftarrow> LOCK_KEYS t p;
          n \<leftarrow> node_at t1 p;
          (found, keys, m') \<leftarrow> unlink_key m (t_keys n) key;
          let t2 = upd_node (t_keys_update (\<lambda>_. keys)) t1 p;
          let t3 = (if found then upd_node (num_keys_update (\<lambda>k. k - 1)) t2 p else t2);
          Some (UNLOCK_KEYS t3 p, m')
        })"

fun release_key_list :: "memory \<Rightarrow> key_elem list \<Rightarrow> memory option" where
  "release_key_list m [] = Some m"
| "release_key_list m (elem # es) = do { m' \<leftarrow> release_memory m (fst elem); release_key_list m' es }"

section \<open>Walking the tree\<close>

text \<open>
  In order, with a stack of elements taken from the allocator. The stack entry of a node is the element's
  address and the subtree at the node. A failed reservation is written through.
\<close>

fun push_left :: "memory \<Rightarrow> tags \<Rightarrow> (addr \<times> tags) list \<Rightarrow> ((addr \<times> tags) list \<times> memory) option" where
  "push_left m Leaf stack = Some (stack, m)"
| "push_left m (Node l n r) stack =
     (case reserve_memory m (of_nat sizeof_TagElem) of
        (None, _) \<Rightarrow> None
      | (Some a, m') \<Rightarrow> push_left m' l ((a, Node l n r) # stack))"

fun stack_work :: "(addr \<times> tags) list \<Rightarrow> nat" where
  "stack_work [] = 0"
| "stack_work ((a, t) # s) = (case t of Leaf \<Rightarrow> 1 | Node l n r \<Rightarrow> Suc (size r)) + stack_work s"

lemma push_left_work: "push_left m t s = Some (s', m') \<Longrightarrow> stack_work s' = size t + stack_work s"
  by (induction m t s rule: push_left.induct) (auto split: prod.splits option.splits)

type_synonym 'u CacheTagWalkCb = "u8 list \<Rightarrow> 'u \<Rightarrow> 'u option"

function walk_tags_loop ::
    "'u CacheTagWalkCb \<Rightarrow> memory \<Rightarrow> tags \<Rightarrow> (addr \<times> tags) list \<Rightarrow> 'u \<Rightarrow> (memory \<times> 'u) option" where
  "walk_tags_loop callback m current stack u =
     (if current = Leaf \<and> stack = [] then Some (m, u)
      else do {
        (stack1, m1) \<leftarrow> push_left m current stack;
        case stack1 of
          (a, Node l n r) # rest \<Rightarrow> do {
            m2 \<leftarrow> release_memory m1 a;
            if keys_lock n then None
            else do {
              u' \<leftarrow> (if t_keys n \<noteq> [] then callback (t_tag n) u else Some u);
              walk_tags_loop callback m2 r rest u'
            }
          }
        | _ \<Rightarrow> None
      })"
  by pat_completeness auto
termination
  by (relation "measure (\<lambda>(callback, m, t, s, u). size t + stack_work s)")
    (auto dest!: push_left_work)

declare walk_tags_loop.simps [simp del]

definition walk_all_tags :: "'u CacheTagWalkCb \<Rightarrow> memory \<Rightarrow> tags \<Rightarrow> 'u \<Rightarrow> (memory \<times> 'u) option" where
  "walk_all_tags callback m t u = walk_tags_loop callback m t [] u"

section \<open>Keys of several tags\<close>

fun insert_all :: "memory \<Rightarrow> key_elem list \<Rightarrow> key_elem list \<Rightarrow> key_elem list \<times> memory" where
  "insert_all m found_keys [] = (found_keys, m)"
| "insert_all m found_keys (elem # es) =
     (let (_, found', m') = insert_if_unique m found_keys (snd elem) in insert_all m' found' es)"

fun any_tag_loop :: "memory \<Rightarrow> tags \<Rightarrow> key_elem list \<Rightarrow> u8 list list \<Rightarrow> (key_elem list \<times> tags \<times> memory) option"
  where
  "any_tag_loop m t found_keys [] = Some (found_keys, t, m)"
| "any_tag_loop m t found_keys (tag # ts) = do {
     (keys, t1, m1) \<leftarrow> get_key_list_copy_by_tag m t tag;
     let (found', m2) = insert_all m1 found_keys keys;
     m3 \<leftarrow> release_key_list m2 keys;
     any_tag_loop m3 t1 found' ts
   }"

definition get_keys_matching_any_tag :: "memory \<Rightarrow> tags \<Rightarrow> u8 list list \<Rightarrow> (key_elem list \<times> tags \<times> memory) option"
  where
  "get_keys_matching_any_tag m t tags =
     (case tags of
        [] \<Rightarrow> Some ([], t, m)
      | tag # ts \<Rightarrow> do {
          (found_keys, t1, m1) \<leftarrow> get_key_list_copy_by_tag m t tag;
          any_tag_loop m1 t1 found_keys ts
        })"

text \<open>An element without a match is unlinked and released, and the element now in its place is looked at
  next (the \<open>goto skip_advancement\<close>).\<close>

fun retain_matching :: "memory \<Rightarrow> key_elem list \<Rightarrow> key_elem list \<Rightarrow> (key_elem list \<times> memory) option" where
  "retain_matching m [] keys = Some ([], m)"
| "retain_matching m (elem # es) keys =
     (if list_has_key keys (snd elem) then do {
        (kept, m') \<leftarrow> retain_matching m es keys;
        Some (elem # kept, m')
      } else do {
        m' \<leftarrow> release_memory m (fst elem);
        retain_matching m' es keys
      })"

fun all_tags_loop :: "memory \<Rightarrow> tags \<Rightarrow> key_elem list \<Rightarrow> u8 list list \<Rightarrow> (key_elem list \<times> tags \<times> memory) option"
  where
  "all_tags_loop m t found_keys [] = Some (found_keys, t, m)"
| "all_tags_loop m t found_keys (tag # ts) = do {
     (keys, t1, m1) \<leftarrow> get_key_list_copy_by_tag m t tag;
     (found', m2) \<leftarrow> retain_matching m1 found_keys keys;
     m3 \<leftarrow> release_key_list m2 keys;
     all_tags_loop m3 t1 found' ts
   }"

definition get_keys_matching_all_tags :: "memory \<Rightarrow> tags \<Rightarrow> u8 list list \<Rightarrow> (key_elem list \<times> tags \<times> memory) option"
  where
  "get_keys_matching_all_tags m t tags =
     (case tags of
        [] \<Rightarrow> Some ([], t, m)
      | tag # ts \<Rightarrow> do {
          (found_keys, t1, m1) \<leftarrow> get_key_list_copy_by_tag m t tag;
          all_tags_loop m1 t1 found_keys ts
        })"

section \<open>Tag statistics\<close>

definition MAX_DEBUG_TAG_DEPTH :: nat where "MAX_DEBUG_TAG_DEPTH = 1024"

type_synonym tag_line = "u32 \<times> nat \<times> u8 list"   \<comment> \<open>keys, depth, tag\<close>

fun write_tag_tree_stats :: "tags \<Rightarrow> nat \<Rightarrow> tag_line list option" where
  "write_tag_tree_stats Leaf depth = Some []"
| "write_tag_tree_stats (Node l n r) depth =
     (if depth > MAX_DEBUG_TAG_DEPTH then Some []
      else if keys_lock n then None
      else do {
        left \<leftarrow> write_tag_tree_stats l (depth + 1);
        right \<leftarrow> write_tag_tree_stats r (depth + 1);
        Some ((num_keys n, depth, printed (t_tag n)) # left @ right)
      })"

definition write_tag_stats :: "tags \<Rightarrow> tag_line list option" where
  "write_tag_stats t = (case t of
     Leaf \<Rightarrow> Some []
   | Node l n r \<Rightarrow> do {
       left \<leftarrow> write_tag_tree_stats l 1;
       right \<leftarrow> write_tag_tree_stats r 1;
       Some (left @ right)
     })"

end
