(* ===== verification/Cik_Budget.thy ===== *)
theory Cik_Budget
  imports Cik_Allocator
begin

text \<open>
  The allocator's contract with a budget: \<open>room m k\<close> says that the region still has space for
  \<open>k\<close> blocks of the two smallest classes, which is all that the tag index asks for (a key or a tag has
  at most 255 bytes). Under a budget a small reservation succeeds; a release never costs any.
\<close>

locale budgeted_allocator = allocator inv lives bsize reserve release
  for inv :: "'m \<Rightarrow> bool" and lives :: "'m \<Rightarrow> addr set" and bsize :: "'m \<Rightarrow> addr \<Rightarrow> nat"
    and reserve :: "'m \<Rightarrow> u32 \<Rightarrow> addr option \<times> 'm" and release :: "'m \<Rightarrow> addr \<Rightarrow> 'm option" +
  fixes small :: u32 and room :: "'m \<Rightarrow> nat \<Rightarrow> bool"
  assumes room_mono: "room m k \<Longrightarrow> j \<le> k \<Longrightarrow> room m j"
    and reserve_room: "inv m \<Longrightarrow> n \<le> small \<Longrightarrow> room m (Suc k) \<Longrightarrow>
      \<exists>a m'. reserve m n = (Some a, m') \<and> room m' k"
    and release_room: "inv m \<Longrightarrow> a \<in> lives m \<Longrightarrow> release m a = Some m' \<Longrightarrow> room m k \<Longrightarrow> room m' k"
begin

lemma reserve_roomE:
  assumes "inv m" "n \<le> small" "room m (Suc k)"
  obtains a m' where "reserve m n = (Some a, m')" "inv m'" "lives m' = insert a (lives m)" "a \<notin> lives m"
    "room m' k" "\<And>c. c \<in> lives m \<Longrightarrow> bsize m' c = bsize m c"
proof -
  obtain a m' where r: "reserve m n = (Some a, m')" "room m' k"
    using reserve_room [OF assms] by auto
  from reserve_Some [OF assms(1) r(1)] that [OF r(1) reserve_inv [OF assms(1) r(1)] _ _ r(2)]
    reserve_keeps [OF assms(1) r(1)] show thesis by blast
qed

lemma release_roomE:
  assumes "inv m" "a \<in> lives m"
  obtains m' where "release m a = Some m'" "inv m'" "lives m' = lives m - {a}"
    "\<And>k. room m k \<Longrightarrow> room m' k" "\<And>c. bsize m' c = bsize m c"
proof -
  obtain m' where "release m a = Some m'" "inv m'" "lives m' = lives m - {a}"
    using release_ok [OF assms] by auto
  with that release_room [OF assms] release_keeps [OF assms] show thesis by blast
qed

end

definition SMALL_BLOCK :: u32 where "SMALL_BLOCK = 512"

definition room :: "memory \<Rightarrow> nat \<Rightarrow> bool" where
  "room m k \<longleftrightarrow> memory_cursor m + k * (TPADDED_Bucket + unat SMALL_BLOCK) \<le> main_memory m + MAX_TOTAL_MEMORY"

lemma find_partition_small:
  assumes inv: "mem_inv m" and n: "n \<le> SMALL_BLOCK"
  shows "\<exists>i. find_partition (partitions m) n = Some i \<and> i < NUM_CLASSES \<and> class_size i \<le> unat SMALL_BLOCK"
proof (cases "find_partition (partitions m) n")
  case None
  have one: "1 < NUM_CLASSES" by (simp add: NUM_CLASSES_def)
  note D = mem_invD [OF inv this]
  have "p_size (partitions m ! 1) < n"
    using find_partition_None [OF None] D(1) by auto
  moreover have "unat (p_size (partitions m ! 1)) = 512"
    using D(3) by (simp add: class_size_def MIN_BUCKET_SIZE_def)
  ultimately show ?thesis using n by (simp add: SMALL_BLOCK_def word_less_nat_alt word_le_nat_alt)
next
  case (Some i)
  note F = find_partition_Some [OF Some]
  have i: "i < NUM_CLASSES" using F inv by (auto simp: mem_inv_def wf_classes_def)
  have "i \<le> 1"
  proof (rule ccontr)
    assume "\<not> i \<le> 1"
    then have "p_size (partitions m ! 1) < n" using F by auto
    moreover have "unat (p_size (partitions m ! 1)) = 512"
      using mem_invD(3) [OF inv, of 1] by (simp add: class_size_def MIN_BUCKET_SIZE_def NUM_CLASSES_def)
    ultimately show False using n by (simp add: SMALL_BLOCK_def word_less_nat_alt word_le_nat_alt)
  qed
  then have "class_size i \<le> 512" by (cases i) (auto simp: class_size_def MIN_BUCKET_SIZE_def)
  with Some i show ?thesis by (simp add: SMALL_BLOCK_def)
qed

lemma reserve_memory_room:
  assumes inv: "mem_inv m" and n: "n \<le> SMALL_BLOCK" and k: "room m (Suc k)"
  shows "\<exists>a m'. reserve_memory m n = (Some a, m') \<and> room m' k"
proof -
  obtain i where i: "find_partition (partitions m) n = Some i" "i < NUM_CLASSES" "class_size i \<le> unat SMALL_BLOCK"
    using find_partition_small [OF inv n] by auto
  show ?thesis
  proof (cases rule: reserve_memory_cases [OF inv, of n])
    case 1
    with i show ?thesis by simp
  next
    case (2 i b bs)
    with k show ?thesis by (auto simp: room_def)
  next
    case (3 j)
    with i k have "memory_cursor m + TPADDED_Bucket + class_size i \<le> main_memory m + MAX_TOTAL_MEMORY"
      by (simp add: room_def)
    with 3 i show ?thesis by simp
  next
    case (4 j)
    with i k show ?thesis by (auto simp: room_def)
  qed
qed

lemma release_memory_room:
  assumes "release_memory m a = Some m'"
  shows "room m' k = room m k"
  using assms by (auto simp: release_memory_def room_def Let_def split: if_splits option.splits)

interpretation bmem: budgeted_allocator mem_inv live block_size reserve_memory release_memory SMALL_BLOCK room
proof unfold_locales
  fix m n k j a m'
  show "room m k \<Longrightarrow> j \<le> k \<Longrightarrow> room m j"
    unfolding room_def using mult_le_mono1 [of j k "TPADDED_Bucket + unat SMALL_BLOCK"] by linarith
  show "mem_inv m \<Longrightarrow> n \<le> SMALL_BLOCK \<Longrightarrow> room m (Suc k) \<Longrightarrow>
      \<exists>a m'. reserve_memory m n = (Some a, m') \<and> room m' k"
    by (rule reserve_memory_room)
  show "release_memory m a = Some m' \<Longrightarrow> room m k \<Longrightarrow> room m' k"
    by (simp add: release_memory_room)
qed

text \<open>The budget that covers a block of any class: as many small blocks as the biggest one takes. A block
  for \<open>n\<close> bytes is less than twice as big, if it is not of the smallest class.\<close>

definition BIG :: nat where "BIG = 16384"

definition block_budget :: "nat \<Rightarrow> nat" where "block_budget n = min BIG (n div 256 + 1)"

lemma block_budget_le: "block_budget n \<le> BIG" "0 < block_budget n"
  by (simp_all add: block_budget_def BIG_def)

lemma partition_budget:
  assumes inv: "mem_inv m" and i: "find_partition (partitions m) n = Some i" "i < NUM_CLASSES"
  shows "TPADDED_Bucket + class_size i \<le> block_budget (unat n) * (TPADDED_Bucket + unat SMALL_BLOCK)"
proof -
  have "class_size i \<le> 512 * (unat n div 256 + 1)"
  proof (cases i)
    case (Suc j)
    then have "p_size (partitions m ! j) < n" "j < NUM_CLASSES" using find_partition_Some [OF i(1)] i(2) by auto
    then have "class_size j < unat n" using mem_invD(3) [OF inv, of j] by (simp add: word_less_nat_alt)
    moreover have "class_size i = 2 * class_size j" by (simp add: Suc class_size_def)
    moreover have "unat n \<le> 256 * (unat n div 256 + 1)"
      using dividend_less_times_div [of 256 "unat n"] by (simp add: add.commute)
    ultimately show ?thesis by simp
  qed (simp add: class_size_def MIN_BUCKET_SIZE_def)
  moreover have "class_size i \<le> 512 * BIG" using class_size_bounds [OF i(2)] by (simp add: BIG_def MAX_BUCKET_SIZE_def)
  ultimately have "class_size i \<le> 512 * block_budget (unat n)" by (simp add: block_budget_def min_def)
  then show ?thesis using block_budget_le(2) [of "unat n"] by (simp add: SMALL_BLOCK_def)
qed

lemma reserve_budgeted:
  assumes inv: "mem_inv m" and rm: "room m (k + block_budget (unat n))"
  shows "reserve_memory m n = (Some a, m') \<Longrightarrow> room m' k"
    and "reserve_memory m n = (None, m') \<Longrightarrow> MAX_BUCKET_SIZE < unat n \<and> m' = m"
proof -
  have top: "class_size 15 = MAX_BUCKET_SIZE" by (simp add: class_size_def MIN_BUCKET_SIZE_def MAX_BUCKET_SIZE_def)
  have low: "memory_cursor m + TPADDED_Bucket + class_size i + k * (TPADDED_Bucket + unat SMALL_BLOCK)
      \<le> main_memory m + MAX_TOTAL_MEMORY" if "find_partition (partitions m) n = Some i" "i < NUM_CLASSES" for i
    using rm partition_budget [OF inv that] by (simp add: room_def add_mult_distrib)
  have mono: "room m k" using bmem.room_mono [OF rm] by simp
  show "room m' k" if r: "reserve_memory m n = (Some a, m')"
  proof (cases rule: reserve_memory_cases [OF inv, of n])
    case (2 i b bs)
    then show ?thesis using r mono by (auto simp: room_def)
  next
    case (4 i)
    then show ?thesis using r low [OF 4(1,2)] by (auto simp: room_def)
  qed (use r in simp_all)
  show "MAX_BUCKET_SIZE < unat n \<and> m' = m" if r: "reserve_memory m n = (None, m')"
  proof (cases rule: reserve_memory_cases [OF inv, of n])
    case 1
    have l: "15 < NUM_CLASSES" by (simp add: NUM_CLASSES_def)
    have "15 < length (partitions m)" using inv l by (simp add: mem_inv_def wf_classes_def)
    then have "p_size (partitions m ! 15) < n" using find_partition_None [OF 1(2)] by simp
    then show ?thesis using 1(1) r mem_invD(3) [OF inv l] top by (simp add: word_less_nat_alt)
  next
    case (3 i)
    then show ?thesis using low [OF 3(1,2)] by simp
  qed (use r in simp_all)
qed

lemma reserve_big:
  assumes inv: "mem_inv m" and rm: "room m (k + BIG)"
  shows "reserve_memory m n = (Some a, m') \<Longrightarrow> room m' k"
    and "reserve_memory m n = (None, m') \<Longrightarrow> MAX_BUCKET_SIZE < unat n \<and> m' = m"
proof -
  have "room m (k + block_budget (unat n))" by (rule bmem.room_mono [OF rm]) (use block_budget_le(1) in simp)
  from reserve_budgeted [OF inv this] show "reserve_memory m n = (Some a, m') \<Longrightarrow> room m' k"
    "reserve_memory m n = (None, m') \<Longrightarrow> MAX_BUCKET_SIZE < unat n \<and> m' = m" by blast+
qed

text \<open>The budget of a freshly initialised region: room for more than seven million small blocks.\<close>

lemma room_init: "k \<le> 7000000 \<Longrightarrow> room (init_state base) k"
  by (simp add: room_def init_state_def init_sizes SMALL_BLOCK_def MAX_TOTAL_MEMORY_def)

end
