(* ===== verification/Cik_Tag_Index.thy ===== *)
theory Cik_Tag_Index
  imports Cik_Tag Cik_Budget
begin

text \<open>
  What the tag index of \<open>src/src/tag.c\<close> computes. The tree is read through \<open>inorder\<close>: the
  nodes from left to right, strictly ascending in the lexicographic order of their tags, which is the
  order \<open>compare_tags\<close> decides. \<open>tag_map\<close> is the finite map from tags to key lists; the blocks
  of the index are the addresses its nodes and keys occupy.
\<close>

section \<open>Comparing\<close>

lemma memcmp_equal: "length a = length b \<Longrightarrow> memcmp a b (length a) = 0 \<longleftrightarrow> a = b"
proof (induction a arbitrary: b)
  case (Cons x a)
  then show ?case by (cases b) auto
qed simp

lemma keys_are_equal_iff [simp]: "keys_are_equal a b \<longleftrightarrow> a = b"
  using memcmp_equal by (auto simp: keys_are_equal_def)

lemma memcmp_0 [simp]: "memcmp a b 0 = 0"
  by (cases a; cases b) auto

lemma memcmp_less:
  "memcmp a b (min (length a) (length b)) < 0 \<or> memcmp a b (min (length a) (length b)) = 0 \<and> length a < length b
     \<longleftrightarrow> a < b"
proof (induction a arbitrary: b)
  case Nil
  show ?case by (cases b) simp_all
next
  case (Cons x a)
  then show ?case by (cases b) simp_all
qed

lemma memcmp_greater:
  "memcmp a b (min (length a) (length b)) > 0 \<or> memcmp a b (min (length a) (length b)) = 0 \<and> length b < length a
     \<longleftrightarrow> b < a"
proof (induction a arbitrary: b)
  case Nil
  show ?case by (cases b) simp_all
next
  case (Cons x a)
  show ?case
  proof (cases b)
    case (Cons y b')
    then show ?thesis using Cons.IH [of b'] by (simp add: not_less less_le) auto
  qed simp
qed

lemma compare_tags_min:
  "compare_tags a b = (let r = memcmp a b (min (length a) (length b)) in
     if r = 0 then (if length a < length b then -1 else if length b < length a then 1 else 0) else r)"
  by (simp add: compare_tags_def min_def Let_def)

lemma compare_tags_less: "compare_tags a b < 0 \<longleftrightarrow> a < b"
  using memcmp_less [of a b] by (auto simp: compare_tags_min Let_def)

lemma compare_tags_greater: "compare_tags a b > 0 \<longleftrightarrow> b < a"
  using memcmp_greater [of a b] by (auto simp: compare_tags_min Let_def)

lemma compare_tags_eq: "compare_tags a b = 0 \<longleftrightarrow> a = b"
  using compare_tags_less [of a b] compare_tags_greater [of a b]
  by (metis less_linear less_irrefl linorder_cases)

lemma list_has_key_iff [simp]: "list_has_key ks key \<longleftrightarrow> key \<in> snd ` set ks"
  by (induction ks) auto

section \<open>Paths\<close>

lemma path_split:
  assumes "node_at t p = Some n"
  obtains xs ys where "inorder t = xs @ n # ys" "\<And>f. inorder (upd_node f t p) = xs @ f n # ys"
proof -
  have "\<exists>xs ys. inorder t = xs @ n # ys \<and> (\<forall>f. inorder (upd_node f t p) = xs @ f n # ys)"
    using assms
  proof (induction t p rule: node_at.induct)
    case (3 l m r p)
    then obtain xs ys where "inorder l = xs @ n # ys" "\<forall>f. inorder (upd_node f l p) = xs @ f n # ys"
      by auto
    then show ?case by (intro exI [of _ xs] exI [of _ "ys @ m # inorder r"]) simp
  next
    case (4 l m r p)
    then obtain xs ys where "inorder r = xs @ n # ys" "\<forall>f. inorder (upd_node f r p) = xs @ f n # ys"
      by auto
    then show ?case by (intro exI [of _ "inorder l @ m # xs"] exI [of _ ys]) simp
  qed auto
  with that show thesis by blast
qed

lemma node_at_upd [simp]: "node_at t p = Some n \<Longrightarrow> node_at (upd_node f t p) p = Some (f n)"
  by (induction t p rule: node_at.induct) auto

lemma upd_upd_node [simp]: "upd_node g (upd_node f t p) p = upd_node (g \<circ> f) t p"
  by (induction f t p rule: upd_node.induct) auto

lemma upd_node_id: "node_at t p = Some n \<Longrightarrow> f n = n \<Longrightarrow> upd_node f t p = t"
  by (induction t p rule: node_at.induct) auto

section \<open>Invariant\<close>

definition tag_map :: "tags \<Rightarrow> u8 list \<rightharpoonup> key_elem list" where
  "tag_map t = map_of (map (\<lambda>n. (t_tag n, t_keys n)) (inorder t))"

definition keys_of :: "tags \<Rightarrow> u8 list \<Rightarrow> u8 list list" where
  "keys_of t tag = (case tag_map t tag of None \<Rightarrow> [] | Some ks \<Rightarrow> map snd ks)"

text \<open>A key or a tag as a request can carry it; an empty one cannot be reversed.\<close>

definition name_fine :: "u8 list \<Rightarrow> bool" where
  "name_fine name \<longleftrightarrow> name \<noteq> [] \<and> length name \<le> 255"

definition node_ok :: "TagNode \<Rightarrow> bool" where
  "node_ok n \<longleftrightarrow> \<not> keys_lock n \<and> distinct (map snd (t_keys n)) \<and>
     num_keys n = of_nat (length (t_keys n)) \<and> length (t_tag n) \<le> 255 \<and> (t_keys n \<noteq> [] \<longrightarrow> t_tag n \<noteq> []) \<and>
     (\<forall>k \<in> set (t_keys n). name_fine (snd k))"

definition nodes_ok :: "TagNode list \<Rightarrow> bool" where
  "nodes_ok ns \<longleftrightarrow> sorted_wrt (<) (map t_tag ns) \<and> (\<forall>n \<in> set ns. node_ok n)"

text \<open>The root is static: address 0 stands for its storage, which the allocator never hands out.\<close>

definition node_blocks :: "TagNode \<Rightarrow> addr list" where
  "node_blocks n = (if t_addr n = 0 then [] else [t_addr n]) @ map fst (t_keys n)"

definition blocks :: "TagNode list \<Rightarrow> addr list" where
  "blocks ns = concat (map node_blocks ns)"

definition tag_blocks :: "tags \<Rightarrow> addr set" where
  "tag_blocks t = set (blocks (inorder t))"

definition tag_inv :: "memory \<Rightarrow> tags \<Rightarrow> bool" where
  "tag_inv m t \<longleftrightarrow> t \<noteq> Leaf \<and> nodes_ok (inorder t) \<and> distinct (blocks (inorder t)) \<and> tag_blocks t \<subseteq> live m"

lemma blocks_simps [simp]:
  "blocks [] = []" "blocks (n # ns) = node_blocks n @ blocks ns" "blocks (xs @ ys) = blocks xs @ blocks ys"
  by (simp_all add: blocks_def)

lemma nodes_ok_split:
  "nodes_ok (xs @ n # ys) \<longleftrightarrow> nodes_ok (xs @ ys) \<and> node_ok n \<and>
     (\<forall>x \<in> set xs. t_tag x < t_tag n) \<and> (\<forall>y \<in> set ys. t_tag n < t_tag y)"
  by (auto simp: nodes_ok_def sorted_wrt_append sorted_wrt_map dest: less_trans)

lemma map_of_split:
  assumes "nodes_ok (xs @ n # ys)"
  shows "map_of (map (\<lambda>n. (t_tag n, t_keys n)) (xs @ n # ys)) =
    (map_of (map (\<lambda>n. (t_tag n, t_keys n)) (xs @ ys)))(t_tag n \<mapsto> t_keys n)"
proof -
  have "t_tag n \<notin> t_tag ` set xs"
    using assms by (auto simp: nodes_ok_split)
  then show ?thesis by (induction xs) auto
qed

lemma tag_map_None:
  "nodes_ok (xs @ n # ys) \<Longrightarrow> map_of (map (\<lambda>n. (t_tag n, t_keys n)) (xs @ ys)) (t_tag n) = None"
  by (auto simp: nodes_ok_split map_of_eq_None_iff)

lemma inv_keys_of:
  assumes "tag_inv m t"
  shows "distinct (keys_of t tag)" and "k \<in> set (keys_of t tag) \<Longrightarrow> length k \<le> 255"
    and "k \<in> set (keys_of t tag) \<Longrightarrow> name_fine k" and "keys_of t tag \<noteq> [] \<Longrightarrow> name_fine tag"
proof -
  have "distinct (keys_of t tag) \<and> (\<forall>k \<in> set (keys_of t tag). name_fine k) \<and> (keys_of t tag \<noteq> [] \<longrightarrow> name_fine tag)"
  proof (cases "tag_map t tag")
    case (Some ks)
    then obtain n where "n \<in> set (inorder t)" "t_keys n = ks" "t_tag n = tag"
      by (auto simp: tag_map_def dest!: map_of_SomeD)
    then have "node_ok n" "ks = t_keys n" "t_tag n = tag" using assms by (auto simp: tag_inv_def nodes_ok_def)
    then show ?thesis using Some by (auto simp: keys_of_def node_ok_def name_fine_def)
  qed (simp add: keys_of_def)
  then show "distinct (keys_of t tag)" and "k \<in> set (keys_of t tag) \<Longrightarrow> length k \<le> 255"
    and "k \<in> set (keys_of t tag) \<Longrightarrow> name_fine k" and "keys_of t tag \<noteq> [] \<Longrightarrow> name_fine tag" by (auto simp: name_fine_def)
qed

lemma tag_inv_memory:
  "tag_inv m t \<Longrightarrow> live m \<subseteq> live m' \<Longrightarrow> tag_inv m' t"
  by (auto simp: tag_inv_def)

section \<open>Nodes\<close>

lemma nodes_ok_append: "nodes_ok (xs @ ys) \<Longrightarrow> nodes_ok xs \<and> nodes_ok ys"
  by (auto simp: nodes_ok_def sorted_wrt_append)

lemma get_tag_Some: "get_tag_if_exists t tag = Some p \<Longrightarrow> \<exists>n. node_at t p = Some n \<and> t_tag n = tag"
  by (induction t tag arbitrary: p rule: get_tag_if_exists.induct)
    (auto simp: Let_def compare_tags_eq split: if_splits)

lemma get_tag_None:
  "nodes_ok (inorder t) \<Longrightarrow> get_tag_if_exists t tag = None \<Longrightarrow> tag \<notin> t_tag ` set (inorder t)"
proof (induction t tag rule: get_tag_if_exists.induct)
  case (2 l n r tag)
  from 2(3) have nok: "nodes_ok (inorder l)" "nodes_ok (inorder r)"
    and l: "\<And>x. x \<in> set (inorder l) \<Longrightarrow> t_tag x < t_tag n" and r: "\<And>x. x \<in> set (inorder r) \<Longrightarrow> t_tag n < t_tag x"
    by (auto simp: nodes_ok_split dest!: nodes_ok_append)
  from 2(4) have ne: "compare_tags tag (t_tag n) \<noteq> 0" by (auto simp: Let_def split: if_splits)
  show ?case
  proof (cases "tag < t_tag n")
    case True
    then have "compare_tags tag (t_tag n) < 0" by (simp add: compare_tags_less)
    then have "tag \<notin> t_tag ` set (inorder l)" using 2(1,4) ne nok by (auto simp: Let_def)
    moreover have "tag \<noteq> t_tag x" if "x \<in> set (inorder r)" for x using r [OF that] True by auto
    ultimately show ?thesis using True by auto
  next
    case False
    then have lt: "t_tag n < tag" and nl: "\<not> compare_tags tag (t_tag n) < 0"
      using ne by (auto simp: compare_tags_less compare_tags_eq)
    then have "tag \<notin> t_tag ` set (inorder r)" using 2(2,4) ne nok by (auto simp: Let_def)
    moreover have "tag \<noteq> t_tag x" if "x \<in> set (inorder l)" for x using l [OF that] lt by auto
    ultimately show ?thesis using lt by auto
  qed
qed simp

lemma tag_map_path:
  assumes "nodes_ok (inorder t)" and "node_at t p = Some n"
  shows "tag_map t (t_tag n) = Some (t_keys n)" and "node_ok n"
proof -
  obtain xs ys where xy: "inorder t = xs @ n # ys" using path_split [OF assms(2)] by metis
  then show "tag_map t (t_tag n) = Some (t_keys n)" and "node_ok n"
    using assms(1) map_of_split [of xs n ys] by (simp_all add: tag_map_def nodes_ok_split)
qed

lemma get_tag_cases:
  assumes "nodes_ok (inorder t)"
  obtains (absent) "get_tag_if_exists t tag = None" "tag_map t tag = None"
  | (present) p n where "get_tag_if_exists t tag = Some p" "node_at t p = Some n" "t_tag n = tag"
      "tag_map t tag = Some (t_keys n)" "node_ok n"
proof (cases "get_tag_if_exists t tag")
  case None
  then have "tag_map t tag = None"
    using get_tag_None [OF assms None] by (simp add: tag_map_def map_of_eq_None_iff image_image)
  with None show thesis by (rule absent)
next
  case (Some p)
  then obtain n where "node_at t p = Some n" "t_tag n = tag" using get_tag_Some by blast
  with Some tag_map_path [OF assms this(1)] show thesis by (intro present) auto
qed

lemma upd_keys:
  assumes ok: "nodes_ok (inorder t)" and n: "node_at t p = Some n"
    and f: "t_tag (f n) = t_tag n" "node_ok (f n)"
  shows "nodes_ok (inorder (upd_node f t p))"
    and "tag_map (upd_node f t p) = (tag_map t)(t_tag n \<mapsto> t_keys (f n))"
proof -
  obtain xs ys where xy: "inorder t = xs @ n # ys" "inorder (upd_node f t p) = xs @ f n # ys"
    using path_split [OF n] by metis
  then show *: "nodes_ok (inorder (upd_node f t p))"
    using ok f by (simp add: nodes_ok_split)
  show "tag_map (upd_node f t p) = (tag_map t)(t_tag n \<mapsto> t_keys (f n))"
    using map_of_split [of xs n ys] map_of_split [of xs "f n" ys] ok * f(1) by (simp add: tag_map_def xy)
qed

lemma keys_of_upd:
  "tag_map t' = (tag_map t)(tag \<mapsto> ks) \<Longrightarrow> keys_of t' = (keys_of t)(tag := map snd ks)"
  by (simp add: keys_of_def fun_eq_iff)

lemma lock_path:
  assumes "node_at t p = Some n" and "node_ok n"
  shows "LOCK_KEYS t p = Some (upd_node (keys_lock_update (\<lambda>_. True)) t p)"
  using assms by (simp add: LOCK_KEYS_def node_ok_def)

section \<open>Blocks of key lists\<close>

definition owned :: "memory \<Rightarrow> key_elem list \<Rightarrow> bool" where
  "owned m es \<longleftrightarrow> distinct (map fst es) \<and> set (map fst es) \<subseteq> live m"

definition sizes_kept :: "memory \<Rightarrow> memory \<Rightarrow> bool" where
  "sizes_kept m m' \<longleftrightarrow> (\<forall>a \<in> live m. block_size m' a = block_size m a)"

lemma sizes_kept_refl [simp]: "sizes_kept m m"
  by (simp add: sizes_kept_def)

lemma sizes_kept_trans:
  "sizes_kept m m1 \<Longrightarrow> live m \<subseteq> live m1 \<Longrightarrow> sizes_kept m1 m2 \<Longrightarrow> sizes_kept m m2"
  by (auto simp: sizes_kept_def)

lemma small_block: "n \<le> 512 \<Longrightarrow> (of_nat n :: u32) \<le> SMALL_BLOCK"
  by (simp add: SMALL_BLOCK_def word_le_nat_alt unat_of_nat take_bit_nat_eq_self)

lemma create_key_elem_spec:
  assumes inv: "mem_inv m" and c: "create_key_elem m key = (r, m')"
  shows "mem_inv m'" and "sizes_kept m m'"
    and "r = None \<Longrightarrow> live m' = live m"
    and "r = Some e \<Longrightarrow> snd e = key \<and> fst e \<notin> live m \<and> live m' = insert (fst e) (live m)"
    and "length key \<le> 255 \<Longrightarrow> room m (Suc k) \<Longrightarrow> r \<noteq> None \<and> room m' k"
proof -
  let ?n = "of_nat (sizeof_KeyElem + length key) :: u32"
  obtain q where q: "reserve_memory m ?n = (q, m')" "r = map_option (\<lambda>a. (a, key)) q"
    using c by (auto simp: create_key_elem_def split: prod.splits option.splits)
  show "mem_inv m'" using mem.reserve_inv [OF inv q(1)] .
  show "sizes_kept m m'" using mem.reserve_keeps [OF inv q(1)] by (simp add: sizes_kept_def)
  show "r = None \<Longrightarrow> live m' = live m" using q mem.reserve_None [OF inv] by auto
  show "r = Some e \<Longrightarrow> snd e = key \<and> fst e \<notin> live m \<and> live m' = insert (fst e) (live m)"
    using q mem.reserve_Some [OF inv] by auto
  assume len: "length key \<le> 255" and k: "room m (Suc k)"
  have "?n \<le> SMALL_BLOCK"
    using len by (intro small_block) (simp add: sizeof_KeyElem_def)
  from bmem.reserve_room [OF inv this k] q show "r \<noteq> None \<and> room m' k" by auto
qed

lemma create_tag_node_spec:
  assumes inv: "mem_inv m"
  shows "create_tag_node m tag = Some (n, m') \<Longrightarrow>
      mem_inv m' \<and> sizes_kept m m' \<and> t_addr n \<notin> live m \<and> t_addr n \<noteq> 0 \<and> live m' = insert (t_addr n) (live m) \<and>
      t_tag n = tag \<and> t_keys n = [] \<and> \<not> keys_lock n \<and> num_keys n = 0"
    and "length tag \<le> 255 \<Longrightarrow> room m (Suc k) \<Longrightarrow> \<exists>n m'. create_tag_node m tag = Some (n, m') \<and> room m' k"
proof -
  let ?n = "of_nat (sizeof_TagNode + length tag) :: u32"
  show "create_tag_node m tag = Some (n, m') \<Longrightarrow>
      mem_inv m' \<and> sizes_kept m m' \<and> t_addr n \<notin> live m \<and> t_addr n \<noteq> 0 \<and> live m' = insert (t_addr n) (live m) \<and>
      t_tag n = tag \<and> t_keys n = [] \<and> \<not> keys_lock n \<and> num_keys n = 0"
  proof -
    assume "create_tag_node m tag = Some (n, m')"
    then obtain a where a: "reserve_memory m ?n = (Some a, m')"
      and n: "n = \<lparr>t_addr = a, t_tag = tag, t_keys = [], keys_lock = False, num_keys = 0\<rparr>"
      by (auto simp: create_tag_node_def split: prod.splits option.splits)
    have "a \<in> live m'" using mem.reserve_Some [OF inv a] by simp
    from live_in_region [OF mem.reserve_inv [OF inv a] this] have "a \<noteq> 0" by auto
    then show ?thesis
      using mem.reserve_inv [OF inv a] mem.reserve_Some [OF inv a] mem.reserve_keeps [OF inv a]
      by (auto simp: n sizes_kept_def)
  qed
  assume len: "length tag \<le> 255" and k: "room m (Suc k)"
  have "?n \<le> SMALL_BLOCK"
    using len by (intro small_block) (simp add: sizeof_TagNode_def)
  from bmem.reserve_room [OF inv this k] show "\<exists>n m'. create_tag_node m tag = Some (n, m') \<and> room m' k"
    by (auto simp: create_tag_node_def)
qed

lemma insert_if_unique_spec:
  assumes inv: "mem_inv m" and i: "insert_if_unique m es key = (b, es', m')"
  shows "mem_inv m'" and "sizes_kept m m'" and "live m \<subseteq> live m'"
    and "key \<in> snd ` set es \<Longrightarrow> \<not> b \<and> m' = m"
    and "\<not> b \<Longrightarrow> es' = es \<and> live m' = live m"
    and "b \<Longrightarrow> \<exists>a. es' = (a, key) # es \<and> a \<notin> live m \<and> live m' = insert a (live m) \<and> key \<notin> snd ` set es"
    and "length key \<le> 255 \<Longrightarrow> room m (Suc k) \<Longrightarrow> (b \<longleftrightarrow> key \<notin> snd ` set es) \<and> room m' k"
proof -
  obtain r m1 where c: "create_key_elem m key = (r, m1)" by (cases "create_key_elem m key")
  note S = create_key_elem_spec [OF inv c]
  show "mem_inv m'" "sizes_kept m m'" "live m \<subseteq> live m'"
    using i c S inv by (auto simp: insert_if_unique_def split: if_splits option.splits)
  show "key \<in> snd ` set es \<Longrightarrow> \<not> b \<and> m' = m" "\<not> b \<Longrightarrow> es' = es \<and> live m' = live m"
    using i c S by (auto simp: insert_if_unique_def split: if_splits option.splits)
  show "b \<Longrightarrow> \<exists>a. es' = (a, key) # es \<and> a \<notin> live m \<and> live m' = insert a (live m) \<and> key \<notin> snd ` set es"
    using i c S by (force simp: insert_if_unique_def split: if_splits option.splits)
  assume l: "length key \<le> 255" and k: "room m (Suc k)"
  then have "room m k" using bmem.room_mono [OF k, of k] by simp
  then show "(b \<longleftrightarrow> key \<notin> snd ` set es) \<and> room m' k"
    using i c S(5) [OF l k] by (auto simp: insert_if_unique_def split: if_splits option.splits)
qed

section \<open>Copying and releasing lists\<close>

lemma copy_key_list_spec:
  assumes "mem_inv m" and "copy_key_list m es = Some (copy, m')"
  shows "mem_inv m' \<and> sizes_kept m m' \<and> map snd copy = map snd es \<and> distinct (map fst copy) \<and>
    set (map fst copy) \<inter> live m = {} \<and> live m' = live m \<union> set (map fst copy)"
  using assms
proof (induction es arbitrary: m copy)
  case (Cons e es)
  obtain e1 m1 copy1 where c: "create_key_elem m (snd e) = (Some e1, m1)"
    and r: "copy_key_list m1 es = Some (copy1, m')" and copy: "copy = e1 # copy1"
    using Cons.prems(2) by (auto simp: bind_eq_Some_conv split: prod.splits option.splits)
  note S = create_key_elem_spec [OF Cons.prems(1) c]
  have l: "live m1 = insert (fst e1) (live m)" "fst e1 \<notin> live m" "snd e1 = snd e" using S(4) by auto
  have "sizes_kept m m'"
    using S(2) Cons.IH [OF S(1) r] l by (auto intro: sizes_kept_trans)
  with Cons.IH [OF S(1) r] l show ?case by (auto simp: copy)
qed auto

lemma copy_key_list_room:
  assumes "mem_inv m" and "\<forall>e \<in> set es. length (snd e) \<le> 255" and "room m (length es + k)"
  shows "\<exists>copy m'. copy_key_list m es = Some (copy, m') \<and> room m' k"
  using assms
proof (induction es arbitrary: m)
  case (Cons e es)
  obtain r m1 where c: "create_key_elem m (snd e) = (r, m1)" by (cases "create_key_elem m (snd e)")
  have "room m (Suc (length es + k))" using Cons.prems(3) by simp
  then obtain e1 where "r = Some e1" and "room m1 (length es + k)"
    using create_key_elem_spec(5) [OF Cons.prems(1) c, of "length es + k"] Cons.prems(2) by auto
  moreover have "\<exists>copy m'. copy_key_list m1 es = Some (copy, m') \<and> room m' k"
    using create_key_elem_spec(1) [OF Cons.prems(1) c] Cons.prems calculation by (intro Cons.IH) auto
  ultimately show ?case using c by auto
qed simp

lemma release_key_list_spec:
  assumes "mem_inv m" and "owned m es"
  shows "\<exists>m'. release_key_list m es = Some m' \<and> mem_inv m' \<and> live m' = live m - set (map fst es) \<and>
    (\<forall>c. block_size m' c = block_size m c) \<and> (\<forall>k. room m k \<longrightarrow> room m' k)"
  using assms
proof (induction es arbitrary: m)
  case (Cons e es)
  then have "fst e \<in> live m" by (simp add: owned_def)
  from bmem.release_roomE [OF Cons.prems(1) this] obtain m1 where m1: "release_memory m (fst e) = Some m1"
    "mem_inv m1" "live m1 = live m - {fst e}" "\<And>k. room m k \<Longrightarrow> room m1 k" "\<And>c. block_size m1 c = block_size m c"
    by metis
  have "owned m1 es" using Cons.prems(2) by (simp add: owned_def m1(3) subset_Diff_insert)
  from Cons.IH [OF m1(2) this] obtain m' where m': "release_key_list m1 es = Some m'" "mem_inv m'"
    "live m' = live m1 - set (map fst es)" "\<forall>c. block_size m' c = block_size m1 c" "\<forall>k. room m1 k \<longrightarrow> room m' k"
    by auto
  then show ?case using m1 by auto
qed simp

section \<open>Tag index operations\<close>

lemma copy_by_tag_eq:
  assumes "nodes_ok (inorder t)"
  shows "get_key_list_copy_by_tag m t tag =
    (case tag_map t tag of None \<Rightarrow> Some ([], t, m)
     | Some ks \<Rightarrow> map_option (\<lambda>(copy, m'). (copy, t, m')) (copy_key_list m ks))"
proof (cases rule: get_tag_cases [OF assms, of tag])
  case 1
  then show ?thesis by (simp add: get_key_list_copy_by_tag_def)
next
  case (2 p n)
  have "UNLOCK_KEYS (upd_node (keys_lock_update (\<lambda>_. True)) t p) p = t"
    unfolding UNLOCK_KEYS_def upd_upd_node using 2(2,5)
    by (intro upd_node_id [OF 2(2)]) (cases n, simp add: node_ok_def)
  then show ?thesis
    using 2 lock_path [OF 2(2,5)]
    by (cases "copy_key_list m (t_keys n)") (auto simp: get_key_list_copy_by_tag_def)
qed

lemma get_or_create_present:
  "get_tag_if_exists t tag = Some p \<Longrightarrow> get_or_create_loop m t tag = Some (p, t, m)"
  by (induction t tag arbitrary: p rule: get_tag_if_exists.induct) (auto simp: Let_def split: if_splits)

definition inserted :: "tags \<Rightarrow> tags \<Rightarrow> TagNode \<Rightarrow> u8 list \<Rightarrow> bool" where
  "inserted t t' n tag \<longleftrightarrow> (\<exists>xs ys. inorder t = xs @ ys \<and> inorder t' = xs @ n # ys \<and>
     (nodes_ok (inorder t) \<longrightarrow> (\<forall>x \<in> set xs. t_tag x < tag) \<and> (\<forall>y \<in> set ys. tag < t_tag y)))"

lemma inserted_left:
  assumes "inserted l l' k tag" and "tag < t_tag n"
  shows "inserted (Node l n r) (Node l' n r) k tag"
proof -
  obtain xs ys where l: "inorder l = xs @ ys" "inorder l' = xs @ k # ys"
    and ok: "nodes_ok (inorder l) \<longrightarrow> (\<forall>x \<in> set xs. t_tag x < tag) \<and> (\<forall>y \<in> set ys. tag < t_tag y)"
    using assms(1) by (auto simp: inserted_def)
  have "(\<forall>x \<in> set xs. t_tag x < tag) \<and> (\<forall>y \<in> set (ys @ n # inorder r). tag < t_tag y)"
    if "nodes_ok (inorder (Node l n r))"
  proof -
    have "nodes_ok (inorder l @ inorder r)" and r: "\<forall>y \<in> set (inorder r). t_tag n < t_tag y"
      using that by (auto simp: nodes_ok_split)
    then have "nodes_ok (inorder l)" using nodes_ok_append by blast
    moreover have "\<forall>y \<in> set (inorder r). tag < t_tag y" using r assms(2) less_trans by blast
    ultimately show ?thesis using ok assms(2) by auto
  qed
  with l show ?thesis
    unfolding inserted_def by (intro exI [of _ xs] exI [of _ "ys @ n # inorder r"]) simp
qed

lemma inserted_right:
  assumes "inserted r r' k tag" and "t_tag n < tag"
  shows "inserted (Node l n r) (Node l n r') k tag"
proof -
  obtain xs ys where r: "inorder r = xs @ ys" "inorder r' = xs @ k # ys"
    and ok: "nodes_ok (inorder r) \<longrightarrow> (\<forall>x \<in> set xs. t_tag x < tag) \<and> (\<forall>y \<in> set ys. tag < t_tag y)"
    using assms(1) by (auto simp: inserted_def)
  have "(\<forall>x \<in> set (inorder l @ n # xs). t_tag x < tag) \<and> (\<forall>y \<in> set ys. tag < t_tag y)"
    if "nodes_ok (inorder (Node l n r))"
  proof -
    have "nodes_ok (inorder l @ inorder r)" and l: "\<forall>y \<in> set (inorder l). t_tag y < t_tag n"
      using that by (auto simp: nodes_ok_split)
    then have "nodes_ok (inorder r)" using nodes_ok_append by blast
    moreover have "\<forall>y \<in> set (inorder l). t_tag y < tag" using l assms(2) less_trans by blast
    ultimately show ?thesis using ok assms(2) by auto
  qed
  with r show ?thesis
    unfolding inserted_def by (intro exI [of _ "inorder l @ n # xs"] exI [of _ ys]) simp
qed

lemma get_or_create_absent:
  assumes "get_tag_if_exists t tag = None"
  shows "case create_tag_node m tag of
      None \<Rightarrow> get_or_create_loop m t tag = None
    | Some (n, m') \<Rightarrow> \<exists>p t'. get_or_create_loop m t tag = Some (p, t', m') \<and> node_at t' p = Some n \<and> t' \<noteq> Leaf \<and>
        inserted t t' n tag"
  using assms
proof (induction t)
  case Leaf
  show ?case by (cases "create_tag_node m tag") (auto simp: inserted_def)
next
  case (Node l n r)
  have ne: "compare_tags tag (t_tag n) \<noteq> 0" using Node.prems by (auto simp: Let_def split: if_splits)
  show ?case
  proof (cases "compare_tags tag (t_tag n) < 0")
    case True
    then have lt: "tag < t_tag n" by (simp add: compare_tags_less)
    have absent: "get_tag_if_exists l tag = None" using Node.prems True by (auto simp: Let_def)
    show ?thesis
      using Node.IH(1) [OF absent] True inserted_left [OF _ lt]
      by (cases "create_tag_node m tag") (fastforce simp: Let_def)+
  next
    case False
    then have gt: "t_tag n < tag" "compare_tags tag (t_tag n) > 0"
      using ne by (auto simp: compare_tags_less compare_tags_eq compare_tags_greater)
    have absent: "get_tag_if_exists r tag = None" using Node.prems False ne by (auto simp: Let_def)
    show ?thesis
      using Node.IH(2) [OF absent] False gt(2) inserted_right [OF _ gt(1)]
      by (cases "create_tag_node m tag") (fastforce simp: Let_def)+
  qed
qed

text \<open>What an operation leaves alone: every live block that is not the index's own.\<close>

definition tag_frame :: "memory \<Rightarrow> tags \<Rightarrow> memory \<Rightarrow> tags \<Rightarrow> bool" where
  "tag_frame m t m' t' \<longleftrightarrow> live m' - tag_blocks t' = live m - tag_blocks t \<and>
     (\<forall>a \<in> live m - tag_blocks t. block_size m' a = block_size m a)"

lemma tag_frame_refl [simp]: "tag_frame m t m t"
  by (simp add: tag_frame_def)

lemma tag_frame_trans: "tag_frame m t m1 t1 \<Longrightarrow> tag_frame m1 t1 m2 t2 \<Longrightarrow> tag_frame m t m2 t2"
  by (auto simp: tag_frame_def)

lemma blocks_upd:
  assumes "node_at t p = Some n"
  obtains as bs where "blocks (inorder t) = as @ node_blocks n @ bs"
    "\<And>f. blocks (inorder (upd_node f t p)) = as @ node_blocks (f n) @ bs"
proof -
  obtain xs ys where "inorder t = xs @ n # ys" "\<And>f. inorder (upd_node f t p) = xs @ f n # ys"
    using path_split [OF assms] by metis
  then show thesis by (intro that [of "blocks xs" "blocks ys"]) auto
qed

lemma add_node:
  assumes inv: "mem_inv m" "tag_inv m t" and ins: "inserted t t' n tag" "t' \<noteq> Leaf"
    and c: "create_tag_node m tag = Some (n, m')" and len: "length tag \<le> 255"
  shows "tag_inv m' t'" and "mem_inv m'" and "tag_frame m t m' t'" and "keys_of t' = keys_of t"
    and "tag_map t' tag = Some []"
proof -
  note C = create_tag_node_spec(1) [OF inv(1) c]
  obtain xs ys where xy: "inorder t = xs @ ys" "inorder t' = xs @ n # ys"
    and ord: "\<forall>x \<in> set xs. t_tag x < tag" "\<forall>y \<in> set ys. tag < t_tag y"
    using ins inv(2) by (auto simp: inserted_def tag_inv_def)
  have nb: "node_blocks n = [t_addr n]" using C by (simp add: node_blocks_def)
  have tb: "tag_blocks t' = insert (t_addr n) (tag_blocks t)"
    by (auto simp: tag_blocks_def xy nb)
  have new: "t_addr n \<notin> tag_blocks t" using C inv(2) by (auto simp: tag_inv_def)
  have "nodes_ok (inorder t')"
    using inv(2) ord C len by (auto simp: xy nodes_ok_split tag_inv_def node_ok_def)
  moreover have "distinct (blocks (inorder t'))"
    using inv(2) new by (auto simp: tag_inv_def xy nb tag_blocks_def)
  ultimately show "tag_inv m' t'"
    using C inv(2) ins(2) tb by (auto simp: tag_inv_def)
  show "mem_inv m'" using C by simp
  show "tag_frame m t m' t'" using C new by (auto simp: tag_frame_def tb sizes_kept_def)
  have "tag_map t' = (tag_map t)(tag \<mapsto> [])"
    using map_of_split [of xs n ys] \<open>nodes_ok (inorder t')\<close> C by (simp add: tag_map_def xy)
  moreover have "tag_map t tag = None"
    using tag_map_None [of xs n ys] \<open>nodes_ok (inorder t')\<close> C by (simp add: tag_map_def xy)
  ultimately show "keys_of t' = keys_of t" and "tag_map t' tag = Some []"
    by (auto simp: keys_of_def fun_eq_iff)
qed

text \<open>Replacing a stretch of the blocks, and updating the keys of a node under its lock.\<close>

lemma replace_blocks:
  assumes "distinct (as @ old @ bs)" and "set (as @ old @ bs) \<subseteq> A"
    and "distinct new" and "set new \<inter> (A - set old) = {}" and "A' = (A - set old) \<union> set new"
  shows "distinct (as @ new @ bs)" and "set (as @ new @ bs) \<subseteq> A'"
    and "A' - set (as @ new @ bs) = A - set (as @ old @ bs)"
  using assms by auto

lemma locked_update:
  assumes inv: "mem_inv m" "tag_inv m t" and p: "node_at t p = Some n"
    and inv': "mem_inv m'" and sk: "\<forall>a \<in> live m - set (map fst (t_keys n)). block_size m' a = block_size m a"
    and f: "\<And>x. f x = x\<lparr>t_keys := ks, num_keys := k, keys_lock := False\<rparr>"
    and ks: "distinct (map snd ks)" "k = of_nat (length ks)" "\<forall>e \<in> set ks. name_fine (snd e)" "ks \<noteq> [] \<Longrightarrow> t_tag n \<noteq> []"
    and fresh: "distinct (map fst ks)"
    and lv: "live m' = (live m - set (map fst (t_keys n))) \<union> set (map fst ks)"
      "set (map fst ks) \<inter> (live m - set (map fst (t_keys n))) = {}"
  shows "tag_inv m' (upd_node f t p)" and "tag_frame m t m' (upd_node f t p)"
    and "keys_of (upd_node f t p) = (keys_of t)(t_tag n := map snd ks)"
proof -
  note ok = tag_map_path [OF _ p]
  have nok: "nodes_ok (inorder t)" using inv(2) by (simp add: tag_inv_def)
  have fn: "t_tag (f n) = t_tag n" "node_ok (f n)"
    using ok(2) [OF nok] ks by (simp_all add: f node_ok_def)
  note U = upd_keys [where f = f, OF nok p fn]
  obtain as bs where ab: "blocks (inorder t) = as @ node_blocks n @ bs"
    "\<And>f. blocks (inorder (upd_node f t p)) = as @ node_blocks (f n) @ bs"
    using blocks_upd [OF p] by metis
  define H where "H = (if t_addr n = 0 then [] else [t_addr n])"
  have H: "node_blocks n = H @ map fst (t_keys n)" "node_blocks (f n) = H @ map fst ks"
    by (simp_all add: node_blocks_def H_def f)
  have "distinct ((as @ H) @ map fst (t_keys n) @ bs)" "set ((as @ H) @ map fst (t_keys n) @ bs) \<subseteq> live m"
    using inv(2) ab(1) by (auto simp: tag_inv_def tag_blocks_def H)
  note R = replace_blocks [OF this fresh lv(2,1)]
  have nb: "inorder t \<noteq> []" "set (blocks (inorder t)) = set ((as @ H) @ map fst (t_keys n) @ bs)"
    "blocks (inorder (upd_node f t p)) = (as @ H) @ map fst ks @ bs"
    using p by (cases t, auto simp: ab H)
  have "upd_node f t p \<noteq> Leaf" using node_at_upd [OF p, of f] by auto
  then show "tag_inv m' (upd_node f t p)"
    unfolding tag_inv_def tag_blocks_def nb(3) using R(1,2) U(1) by simp
  show "tag_frame m t m' (upd_node f t p)"
    unfolding tag_frame_def tag_blocks_def nb(2,3) using R(3) sk by simp
  show "keys_of (upd_node f t p) = (keys_of t)(t_tag n := map snd ks)"
    using keys_of_upd [OF U(2)] by (simp add: f)
qed

lemma add_key_at:
  assumes inv: "mem_inv m" "tag_inv m t" and p: "node_at t p = Some n" and len: "name_fine key" "t_tag n \<noteq> []"
    and ins: "insert_if_unique m (t_keys n) key = (b, ks, m')"
  defines "t' \<equiv> upd_node (keys_lock_update (\<lambda>_. False) \<circ> ((if b then num_keys_update (\<lambda>k. k + 1) else id) \<circ>
      (t_keys_update (\<lambda>_. ks) \<circ> keys_lock_update (\<lambda>_. True)))) t p"
  shows "mem_inv m'" and "tag_inv m' t'" and "tag_frame m t m' t'"
    and "keys_of t' = (keys_of t)(t_tag n := if b then key # keys_of t (t_tag n) else keys_of t (t_tag n))"
proof -
  note S = insert_if_unique_spec [OF inv(1) ins]
  have nok: "nodes_ok (inorder t)" using inv(2) by (simp add: tag_inv_def)
  note ok = tag_map_path [OF nok p]
  let ?k = "if b then num_keys n + 1 else num_keys n"
  define f where "f x = x\<lparr>t_keys := ks, num_keys := ?k, keys_lock := False\<rparr>" for x :: TagNode
  obtain as bs where ab: "blocks (inorder t) = as @ node_blocks n @ bs"
    using blocks_upd [OF p] by metis
  have old: "distinct (map fst (t_keys n))" "set (map fst (t_keys n)) \<subseteq> live m"
    using inv(2) ab by (auto simp: tag_inv_def tag_blocks_def node_blocks_def)
  have t': "t' = upd_node f t p"
  proof -
    obtain xs ys where "node_at t p = Some n" using p by simp
    have "upd_node g t p = upd_node h t p" if "g n = h n" for g h
      using p that by (induction t p rule: node_at.induct) auto
    then show ?thesis unfolding t'_def by (rule) (cases n, simp add: f_def)
  qed
  show "mem_inv m'" using S by simp
  have sk: "\<forall>a \<in> live m - set (map fst (t_keys n)). block_size m' a = block_size m a"
    using S(2) by (auto simp: sizes_kept_def)
  have ks: "distinct (map snd ks)" "?k = of_nat (length ks)" "\<forall>e \<in> set ks. name_fine (snd e)" "ks \<noteq> [] \<Longrightarrow> t_tag n \<noteq> []"
    "distinct (map fst ks)"
    "live m' = (live m - set (map fst (t_keys n))) \<union> set (map fst ks)"
    "set (map fst ks) \<inter> (live m - set (map fst (t_keys n))) = {}"
    using S(5,6) ok(2) old len by (cases b; force simp: node_ok_def image_image)+
  note U = locked_update [where f = f and m' = m' and ks = ks and k = ?k, OF inv p S(1) sk f_def ks]
  show "tag_inv m' t'" "tag_frame m t m' t'" using U by (simp_all add: t')
  have "keys_of t (t_tag n) = map snd (t_keys n)" using ok(1) by (simp add: keys_of_def)
  then show "keys_of t' = (keys_of t)(t_tag n := if b then key # keys_of t (t_tag n) else keys_of t (t_tag n))"
    using U(3) S(5,6) by (cases b) (auto simp: t')
qed

lemma add_key_cases:
  assumes inv: "mem_inv m" "tag_inv m t" and nm: "name_fine key" "name_fine tag"
  obtains (crash) "add_key_to_tag m t tag key = None" "create_tag_node m tag = None"
  | (added) t' m' b where "add_key_to_tag m t tag key = Some (t', m')" "mem_inv m'" "tag_inv m' t'"
      "tag_frame m t m' t'" "keys_of t' = (keys_of t)(tag := if b then key # keys_of t tag else keys_of t tag)"
      "b \<Longrightarrow> key \<notin> set (keys_of t tag)"
      "\<And>k. room m (Suc (Suc k)) \<Longrightarrow> (b \<longleftrightarrow> key \<notin> set (keys_of t tag)) \<and> room m' k"
proof -
  have nok: "nodes_ok (inorder t)" using inv(2) by (simp add: tag_inv_def)
  have len: "length key \<le> 255" "length tag \<le> 255" "tag \<noteq> []" using nm by (simp_all add: name_fine_def)
  have main: thesis if loop: "get_or_create_loop m t tag = Some (p, t1, m1)" and inv1: "mem_inv m1" "tag_inv m1 t1"
      and fr: "tag_frame m t m1 t1" and keys: "keys_of t1 = keys_of t" and n: "node_at t1 p = Some n" "t_tag n = tag"
      and rm: "\<And>k. room m (Suc k) \<Longrightarrow> room m1 k" for p t1 m1 n
  proof -
    obtain b ks m' where ins: "insert_if_unique m1 (t_keys n) key = (b, ks, m')"
      by (cases "insert_if_unique m1 (t_keys n) key") auto
    have nok1: "nodes_ok (inorder t1)" using inv1(2) by (simp add: tag_inv_def)
    note ok = tag_map_path [OF nok1 n(1)]
    have old: "keys_of t tag = map snd (t_keys n)" using ok(1) keys n(2) by (metis keys_of_def option.simps(5))
    define t' where "t' = upd_node (keys_lock_update (\<lambda>_. False) \<circ> ((if b then num_keys_update (\<lambda>k. k + 1) else id) \<circ>
      (t_keys_update (\<lambda>_. ks) \<circ> keys_lock_update (\<lambda>_. True)))) t1 p"
    have "add_key_to_tag m t tag key = Some (t', m')"
      using loop lock_path [OF n(1) ok(2)] n ins
      by (cases b) (simp_all add: add_key_to_tag_def get_or_create_node_def t'_def UNLOCK_KEYS_def comp_assoc)
    moreover have "t_tag n \<noteq> []" using len(3) n(2) by simp
    moreover note add_key_at [OF inv1 n(1) nm(1) this ins, folded t'_def]
    moreover note insert_if_unique_spec(4-7) [OF inv1(1) ins]
    ultimately show thesis
      using fr rm len(1) n(2) old keys by (intro added [of t' m' b]) (auto intro: tag_frame_trans)
  qed
  show thesis
  proof (cases rule: get_tag_cases [OF nok, of tag])
    case 1
    note G = get_or_create_absent [OF 1(1), of m]
    show ?thesis
    proof (cases "create_tag_node m tag")
      case None
      then show ?thesis using G by (intro crash) (simp_all add: add_key_to_tag_def get_or_create_node_def)
    next
      case (Some nm)
      obtain n m1 where nm: "nm = (n, m1)" by (cases nm)
      obtain p t1 where t1: "get_or_create_loop m t tag = Some (p, t1, m1)" "node_at t1 p = Some n" "t1 \<noteq> Leaf"
        "inserted t t1 n tag" using G by (auto simp: Some nm)
      note A = add_node [OF inv t1(4,3) Some [unfolded nm] len(2)]
      have "room m1 k" if "room m (Suc k)" for k
        using create_tag_node_spec(2) [OF inv(1) len(2) that] Some nm by auto
      moreover have "t_tag n = tag" using create_tag_node_spec(1) [OF inv(1) Some [unfolded nm]] by simp
      ultimately show ?thesis using A t1 by (intro main [of p t1 m1 n]) auto
    qed
  next
    case (2 p n)
    have "room m k" if "room m (Suc k)" for k using bmem.room_mono [OF that] by simp
    with 2 show ?thesis
      using inv by (intro main [of p t m n]) (auto simp: get_or_create_present)
  qed
qed

end
