(* ===== verification/Cik_Tag_Ops.thy ===== *)
theory Cik_Tag_Ops
  imports Cik_Tag_Index
begin

text \<open>
  The remaining operations of the tag index (removal, the two queries over several tags, the walk), the
  contract of the index as the locale \<open>tag_index\<close> with its interpretation, and the properties of
  the index.
\<close>

section \<open>Removal\<close>

lemma count_list_distinct: "distinct xs \<Longrightarrow> count_list xs x = (if x \<in> set xs then 1 else 0)"
  by (induction xs) auto

lemma unlink_key_spec:
  assumes "mem_inv m" and "owned m es" and "distinct (map snd es)"
  shows "\<exists>m'. unlink_key m es key = Some (key \<in> snd ` set es, filter (\<lambda>e. snd e \<noteq> key) es, m') \<and> mem_inv m' \<and>
    live m' = live m - fst ` {e \<in> set es. snd e = key} \<and> (\<forall>c. block_size m' c = block_size m c) \<and>
    (\<forall>k. room m k \<longrightarrow> room m' k)"
  using assms
proof (induction es)
  case (Cons e es)
  show ?case
  proof (cases "snd e = key")
    case True
    have "fst e \<in> live m" using Cons.prems(2) by (simp add: owned_def)
    from bmem.release_roomE [OF Cons.prems(1) this] obtain m' where m': "release_memory m (fst e) = Some m'"
      "mem_inv m'" "live m' = live m - {fst e}" "\<And>k. room m k \<Longrightarrow> room m' k" "\<And>c. block_size m' c = block_size m c"
      by metis
    have no: "key \<notin> snd ` set es" using Cons.prems(3) True by auto
    then have "filter (\<lambda>e. snd e \<noteq> key) es = es" by (auto simp: filter_id_conv)
    moreover have "snd d \<noteq> key" if "d \<in> set es" for d using no that by auto
    then have "{d \<in> set (e # es). snd d = key} = {e}" using True by auto
    ultimately show ?thesis using m' True by auto
  next
    case False
    have "owned m es" using Cons.prems(2) by (auto simp: owned_def)
    moreover have "{d \<in> set (e # es). snd d = key} = {d \<in> set es. snd d = key}" using False by auto
    ultimately show ?thesis using Cons.IH Cons.prems False by (auto simp: image_iff)
  qed
qed simp

lemma node_owned:
  assumes "tag_inv m t" and "node_at t p = Some n"
  shows "owned m (t_keys n)"
proof -
  obtain as bs where "blocks (inorder t) = as @ node_blocks n @ bs" using blocks_upd [OF assms(2)] by metis
  then show ?thesis
    using assms(1) by (auto simp: tag_inv_def tag_blocks_def node_blocks_def owned_def)
qed

lemma distinct_filter_images:
  "distinct (map f xs) \<Longrightarrow> f ` {x \<in> set xs. P x} = f ` set xs - f ` {x \<in> set xs. \<not> P x}"
  by (auto simp: distinct_map inj_on_def)

lemma filtered_live:
  assumes "owned m es"
  shows "live m - fst ` {e \<in> set es. \<not> P e} = (live m - set (map fst es)) \<union> set (map fst (filter P es))"
proof -
  have "fst ` {e \<in> set es. P e} = fst ` set es - fst ` {e \<in> set es. \<not> P e}"
    using assms by (intro distinct_filter_images) (simp add: owned_def)
  moreover have "fst ` set es \<subseteq> live m" using assms by (simp add: owned_def)
  ultimately show ?thesis by (simp, blast)
qed

lemma remove_key_spec:
  assumes inv: "mem_inv m" "tag_inv m t"
  shows "\<exists>t' m'. remove_key_from_tag m t tag key = Some (t', m') \<and> mem_inv m' \<and> tag_inv m' t' \<and> tag_frame m t m' t' \<and>
    keys_of t' = (keys_of t)(tag := filter (\<lambda>k. k \<noteq> key) (keys_of t tag)) \<and> (\<forall>k. room m k \<longrightarrow> room m' k)"
proof -
  have nok: "nodes_ok (inorder t)" using inv(2) by (simp add: tag_inv_def)
  show ?thesis
  proof (cases rule: get_tag_cases [OF nok, of tag])
    case 1
    then show ?thesis using inv by (auto simp: remove_key_from_tag_def keys_of_def fun_eq_iff)
  next
    case (2 p n)
    note own = node_owned [OF inv(2) 2(2)]
    let ?ks = "filter (\<lambda>e. snd e \<noteq> key) (t_keys n)" and ?b = "key \<in> snd ` set (t_keys n)"
    obtain m' where m': "unlink_key m (t_keys n) key = Some (?b, ?ks, m')" "mem_inv m'"
      "live m' = live m - fst ` {e \<in> set (t_keys n). snd e = key}" "\<forall>c. block_size m' c = block_size m c"
      "\<forall>k. room m k \<longrightarrow> room m' k"
      using unlink_key_spec [OF inv(1) own, of key] 2(5) by (auto simp: node_ok_def)
    let ?k = "if ?b then num_keys n - 1 else num_keys n"
    define f where "f x = x\<lparr>t_keys := ?ks, num_keys := ?k, keys_lock := False\<rparr>" for x :: TagNode
    have cnt: "length (t_keys n) = length ?ks + (if ?b then 1 else 0)"
    proof -
      have "length [k \<leftarrow> map snd (t_keys n). k \<noteq> key] + count_list (map snd (t_keys n)) key = length (map snd (t_keys n))"
      proof -
        have "(=) key = (\<lambda>x. x = key)" by auto
        then show ?thesis
          using sum_length_filter_compl [of "\<lambda>k. k \<noteq> key" "map snd (t_keys n)"]
          by (simp add: count_list_eq_length_filter)
      qed
      moreover have "count_list (map snd (t_keys n)) key = (if ?b then 1 else 0)"
        using 2(5) by (simp add: node_ok_def count_list_distinct)
      ultimately show ?thesis by (simp add: filter_map comp_def)
    qed
    have t': "upd_node (keys_lock_update (\<lambda>_. False) \<circ> ((if ?b then num_keys_update (\<lambda>k. k - 1) else id) \<circ>
      (t_keys_update (\<lambda>_. ?ks) \<circ> keys_lock_update (\<lambda>_. True)))) t p = upd_node f t p"
    proof -
      have "upd_node g t p = upd_node h t p" if "g n = h n" for g h
        using 2(2) that by (induction t p rule: node_at.induct) auto
      then show ?thesis by (rule) (cases n, simp add: f_def)
    qed
    have rem: "remove_key_from_tag m t tag key = Some (upd_node f t p, m')"
      using 2 lock_path [OF 2(2,5)] m'(1) t' 
      by (cases ?b) (simp_all add: remove_key_from_tag_def UNLOCK_KEYS_def comp_assoc)
    have lv: "live m' = (live m - set (map fst (t_keys n))) \<union> set (map fst ?ks)"
      using m'(3) filtered_live [OF own, of "\<lambda>e. snd e \<noteq> key"] by simp
    have "\<forall>a \<in> live m - set (map fst (t_keys n)). block_size m' a = block_size m a" using m'(4) by simp
    note U = locked_update [where f = f and m' = m' and ks = ?ks and k = ?k, OF inv 2(2) m'(2) this f_def]
    have nk: "distinct (map snd ?ks)" "?k = of_nat (length ?ks)" "\<forall>e \<in> set ?ks. name_fine (snd e)"
      "?ks \<noteq> [] \<Longrightarrow> t_tag n \<noteq> []" "distinct (map fst ?ks)" "set (map fst ?ks) \<inter> (live m - set (map fst (t_keys n))) = {}"
      using 2(5) cnt own by (auto simp: node_ok_def distinct_map_filter owned_def)
    have "keys_of t tag = map snd (t_keys n)" using 2(4) by (simp add: keys_of_def)
    then show ?thesis
      using rem m'(2,5) U [OF nk(1-5) lv nk(6)] 2(3) by (auto simp: filter_map comp_def)
  qed
qed

section \<open>Queries\<close>

text \<open>A list of fresh elements: everything live in \<open>m'\<close> is live in \<open>m\<close> or in the list.\<close>

definition fresh_list :: "memory \<Rightarrow> key_elem list \<Rightarrow> memory \<Rightarrow> bool" where
  "fresh_list m es m' \<longleftrightarrow> mem_inv m' \<and> sizes_kept m m' \<and> distinct (map fst es) \<and>
     set (map fst es) \<inter> live m = {} \<and> live m' = live m \<union> set (map fst es)"

lemma fresh_list_nil: "mem_inv m \<Longrightarrow> fresh_list m [] m"
  by (simp add: fresh_list_def)

lemma fresh_list_append:
  "fresh_list m es m1 \<Longrightarrow> fresh_list m1 fs m2 \<Longrightarrow> fresh_list m (fs @ es) m2"
  by (auto simp: fresh_list_def sizes_kept_def)

lemma fresh_list_owned: "fresh_list m es m' \<Longrightarrow> owned m' es"
  by (simp add: fresh_list_def owned_def)

lemma fresh_list_copy:
  "mem_inv m \<Longrightarrow> copy_key_list m es = Some (copy, m') \<Longrightarrow> fresh_list m copy m' \<and> map snd copy = map snd es"
  using copy_key_list_spec [of m es copy m'] by (simp add: fresh_list_def)

lemma insert_all_spec:
  assumes "mem_inv m" and "insert_all m found es = (found', m')"
  shows "\<exists>new. found' = new @ found \<and> fresh_list m new m' \<and> snd ` set new \<subseteq> snd ` set es \<and>
    (distinct (map snd found) \<longrightarrow> distinct (map snd found'))"
    and "(\<forall>e \<in> set es. length (snd e) \<le> 255) \<Longrightarrow> room m (length es + k) \<Longrightarrow>
      snd ` set found' = snd ` set found \<union> snd ` set es \<and> room m' k"
  using assms
proof (induction es arbitrary: m found)
  case Nil
  { case 1 then show ?case using fresh_list_nil by simp next case 2 then show ?case by simp }
next
  case (Cons e es)
  { case 1
    obtain b found1 m1 where i: "insert_if_unique m found (snd e) = (b, found1, m1)"
      by (cases "insert_if_unique m found (snd e)") auto
    note S = insert_if_unique_spec [OF 1(1) i]
    have r: "insert_all m1 found1 es = (found', m')" using 1(2) i by simp
    obtain new where new: "found' = new @ found1" "fresh_list m1 new m'" "snd ` set new \<subseteq> snd ` set es"
      "distinct (map snd found1) \<longrightarrow> distinct (map snd found')"
      using Cons.IH(1) [OF S(1) r] by auto
    show ?case
    proof (cases b)
      case True
      then obtain a where a: "found1 = (a, snd e) # found" "a \<notin> live m" "live m1 = insert a (live m)"
        "snd e \<notin> snd ` set found" using S(6) by auto
      then have "fresh_list m [(a, snd e)] m1" using S by (simp add: fresh_list_def)
      from fresh_list_append [OF this new(2)] new(1,3,4) a show ?thesis
        by (intro exI [of _ "new @ [(a, snd e)]"]) auto
    next
      case False
      with S(5) have "found1 = found" "live m1 = live m" by auto
      then have "fresh_list m [] m1" using S by (simp add: fresh_list_def)
      from fresh_list_append [OF this new(2)] new \<open>found1 = found\<close> show ?thesis by auto
    qed
  next
    case 2
    obtain b found1 m1 where i: "insert_if_unique m found (snd e) = (b, found1, m1)"
      by (cases "insert_if_unique m found (snd e)") auto
    note S = insert_if_unique_spec [OF 2(3) i]
    have r: "insert_all m1 found1 es = (found', m')" using 2(4) i by simp
    have k: "room m (Suc (length es + k))" using 2(2) by simp
    have "length (snd e) \<le> 255" using 2(1) by simp
    from S(7) [OF this k] have b: "b \<longleftrightarrow> snd e \<notin> snd ` set found" and k1: "room m1 (length es + k)" by auto
    have "snd ` set found1 = insert (snd e) (snd ` set found)"
      using b S(5,6) by (cases b) auto
    with Cons.IH(2) [OF _ k1 S(1) r] 2(1) show ?case by auto
  }
qed

lemma copy_by_tag_spec:
  assumes "mem_inv m" and "tag_inv m0 t" and "get_key_list_copy_by_tag m t tag = Some (keys, t', m')"
  shows "t' = t" and "fresh_list m keys m'" and "map snd keys = keys_of t tag"
proof -
  have "nodes_ok (inorder t)" using assms(2) by (simp add: tag_inv_def)
  note eq = copy_by_tag_eq [OF this, of m tag]
  show "t' = t" and "fresh_list m keys m'" and "map snd keys = keys_of t tag"
    using assms(3) eq fresh_list_nil [OF assms(1)] fresh_list_copy [OF assms(1)]
    by (auto simp: keys_of_def split: option.splits)
qed

lemma copy_by_tag_room:
  assumes "mem_inv m" and "tag_inv m0 t" and "room m (length (keys_of t tag) + k)"
  shows "\<exists>keys m'. get_key_list_copy_by_tag m t tag = Some (keys, t, m') \<and> room m' k"
proof -
  have nok: "nodes_ok (inorder t)" using assms(2) by (simp add: tag_inv_def)
  show ?thesis
  proof (cases rule: get_tag_cases [OF nok, of tag])
    case 1
    then show ?thesis using assms(3) by (simp add: copy_by_tag_eq [OF nok] keys_of_def)
  next
    case (2 p n)
    then have "\<forall>e \<in> set (t_keys n). length (snd e) \<le> 255" by (simp add: node_ok_def name_fine_def)
    from copy_key_list_room [OF assms(1) this, of k] assms(3) 2(4) show ?thesis
      by (auto simp: copy_by_tag_eq [OF nok] keys_of_def)
  qed
qed

text \<open>The union: \<open>any_keys\<close> collects the keys the tags stand for.\<close>

definition any_keys :: "tags \<Rightarrow> u8 list list \<Rightarrow> u8 list set" where
  "any_keys t tags = (\<Union>tag \<in> set tags. set (keys_of t tag))"

definition all_keys :: "tags \<Rightarrow> u8 list list \<Rightarrow> u8 list set" where
  "all_keys t tags = {k. tags \<noteq> [] \<and> (\<forall>tag \<in> set tags. k \<in> set (keys_of t tag))}"

definition query_cost :: "tags \<Rightarrow> u8 list list \<Rightarrow> nat" where
  "query_cost t tags = (\<Sum>tag\<leftarrow>tags. 2 * length (keys_of t tag))"

lemma release_copy:
  assumes f: "fresh_list m0 found m" and k: "fresh_list m keys m1" and n: "fresh_list m1 new m2"
  shows "\<exists>m3. release_key_list m2 keys = Some m3 \<and> fresh_list m0 (new @ found) m3 \<and> (\<forall>k. room m2 k \<longrightarrow> room m3 k)"
proof -
  have "mem_inv m2" "owned m2 keys" using k n by (auto simp: fresh_list_def owned_def)
  from release_key_list_spec [OF this] obtain m3 where m3: "release_key_list m2 keys = Some m3" "mem_inv m3"
    "live m3 = live m2 - set (map fst keys)" "\<forall>c. block_size m3 c = block_size m2 c" "\<forall>k. room m2 k \<longrightarrow> room m3 k"
    by auto
  have sz: "sizes_kept m0 m3" using f k n m3(4) by (auto simp: fresh_list_def sizes_kept_def)
  have live: "live m3 = live m0 \<union> set (map fst (new @ found))"
    unfolding m3(3) using f k n by (auto simp: fresh_list_def simp del: set_map)
  have "distinct (map fst (new @ found))" "set (map fst (new @ found)) \<inter> live m0 = {}"
    using f k n by (auto simp: fresh_list_def simp del: set_map)
  with m3 sz live show ?thesis by (auto simp: fresh_list_def)
qed

lemma any_tag_loop_spec:
  assumes "tag_inv m0 t" and "fresh_list m0 found m" and "distinct (map snd found)"
    and "any_tag_loop m t found tags = Some (r, t', m')"
  shows "t' = t \<and> fresh_list m0 r m' \<and> distinct (map snd r) \<and> snd ` set r \<subseteq> snd ` set found \<union> any_keys t tags"
  using assms
proof (induction tags arbitrary: m found)
  case (Cons tag tags)
  have inv: "mem_inv m" using Cons.prems(2) by (simp add: fresh_list_def)
  obtain keys t1 m1 where c: "get_key_list_copy_by_tag m t tag = Some (keys, t1, m1)"
    using Cons.prems(4) by (cases "get_key_list_copy_by_tag m t tag") auto
  obtain found1 m2 where i: "insert_all m1 found keys = (found1, m2)" by (cases "insert_all m1 found keys")
  obtain m3 where r: "release_key_list m2 keys = Some m3" and l: "any_tag_loop m3 t1 found1 tags = Some (r, t', m')"
    using Cons.prems(4) by (auto simp: c i bind_eq_Some_conv)
  note C = copy_by_tag_spec [OF inv Cons.prems(1) c]
  have inv1: "mem_inv m1" using C(2) by (simp add: fresh_list_def)
  obtain new where new: "found1 = new @ found" "fresh_list m1 new m2" "snd ` set new \<subseteq> snd ` set keys"
    "distinct (map snd found1)" using insert_all_spec(1) [OF inv1 i] Cons.prems(3) by auto
  have ks: "snd ` set keys = set (keys_of t tag)" using C(3) by (metis set_map)
  have "fresh_list m0 found1 m3"
    using release_copy [OF Cons.prems(2) C(2) new(2)] r new(1) by simp
  note IH = Cons.IH [OF Cons.prems(1) this new(4)]
  have "snd ` set found1 \<subseteq> snd ` set found \<union> set (keys_of t tag)"
    unfolding new(1) set_append image_Un using new(3) ks by blast
  moreover have "any_keys t (tag # tags) = set (keys_of t tag) \<union> any_keys t tags" by (simp add: any_keys_def)
  ultimately show ?case using IH l C(1) by blast
qed (simp add: any_keys_def)

lemma any_tag_loop_room:
  assumes "tag_inv m0 t" and "fresh_list m0 found m" and "room m (query_cost t tags + k)"
  shows "\<exists>r m'. any_tag_loop m t found tags = Some (r, t, m') \<and>
    snd ` set r = snd ` set found \<union> any_keys t tags \<and> room m' k"
  using assms
proof (induction tags arbitrary: m found)
  case (Cons tag tags)
  have inv: "mem_inv m" using Cons.prems(2) by (simp add: fresh_list_def)
  let ?n = "length (keys_of t tag)"
  have "room m (?n + (?n + (query_cost t tags + k)))"
    using Cons.prems(3) by (simp add: query_cost_def add.assoc mult_2)
  then obtain keys m1 where c: "get_key_list_copy_by_tag m t tag = Some (keys, t, m1)"
    and rm: "room m1 (?n + (query_cost t tags + k))"
    using copy_by_tag_room [OF inv Cons.prems(1)] by blast
  note C = copy_by_tag_spec [OF inv Cons.prems(1) c]
  have inv1: "mem_inv m1" using C(2) by (simp add: fresh_list_def)
  obtain found1 m2 where i: "insert_all m1 found keys = (found1, m2)" by (cases "insert_all m1 found keys")
  have lk: "length keys = ?n" and ks: "snd ` set keys = set (keys_of t tag)" using C(3) by (metis length_map, metis set_map)
  have short: "\<forall>e \<in> set keys. length (snd e) \<le> 255"
    using ks inv_keys_of(2) [OF Cons.prems(1), of _ tag] by (metis image_eqI)
  from insert_all_spec(2) [OF inv1 i short, of "query_cost t tags + k"] rm lk
  have f: "snd ` set found1 = snd ` set found \<union> snd ` set keys" "room m2 (query_cost t tags + k)" by auto
  obtain new where new: "found1 = new @ found" "fresh_list m1 new m2"
    using insert_all_spec(1) [OF inv1 i] by auto
  obtain m3 where m3: "release_key_list m2 keys = Some m3" "fresh_list m0 found1 m3" "room m3 (query_cost t tags + k)"
    using release_copy [OF Cons.prems(2) C(2) new(2)] f(2) new(1) by auto
  from Cons.IH [OF Cons.prems(1) m3(2,3)] show ?case
    using c i m3(1) f(1) ks by (auto simp: any_keys_def)
qed (simp add: any_keys_def query_cost_def)

lemma retain_matching_spec:
  assumes "mem_inv m" and "owned m es"
  shows "\<exists>m'. retain_matching m es keys = Some (filter (\<lambda>e. snd e \<in> snd ` set keys) es, m') \<and> mem_inv m' \<and>
    live m' = live m - fst ` {e \<in> set es. snd e \<notin> snd ` set keys} \<and> (\<forall>c. block_size m' c = block_size m c) \<and>
    (\<forall>k. room m k \<longrightarrow> room m' k)"
  using assms
proof (induction es arbitrary: m)
  case (Cons e es)
  show ?case
  proof (cases "snd e \<in> snd ` set keys")
    case True
    have "owned m es" using Cons.prems(2) by (auto simp: owned_def)
    moreover have "{d \<in> set (e # es). snd d \<notin> snd ` set keys} = {d \<in> set es. snd d \<notin> snd ` set keys}"
      using True by auto
    ultimately show ?thesis using Cons.IH [OF Cons.prems(1)] True by (auto simp del: image_iff)
  next
    case False
    have "fst e \<in> live m" using Cons.prems(2) by (simp add: owned_def)
    from bmem.release_roomE [OF Cons.prems(1) this] obtain m1 where m1: "release_memory m (fst e) = Some m1"
      "mem_inv m1" "live m1 = live m - {fst e}" "\<And>k. room m k \<Longrightarrow> room m1 k" "\<And>c. block_size m1 c = block_size m c"
      by metis
    have "owned m1 es" using Cons.prems(2) by (simp add: owned_def m1(3) subset_Diff_insert)
    moreover have "{d \<in> set (e # es). snd d \<notin> snd ` set keys} = insert e {d \<in> set es. snd d \<notin> snd ` set keys}"
      using False by auto
    ultimately show ?thesis using Cons.IH [OF m1(2)] m1 False by (auto simp del: image_iff)
  qed
qed simp

lemma retain_fresh:
  assumes f: "fresh_list m0 found m" and k: "fresh_list m keys m1"
  shows "\<exists>m2 m3. retain_matching m1 found keys = Some (filter (\<lambda>e. snd e \<in> snd ` set keys) found, m2) \<and>
    release_key_list m2 keys = Some m3 \<and> fresh_list m0 (filter (\<lambda>e. snd e \<in> snd ` set keys) found) m3 \<and>
    (\<forall>k. room m1 k \<longrightarrow> room m3 k)"
proof -
  let ?f = "filter (\<lambda>e. snd e \<in> snd ` set keys) found"
  have own: "owned m found" "mem_inv m1" "owned m1 found" using f k by (auto simp: fresh_list_def owned_def)
  from retain_matching_spec [OF own(2,3)] obtain m2 where m2:
    "retain_matching m1 found keys = Some (?f, m2)" "mem_inv m2"
    "live m2 = live m1 - fst ` {e \<in> set found. snd e \<notin> snd ` set keys}" "\<forall>c. block_size m2 c = block_size m1 c"
    "\<forall>k. room m1 k \<longrightarrow> room m2 k" by blast
  have l2: "live m2 = (live m1 - set (map fst found)) \<union> set (map fst ?f)"
    using m2(3) filtered_live [OF own(3), of "\<lambda>e. snd e \<in> snd ` set keys"] by simp
  have sub: "set (map fst ?f) \<subseteq> set (map fst found)" by auto
  have lm: "live m = live m0 \<union> set (map fst found)" "set (map fst found) \<inter> live m0 = {}"
    "distinct (map fst found)" using f by (simp_all add: fresh_list_def)
  have lk: "live m1 = live m \<union> set (map fst keys)" "set (map fst keys) \<inter> live m = {}" "distinct (map fst keys)"
    using k by (simp_all add: fresh_list_def)
  have "owned m2 keys" unfolding owned_def l2 using lm lk by blast
  from release_key_list_spec [OF m2(2) this] obtain m3 where m3: "release_key_list m2 keys = Some m3" "mem_inv m3"
    "live m3 = live m2 - set (map fst keys)" "\<forall>c. block_size m3 c = block_size m2 c" "\<forall>k. room m2 k \<longrightarrow> room m3 k"
    by blast
  have "live m3 = live m0 \<union> set (map fst ?f)" unfolding m3(3) l2 using lm lk sub by blast
  moreover have "set (map fst ?f) \<inter> live m0 = {}" using sub lm by blast
  moreover have "distinct (map fst ?f)" using lm(3) by (rule distinct_map_filter)
  moreover have "sizes_kept m0 m3"
    using f k m2(4) m3(4) by (auto simp: fresh_list_def sizes_kept_def)
  ultimately have "fresh_list m0 ?f m3" using m3(2) by (simp add: fresh_list_def)
  with m2 m3 show ?thesis by blast
qed

lemma all_tags_loop_spec:
  assumes "tag_inv m0 t" and "fresh_list m0 found m"
    and "all_tags_loop m t found tags = Some (r, t', m')"
  shows "t' = t \<and> fresh_list m0 r m' \<and> r = filter (\<lambda>e. \<forall>tag \<in> set tags. snd e \<in> set (keys_of t tag)) found"
  using assms
proof (induction tags arbitrary: m found)
  case (Cons tag tags)
  have inv: "mem_inv m" using Cons.prems(2) by (simp add: fresh_list_def)
  obtain keys t1 m1 where c: "get_key_list_copy_by_tag m t tag = Some (keys, t1, m1)"
    using Cons.prems(3) by (cases "get_key_list_copy_by_tag m t tag") auto
  note C = copy_by_tag_spec [OF inv Cons.prems(1) c]
  have ks: "snd ` set keys = set (keys_of t tag)" using C(3) by (metis set_map)
  let ?f = "filter (\<lambda>e. snd e \<in> set (keys_of t tag)) found"
  obtain m2 m3 where r: "retain_matching m1 found keys = Some (?f, m2)" "release_key_list m2 keys = Some m3"
    "fresh_list m0 ?f m3" using retain_fresh [OF Cons.prems(2) C(2)] by (auto simp: ks)
  have "all_tags_loop m3 t ?f tags = Some (r, t', m')" using Cons.prems(3) c r C(1) by simp
  from Cons.IH [OF Cons.prems(1) r(3) this] show ?case by auto
qed simp

lemma all_tags_loop_room:
  assumes "tag_inv m0 t" and "fresh_list m0 found m" and "room m (query_cost t tags + k)"
  shows "\<exists>r m'. all_tags_loop m t found tags = Some (r, t, m') \<and> room m' k"
  using assms
proof (induction tags arbitrary: m found)
  case (Cons tag tags)
  have inv: "mem_inv m" using Cons.prems(2) by (simp add: fresh_list_def)
  let ?n = "length (keys_of t tag)"
  have "room m (?n + (?n + (query_cost t tags + k)))"
    using Cons.prems(3) by (simp add: query_cost_def add.assoc mult_2)
  then obtain keys m1 where c: "get_key_list_copy_by_tag m t tag = Some (keys, t, m1)"
    and rm: "room m1 (?n + (query_cost t tags + k))"
    using copy_by_tag_room [OF inv Cons.prems(1)] by blast
  have rm: "room m1 (query_cost t tags + k)" by (rule bmem.room_mono [OF rm]) simp
  note C = copy_by_tag_spec [OF inv Cons.prems(1) c]
  obtain f m2 m3 where r: "retain_matching m1 found keys = Some (f, m2)" "release_key_list m2 keys = Some m3"
    "fresh_list m0 f m3" "room m3 (query_cost t tags + k)" using retain_fresh [OF Cons.prems(2) C(2)] rm by blast
  from Cons.IH [OF Cons.prems(1) r(3,4)] show ?case using c r by auto
qed (simp add: query_cost_def)

lemma matching_any_spec:
  assumes inv: "mem_inv m" "tag_inv m t" and q: "get_keys_matching_any_tag m t tags = Some (r, t', m')"
  shows "t' = t \<and> fresh_list m r m' \<and> distinct (map snd r) \<and> snd ` set r \<subseteq> any_keys t tags"
proof (cases tags)
  case Nil
  then show ?thesis using q inv fresh_list_nil by (auto simp: get_keys_matching_any_tag_def)
next
  case (Cons tag ts)
  obtain keys t1 m1 where c: "get_key_list_copy_by_tag m t tag = Some (keys, t1, m1)"
    using q by (cases "get_key_list_copy_by_tag m t tag") (auto simp: get_keys_matching_any_tag_def Cons)
  note C = copy_by_tag_spec [OF inv c]
  have "distinct (map snd keys)" using C(3) inv_keys_of(1) [OF inv(2)] by simp
  moreover have "any_tag_loop m1 t keys ts = Some (r, t', m')"
    using q c C(1) by (simp add: get_keys_matching_any_tag_def Cons)
  moreover have "snd ` set keys = set (keys_of t tag)" using C(3) by (metis set_map)
  ultimately show ?thesis
    using any_tag_loop_spec [OF inv(2) C(2)] by (simp add: Cons any_keys_def)
qed

lemma matching_any_room:
  assumes inv: "mem_inv m" "tag_inv m t" and k: "room m (query_cost t tags + k)"
  shows "\<exists>r m'. get_keys_matching_any_tag m t tags = Some (r, t, m') \<and> snd ` set r = any_keys t tags \<and> room m' k"
proof (cases tags)
  case Nil
  then show ?thesis using k by (simp add: get_keys_matching_any_tag_def any_keys_def query_cost_def)
next
  case (Cons tag ts)
  have "room m (length (keys_of t tag) + (query_cost t ts + k))"
    using k by (rule bmem.room_mono) (simp add: Cons query_cost_def)
  then obtain keys m1 where c: "get_key_list_copy_by_tag m t tag = Some (keys, t, m1)"
    and rm: "room m1 (query_cost t ts + k)"
    using copy_by_tag_room [OF inv] by blast
  note C = copy_by_tag_spec [OF inv c]
  have "snd ` set keys = set (keys_of t tag)" using C(3) by (metis set_map)
  with any_tag_loop_room [OF inv(2) C(2) rm] show ?thesis
    using c by (auto simp: get_keys_matching_any_tag_def Cons any_keys_def)
qed

lemma matching_all_spec:
  assumes inv: "mem_inv m" "tag_inv m t" and q: "get_keys_matching_all_tags m t tags = Some (r, t', m')"
  shows "t' = t \<and> fresh_list m r m' \<and> distinct (map snd r) \<and> snd ` set r = all_keys t tags"
proof (cases tags)
  case Nil
  then show ?thesis using q inv fresh_list_nil by (auto simp: get_keys_matching_all_tags_def all_keys_def)
next
  case (Cons tag ts)
  obtain keys t1 m1 where c: "get_key_list_copy_by_tag m t tag = Some (keys, t1, m1)"
    using q by (cases "get_key_list_copy_by_tag m t tag") (auto simp: get_keys_matching_all_tags_def Cons)
  note C = copy_by_tag_spec [OF inv c]
  have d: "distinct (map snd keys)" using C(3) inv_keys_of(1) [OF inv(2)] by simp
  have "all_tags_loop m1 t keys ts = Some (r, t', m')"
    using q c C(1) by (simp add: get_keys_matching_all_tags_def Cons)
  note A = all_tags_loop_spec [OF inv(2) C(2) this]
  have ks: "snd ` set keys = set (keys_of t tag)" using C(3) by (metis set_map)
  have "snd ` set r = {k \<in> snd ` set keys. \<forall>tag \<in> set ts. k \<in> set (keys_of t tag)}" using A by auto
  moreover have "distinct (map snd r)" using A d by (simp add: distinct_map_filter)
  ultimately show ?thesis using A unfolding ks by (auto simp: Cons all_keys_def)
qed

lemma matching_all_room:
  assumes inv: "mem_inv m" "tag_inv m t" and k: "room m (query_cost t tags + k)"
  shows "\<exists>r m'. get_keys_matching_all_tags m t tags = Some (r, t, m') \<and> room m' k"
proof (cases tags)
  case Nil
  then show ?thesis using k by (simp add: get_keys_matching_all_tags_def query_cost_def)
next
  case (Cons tag ts)
  have "room m (length (keys_of t tag) + (query_cost t ts + k))"
    using k by (rule bmem.room_mono) (simp add: Cons query_cost_def)
  then obtain keys m1 where c: "get_key_list_copy_by_tag m t tag = Some (keys, t, m1)"
    and rm: "room m1 (query_cost t ts + k)"
    using copy_by_tag_room [OF inv] by blast
  note C = copy_by_tag_spec [OF inv c]
  from all_tags_loop_room [OF inv(2) C(2) rm] show ?thesis
    using c by (auto simp: get_keys_matching_all_tags_def Cons)
qed

section \<open>The walk\<close>

fun stack_nodes :: "(addr \<times> tags) list \<Rightarrow> TagNode list" where
  "stack_nodes [] = []"
| "stack_nodes ((a, t) # s) = (case t of Leaf \<Rightarrow> [] | Node l n r \<Rightarrow> n # inorder r) @ stack_nodes s"

fun stack_left :: "(addr \<times> tags) list \<Rightarrow> nat" where
  "stack_left [] = 0"
| "stack_left ((a, t) # s) = (case t of Leaf \<Rightarrow> 0 | Node l n r \<Rightarrow> size r) + stack_left s"

definition stack_ok :: "memory \<Rightarrow> (addr \<times> tags) list \<Rightarrow> memory \<Rightarrow> bool" where
  "stack_ok m0 s m \<longleftrightarrow> fresh_list m0 (map (\<lambda>x. (fst x, [])) s) m \<and> (\<forall>x \<in> set s. snd x \<noteq> Leaf)"

lemma stack_ok_push:
  assumes "stack_ok m0 s m" and "reserve_memory m n = (Some a, m')" and "t \<noteq> Leaf"
  shows "stack_ok m0 ((a, t) # s) m'"
proof -
  have inv: "mem_inv m" using assms(1) by (simp add: stack_ok_def fresh_list_def)
  note R = mem.reserve_inv [OF inv assms(2)] mem.reserve_Some [OF inv assms(2)] mem.reserve_keeps [OF inv assms(2)]
  then show ?thesis
    using assms(1,3) by (auto simp: stack_ok_def fresh_list_def comp_def sizes_kept_def)
qed

lemma stack_ok_pop:
  assumes "stack_ok m0 ((a, t) # s) m"
  obtains m' where "release_memory m a = Some m'" "stack_ok m0 s m'" "\<And>k. room m k \<Longrightarrow> room m' k"
proof -
  have inv: "mem_inv m" and a: "a \<in> live m" and na: "a \<notin> fst ` set s" "a \<notin> live m0"
    using assms by (auto simp: stack_ok_def fresh_list_def comp_def)
  from bmem.release_roomE [OF inv a] obtain m' where m': "release_memory m a = Some m'" "mem_inv m'"
    "live m' = live m - {a}" "\<And>k. room m k \<Longrightarrow> room m' k" "\<And>c. block_size m' c = block_size m c" by metis
  have "live m' = live m0 \<union> fst ` set s"
    unfolding m'(3) using assms na by (auto simp: stack_ok_def fresh_list_def comp_def image_image)
  then have "stack_ok m0 s m'"
    using assms m'(2,5) by (auto simp: stack_ok_def fresh_list_def comp_def sizes_kept_def image_image)
  with m' show thesis by (intro that [of m']) auto
qed

lemma push_left_spec:
  assumes "stack_ok m0 s m" and "room m (size t + stack_left s + k)"
  shows "\<exists>s' m'. push_left m t s = Some (s', m') \<and> stack_ok m0 s' m' \<and>
    stack_nodes s' = inorder t @ stack_nodes s \<and> (t \<noteq> Leaf \<or> s \<noteq> [] \<longrightarrow> s' \<noteq> []) \<and>
    room m' (stack_left s' + k)"
  using assms
proof (induction t arbitrary: m s)
  case (Node l n r)
  have inv: "mem_inv m" using Node.prems(1) by (simp add: stack_ok_def fresh_list_def)
  have "(of_nat sizeof_TagElem :: u32) \<le> SMALL_BLOCK" by (intro small_block) (simp add: sizeof_TagElem_def)
  moreover have "room m (Suc (size l + (size r + stack_left s) + k))"
    using Node.prems(2) by (simp add: algebra_simps)
  ultimately obtain a m1 where a: "reserve_memory m (of_nat sizeof_TagElem) = (Some a, m1)"
    and rm: "room m1 (size l + (size r + stack_left s) + k)"
    using bmem.reserve_room [OF inv] by blast
  have "stack_ok m0 ((a, Node l n r) # s) m1" using stack_ok_push [OF Node.prems(1) a] by simp
  from Node.IH(1) [OF this] rm obtain s' m' where "push_left m1 l ((a, Node l n r) # s) = Some (s', m')"
    "stack_ok m0 s' m'" "stack_nodes s' = inorder l @ n # inorder r @ stack_nodes s" "s' \<noteq> []"
    "room m' (stack_left s' + k)" by auto
  then show ?case using a by simp
qed simp

lemma walk_tags_loop_eq:
  assumes "stack_ok m0 s m" and "room m (size t + stack_left s)"
    and "\<forall>n \<in> set (inorder t @ stack_nodes s). \<not> keys_lock n"
  shows "case fold_opt callback (map t_tag (filter (\<lambda>n. t_keys n \<noteq> []) (inorder t @ stack_nodes s))) u of
      None \<Rightarrow> walk_tags_loop callback m t s u = None
    | Some u' \<Rightarrow> \<exists>m'. walk_tags_loop callback m t s u = Some (m', u') \<and> stack_ok m0 [] m'"
  using assms
proof (induction callback m t s u rule: walk_tags_loop.induct)
  case (1 callback m t s u)
  show ?case
  proof (cases "t = Leaf \<and> s = []")
    case True
    then show ?thesis using 1(2) by (subst walk_tags_loop.simps) auto
  next
    case False
    obtain s1 m1 where p: "push_left m t s = Some (s1, m1)" "stack_ok m0 s1 m1"
      "stack_nodes s1 = inorder t @ stack_nodes s" "s1 \<noteq> []" "room m1 (stack_left s1)"
      using push_left_spec [OF 1(2), of t 0] 1(3) False by auto
    then obtain a t1 rest where s1: "s1 = (a, t1) # rest" by (cases s1) auto
    then obtain l n r where t1: "t1 = Node l n r" using p(2) by (cases t1) (auto simp: stack_ok_def)
    obtain m2 where m2: "release_memory m1 a = Some m2" "stack_ok m0 rest m2" "room m2 (size r + stack_left rest)"
      using stack_ok_pop [OF p(2) [unfolded s1]] p(5) by (auto simp: s1 t1)
    have nodes: "inorder t @ stack_nodes s = n # inorder r @ stack_nodes rest"
      using p(3) by (simp add: s1 t1)
    have nl: "\<not> keys_lock n" and rest: "\<forall>n \<in> set (inorder r @ stack_nodes rest). \<not> keys_lock n"
      using 1(4) unfolding nodes by auto
    let ?c = "if t_keys n \<noteq> [] then callback (t_tag n) u else Some u"
    let ?rest = "map t_tag (filter (\<lambda>n. t_keys n \<noteq> []) (inorder r @ stack_nodes rest))"
    have IH: "case fold_opt callback ?rest u' of None \<Rightarrow> walk_tags_loop callback m2 r rest u' = None
      | Some u'' \<Rightarrow> \<exists>m'. walk_tags_loop callback m2 r rest u' = Some (m', u'') \<and> stack_ok m0 [] m'"
      if "?c = Some u'" for u'
      by (rule 1(1) [OF False p(1) refl s1 refl t1 m2(1) nl that m2(2,3) rest])
    have step: "walk_tags_loop callback m t s u = Option.bind ?c (walk_tags_loop callback m2 r rest)"
      using p(1) m2(1) nl by (subst walk_tags_loop.simps, subst if_not_P [OF False]) (simp add: s1 t1)
    have nf: "fold_opt callback (map t_tag (filter (\<lambda>n. t_keys n \<noteq> []) (inorder t @ stack_nodes s))) u =
        Option.bind ?c (fold_opt callback ?rest)"
      unfolding nodes by simp
    show ?thesis
    proof (cases ?c)
      case None
      then show ?thesis unfolding step nf None by simp
    next
      case (Some u')
      from IH [OF Some] show ?thesis unfolding step nf Some bind.bind_lunit .
    qed
  qed
qed

lemma walk_all_tags_spec:
  assumes "mem_inv m" and "tag_inv m0 t" and "room m (size t)"
  shows "case fold_opt callback (map t_tag (filter (\<lambda>n. t_keys n \<noteq> []) (inorder t))) u of
      None \<Rightarrow> walk_all_tags callback m t u = None
    | Some u' \<Rightarrow> \<exists>m'. walk_all_tags callback m t u = Some (m', u') \<and> mem_inv m' \<and> live m' = live m \<and> sizes_kept m m'"
proof -
  have "stack_ok m [] m" using assms(1) by (simp add: stack_ok_def fresh_list_def)
  moreover have "\<forall>n \<in> set (inorder t @ stack_nodes []). \<not> keys_lock n"
    using assms(2) by (auto simp: tag_inv_def nodes_ok_def node_ok_def)
  ultimately have "case fold_opt callback (map t_tag (filter (\<lambda>n. t_keys n \<noteq> []) (inorder t @ stack_nodes []))) u of
      None \<Rightarrow> walk_tags_loop callback m t [] u = None
    | Some u' \<Rightarrow> \<exists>m'. walk_tags_loop callback m t [] u = Some (m', u') \<and> stack_ok m [] m'"
    using assms(3) by (intro walk_tags_loop_eq) auto
  then show ?thesis
    by (simp add: walk_all_tags_def stack_ok_def fresh_list_def split: option.splits) metis
qed

section \<open>The interface\<close>

text \<open>What the request handlers rely on: keys of a tag after an update, and that nothing live outside
  the index is touched (\<open>frame\<close>). \<open>budget\<close> counts the small blocks still to be had.\<close>

locale tag_index =
  fixes inv :: "'m \<Rightarrow> 't \<Rightarrow> bool"
    and keys :: "'t \<Rightarrow> u8 list \<Rightarrow> u8 list list"
    and frame :: "'m \<Rightarrow> 't \<Rightarrow> 'm \<Rightarrow> 't \<Rightarrow> bool"
    and budget :: "'m \<Rightarrow> nat \<Rightarrow> bool"
    and add :: "'m \<Rightarrow> 't \<Rightarrow> u8 list \<Rightarrow> u8 list \<Rightarrow> ('t \<times> 'm) option"
    and remove :: "'m \<Rightarrow> 't \<Rightarrow> u8 list \<Rightarrow> u8 list \<Rightarrow> ('t \<times> 'm) option"
  assumes frame_refl: "frame m t m t"
    and frame_trans: "frame m t m1 t1 \<Longrightarrow> frame m1 t1 m2 t2 \<Longrightarrow> frame m t m2 t2"
    and add_law: "inv m t \<Longrightarrow> name_fine key \<Longrightarrow> name_fine tag \<Longrightarrow> budget m (Suc (Suc k)) \<Longrightarrow>
      \<exists>t' m'. add m t tag key = Some (t', m') \<and> inv m' t' \<and> frame m t m' t' \<and> budget m' k \<and>
        keys t' = (keys t)(tag := if key \<in> set (keys t tag) then keys t tag else key # keys t tag)"
    and add_safe: "inv m t \<Longrightarrow> name_fine key \<Longrightarrow> name_fine tag \<Longrightarrow> add m t tag key = Some (t', m') \<Longrightarrow>
      inv m' t' \<and> frame m t m' t' \<and> (\<forall>g. set (keys t g) \<subseteq> set (keys t' g) \<and> set (keys t' g) \<subseteq> insert key (set (keys t g)))"
    and remove_law: "inv m t \<Longrightarrow> \<exists>t' m'. remove m t tag key = Some (t', m') \<and> inv m' t' \<and> frame m t m' t' \<and>
        (\<forall>k. budget m k \<longrightarrow> budget m' k) \<and>
        keys t' = (keys t)(tag := filter (\<lambda>k. k \<noteq> key) (keys t tag))"
begin

text \<open>The loops of the handlers over the tags of an entry.\<close>

lemma add_all:
  assumes "inv m t" "name_fine key" "\<forall>tag \<in> set tags. name_fine tag" "budget m (2 * length tags + k)"
  shows "\<exists>t' m'. fold_opt (\<lambda>tag (t, m). add m t tag key) tags (t, m) = Some (t', m') \<and> inv m' t' \<and>
    frame m t m' t' \<and> budget m' k \<and>
    (\<forall>g. set (keys t' g) = set (keys t g) \<union> (if g \<in> set tags then {key} else {}))"
  using assms
proof (induction tags arbitrary: m t)
  case (Cons tag tags)
  have "budget m (Suc (Suc (2 * length tags + k)))" using Cons.prems(4) by simp
  then obtain t1 m1 where a: "add m t tag key = Some (t1, m1)" "inv m1 t1" "frame m t m1 t1"
    "budget m1 (2 * length tags + k)"
    "keys t1 = (keys t)(tag := if key \<in> set (keys t tag) then keys t tag else key # keys t tag)"
    using add_law [OF Cons.prems(1,2), of tag "2 * length tags + k"] Cons.prems(3) by auto
  obtain t' m' where r: "fold_opt (\<lambda>tag (t, m). add m t tag key) tags (t1, m1) = Some (t', m')" "inv m' t'"
    "frame m1 t1 m' t'" "budget m' k"
    "\<forall>g. set (keys t' g) = set (keys t1 g) \<union> (if g \<in> set tags then {key} else {})"
    using Cons.IH [OF a(2) Cons.prems(2) _ a(4)] Cons.prems(3) by auto
  have "set (keys t' g) = set (keys t g) \<union> (if g \<in> set (tag # tags) then {key} else {})" for g
    using r(5) a(5) by auto
  then show ?case using a r frame_trans by auto
qed (auto simp: frame_refl)

lemma remove_all:
  assumes "inv m t"
  shows "\<exists>t' m'. fold_opt (\<lambda>tag (t, m). remove m t tag key) tags (t, m) = Some (t', m') \<and> inv m' t' \<and>
    frame m t m' t' \<and> (\<forall>k. budget m k \<longrightarrow> budget m' k) \<and>
    (\<forall>g. set (keys t' g) = set (keys t g) - (if g \<in> set tags then {key} else {}))"
  using assms
proof (induction tags arbitrary: m t)
  case (Cons tag tags)
  obtain t1 m1 where a: "remove m t tag key = Some (t1, m1)" "inv m1 t1" "frame m t m1 t1"
    "\<forall>k. budget m k \<longrightarrow> budget m1 k" "keys t1 = (keys t)(tag := filter (\<lambda>k. k \<noteq> key) (keys t tag))"
    using remove_law [OF Cons.prems] by blast
  obtain t' m' where r: "fold_opt (\<lambda>tag (t, m). remove m t tag key) tags (t1, m1) = Some (t', m')" "inv m' t'"
    "frame m1 t1 m' t'" "\<forall>k. budget m1 k \<longrightarrow> budget m' k"
    "\<forall>g. set (keys t' g) = set (keys t1 g) - (if g \<in> set tags then {key} else {})"
    using Cons.IH [OF a(2)] by blast
  have "set (keys t' g) = set (keys t g) - (if g \<in> set (tag # tags) then {key} else {})" for g
    using r(5) a(5) by auto
  then show ?case using a r frame_trans by auto
qed (auto simp: frame_refl)

end

interpretation tags: tag_index "\<lambda>m t. mem_inv m \<and> tag_inv m t" keys_of tag_frame room add_key_to_tag remove_key_from_tag
proof (unfold_locales, goal_cases)
  case (1 m t) show ?case by simp
next
  case (2 m t m1 t1 m2 t2) then show ?case by (rule tag_frame_trans)
next
  case (3 m t key tag k)
  then have inv: "mem_inv m" "tag_inv m t" by auto
  have "room m (Suc 0)" using bmem.room_mono [OF 3(4)] by simp
  then obtain n m1 where c: "create_tag_node m tag = Some (n, m1)"
    using create_tag_node_spec(2) [OF inv(1), of tag 0] 3(3) by (auto simp: name_fine_def)
  show ?case
  proof (cases rule: add_key_cases [OF inv 3(2,3)])
    case 1 with c show ?thesis by simp
  next
    case (2 t' m' b)
    with 2(7) [OF 3(4)] show ?thesis by auto
  qed
next
  case (4 m t key tag t' m')
  then have inv: "mem_inv m" "tag_inv m t" by auto
  show ?case
  proof (cases rule: add_key_cases [OF inv 4(2,3)])
    case 1 with 4(4) show ?thesis by simp
  next
    case (2 t1 m1 b)
    then show ?thesis using 4(4) by auto
  qed
next
  case (5 m t tag key)
  then show ?case using remove_key_spec [of m t tag key] by metis
qed

section \<open>Properties\<close>

text \<open>\<open>compare_tags\<close> decides the lexicographic order of byte strings (a proper prefix comes
  first): its sign is negative, zero or positive exactly as the first tag is smaller, equal or greater.\<close>

lemma compare_tags_sign:
  "sgn (compare_tags a b) = (if a < b then -1 else if a = b then 0 else 1)"
  using compare_tags_less [of a b] compare_tags_greater [of a b] compare_tags_eq [of a b]
  by (cases "compare_tags a b" "0 :: int" rule: linorder_cases) auto

lemma tag_inv_init: "tag_inv m init_tags" and keys_of_init: "keys_of init_tags = (\<lambda>_. [])"
  by (auto simp: tag_inv_def init_tags_def root_def nodes_ok_def node_ok_def tag_blocks_def node_blocks_def
      keys_of_def tag_map_def fun_eq_iff)

text \<open>C21. Adding a key to a tag keeps the index well-formed (search order of the nodes, distinct keys and
  an exact key count in each node, no empty key or tag, all blocks live, distinct and its own, no lock held) whatever the
  tag's place in the tree; afterwards the tag has the key in addition to its old keys, no other tag changes,
  and no live block outside the index is touched. The allocator has the blocks for a node and an element.\<close>

theorem add_key_to_tag_correct:
  assumes "mem_inv m" and "tag_inv m t" and "name_fine key" and "name_fine tag" and "room m (Suc (Suc k))"
  shows "\<exists>t' m'. add_key_to_tag m t tag key = Some (t', m') \<and> mem_inv m' \<and> tag_inv m' t' \<and> tag_frame m t m' t' \<and>
    room m' k \<and>
    keys_of t' = (keys_of t)(tag := if key \<in> set (keys_of t tag) then keys_of t tag else key # keys_of t tag)"
  using tags.add_law [of m t key tag k] assms by auto

theorem add_key_to_tag_correct_witness:
  "\<exists>t' m'. add_key_to_tag (init_state 0) init_tags [7] [1, 2] = Some (t', m') \<and> keys_of t' [7] = [[1, 2]]"
  using add_key_to_tag_correct [OF init_state_inv tag_inv_init, of "[1, 2]" "[7]" 0 0] room_init [of 2]
  by (auto simp: keys_of_init numeral_2_eq_2 name_fine_def)

text \<open>C22. Removing a key from a tag always succeeds, also when the tag or the key is unknown: the key is
  gone from that tag, its element is released and nothing else changes.\<close>

theorem remove_key_from_tag_correct:
  assumes "mem_inv m" and "tag_inv m t"
  shows "\<exists>t' m'. remove_key_from_tag m t tag key = Some (t', m') \<and> mem_inv m' \<and> tag_inv m' t' \<and>
    tag_frame m t m' t' \<and> keys_of t' = (keys_of t)(tag := filter (\<lambda>k. k \<noteq> key) (keys_of t tag))"
  using tags.remove_law [of m t tag key] assms by blast

lemma sample_tags:
  "\<exists>m t. mem_inv m \<and> tag_inv m t \<and> room m 100 \<and> live m = tag_blocks t \<and>
     keys_of t = (\<lambda>_. [])([7] := [[3], [1]], [8] := [[3]])"
proof -
  have "tag_blocks init_tags = {}" "live (init_state 0) = {}"
    by (simp_all add: tag_blocks_def init_tags_def root_def node_blocks_def init_state_live)
  moreover have "room (init_state 0) (Suc (Suc 104))" by (intro room_init) simp
  then obtain t1 m1 where 1: "mem_inv m1" "tag_inv m1 t1" "keys_of t1 = (\<lambda>_. [])([7] := [[1]])" "room m1 104"
    "tag_frame (init_state 0) init_tags m1 t1"
    using tags.add_law [of "init_state 0" init_tags "[1]" "[7]" 104] init_state_inv tag_inv_init
    by (auto simp: keys_of_init name_fine_def)
  have "room m1 (Suc (Suc 102))" using 1(4) by simp
  then obtain t2 m2 where 2: "mem_inv m2" "tag_inv m2 t2" "keys_of t2 = (\<lambda>_. [])([7] := [[3], [1]])" "room m2 102"
    "tag_frame m1 t1 m2 t2"
    using tags.add_law [of m1 t1 "[3]" "[7]" 102] 1 by (auto simp: name_fine_def)
  have "room m2 (Suc (Suc 100))" using 2(4) by simp
  then obtain t3 m3 where 3: "mem_inv m3" "tag_inv m3 t3" "keys_of t3 = (\<lambda>_. [])([7] := [[3], [1]], [8] := [[3]])"
    "room m3 100" "tag_frame m2 t2 m3 t3"
    using tags.add_law [of m2 t2 "[3]" "[8]" 100] 2 by (auto simp: name_fine_def)
  have "tag_frame (init_state 0) init_tags m3 t3"
    using 1 2 3 tag_frame_trans by blast
  ultimately have "live m3 - tag_blocks t3 = {}" by (simp add: tag_frame_def)
  then have "live m3 = tag_blocks t3" using 3(2) by (auto simp: tag_inv_def)
  with 3 show ?thesis by blast
qed

theorem remove_key_from_tag_correct_witness:
  "\<exists>m t t' m'. keys_of t [7] = [[3], [1]] \<and> remove_key_from_tag m t [7] [3] = Some (t', m') \<and> keys_of t' [7] = [[1]]"
proof -
  obtain m t where s: "mem_inv m" "tag_inv m t" "keys_of t = (\<lambda>_. [])([7] := [[3], [1]], [8] := [[3]])"
    using sample_tags by blast
  from remove_key_from_tag_correct [OF s(1,2), of "[7]" "[3]"] obtain t' m' where
    "remove_key_from_tag m t [7] [3] = Some (t', m')" "keys_of t' [7] = [[1]]"
    by (auto simp: s(3))
  then show ?thesis using s(3) by (intro exI [of _ m] exI [of _ t] exI [of _ t'] exI [of _ m']) simp
qed

text \<open>C20. The union: the keys with at least one of the given tags, each once, as a list of fresh copies; the
  index is unchanged and everything else that was live still is. The allocator has the blocks for the copies.\<close>

theorem matching_any_is_union:
  assumes "mem_inv m" and "tag_inv m t" and "room m (query_cost t tags)"
  shows "\<exists>r m'. get_keys_matching_any_tag m t tags = Some (r, t, m') \<and> distinct (map snd r) \<and>
    set (map snd r) = {k. \<exists>tag \<in> set tags. k \<in> set (keys_of t tag)} \<and> fresh_list m r m'"
proof -
  obtain r m' where r: "get_keys_matching_any_tag m t tags = Some (r, t, m')" "snd ` set r = any_keys t tags"
    using matching_any_room [OF assms(1,2), of tags 0] assms(3) by auto
  with matching_any_spec [OF assms(1,2) r(1)] show ?thesis by (auto simp: any_keys_def)
qed

theorem matching_any_is_union_witness:
  "\<exists>m t r m'. keys_of t [7] = [[3], [1]] \<and> keys_of t [8] = [[3]] \<and>
     get_keys_matching_any_tag m t [[8], [9], [7]] = Some (r, t, m') \<and> set (map snd r) = {[1], [3]} \<and> length r = 2"
proof -
  obtain m t where s: "mem_inv m" "tag_inv m t" "room m 100" "keys_of t = (\<lambda>_. [])([7] := [[3], [1]], [8] := [[3]])"
    using sample_tags by blast
  have "room m (query_cost t [[8], [9], [7]])" by (rule bmem.room_mono [OF s(3)]) (simp add: query_cost_def s(4))
  from matching_any_is_union [OF s(1,2) this] obtain r m' where
    r: "get_keys_matching_any_tag m t [[8], [9], [7]] = Some (r, t, m')" "distinct (map snd r)"
    "set (map snd r) = {[1], [3]}" by (auto simp: s(4))
  have "length r = card (set (map snd r))" using distinct_card [OF r(2)] by simp
  then show ?thesis using r s(4) by (intro exI [of _ m] exI [of _ t] exI [of _ r] exI [of _ m']) simp
qed

text \<open>C19. The intersection: the keys that have all of the given tags (none for no tags), each once, when the allocator has the
  blocks for the copies.\<close>

theorem matching_all_is_intersection:
  assumes "mem_inv m" and "tag_inv m t" and "room m (query_cost t tags)"
  shows "\<exists>r m'. get_keys_matching_all_tags m t tags = Some (r, t, m') \<and> distinct (map snd r) \<and>
    set (map snd r) = {k. tags \<noteq> [] \<and> (\<forall>tag \<in> set tags. k \<in> set (keys_of t tag))} \<and> fresh_list m r m'"
proof -
  obtain r m' where r: "get_keys_matching_all_tags m t tags = Some (r, t, m')"
    using matching_all_room [OF assms(1,2), of tags 0] assms(3) by auto
  with matching_all_spec [OF assms(1,2) r(1)] show ?thesis by (auto simp: all_keys_def)
qed

theorem matching_all_is_intersection_witness:
  "\<exists>m t r m'. keys_of t [7] = [[3], [1]] \<and> keys_of t [8] = [[3]] \<and>
     get_keys_matching_all_tags m t [[7], [8]] = Some (r, t, m') \<and> set (map snd r) = {[3]}"
proof -
  obtain m t where s: "mem_inv m" "tag_inv m t" "room m 100" "keys_of t = (\<lambda>_. [])([7] := [[3], [1]], [8] := [[3]])"
    using sample_tags by blast
  have "room m (query_cost t [[7], [8]])" by (rule bmem.room_mono [OF s(3)]) (simp add: query_cost_def s(4))
  from matching_all_is_intersection [OF s(1,2) this] obtain r m' where
    "get_keys_matching_all_tags m t [[7], [8]] = Some (r, t, m')" "set (map snd r) = {[3]}"
    by (auto simp: s(4))
  then show ?thesis using s(4) by (intro exI [of _ m] exI [of _ t] exI [of _ r] exI [of _ m']) simp
qed

text \<open>C30. The iterative walk calls back for the tags that have keys, in ascending order and once each, and
  gives every element of its stack back to the allocator, which has the blocks for the stack.\<close>

theorem walk_all_tags_in_order:
  assumes "mem_inv m" and "tag_inv m t" and "room m (size t)"
  shows "\<exists>m'. walk_all_tags (\<lambda>tag ts. Some (ts @ [tag])) m t [] =
      Some (m', filter (\<lambda>tag. keys_of t tag \<noteq> []) (map t_tag (inorder t))) \<and>
    sorted_wrt (<) (map t_tag (inorder t)) \<and> mem_inv m' \<and> live m' = live m"
proof -
  have ok: "nodes_ok (inorder t)" using assms(2) by (simp add: tag_inv_def)
  have keys: "keys_of t (t_tag n) \<noteq> [] \<longleftrightarrow> t_keys n \<noteq> []" if "n \<in> set (inorder t)" for n
  proof -
    from that have "\<exists>xs ys. inorder t = xs @ n # ys" by (rule split_list)
    then obtain xs ys where "inorder t = xs @ n # ys" by blast
    then show ?thesis using ok map_of_split [of xs n ys] by (simp add: keys_of_def tag_map_def)
  qed
  then have "filter (\<lambda>n. t_keys n \<noteq> []) (inorder t) = filter (\<lambda>n. keys_of t (t_tag n) \<noteq> []) (inorder t)"
    by (intro filter_cong) auto
  then have f: "map t_tag (filter (\<lambda>n. t_keys n \<noteq> []) (inorder t)) =
      filter (\<lambda>tag. keys_of t tag \<noteq> []) (map t_tag (inorder t))"
    by (simp add: filter_map comp_def)
  have "fold (\<lambda>tag ts. ts @ [tag]) xs ys = ys @ xs" for xs ys :: "u8 list list"
    by (induction xs arbitrary: ys) auto
  then show ?thesis
    using walk_all_tags_spec [OF assms, of "\<lambda>tag ts. Some (ts @ [tag])" "[]"] ok
    by (auto simp: f fold_opt_Some nodes_ok_def)
qed

theorem walk_all_tags_in_order_witness:
  "\<exists>m t m'. keys_of t (t_tag root) = [[1]] \<and>
     walk_all_tags (\<lambda>tag ts. Some (ts @ [tag])) m t [] = Some (m', [t_tag root])"
proof -
  have "(25 :: u32) \<le> SMALL_BLOCK" by (simp add: SMALL_BLOCK_def)
  moreover have "room (init_state 0) (Suc 1)" by (intro room_init) simp
  ultimately obtain a m where a: "reserve_memory (init_state 0) 25 = (Some a, m)" "room m 1"
    using bmem.reserve_room [OF init_state_inv] by blast
  note R = mem.reserve_inv [OF init_state_inv a(1)] mem.reserve_Some [OF init_state_inv a(1)]
  let ?t = "Node Leaf (root\<lparr>t_keys := [(a, [1])], num_keys := 1\<rparr>) Leaf"
  have inv: "tag_inv m ?t"
    using R by (auto simp: tag_inv_def root_def nodes_ok_def node_ok_def name_fine_def tag_blocks_def node_blocks_def)
  have keys: "keys_of ?t (t_tag root) = [[1]]"
    by (simp add: keys_of_def tag_map_def root_def)
  have "room m (size ?t)" using a(2) by simp
  from walk_all_tags_in_order [OF R(1) inv this] keys obtain m' where
    "walk_all_tags (\<lambda>tag ts. Some (ts @ [tag])) m ?t [] = Some (m', [t_tag root])"
    by (auto simp: root_def)
  with keys show ?thesis
    by (intro exI [of _ m] exI [of _ ?t] exI [of _ m']) simp
qed

end
