(* ===== verification/Cik_Log.thy ===== *)
theory Cik_Log
  imports Cik_Util
begin

text \<open>
  \<open>src/src/log.c\<close>: a ring queue of 256 log entries per worker, written by the worker and read by
  the log thread; the functions that put a request into an entry; and what the log thread reads back out
  of one. An entry's \<open>data\<close> has 256 bytes.
\<close>

section \<open>State\<close>

datatype LogEntryType =
    LOG_TYPE_REQUEST_GET_HIT | LOG_TYPE_REQUEST_GET_MISS | LOG_TYPE_REQUEST_SET | LOG_TYPE_REQUEST_DEL
  | LOG_TYPE_REQUEST_CLR_ALL | LOG_TYPE_REQUEST_CLR_OLD | LOG_TYPE_REQUEST_CLR_MATCH_NONE
  | LOG_TYPE_REQUEST_CLR_MATCH_ALL | LOG_TYPE_REQUEST_CLR_MATCH_ANY | LOG_TYPE_REQUEST_LST_ALL_KEYS
  | LOG_TYPE_REQUEST_LST_ALL_TAGS | LOG_TYPE_REQUEST_LST_MATCH_NONE | LOG_TYPE_REQUEST_LST_MATCH_ALL
  | LOG_TYPE_REQUEST_LST_MATCH_ANY | LOG_TYPE_REQUEST_NFO | LOG_TYPE_REQUEST_NFO_KEY | LOG_TYPE_STRING

definition sizeof_log_data :: nat where "sizeof_log_data = 0x100"

record LogEntry =
  log_type :: LogEntryType
  worker_id :: u32
  client_ip :: u32
  client_port :: u16
  log_data :: buffer

record LogQueue =
  q_mask :: u32
  q_read :: u32
  q_write :: u32
  elems :: "nat \<Rightarrow> LogEntry"

text \<open>The initial content of the array is never looked at; it is an argument.\<close>

definition LOG_QUEUE_INIT :: "(nat \<Rightarrow> LogEntry) \<Rightarrow> LogQueue" where
  "LOG_QUEUE_INIT es = \<lparr>q_mask = of_nat NUM_LOG_QUEUE_ELEMS - 1, q_read = 0, q_write = 0, elems = es\<rparr>"

section \<open>The queue\<close>

definition enqueue_log_entry :: "LogQueue \<Rightarrow> LogEntry \<Rightarrow> bool \<times> LogQueue" where
  "enqueue_log_entry q e =
     (if (q_write q + 1) AND q_mask q = q_read q then (False, q)
      else (True, q\<lparr>elems := (elems q)(unat (q_write q) := e), q_write := (q_write q + 1) AND q_mask q\<rparr>))"

definition dequeue_log_entry :: "LogQueue \<Rightarrow> LogEntry option \<times> LogQueue" where
  "dequeue_log_entry q =
     (if q_read q = q_write q then (None, q)
      else (Some (elems q (unat (q_read q))), q\<lparr>q_read := (q_read q + 1) AND q_mask q\<rparr>))"

section \<open>Logging a request\<close>

text \<open>Who asks: worker, address and port of the client.\<close>

type_synonym origin = "u32 \<times> u32 \<times> u16"

definition new_entry :: "LogEntryType \<Rightarrow> origin \<Rightarrow> buffer \<Rightarrow> LogEntry" where
  "new_entry ty who d = (case who of (wid, ip, port) \<Rightarrow>
     \<lparr>log_type = ty, worker_id = wid, client_ip = ip, client_port = port, log_data = d\<rparr>)"

definition log_request_with_no_args :: "LogQueue \<Rightarrow> LogEntryType \<Rightarrow> origin \<Rightarrow> bool \<times> LogQueue" where
  "log_request_with_no_args q ty who = enqueue_log_entry q (new_entry ty who (\<lambda>_. 0))"

text \<open>\<open>None\<close>: the copy of the key leaves the array.\<close>

definition log_request_with_key :: "LogQueue \<Rightarrow> LogEntryType \<Rightarrow> origin \<Rightarrow> u8 list \<Rightarrow> (bool \<times> LogQueue) option"
  where
  "log_request_with_key q ty who key =
     (if 1 + length key > sizeof_log_data then None
      else Some (enqueue_log_entry q
             (new_entry ty who (store_bytes ((\<lambda>_. 0)(0 := of_nat (length key))) 1 key))))"

text \<open>
  The tags are packed as length byte and bytes while they fit. The write position \<open>nmemb\<close> is a
  \<open>u8\<close>: it is 0 again when the data fill the array exactly.
\<close>

fun pack_tags :: "buffer \<Rightarrow> u8 \<Rightarrow> u8 list list \<Rightarrow> buffer" where
  "pack_tags d nmemb [] = d"
| "pack_tags d nmemb (tag # tags) =
     (if unat nmemb + 1 + length tag > sizeof_log_data then d
      else let d1 = d(unat nmemb := of_nat (length tag));
               nmemb1 = nmemb + 1;
               d2 = store_bytes d1 (unat nmemb1) tag;
               nmemb2 = nmemb1 + of_nat (length tag)
           in pack_tags d2 nmemb2 tags)"

definition log_request_with_tags :: "LogQueue \<Rightarrow> LogEntryType \<Rightarrow> origin \<Rightarrow> u8 list list \<Rightarrow> bool \<times> LogQueue" where
  "log_request_with_tags q ty who tags = enqueue_log_entry q (new_entry ty who (pack_tags (\<lambda>_. 0) 0 tags))"

definition log_request_get_hit where "log_request_get_hit q = log_request_with_key q LOG_TYPE_REQUEST_GET_HIT"
definition log_request_get_miss where "log_request_get_miss q = log_request_with_key q LOG_TYPE_REQUEST_GET_MISS"
definition log_request_set where "log_request_set q = log_request_with_key q LOG_TYPE_REQUEST_SET"
definition log_request_del where "log_request_del q = log_request_with_key q LOG_TYPE_REQUEST_DEL"
definition log_request_clr_all where "log_request_clr_all q = log_request_with_no_args q LOG_TYPE_REQUEST_CLR_ALL"
definition log_request_clr_old where "log_request_clr_old q = log_request_with_no_args q LOG_TYPE_REQUEST_CLR_OLD"
definition log_request_clr_match_none where
  "log_request_clr_match_none q = log_request_with_tags q LOG_TYPE_REQUEST_CLR_MATCH_NONE"
definition log_request_clr_match_all where
  "log_request_clr_match_all q = log_request_with_tags q LOG_TYPE_REQUEST_CLR_MATCH_ALL"
definition log_request_clr_match_any where
  "log_request_clr_match_any q = log_request_with_tags q LOG_TYPE_REQUEST_CLR_MATCH_ANY"
definition log_request_lst_all_keys where
  "log_request_lst_all_keys q = log_request_with_no_args q LOG_TYPE_REQUEST_LST_ALL_KEYS"
definition log_request_lst_all_tags where
  "log_request_lst_all_tags q = log_request_with_no_args q LOG_TYPE_REQUEST_LST_ALL_TAGS"
definition log_request_lst_match_none where
  "log_request_lst_match_none q = log_request_with_tags q LOG_TYPE_REQUEST_LST_MATCH_NONE"
definition log_request_lst_match_all where
  "log_request_lst_match_all q = log_request_with_tags q LOG_TYPE_REQUEST_LST_MATCH_ALL"
definition log_request_lst_match_any where
  "log_request_lst_match_any q = log_request_with_tags q LOG_TYPE_REQUEST_LST_MATCH_ANY"
definition log_request_nfo where "log_request_nfo q = log_request_with_no_args q LOG_TYPE_REQUEST_NFO"
definition log_request_nfo_key where "log_request_nfo_key q = log_request_with_key q LOG_TYPE_REQUEST_NFO_KEY"

section \<open>Reading an entry back\<close>

text \<open>
  What \<open>print_log_entry\<close> prints after the origin and the verb: the argument of the request. Keys and
  tags are shown through \<open>key2str\<close> and \<open>tag2str\<close>. Reading past the 256 bytes is \<open>None\<close>.
\<close>

datatype printed_arg = PKey "u8 list" | PTags string "u8 list list" | PText string | PString "u8 list" | PNone

definition read_data :: "buffer \<Rightarrow> nat \<Rightarrow> nat \<Rightarrow> u8 list option" where
  "read_data d off n = (if off + n \<le> sizeof_log_data then Some (load_bytes d off n) else None)"

text \<open>The loop \<open>while (tag.nmemb > 0)\<close>: print, step over the tag, read the next length byte.\<close>

function print_tags :: "buffer \<Rightarrow> nat \<Rightarrow> nat \<Rightarrow> u8 list list option" where
  "print_tags d pos nmemb =
     (if nmemb = 0 then Some []
      else do {
        tag \<leftarrow> read_data d pos nmemb;
        next \<leftarrow> read_data d (pos + nmemb) 1;
        rest \<leftarrow> print_tags d (pos + nmemb + 1) (unat (hd next));
        Some (printed tag # rest)
      })"
  by pat_completeness auto
termination
  by (relation "measure (\<lambda>(d, pos, nmemb). Suc sizeof_log_data - pos)")
    (auto simp: read_data_def split: if_splits)

declare print_tags.simps [simp del]

definition match_word :: "LogEntryType \<Rightarrow> string" where
  "match_word ty =
     (let is_all = (ty = LOG_TYPE_REQUEST_CLR_MATCH_ALL \<or> ty = LOG_TYPE_REQUEST_LST_MATCH_ALL);
          is_any = (ty = LOG_TYPE_REQUEST_CLR_MATCH_ANY \<or> ty = LOG_TYPE_REQUEST_LST_MATCH_ANY)
      in if is_all then ''ALL'' else if is_any then ''ANY'' else ''NONE'')"

definition verb :: "LogEntryType \<Rightarrow> string option" where
  "verb ty = (case ty of
     LOG_TYPE_REQUEST_GET_HIT \<Rightarrow> Some ''GET'' | LOG_TYPE_REQUEST_GET_MISS \<Rightarrow> Some ''GET''
   | LOG_TYPE_REQUEST_SET \<Rightarrow> Some ''SET'' | LOG_TYPE_REQUEST_DEL \<Rightarrow> Some ''DEL''
   | LOG_TYPE_REQUEST_CLR_ALL \<Rightarrow> Some ''CLR'' | LOG_TYPE_REQUEST_CLR_OLD \<Rightarrow> Some ''CLR''
   | LOG_TYPE_REQUEST_CLR_MATCH_NONE \<Rightarrow> Some ''CLR'' | LOG_TYPE_REQUEST_CLR_MATCH_ALL \<Rightarrow> Some ''CLR''
   | LOG_TYPE_REQUEST_CLR_MATCH_ANY \<Rightarrow> Some ''CLR'' | LOG_TYPE_REQUEST_LST_ALL_KEYS \<Rightarrow> Some ''LST''
   | LOG_TYPE_REQUEST_LST_ALL_TAGS \<Rightarrow> Some ''LST'' | LOG_TYPE_REQUEST_LST_MATCH_NONE \<Rightarrow> Some ''LST''
   | LOG_TYPE_REQUEST_LST_MATCH_ALL \<Rightarrow> Some ''LST'' | LOG_TYPE_REQUEST_LST_MATCH_ANY \<Rightarrow> Some ''LST''
   | LOG_TYPE_REQUEST_NFO \<Rightarrow> Some ''NFO'' | LOG_TYPE_REQUEST_NFO_KEY \<Rightarrow> Some ''NFO''
   | LOG_TYPE_STRING \<Rightarrow> None)"

definition print_log_entry :: "LogEntry \<Rightarrow> (string option \<times> printed_arg) option" where
  "print_log_entry e =
     (let ty = log_type e; d = log_data e; first = unat (d 0)
      in map_option (Pair (verb ty))
      (if ty = LOG_TYPE_REQUEST_GET_HIT \<or> ty = LOG_TYPE_REQUEST_GET_MISS \<or> ty = LOG_TYPE_REQUEST_SET
          \<or> ty = LOG_TYPE_REQUEST_DEL \<or> ty = LOG_TYPE_REQUEST_NFO_KEY then do {
         key \<leftarrow> read_data d 1 first;
         Some (PKey (printed key))
       }
       else if ty = LOG_TYPE_REQUEST_CLR_ALL then Some (PText ''(ALL)'')
       else if ty = LOG_TYPE_REQUEST_CLR_OLD then Some (PText ''(OLD)'')
       else if ty = LOG_TYPE_REQUEST_CLR_MATCH_NONE \<or> ty = LOG_TYPE_REQUEST_CLR_MATCH_ALL
          \<or> ty = LOG_TYPE_REQUEST_CLR_MATCH_ANY \<or> ty = LOG_TYPE_REQUEST_LST_MATCH_NONE
          \<or> ty = LOG_TYPE_REQUEST_LST_MATCH_ALL \<or> ty = LOG_TYPE_REQUEST_LST_MATCH_ANY then do {
         ts \<leftarrow> print_tags d 1 first;
         Some (PTags (match_word ty) ts)
       }
       else if ty = LOG_TYPE_REQUEST_LST_ALL_KEYS then Some (PText ''(KEYS)'')
       else if ty = LOG_TYPE_REQUEST_LST_ALL_TAGS then Some (PText ''(TAGS)'')
       else if ty = LOG_TYPE_STRING then Some (PString (takeWhile (\<lambda>b. b \<noteq> 0) (load_bytes d 0 sizeof_log_data)))
       else Some PNone))"

end
