(* ===== verification/Cik_Log_Laws.thy ===== *)
theory Cik_Log_Laws
  imports Cik_Log
begin

text \<open>
  The log queue as a bounded first-in first-out queue: the locale \<open>bounded_queue\<close> is the contract
  between the workers that log and the thread that prints, its client lemma relates any sequence of
  operations to the same sequence on a list, and the interpretation \<open>lq\<close> discharges it for the ring of
  \<open>src/src/log.c\<close>. The entries written are related to the lines read back.
\<close>

section \<open>Interface\<close>

datatype 'a queue_op = Enq 'a | Deq

text \<open>What an operation answers: whether the element was taken, or the element handed out.\<close>

datatype 'a queue_answer = Taken bool | Got "'a option"

fun fifo_step :: "nat \<Rightarrow> 'a list \<Rightarrow> 'a queue_op \<Rightarrow> 'a queue_answer \<times> 'a list" where
  "fifo_step cap xs (Enq x) = (if length xs < cap then (Taken True, xs @ [x]) else (Taken False, xs))"
| "fifo_step cap [] Deq = (Got None, [])"
| "fifo_step cap (x # xs) Deq = (Got (Some x), xs)"

fun run_ops :: "('s \<Rightarrow> 'a queue_op \<Rightarrow> 'b \<times> 's) \<Rightarrow> 's \<Rightarrow> 'a queue_op list \<Rightarrow> 'b list \<times> 's" where
  "run_ops step s [] = ([], s)"
| "run_ops step s (x # xs) = (let (a, s1) = step s x; (as, s2) = run_ops step s1 xs in (a # as, s2))"

locale bounded_queue =
  fixes inv :: "'q \<Rightarrow> bool" and contents :: "'q \<Rightarrow> 'a list" and capacity :: nat
    and enq :: "'q \<Rightarrow> 'a \<Rightarrow> bool \<times> 'q" and deq :: "'q \<Rightarrow> 'a option \<times> 'q"
  assumes enq_full: "inv q \<Longrightarrow> length (contents q) \<ge> capacity \<Longrightarrow> enq q x = (False, q)"
    and enq_ok: "inv q \<Longrightarrow> length (contents q) < capacity \<Longrightarrow>
      \<exists>q'. enq q x = (True, q') \<and> inv q' \<and> contents q' = contents q @ [x]"
    and deq_empty: "inv q \<Longrightarrow> contents q = [] \<Longrightarrow> deq q = (None, q)"
    and deq_ok: "inv q \<Longrightarrow> contents q = x # xs \<Longrightarrow> \<exists>q'. deq q = (Some x, q') \<and> inv q' \<and> contents q' = xs"
begin

fun op_step :: "'q \<Rightarrow> 'a queue_op \<Rightarrow> 'a queue_answer \<times> 'q" where
  "op_step q (Enq x) = (let (b, q') = enq q x in (Taken b, q'))"
| "op_step q Deq = (let (r, q') = deq q in (Got r, q'))"

lemma op_step_refines:
  assumes "inv q"
  shows "\<exists>q'. op_step q x = (fst (fifo_step capacity (contents q) x), q') \<and> inv q' \<and>
    contents q' = snd (fifo_step capacity (contents q) x)"
proof (cases x)
  case (Enq y)
  then show ?thesis
    using assms enq_full [OF assms, of y] enq_ok [OF assms, of y] by (cases "length (contents q) < capacity") auto
next
  case Deq
  then show ?thesis
    using assms deq_empty [OF assms] deq_ok [OF assms] by (cases "contents q") fastforce+
qed

lemma run_refines:
  assumes "inv q"
  shows "\<exists>q'. run_ops op_step q xs = (fst (run_ops (fifo_step capacity) (contents q) xs), q') \<and> inv q' \<and>
    contents q' = snd (run_ops (fifo_step capacity) (contents q) xs)"
  using assms
proof (induction xs arbitrary: q)
  case (Cons x xs)
  obtain q1 where q1: "op_step q x = (fst (fifo_step capacity (contents q) x), q1)" "inv q1"
    "contents q1 = snd (fifo_step capacity (contents q) x)"
    using op_step_refines [OF Cons.prems, of x] by auto
  from Cons.IH [OF q1(2)] q1(1,3) show ?case
    by (auto simp: Let_def split: prod.splits)
qed simp

end

section \<open>The ring provides it\<close>

definition q_ok :: "LogQueue \<Rightarrow> bool" where
  "q_ok q \<longleftrightarrow> q_mask q = 255 \<and> unat (q_read q) < NUM_LOG_QUEUE_ELEMS \<and> unat (q_write q) < NUM_LOG_QUEUE_ELEMS"

definition q_len :: "LogQueue \<Rightarrow> nat" where
  "q_len q = (unat (q_write q) + NUM_LOG_QUEUE_ELEMS - unat (q_read q)) mod NUM_LOG_QUEUE_ELEMS"

definition q_contents :: "LogQueue \<Rightarrow> LogEntry list" where
  "q_contents q = map (\<lambda>i. elems q ((unat (q_read q) + i) mod NUM_LOG_QUEUE_ELEMS)) [0..<q_len q]"

lemma length_q_contents [simp]: "length (q_contents q) = q_len q"
  by (simp add: q_contents_def)

lemma ring_succ: "unat w < 256 \<Longrightarrow> unat ((w + 1) AND 255 :: u32) = (unat w + 1) mod 256"
proof -
  assume w: "unat w < 256"
  have "(w + 1) AND 255 = take_bit 8 (w + 1)"
    by (simp add: take_bit_eq_mask mask_numeral)
  moreover have "unat (take_bit 8 (w + 1)) = take_bit 8 (unat (w + 1))"
    by (rule unsigned_take_bit_eq)
  ultimately have "unat ((w + 1) AND 255) = unat (w + 1) mod 256"
    by (simp only: take_bit_eq_mod) simp
  moreover have "unat (w + 1) = unat w + 1"
    using w by (subst unat_add_lem [THEN iffD1]) auto
  ultimately show ?thesis by simp
qed

lemma ring_dist: "r < 256 \<Longrightarrow> w < 256 \<Longrightarrow> (w + 256 - r) mod 256 = (if r \<le> w then w - r else w + 256 - r)"
  for r w :: nat
  by (auto simp: mod_if)

lemma ring_next: "w < 256 \<Longrightarrow> (w + 1) mod 256 = (if w = 255 then 0 else w + 1)" for w :: nat
  by (auto simp: mod_if)

lemma ring_sum: "r < 256 \<Longrightarrow> i < 256 \<Longrightarrow> (r + i) mod 256 = (if r + i < 256 then r + i else r + i - 256)" for r i :: nat
  by (auto simp: mod_if)

lemma ring_len:
  fixes r w :: nat
  assumes "r < 256" "w < 256"
  shows "((w + 1) mod 256 = r) = ((w + 256 - r) mod 256 = 255)"
    and "(w + 1) mod 256 \<noteq> r \<Longrightarrow> ((w + 1) mod 256 + 256 - r) mod 256 = Suc ((w + 256 - r) mod 256)"
    and "r \<noteq> w \<Longrightarrow> (w + 256 - r) mod 256 = Suc ((w + 256 - (r + 1) mod 256) mod 256)"
    and "(r + (w + 256 - r) mod 256) mod 256 = w"
    and "((w + 256 - r) mod 256 = 0) = (r = w)"
    and "i < (w + 256 - r) mod 256 \<Longrightarrow> (r + i) mod 256 \<noteq> w"
proof -
  have n: "(w + 1) mod 256 < 256" "(r + 1) mod 256 < 256" by simp_all
  note d = ring_dist [OF assms] ring_dist [OF assms(1) n(1)] ring_dist [OF n(2) assms(2)]
  note e = ring_next [OF assms(1)] ring_next [OF assms(2)]
  show "((w + 1) mod 256 = r) = ((w + 256 - r) mod 256 = 255)"
    and "(w + 1) mod 256 \<noteq> r \<Longrightarrow> ((w + 1) mod 256 + 256 - r) mod 256 = Suc ((w + 256 - r) mod 256)"
    and "r \<noteq> w \<Longrightarrow> (w + 256 - r) mod 256 = Suc ((w + 256 - (r + 1) mod 256) mod 256)"
    and "((w + 256 - r) mod 256 = 0) = (r = w)"
    unfolding d unfolding e using assms by (auto split: if_splits)
  show "(r + (w + 256 - r) mod 256) mod 256 = w"
  proof -
    have i: "(w + 256 - r) mod 256 < 256" by simp
    show ?thesis unfolding ring_sum [OF assms(1) i] unfolding d using assms by auto
  qed
  show "(r + i) mod 256 \<noteq> w" if "i < (w + 256 - r) mod 256"
  proof -
    have i: "i < 256" using that by (rule less_trans) simp
    show ?thesis
      using that assms unfolding ring_sum [OF assms(1) i] d by (auto split: if_splits)
  qed
qed

interpretation lq: bounded_queue q_ok q_contents 255 enqueue_log_entry dequeue_log_entry
proof (unfold_locales, goal_cases)
  case (1 q x)
  have "q_len q < 256" by (simp add: q_len_def NUM_LOG_QUEUE_ELEMS_def)
  then have "q_len q = 255" using 1(2) by simp
  then have "unat ((q_write q + 1) AND q_mask q) = unat (q_read q)"
    using 1(1) ring_succ [of "q_write q"] ring_len(1) [of "unat (q_read q)" "unat (q_write q)"]
    by (simp add: q_ok_def NUM_LOG_QUEUE_ELEMS_def q_len_def)
  then show ?case by (simp add: enqueue_log_entry_def word_unat_eq_iff)
next
  case (2 q x)
  let ?r = "unat (q_read q)" and ?w = "unat (q_write q)"
  have b: "?r < 256" "?w < 256" "q_mask q = 255" using 2(1) by (simp_all add: q_ok_def NUM_LOG_QUEUE_ELEMS_def)
  note s = ring_succ [OF b(2)]
  have len: "q_len q \<noteq> 255" using 2(2) by simp
  then have ne: "(?w + 1) mod 256 \<noteq> ?r"
    using ring_len(1) [OF b(1,2)] by (simp add: q_len_def NUM_LOG_QUEUE_ELEMS_def)
  let ?q = "q\<lparr>elems := (elems q)(?w := x), q_write := (q_write q + 1) AND q_mask q\<rparr>"
  have "enqueue_log_entry q x = (True, ?q)"
    using ne s b(3) by (auto simp: enqueue_log_entry_def)
  moreover have "q_ok ?q" using s b by (simp add: q_ok_def NUM_LOG_QUEUE_ELEMS_def)
  moreover have "q_len ?q = Suc (q_len q)"
    using ring_len(2) [OF b(1,2) ne] s b(3) by (simp add: q_len_def NUM_LOG_QUEUE_ELEMS_def)
  moreover have "(?r + i) mod 256 \<noteq> ?w" if "i < q_len q" for i
    using that ring_len(6) [OF b(1,2)] by (simp add: q_len_def NUM_LOG_QUEUE_ELEMS_def)
  moreover have "(?r + q_len q) mod 256 = ?w"
    using ring_len(4) [OF b(1,2)] by (simp add: q_len_def NUM_LOG_QUEUE_ELEMS_def)
  ultimately show ?case
    by (auto simp: q_contents_def NUM_LOG_QUEUE_ELEMS_def)
next
  case (3 q)
  then have "q_len q = 0" by (metis length_q_contents list.size(3))
  then have "q_read q = q_write q"
    using 3(1) ring_len(5) [of "unat (q_read q)" "unat (q_write q)"]
    by (simp add: q_ok_def NUM_LOG_QUEUE_ELEMS_def q_len_def word_unat_eq_iff)
  then show ?case by (simp add: dequeue_log_entry_def)
next
  case (4 q x xs)
  let ?r = "unat (q_read q)" and ?w = "unat (q_write q)"
  have b: "?r < 256" "?w < 256" "q_mask q = 255" using 4(1) by (simp_all add: q_ok_def NUM_LOG_QUEUE_ELEMS_def)
  note s = ring_succ [OF b(1)]
  have "q_len q \<noteq> 0" using 4(2) by (metis length_q_contents list.size(3) list.distinct(1) length_0_conv)
  then have ne: "?r \<noteq> ?w" using ring_len(5) [OF b(1,2)] by (simp add: q_len_def NUM_LOG_QUEUE_ELEMS_def)
  let ?q = "q\<lparr>q_read := (q_read q + 1) AND q_mask q\<rparr>"
  have len: "q_len q = Suc (q_len ?q)"
    using ring_len(3) [OF b(1,2) ne] s b(3) by (simp add: q_len_def NUM_LOG_QUEUE_ELEMS_def)
  have "q_contents q = elems q ?r # q_contents ?q"
    unfolding q_contents_def len
    using b s by (simp add: upt_conv_Cons map_Suc_upt [symmetric] NUM_LOG_QUEUE_ELEMS_def mod_simps add.assoc del: upt_Suc)
  moreover have "q_ok ?q" using s b by (simp add: q_ok_def NUM_LOG_QUEUE_ELEMS_def)
  moreover have "q_read q \<noteq> q_write q" using ne by auto
  ultimately show ?case using 4(2) by (simp add: dequeue_log_entry_def)
qed

lemma queue_init: "q_ok (LOG_QUEUE_INIT es)" "q_contents (LOG_QUEUE_INIT es) = []"
  by (simp_all add: q_ok_def LOG_QUEUE_INIT_def q_contents_def q_len_def NUM_LOG_QUEUE_ELEMS_def)

section \<open>Properties\<close>

text \<open>C23. The ring buffer is a first-in first-out queue of capacity 255: every sequence of enqueue and
  dequeue calls on a freshly initialised queue answers exactly as the same sequence on a list that refuses
  an element when it holds 255.\<close>

theorem log_queue_refines_fifo:
  "fst (run_ops lq.op_step (LOG_QUEUE_INIT es) xs) = fst (run_ops (fifo_step 255) [] xs)"
proof -
  have "q_ok (LOG_QUEUE_INIT es)" and "q_contents (LOG_QUEUE_INIT es) = []"
    by (simp_all add: q_ok_def LOG_QUEUE_INIT_def NUM_LOG_QUEUE_ELEMS_def q_contents_def q_len_def)
  with lq.run_refines [OF this(1), of xs] show ?thesis by (metis fst_conv)
qed

definition key_log_type :: "LogEntryType \<Rightarrow> bool" where
  "key_log_type ty \<longleftrightarrow> ty \<in> {LOG_TYPE_REQUEST_GET_HIT, LOG_TYPE_REQUEST_GET_MISS, LOG_TYPE_REQUEST_SET,
     LOG_TYPE_REQUEST_DEL, LOG_TYPE_REQUEST_NFO_KEY}"

text \<open>A request with a key (of at most 255 bytes, which is all a request can carry) is logged and read
  back as that key; the log entry's array is never overrun.\<close>

lemma log_key_roundtrip:
  assumes "q_ok q" and "q_contents q = []" and "key_log_type ty" and "length key \<le> 255"
  shows "\<exists>q1 q2 e. log_request_with_key q ty who key = Some (True, q1) \<and> dequeue_log_entry q1 = (Some e, q2) \<and>
    print_log_entry e = Some (verb ty, PKey (printed key))"
proof -
  define d where "d = store_bytes ((\<lambda>_. 0)(0 := of_nat (length key))) 1 key"
  let ?e = "new_entry ty who d"
  have "length (q_contents q) < 255" using assms(2) by (simp del: length_q_contents)
  from lq.enq_ok [OF assms(1) this, of ?e] obtain q1 where q1: "enqueue_log_entry q ?e = (True, q1)" "q_ok q1"
    "q_contents q1 = [?e]" using assms(2) by auto
  from lq.deq_ok [OF q1(2,3)] obtain q2 where q2: "dequeue_log_entry q1 = (Some ?e, q2)" by auto
  have "log_request_with_key q ty who key = Some (True, q1)"
    using assms(4) q1(1) by (simp add: log_request_with_key_def sizeof_log_data_def d_def)
  moreover have "print_log_entry ?e = Some (verb ty, PKey (printed key))"
  proof -
    have "unat (d 0) = length key"
      using assms(4) by (simp add: d_def store_bytes_def unat_of_nat take_bit_nat_eq_self)
    moreover have "load_bytes d 1 (length key) = key" by (simp add: d_def buffer_simps)
    moreover have "log_type ?e = ty" "log_data ?e = d" by (simp_all add: new_entry_def split: prod.splits)
    ultimately show ?thesis
      using assms(3,4) by (auto simp: print_log_entry_def key_log_type_def read_data_def sizeof_log_data_def)
  qed
  ultimately show ?thesis using q2 by blast
qed

theorem log_key_roundtrip_witness:
  "\<forall>es. \<exists>q1 q2 e. log_request_set (LOG_QUEUE_INIT es) (1, 2, 3) [98, 97] = Some (True, q1) \<and>
     dequeue_log_entry q1 = (Some e, q2) \<and> print_log_entry e = Some (Some ''SET'', PKey [97, 98])"
  (is "\<forall>es. ?P es")
proof
  fix es
  have "q_ok (LOG_QUEUE_INIT es)" and "q_contents (LOG_QUEUE_INIT es) = []"
    by (simp_all add: q_ok_def LOG_QUEUE_INIT_def NUM_LOG_QUEUE_ELEMS_def q_contents_def q_len_def)
  from log_key_roundtrip [OF this, of LOG_TYPE_REQUEST_SET "[98, 97]" "(1, 2, 3)"] show "?P es"
    by (simp add: log_request_set_def key_log_type_def printed_def verb_def)
qed

section \<open>Packed tags\<close>

fun packed :: "u8 list list \<Rightarrow> u8 list" where
  "packed [] = []"
| "packed (tag # tags) = (of_nat (length tag) # tag) @ packed tags"

lemma pack_tags_eq:
  assumes "unat nmemb + length (packed tags) \<le> 255" and "\<forall>tag \<in> set tags. length tag \<le> 255"
  shows "pack_tags d nmemb tags = store_bytes d (unat nmemb) (packed tags)"
  using assms
proof (induction tags arbitrary: d nmemb)
  case (Cons tag tags)
  let ?n = "unat nmemb"
  have b: "?n + 1 + length tag + length (packed tags) \<le> 255" using Cons.prems(1) by simp
  have n1: "unat (nmemb + 1) = ?n + 1"
    using b by (subst unat_add_lem [THEN iffD1]) auto
  have n2: "unat (nmemb + 1 + of_nat (length tag)) = ?n + 1 + length tag"
    using b n1 by (subst unat_add_lem [THEN iffD1]) (auto simp: unat_of_nat take_bit_nat_eq_self)
  have upd: "d(?n := x) = store_bytes d ?n [x]" for x
    by (auto simp: store_bytes_def fun_eq_iff)
  have "pack_tags d nmemb (tag # tags) =
      store_bytes (store_bytes (store_bytes d ?n [of_nat (length tag)]) (?n + 1) tag) (?n + 1 + length tag) (packed tags)"
    using Cons.IH [of "nmemb + 1 + of_nat (length tag)"] Cons.prems b
    by (simp add: Let_def n1 n2 upd sizeof_log_data_def)
  also have "\<dots> = store_bytes d ?n ([of_nat (length tag)] @ tag @ packed tags)"
    using store_bytes_append [of d ?n "[of_nat (length tag)]" tag]
      store_bytes_append [of d ?n "[of_nat (length tag)] @ tag" "packed tags"] by simp
  finally show ?case by simp
qed simp

lemma print_tags_packed:
  assumes "\<forall>tag \<in> set tags. tag \<noteq> [] \<and> length tag \<le> 255"
    and "load_bytes d pos (length (packed tags) + 1) = packed tags @ [0]"
    and "pos + length (packed tags) + 1 \<le> sizeof_log_data"
  shows "print_tags d (pos + 1) (unat (d pos)) = Some (map printed tags)"
  using assms
proof (induction tags arbitrary: pos)
  case Nil
  then have "d pos = 0" by (simp add: load_bytes_def)
  then show ?case by (subst print_tags.simps) simp
next
  case (Cons tag tags)
  let ?n = "length tag"
  have split: "load_bytes d pos (1 + (?n + (length (packed tags) + 1))) = (of_nat ?n # tag) @ packed tags @ [0]"
    using Cons.prems(2) by (simp add: ac_simps)
  then have parts: "load_bytes d pos 1 = [of_nat ?n]" "load_bytes d (pos + 1) ?n = tag"
    "load_bytes d (pos + 1 + ?n) (length (packed tags) + 1) = packed tags @ [0]"
    using load_bytes_split [of d pos 1 _ "[of_nat ?n]"]
      load_bytes_split [of d "pos + 1" ?n "length (packed tags) + 1" tag] by simp_all
  have "d pos = of_nat ?n" using parts(1) by (simp add: load_bytes_def)
  then have first: "unat (d pos) = ?n"
    using Cons.prems(1) by (simp add: unat_of_nat take_bit_nat_eq_self)
  have nxt: "read_data d (pos + 1 + ?n) 1 = Some [d (pos + 1 + ?n)]"
    using Cons.prems(3) by (simp add: read_data_def load_bytes_def)
  have "print_tags d (pos + 1 + ?n + 1) (unat (d (pos + 1 + ?n))) = Some (map printed tags)"
    using Cons.IH [OF _ parts(3)] Cons.prems(1,3) by simp
  moreover have "?n \<noteq> 0" using Cons.prems(1) by simp
  moreover have "read_data d (pos + 1) ?n = Some tag"
    using parts(2) Cons.prems(3) by (simp add: read_data_def)
  ultimately show ?case
    using nxt by (subst print_tags.simps) (simp add: first)
qed

definition tags_log_type :: "LogEntryType \<Rightarrow> bool" where
  "tags_log_type ty \<longleftrightarrow> ty \<in> {LOG_TYPE_REQUEST_CLR_MATCH_NONE, LOG_TYPE_REQUEST_CLR_MATCH_ALL,
     LOG_TYPE_REQUEST_CLR_MATCH_ANY, LOG_TYPE_REQUEST_LST_MATCH_NONE, LOG_TYPE_REQUEST_LST_MATCH_ALL,
     LOG_TYPE_REQUEST_LST_MATCH_ANY}"

text \<open>The tags that fit into the array, one after the other; packing stops at the first that does not.\<close>

fun fitting :: "nat \<Rightarrow> u8 list list \<Rightarrow> u8 list list" where
  "fitting n [] = []"
| "fitting n (tag # tags) = (if n + 1 + length tag > sizeof_log_data then [] else tag # fitting (n + 1 + length tag) tags)"

lemma set_fitting: "set (fitting n tags) \<subseteq> set tags"
  by (induction n tags rule: fitting.induct) auto

lemma length_packed: "length (packed tags) = (\<Sum>tag\<leftarrow>tags. 1 + length tag)"
  by (induction tags) simp_all

lemma fitting_all: "n + length (packed tags) \<le> sizeof_log_data \<Longrightarrow> fitting n tags = tags"
  by (induction n tags rule: fitting.induct) auto

lemma pack_tags_fitting:
  assumes "unat nmemb + length (packed (fitting (unat nmemb) tags)) < sizeof_log_data" and "\<forall>tag \<in> set tags. length tag \<le> 255"
  shows "pack_tags d nmemb tags = store_bytes d (unat nmemb) (packed (fitting (unat nmemb) tags))"
proof -
  have "pack_tags d nmemb tags = pack_tags d nmemb (fitting (unat nmemb) tags)"
    using assms
  proof (induction tags arbitrary: d nmemb)
    case (Cons tag tags)
    show ?case
    proof (cases "unat nmemb + 1 + length tag > sizeof_log_data")
      case False
      let ?n = "nmemb + 1 + of_nat (length tag)"
      have f: "fitting (unat nmemb) (tag # tags) = tag # fitting (unat nmemb + 1 + length tag) tags" using False by simp
      then have b: "unat nmemb + 1 + length tag \<le> 255" using Cons.prems(1) by (simp add: sizeof_log_data_def)
      have n1: "unat (nmemb + 1) = unat nmemb + 1" using b by (subst unat_add_lem [THEN iffD1]) auto
      have n2: "unat ?n = unat nmemb + 1 + length tag"
        using b n1 by (subst unat_add_lem [THEN iffD1]) (auto simp: unat_of_nat take_bit_nat_eq_self)
      have fit: "unat ?n + length (packed (fitting (unat ?n) tags)) < sizeof_log_data"
        using Cons.prems(1) unfolding f n2 by simp
      from Cons.IH [OF this] Cons.prems(2) show ?thesis unfolding f using False by (simp add: Let_def n2)
    qed simp
  qed simp
  then show ?thesis
    using pack_tags_eq [of nmemb "fitting (unat nmemb) tags" d] assms set_fitting [of "unat nmemb" tags]
    by (auto simp: sizeof_log_data_def)
qed

text \<open>What is read back of an entry with tags that leave room for the byte that ends them.\<close>

lemma print_tags_entry:
  assumes "tags_log_type ty" and tags: "\<forall>tag \<in> set tags. tag \<noteq> [] \<and> length tag \<le> 255"
    and fit: "length (packed (fitting 0 tags)) < sizeof_log_data"
  shows "print_log_entry (new_entry ty who (pack_tags (\<lambda>_. 0) 0 tags)) =
    Some (verb ty, PTags (match_word ty) (map printed (fitting 0 tags)))"
proof -
  define d where "d = pack_tags (\<lambda>_. 0) 0 tags"
  let ?e = "new_entry ty who d" and ?ts = "fitting 0 tags"
  have d: "d = store_bytes (\<lambda>_. 0) 0 (packed ?ts)"
    using pack_tags_fitting [of 0 tags "\<lambda>_. 0"] tags fit by (simp add: d_def)
  have "load_bytes d 0 (length (packed ?ts) + 1) = packed ?ts @ [0]"
    unfolding load_bytes_append d by (simp add: load_store_same) (simp add: load_bytes_def store_bytes_def)
  moreover have "\<forall>tag \<in> set ?ts. tag \<noteq> [] \<and> length tag \<le> 255" using tags set_fitting [of 0 tags] by blast
  ultimately have "print_tags d 1 (unat (d 0)) = Some (map printed ?ts)"
    using print_tags_packed [of ?ts d 0] fit by simp
  moreover have "log_type ?e = ty" "log_data ?e = d" by (simp_all add: new_entry_def split: prod.splits)
  ultimately show ?thesis
    unfolding d_def [symmetric] using assms(1) by (auto simp: print_log_entry_def tags_log_type_def)
qed



text \<open>The entries that the functions of \<open>log.c\<close> make, but for those whose tags fill the array to its last
  byte; all of them can be read back.\<close>

definition as_logged :: "LogEntry \<Rightarrow> bool" where
  "as_logged e \<longleftrightarrow> (\<exists>ty who. e = new_entry ty who (\<lambda>_. 0)) \<or>
     (\<exists>ty who key. key_log_type ty \<and> length key \<le> 255 \<and> e = new_entry ty who (store_bytes ((\<lambda>_. 0)(0 := of_nat (length key))) 1 key)) \<or>
     (\<exists>ty who tags. tags_log_type ty \<and> (\<forall>tag \<in> set tags. tag \<noteq> [] \<and> length tag \<le> 255) \<and>
        length (packed (fitting 0 tags)) \<noteq> sizeof_log_data \<and> e = new_entry ty who (pack_tags (\<lambda>_. 0) 0 tags))"

lemma fitting_bound: "n \<le> sizeof_log_data \<Longrightarrow> n + length (packed (fitting n tags)) \<le> sizeof_log_data"
proof (induction n tags rule: fitting.induct)
  case (2 n tag tags)
  then show ?case by (cases "n + 1 + length tag > sizeof_log_data") simp_all
qed simp

lemma logged_printable:
  assumes "as_logged e"
  shows "print_log_entry e \<noteq> None"
proof -
  consider (plain) ty who where "e = new_entry ty who (\<lambda>_. 0)"
    | (key) ty who key where "key_log_type ty" "length key \<le> 255" "e = new_entry ty who (store_bytes ((\<lambda>_. 0)(0 := of_nat (length key))) 1 key)"
    | (tags) ty who tags where "tags_log_type ty" "\<forall>tag \<in> set tags. tag \<noteq> [] \<and> length tag \<le> 255"
        "length (packed (fitting 0 tags)) \<noteq> sizeof_log_data" "e = new_entry ty who (pack_tags (\<lambda>_. 0) 0 tags)"
    using assms unfolding as_logged_def by blast
  then show ?thesis
  proof cases
    case plain
    have "print_tags (\<lambda>_. 0) 1 0 = Some []" by (subst print_tags.simps) simp
    moreover have "log_type e = ty" "log_data e = (\<lambda>_. 0)" by (simp_all add: plain new_entry_def split: prod.splits)
    ultimately show ?thesis by (simp add: print_log_entry_def read_data_def Let_def sizeof_log_data_def)
  next
    case key
    let ?d = "store_bytes ((\<lambda>_. 0)(0 := of_nat (length key))) 1 key"
    have "log_type e = ty" "log_data e = ?d" by (simp_all add: key(3) new_entry_def split: prod.splits)
    moreover have "unat (?d 0) = length key" using key(2) by (simp add: store_bytes_def unat_of_nat take_bit_nat_eq_self)
    ultimately show ?thesis
      using key(1,2) by (auto simp: print_log_entry_def key_log_type_def read_data_def Let_def sizeof_log_data_def)
  next
    case tags
    have "length (packed (fitting 0 tags)) < sizeof_log_data" using tags(3) fitting_bound [of 0 tags] by simp
    from print_tags_entry [OF tags(1,2) this, of who] show ?thesis by (simp add: tags(4))
  qed
qed

text \<open>C33. A single tag of 255 bytes fills the array: nothing terminates the packed list, and reading the entry
  back looks for the next length byte behind the array.\<close>

theorem log_tag_overread:
  assumes "length tag = 255" and "tags_log_type ty"
  shows "print_log_entry (new_entry ty who (pack_tags (\<lambda>_. 0) 0 [tag])) = None"
proof -
  define d where "d = pack_tags (\<lambda>_. 0) 0 [tag]"
  have d: "d = store_bytes ((\<lambda>_. 0)(0 := of_nat 255)) 1 tag"
    using assms(1) by (simp add: sizeof_log_data_def Let_def d_def)
  have "unat (d 0) = 255" by (simp add: d store_bytes_def)
  moreover have "print_tags d 1 255 = None"
    using assms(1) by (subst print_tags.simps) (simp add: read_data_def sizeof_log_data_def)
  ultimately show ?thesis
    unfolding d_def [symmetric] using assms(2) by (auto simp: print_log_entry_def tags_log_type_def new_entry_def split: prod.splits)
qed

theorem log_tag_overread_witness:
  "print_log_entry (new_entry LOG_TYPE_REQUEST_LST_MATCH_ALL (0, 0, 0)
     (pack_tags (\<lambda>_. 0) 0 [replicate 255 7])) = None"
  by (rule log_tag_overread) (simp_all add: tags_log_type_def)

end
