(* ===== verification/Cik_Config.thy ===== *)
theory Cik_Config
  imports Cik_Types "HOL-Library.Char_ord"
begin

text \<open>
  \<open>src/src/config.c\<close>: the configuration file, line by line, into the \<open>RuntimeConfig\<close>. Strings
  are character lists without the terminating zero. The name service behind \<open>getaddrinfo\<close> and the file
  system are arguments.
\<close>

section \<open>Characters and numbers of the C library\<close>

abbreviation newline :: char where "newline \<equiv> CHR 0x0A"
abbreviation nul :: char where "nul \<equiv> CHR 0x00"

definition isspace :: "char \<Rightarrow> bool" where
  "isspace c \<longleftrightarrow> c \<in> {CHR '' '', CHR 0x09, CHR 0x0A, CHR 0x0B, CHR 0x0C, CHR 0x0D}"

definition digit :: "char \<Rightarrow> int" where
  "digit c = of_char c - 48"

definition isdigit :: "char \<Rightarrow> bool" where
  "isdigit c \<longleftrightarrow> 0 \<le> digit c \<and> digit c \<le> 9"

definition digits_value :: "string \<Rightarrow> int" where
  "digits_value cs = foldl (\<lambda>n c. 10 * n + digit c) 0 cs"

text \<open>\<open>strtol (value, &endptr, 10)\<close>: \<open>None\<close> when \<open>endptr\<close> stays at the start; a number out
  of range is clamped.\<close>

definition strtol :: "string \<Rightarrow> int option" where
  "strtol cs =
     (let s = dropWhile isspace cs;
          (neg, t) = (case s of [] \<Rightarrow> (False, []) | c # cs' \<Rightarrow>
             if c = CHR ''-'' then (True, cs') else if c = CHR ''+'' then (False, cs') else (False, s));
          ds = takeWhile isdigit t;
          n = (if neg then - digits_value ds else digits_value ds)
      in if ds = [] then None else Some (max (- (2 ^ 63)) (min (2 ^ 63 - 1) n)))"

definition htons :: "u16 \<Rightarrow> u16" where
  "htons x = push_bit 8 x OR drop_bit 8 x"

section \<open>The configuration\<close>

record RuntimeConfig =
  listen_address :: u32
  listen_port :: u16
  pid_filename :: string
  log_filename :: string
  persistence_filename :: string
  entry_stats_filename :: "string option"
  tag_stats_filename :: "string option"
  memory_stats_filename :: "string option"
  client_stats_filename :: "string option"
  worker_stats_filename :: "string option"

definition sizeof_filename :: nat where "sizeof_filename = 0x400"

definition INADDR_ANY :: u32 where "INADDR_ANY = 0"

definition runtime_config :: RuntimeConfig where
  "runtime_config = \<lparr>listen_address = INADDR_ANY, listen_port = push_bit 8 0x32 OR 0x4F,
     pid_filename = ''/tmp/cik-server.pid'', log_filename = ''/tmp/cik-server.log'',
     persistence_filename = ''/tmp/cik-server.persistent-data'',
     entry_stats_filename = None, tag_stats_filename = None, memory_stats_filename = None,
     client_stats_filename = None, worker_stats_filename = None\<rparr>"

section \<open>A variable\<close>

record addrinfo =
  ai_family :: int
  ai_socktype :: int
  ai_protocol :: int
  ai_addrlen :: nat
  ai_s_addr :: u32

definition AF_INET :: int where "AF_INET = 2"
definition SOCK_STREAM :: int where "SOCK_STREAM = 1"
definition IPPROTO_TCP :: int where "IPPROTO_TCP = 6"
definition sizeof_sockaddr_in :: nat where "sizeof_sockaddr_in = 16"

text \<open>\<open>getaddrinfo\<close>: an error code, or the list of addresses.\<close>

type_synonym resolver = "string \<Rightarrow> int + addrinfo list"

datatype config_error =
    AddressNotParsed string int | AddressNotFound int | PortNotParsed nat | PortOutOfRange int nat
  | UnknownVariable string nat | MissingAssignment nat | EmptyValue nat | CannotOpen string

definition usable_address :: "addrinfo \<Rightarrow> bool" where
  "usable_address rp \<longleftrightarrow> ai_family rp = AF_INET \<and> ai_socktype rp = SOCK_STREAM \<and> ai_protocol rp = IPPROTO_TCP \<and>
     ai_addrlen rp = sizeof_sockaddr_in"

text \<open>\<open>strncpy (buffer, value, n); buffer[n - 1] = 0\<close>\<close>

definition copy_filename :: "string \<Rightarrow> string" where
  "copy_filename val = take (sizeof_filename - 1) val"

definition parse_variable ::
    "resolver \<Rightarrow> nat \<Rightarrow> string \<Rightarrow> string \<Rightarrow> RuntimeConfig \<Rightarrow> config_error + RuntimeConfig" where
  "parse_variable getaddrinfo lineno name val cfg =
     (if name = ''listen_address'' then
        (case getaddrinfo val of
           Inl err \<Rightarrow> Inl (AddressNotParsed val err)
         | Inr result \<Rightarrow> (case find usable_address result of
             Some rp \<Rightarrow> Inr (cfg\<lparr>listen_address := ai_s_addr rp\<rparr>)
           | None \<Rightarrow> Inl (AddressNotFound 0)))
      else if name = ''listen_port'' then
        (case strtol val of
           None \<Rightarrow> Inl (PortNotParsed lineno)
         | Some port \<Rightarrow>
             if port < 0 \<or> port > 0xFFFF then Inl (PortOutOfRange port lineno)
             else Inr (cfg\<lparr>listen_port := htons (of_int port)\<rparr>))
      else if name = ''pid_filename'' then Inr (cfg\<lparr>pid_filename := copy_filename val\<rparr>)
      else if name = ''log_filename'' then Inr (cfg\<lparr>log_filename := copy_filename val\<rparr>)
      else if name = ''persistence_filename'' then Inr (cfg\<lparr>persistence_filename := copy_filename val\<rparr>)
      else if name = ''entry_stats_filename'' then Inr (cfg\<lparr>entry_stats_filename := Some (copy_filename val)\<rparr>)
      else if name = ''tag_stats_filename'' then Inr (cfg\<lparr>tag_stats_filename := Some (copy_filename val)\<rparr>)
      else if name = ''memory_stats_filename'' then Inr (cfg\<lparr>memory_stats_filename := Some (copy_filename val)\<rparr>)
      else if name = ''client_stats_filename'' then Inr (cfg\<lparr>client_stats_filename := Some (copy_filename val)\<rparr>)
      else if name = ''worker_stats_filename'' then Inr (cfg\<lparr>worker_stats_filename := Some (copy_filename val)\<rparr>)
      else Inl (UnknownVariable name lineno))"

section \<open>A line\<close>

datatype line = Skipped | NoAssignment | NoValue | Assignment string string

text \<open>\<open>*c++ = 0\<close> ends the name at the first character behind it, whichever it is.\<close>

definition parse_line :: "string \<Rightarrow> line" where
  "parse_line buffer =
     (let c1 = dropWhile isspace buffer
      in if c1 \<noteq> [] \<and> hd c1 = CHR ''#'' then Skipped
      else
        let name = takeWhile (\<lambda>c. \<not> isspace c \<and> c \<noteq> CHR ''='') c1;
            c2 = dropWhile (\<lambda>c. \<not> isspace c \<and> c \<noteq> CHR ''='') c1
        in if c2 = [] then Skipped
        else
          let c3 = dropWhile isspace (tl c2)
          in if c3 = [] \<or> hd c3 \<noteq> CHR ''='' then NoAssignment
          else
            let c4 = dropWhile isspace (tl c3)
            in if c4 = [] then NoValue
            else Assignment name (rev (dropWhile isspace (rev c4))))"

section \<open>The file\<close>

text \<open>\<open>fgets\<close>: at most \<open>n\<close> characters, up to and with a newline; and the rest of the file.\<close>

fun fgets :: "nat \<Rightarrow> string \<Rightarrow> string \<times> string" where
  "fgets 0 cs = ([], cs)"
| "fgets (Suc n) [] = ([], [])"
| "fgets (Suc n) (c # cs) =
     (if c = newline then ([c], cs) else (let (line, rest) = fgets n cs in (c # line, rest)))"

lemma length_fgets: "length (snd (fgets n cs)) \<le> length cs"
  by (induction n cs rule: fgets.induct) (auto split: prod.splits)

lemma fgets_less:
  assumes "fgets n cs = (line, rest)" and "cs \<noteq> []" and "0 < n"
  shows "length rest < length cs"
proof -
  obtain m c cs' where "n = Suc m" "cs = c # cs'" using assms(2,3) by (metis gr0_conv_Suc list.exhaust)
  then show ?thesis using assms(1) length_fgets [of m cs'] by (auto split: prod.splits if_splits)
qed

text \<open>The buffer is read as a string: what follows a zero is not looked at. The value: the messages, and the
  configuration if no variable was refused.\<close>

function parse_lines ::
    "resolver \<Rightarrow> nat \<Rightarrow> string \<Rightarrow> RuntimeConfig \<Rightarrow> config_error list \<times> RuntimeConfig option" where
  "parse_lines getaddrinfo lineno file cfg =
     (if file = [] then ([], Some cfg)
      else let (chars, rest) = fgets (sizeof_filename - 1) file
      in case parse_line (takeWhile (\<lambda>c. c \<noteq> nul) chars) of
           Skipped \<Rightarrow> parse_lines getaddrinfo (lineno + 1) rest cfg
         | NoAssignment \<Rightarrow> (let (msgs, r) = parse_lines getaddrinfo (lineno + 1) rest cfg in (MissingAssignment lineno # msgs, r))
         | NoValue \<Rightarrow> (let (msgs, r) = parse_lines getaddrinfo (lineno + 1) rest cfg in (EmptyValue lineno # msgs, r))
         | Assignment name val \<Rightarrow>
             (case parse_variable getaddrinfo lineno name val cfg of
                Inl err \<Rightarrow> ([err], None)
              | Inr cfg' \<Rightarrow> parse_lines getaddrinfo (lineno + 1) rest cfg'))"
  by pat_completeness auto
termination
  by (relation "measure (\<lambda>(_, _, file, _). length file)") (auto intro: fgets_less [OF sym] simp: sizeof_filename_def)

declare parse_lines.simps [simp del]

definition parse_args ::
    "resolver \<Rightarrow> (string \<Rightarrow> string option) \<Rightarrow> string list \<Rightarrow> config_error list \<times> RuntimeConfig option" where
  "parse_args getaddrinfo fopen argv =
     (if length argv = 1 then ([], Some runtime_config)
      else case fopen (argv ! 1) of
        None \<Rightarrow> ([CannotOpen (argv ! 1)], None)
      | Some file \<Rightarrow> parse_lines getaddrinfo 1 file runtime_config)"

end
