(* ===== verification/Cik_Config_Laws.thy ===== *)
theory Cik_Config_Laws
  imports Cik_Config
begin

text \<open>
  What the configuration parser accepts, what it makes of a file it was meant for, and what a configuration that
  it accepts has to do with the file.
\<close>

section \<open>A line\<close>

lemma dropWhile_all: "\<forall>c \<in> set ws. P c \<Longrightarrow> dropWhile P (ws @ xs) = dropWhile P xs"
  by (induction ws) auto

definition name_ok :: "string \<Rightarrow> bool" where
  "name_ok name \<longleftrightarrow> name \<noteq> [] \<and> hd name \<noteq> CHR ''#'' \<and> (\<forall>c \<in> set name. \<not> isspace c \<and> c \<noteq> CHR ''='')"

definition value_ok :: "string \<Rightarrow> bool" where
  "value_ok val \<longleftrightarrow> val \<noteq> [] \<and> \<not> isspace (hd val) \<and> \<not> isspace (last val)"

lemma parse_line_name:
  assumes "\<forall>c \<in> set ws. isspace c" and "name_ok name" and "isspace b \<or> b = CHR ''=''"
  shows "parse_line (ws @ name @ b # xs) =
    (let c3 = dropWhile isspace xs
     in if c3 = [] \<or> hd c3 \<noteq> CHR ''='' then NoAssignment
        else let c4 = dropWhile isspace (tl c3)
          in if c4 = [] then NoValue else Assignment name (rev (dropWhile isspace (rev c4))))"
proof -
  let ?P = "\<lambda>c. \<not> isspace c \<and> c \<noteq> CHR ''=''"
  from assms(2) have name: "name \<noteq> []" "\<not> isspace (hd name)" "hd name \<noteq> CHR ''#''" "\<forall>c \<in> set name. ?P c"
    by (auto simp: name_ok_def)
  have "dropWhile isspace (ws @ name @ b # xs) = name @ b # xs"
    using name(1,2) by (simp add: dropWhile_all [OF assms(1)]) (cases name; simp)
  moreover have "takeWhile ?P (name @ b # xs) = name" "dropWhile ?P (name @ b # xs) = b # xs"
    using name(4) assms(3) by auto
  ultimately show ?thesis using name(1,3) by (simp add: parse_line_def)
qed

lemma strip_end:
  assumes "value_ok val" and "\<forall>c \<in> set ws. isspace c"
  shows "rev (dropWhile isspace (rev (val @ ws))) = val"
proof -
  have "dropWhile isspace (rev val) = rev val"
    using assms(1) by (cases val rule: rev_cases) (auto simp: value_ok_def)
  then show ?thesis using assms(2) dropWhile_all [of "rev ws" isspace "rev val"] by simp
qed

lemma parse_line_assignment:
  assumes ws: "\<forall>c \<in> set (ws1 @ ws2 @ ws3 @ ws4). isspace c" "ws2 \<noteq> []" and "name_ok name" and val: "value_ok val"
  shows "parse_line (ws1 @ name @ ws2 @ ''='' @ ws3 @ val @ ws4) = Assignment name val"
proof -
  obtain b bs where ws2: "ws2 = b # bs" using ws(2) by (cases ws2) auto
  have val': "dropWhile isspace (ws3 @ val @ ws4) = val @ ws4"
    using ws(1) val by (simp add: dropWhile_all) (cases val; simp add: value_ok_def)
  have "\<not> isspace CHR ''=''" by (simp add: isspace_def)
  then have eq: "dropWhile isspace (bs @ ''='' @ xs) = ''='' @ xs" for xs using ws(1) by (simp add: ws2 dropWhile_all)
  have "parse_line (ws1 @ name @ b # bs @ ''='' @ ws3 @ val @ ws4) = Assignment name (rev (dropWhile isspace (rev (val @ ws4))))"
    using parse_line_name [of ws1 name b "bs @ ''='' @ ws3 @ val @ ws4"] ws(1) assms(3) val val' eq
    by (simp add: ws2 value_ok_def)
  then show ?thesis using strip_end [OF val, of ws4] ws(1) by (simp add: ws2)
qed

section \<open>A file\<close>

lemma fgets_line:
  assumes "newline \<notin> set l" and "length l < n"
  shows "fgets n (l @ newline # rest) = (l @ [newline], rest)"
  using assms
proof (induction l arbitrary: n)
  case Nil
  then show ?case by (cases n) auto
next
  case (Cons c l)
  then obtain m where "n = Suc m" by (cases n) auto
  then show ?case using Cons by auto
qed

text \<open>The lines of a file as they are meant: comments, blank lines, and settings with any white space around
  the name, the \<open>=\<close> and the value.\<close>

datatype config_item = Comment string string | Blank string | Setting string string string string string string

fun item_text :: "config_item \<Rightarrow> string" where
  "item_text (Comment ws t) = ws @ ''#'' @ t"
| "item_text (Blank ws) = ws"
| "item_text (Setting ws1 name ws2 ws3 val ws4) = ws1 @ name @ ws2 @ ''='' @ ws3 @ val @ ws4"

definition blank :: "string \<Rightarrow> bool" where
  "blank ws \<longleftrightarrow> (\<forall>c \<in> set ws. isspace c)"

text \<open>A name needs a space behind it (C39 is what happens without), and a line has to fit into the buffer.\<close>

fun item_form :: "config_item \<Rightarrow> bool" where
  "item_form (Comment ws t) = blank ws"
| "item_form (Blank ws) = blank ws"
| "item_form (Setting ws1 name ws2 ws3 val ws4) =
     (blank (ws1 @ ws2 @ ws3 @ ws4) \<and> ws2 \<noteq> [] \<and> name_ok name \<and> value_ok val)"

definition item_ok :: "config_item \<Rightarrow> bool" where
  "item_ok i \<longleftrightarrow> item_form i \<and> newline \<notin> set (item_text i) \<and> nul \<notin> set (item_text i) \<and> length (item_text i) < sizeof_filename - 1"

definition file_text :: "config_item list \<Rightarrow> string" where
  "file_text items = concat (map (\<lambda>i. item_text i @ [newline]) items)"

text \<open>The settings one by one, as they take effect; lines are counted from \<open>n\<close>.\<close>

fun assign_all :: "resolver \<Rightarrow> nat \<Rightarrow> config_item list \<Rightarrow> RuntimeConfig \<Rightarrow> config_error list \<times> RuntimeConfig option"
  where
  "assign_all res n [] cfg = ([], Some cfg)"
| "assign_all res n (Setting _ name _ _ val _ # items) cfg =
     (case parse_variable res n name val cfg of Inl e \<Rightarrow> ([e], None) | Inr cfg' \<Rightarrow> assign_all res (n + 1) items cfg')"
| "assign_all res n (_ # items) cfg = assign_all res (n + 1) items cfg"

lemma parse_line_item:
  assumes "item_form i"
  shows "parse_line (item_text i @ [newline]) =
    (case i of Setting _ name _ _ val _ \<Rightarrow> Assignment name val | _ \<Rightarrow> Skipped)"
proof (cases i)
  case (Comment ws t)
  then have "dropWhile isspace (item_text i @ [newline]) = ''#'' @ t @ [newline]"
    using assms by (simp add: blank_def dropWhile_all isspace_def)
  then show ?thesis by (simp add: Comment parse_line_def)
next
  case (Blank ws)
  then have "dropWhile isspace (item_text i @ [newline]) = []" using assms by (simp add: blank_def isspace_def)
  then show ?thesis by (simp add: Blank parse_line_def)
next
  case (Setting ws1 name ws2 ws3 val ws4)
  then show ?thesis
    using parse_line_assignment [of ws1 ws2 ws3 "ws4 @ [newline]" name val] assms by (simp add: blank_def isspace_def ball_Un)
qed

lemma parse_lines_assign_all:
  assumes "\<forall>i \<in> set items. item_ok i"
  shows "parse_lines res n (file_text items) cfg = assign_all res n items cfg"
  using assms
proof (induction items arbitrary: n cfg)
  case Nil
  then show ?case by (simp add: parse_lines.simps file_text_def)
next
  case (Cons i items)
  have ok: "item_form i" "newline \<notin> set (item_text i)" "nul \<notin> set (item_text i)" "length (item_text i) < sizeof_filename - 1"
    using Cons.prems by (simp_all add: item_ok_def)
  have g: "fgets (sizeof_filename - 1) (item_text i @ newline # file_text items) = (item_text i @ [newline], file_text items)"
    by (rule fgets_line [OF ok(2,4)])
  have nz: "takeWhile (\<lambda>c. c \<noteq> nul) (item_text i @ [newline]) = item_text i @ [newline]" using ok(3) by (subst takeWhile_eq_all_conv) auto
  have f: "file_text (i # items) = item_text i @ newline # file_text items" by (simp add: file_text_def)
  have step: "parse_lines res n (item_text i @ newline # file_text items) cfg =
      (case parse_line (item_text i @ [newline]) of
         Skipped \<Rightarrow> parse_lines res (n + 1) (file_text items) cfg
       | Assignment name val \<Rightarrow> (case parse_variable res n name val cfg of
           Inl err \<Rightarrow> ([err], None) | Inr cfg' \<Rightarrow> parse_lines res (n + 1) (file_text items) cfg')
       | NoAssignment \<Rightarrow> (let (msgs, r) = parse_lines res (n + 1) (file_text items) cfg in (MissingAssignment n # msgs, r))
       | NoValue \<Rightarrow> (let (msgs, r) = parse_lines res (n + 1) (file_text items) cfg in (EmptyValue n # msgs, r)))"
    by (subst parse_lines.simps) (simp add: g [simplified] nz [simplified])
  show ?case
    unfolding f step parse_line_item [OF ok(1)] using Cons.IH Cons.prems by (cases i) (simp_all split: sum.split)
qed

text \<open>What the assignments of a file are, whatever the file: the pieces that \<open>fgets\<close> cuts it into, each
  read as a line.\<close>

function settings :: "string \<Rightarrow> (string \<times> string) list" where
  "settings file = (if file = [] then [] else let (chars, rest) = fgets (sizeof_filename - 1) file
     in (case parse_line (takeWhile (\<lambda>c. c \<noteq> nul) chars) of Assignment name val \<Rightarrow> [(name, val)] | _ \<Rightarrow> []) @ settings rest)"
  by pat_completeness auto
termination
  by (relation "measure length") (auto intro: fgets_less [OF sym] simp: sizeof_filename_def)

declare settings.simps [simp del]

section \<open>Properties\<close>


text \<open>The first lines of the file \<open>src/cik.conf\<close>, with a comment and a blank line between them.\<close>

definition sample_lines :: "string list" where
  "sample_lines = [''listen_address          = 127.0.0.1'', ''listen_port             = 20274'', ''  # comment'', [],
     ''pid_filename            = /run/cik/cik-server.pid'']"

definition sample_items :: "config_item list" where
  "sample_items = (let pad = (\<lambda>n. replicate n CHR '' '') in
     [Setting [] ''listen_address'' (pad 10) '' '' ''127.0.0.1'' [], Setting [] ''listen_port'' (pad 13) '' '' ''20274'' [],
      Comment ''  '' '' comment'', Blank [], Setting [] ''pid_filename'' (pad 12) '' '' ''/run/cik/cik-server.pid'' []])"


text \<open>C39. An assignment without a space in front of its \<open>=\<close> is rejected as having none: the \<open>=\<close> that
  ends the name is overwritten before it is looked for.\<close>

theorem assignment_needs_space:
  assumes "name_ok name" and "val = [] \<or> hd (dropWhile isspace val) \<noteq> CHR ''=''"
  shows "parse_line (name @ ''='' @ val) = NoAssignment"
proof -
  have "dropWhile isspace val = [] \<or> hd (dropWhile isspace val) \<noteq> CHR ''=''" using assms(2) by auto
  then show ?thesis using parse_line_name [of "[]" name "CHR ''=''" val] assms(1) by (auto simp: Let_def)
qed

theorem assignment_needs_space_witness:
  "parse_line ''listen_port=20274'' = NoAssignment \<and> parse_line ''listen_port =20274'' = Assignment ''listen_port'' ''20274''"
proof
  show "parse_line ''listen_port=20274'' = NoAssignment"
    using assignment_needs_space [of "''listen_port''" "''20274''"] by (simp add: name_ok_def isspace_def)
  show "parse_line ''listen_port =20274'' = Assignment ''listen_port'' ''20274''" by code_simp
qed

lemma digits_value_nonneg: "\<forall>c \<in> set ds. isdigit c \<Longrightarrow> 0 \<le> digits_value ds"
proof (induction ds rule: rev_induct)
  case (snoc d ds)
  then show ?case by (simp add: digits_value_def isdigit_def)
qed (simp add: digits_value_def)

lemma strtol_digits:
  assumes "ds \<noteq> []" and "\<forall>c \<in> set ds. isdigit c"
  shows "strtol ds = Some (min (2 ^ 63 - 1) (digits_value ds))"
proof -
  obtain d ds' where d: "ds = d # ds'" using assms(1) by (cases ds) auto
  have "isdigit d" using assms(2) d by simp
  then have "\<not> isspace d" "d \<noteq> CHR ''-''" "d \<noteq> CHR ''+''" by (auto simp: isdigit_def digit_def isspace_def)
  moreover have "takeWhile isdigit ds = ds" using assms(2) by (simp add: takeWhile_eq_all_conv)
  moreover have "- (2 ^ 63) \<le> min (2 ^ 63 - 1) (digits_value ds)" using digits_value_nonneg [OF assms(2)] by simp
  ultimately show ?thesis using assms(1) by (simp add: strtol_def d Let_def)
qed

lemma htons_htons: "htons (htons x) = x"
proof -
  have "\<not> bit x n" if "16 \<le> n" for n using that bit_imp_le_length [of x n] by auto
  then show ?thesis by (intro bit_word_eqI) (auto simp: htons_def bit_simps)
qed

text \<open>A decimal \<open>listen_port\<close> is taken exactly when it is at most 65535, however many digits it has;
  it is then stored in network order.\<close>

theorem listen_port_bounds:
  assumes "ds \<noteq> []" and "\<forall>c \<in> set ds. isdigit c"
  shows "parse_variable getaddrinfo n ''listen_port'' ds cfg =
      (if digits_value ds \<le> 0xFFFF then Inr (cfg\<lparr>listen_port := htons (of_int (digits_value ds))\<rparr>)
       else Inl (PortOutOfRange (min (2 ^ 63 - 1) (digits_value ds)) n)) \<and>
    (digits_value ds \<le> 0xFFFF \<longrightarrow> uint (htons (htons (of_int (digits_value ds)))) = digits_value ds)"
proof -
  have "digits_value ds mod 0x10000 = digits_value ds" if "digits_value ds \<le> 0xFFFF"
    using digits_value_nonneg [OF assms(2)] that by (intro mod_pos_pos_trivial) auto
  then show ?thesis using digits_value_nonneg [OF assms(2)]
    by (simp add: parse_variable_def strtol_digits [OF assms] htons_htons uint_word_of_int)
qed

theorem listen_port_bounds_witness:
  "parse_variable (\<lambda>_. Inl 1) 3 ''listen_port'' ''65536'' runtime_config = Inl (PortOutOfRange 65536 3) \<and>
   parse_variable (\<lambda>_. Inl 1) 3 ''listen_port'' ''20274'' runtime_config = Inr runtime_config"
proof -
  have d: "digits_value ''65536'' = 65536" "digits_value ''20274'' = 20274"
    "\<forall>c \<in> set ''65536''. isdigit c" "\<forall>c \<in> set ''20274''. isdigit c" by code_simp+
  have "htons (of_int 20274) = listen_port runtime_config" by code_simp
  then have "runtime_config\<lparr>listen_port := htons (of_int 20274)\<rparr> = runtime_config" by simp
  then show ?thesis
    using listen_port_bounds [OF _ d(3), of "\<lambda>_. Inl 1" 3 runtime_config]
      listen_port_bounds [OF _ d(4), of "\<lambda>_. Inl 1" 3 runtime_config] d(1,2) by simp
qed

lemma length_fgets_line: "length (fst (fgets n cs)) \<le> n"
  by (induction n cs rule: fgets.induct) (auto split: prod.splits)

text \<open>A value of a line is not empty, has no white space at its ends and is no longer than the line.\<close>

lemma hd_strip_end: "xs \<noteq> [] \<Longrightarrow> \<not> P (hd xs) \<Longrightarrow> rev (dropWhile P (rev xs)) \<noteq> [] \<and> hd (rev (dropWhile P (rev xs))) = hd xs"
  by (cases xs) (simp_all add: dropWhile_append)

lemma parse_line_value:
  assumes "parse_line l = Assignment name val"
  shows "value_ok val" and "length val \<le> length l"
proof -
  define c1 where "c1 = dropWhile isspace l"
  define c2 where "c2 = dropWhile (\<lambda>c. \<not> isspace c \<and> c \<noteq> CHR ''='') c1"
  define c3 where "c3 = dropWhile isspace (tl c2)"
  define c4 where "c4 = dropWhile isspace (tl c3)"
  have v: "val = rev (dropWhile isspace (rev c4))" and c4: "c4 \<noteq> []"
    using assms unfolding parse_line_def Let_def c1_def [symmetric] c2_def [symmetric] c3_def [symmetric] c4_def [symmetric]
    by (simp_all split: if_split_asm)
  have h: "\<not> isspace (hd c4)" using c4 unfolding c4_def by (rule hd_dropWhile)
  from hd_strip_end [where P = isspace, OF c4 h] have ne: "val \<noteq> []" "hd val = hd c4" by (simp_all add: v)
  then have "dropWhile isspace (rev c4) \<noteq> []" by (simp add: v)
  from hd_dropWhile [OF this] have "\<not> isspace (last val)" using ne(1) by (simp add: v last_rev)
  then show "value_ok val" using ne h by (simp add: value_ok_def)
  have "length val \<le> length c4" using length_dropWhile_le [of isspace "rev c4"] by (simp add: v)
  also have "\<dots> \<le> length c3" unfolding c4_def by (rule order_trans [OF length_dropWhile_le]) simp
  also have "\<dots> \<le> length c2" unfolding c3_def by (rule order_trans [OF length_dropWhile_le]) simp
  also have "\<dots> \<le> length l" unfolding c2_def c1_def by (rule order_trans [OF length_dropWhile_le length_dropWhile_le])
  finally show "length val \<le> length l" .
qed

text \<open>The configuration that a list of settings makes of the defaults: each variable has the last value it is
  given, a file name to the letter.\<close>

definition last_setting :: "(string \<times> string) list \<Rightarrow> string \<Rightarrow> string option" where
  "last_setting as name = map_of (rev as) name"

definition setting_or :: "(string \<times> string) list \<Rightarrow> string \<Rightarrow> string \<Rightarrow> string" where
  "setting_or as name d = (case last_setting as name of None \<Rightarrow> d | Some val \<Rightarrow> val)"

definition variables :: "string set" where
  "variables = {''listen_address'', ''listen_port'', ''pid_filename'', ''log_filename'', ''persistence_filename'',
     ''entry_stats_filename'', ''tag_stats_filename'', ''memory_stats_filename'', ''client_stats_filename'', ''worker_stats_filename''}"

definition address_set :: "resolver \<Rightarrow> (string \<times> string) list \<Rightarrow> u32 \<Rightarrow> bool" where
  "address_set res as a \<longleftrightarrow> (case last_setting as ''listen_address'' of
     None \<Rightarrow> a = INADDR_ANY
   | Some val \<Rightarrow> \<exists>result rp. res val = Inr result \<and> find usable_address result = Some rp \<and> a = ai_s_addr rp)"

definition port_set :: "(string \<times> string) list \<Rightarrow> u16 \<Rightarrow> bool" where
  "port_set as p \<longleftrightarrow> (case last_setting as ''listen_port'' of
     None \<Rightarrow> p = listen_port runtime_config
   | Some val \<Rightarrow> \<exists>port. strtol val = Some port \<and> 0 \<le> port \<and> port \<le> 0xFFFF \<and> p = htons (of_int port))"

definition configured :: "resolver \<Rightarrow> (string \<times> string) list \<Rightarrow> RuntimeConfig \<Rightarrow> bool" where
  "configured res as cfg \<longleftrightarrow> fst ` set as \<subseteq> variables \<and> (\<forall>val \<in> snd ` set as. value_ok val) \<and>
     address_set res as (listen_address cfg) \<and> port_set as (listen_port cfg) \<and>
     pid_filename cfg = setting_or as ''pid_filename'' (pid_filename runtime_config) \<and>
     log_filename cfg = setting_or as ''log_filename'' (log_filename runtime_config) \<and>
     persistence_filename cfg = setting_or as ''persistence_filename'' (persistence_filename runtime_config) \<and>
     entry_stats_filename cfg = last_setting as ''entry_stats_filename'' \<and>
     tag_stats_filename cfg = last_setting as ''tag_stats_filename'' \<and>
     memory_stats_filename cfg = last_setting as ''memory_stats_filename'' \<and>
     client_stats_filename cfg = last_setting as ''client_stats_filename'' \<and>
     worker_stats_filename cfg = last_setting as ''worker_stats_filename''"

lemma last_setting_snoc: "last_setting (as @ [(name, val)]) x = (if x = name then Some val else last_setting as x)"
  by (simp add: last_setting_def)

lemma setting_or_snoc: "setting_or (as @ [(name, val)]) x d = (if x = name then val else setting_or as x d)"
  by (simp add: setting_or_def last_setting_snoc)

lemma listen_snoc:
  "name \<noteq> ''listen_address'' \<Longrightarrow> address_set res (pre @ [(name, val)]) a = address_set res pre a"
  "name \<noteq> ''listen_port'' \<Longrightarrow> port_set (pre @ [(name, val)]) p = port_set pre p"
  by (simp_all add: address_set_def port_set_def last_setting_snoc)

lemma parse_file_variable:
  "parse_variable res n ''pid_filename'' val cfg = Inr (cfg\<lparr>pid_filename := copy_filename val\<rparr>)"
  "parse_variable res n ''log_filename'' val cfg = Inr (cfg\<lparr>log_filename := copy_filename val\<rparr>)"
  "parse_variable res n ''persistence_filename'' val cfg = Inr (cfg\<lparr>persistence_filename := copy_filename val\<rparr>)"
  "parse_variable res n ''entry_stats_filename'' val cfg = Inr (cfg\<lparr>entry_stats_filename := Some (copy_filename val)\<rparr>)"
  "parse_variable res n ''tag_stats_filename'' val cfg = Inr (cfg\<lparr>tag_stats_filename := Some (copy_filename val)\<rparr>)"
  "parse_variable res n ''memory_stats_filename'' val cfg = Inr (cfg\<lparr>memory_stats_filename := Some (copy_filename val)\<rparr>)"
  "parse_variable res n ''client_stats_filename'' val cfg = Inr (cfg\<lparr>client_stats_filename := Some (copy_filename val)\<rparr>)"
  "parse_variable res n ''worker_stats_filename'' val cfg = Inr (cfg\<lparr>worker_stats_filename := Some (copy_filename val)\<rparr>)"
  by (simp_all add: parse_variable_def)

lemma configured_file:
  assumes "configured res pre cfg" and "value_ok val"
  shows "configured res (pre @ [(''pid_filename'', val)]) (cfg\<lparr>pid_filename := val\<rparr>)"
    "configured res (pre @ [(''log_filename'', val)]) (cfg\<lparr>log_filename := val\<rparr>)"
    "configured res (pre @ [(''persistence_filename'', val)]) (cfg\<lparr>persistence_filename := val\<rparr>)"
    "configured res (pre @ [(''entry_stats_filename'', val)]) (cfg\<lparr>entry_stats_filename := Some val\<rparr>)"
    "configured res (pre @ [(''tag_stats_filename'', val)]) (cfg\<lparr>tag_stats_filename := Some val\<rparr>)"
    "configured res (pre @ [(''memory_stats_filename'', val)]) (cfg\<lparr>memory_stats_filename := Some val\<rparr>)"
    "configured res (pre @ [(''client_stats_filename'', val)]) (cfg\<lparr>client_stats_filename := Some val\<rparr>)"
    "configured res (pre @ [(''worker_stats_filename'', val)]) (cfg\<lparr>worker_stats_filename := Some val\<rparr>)"
  using assms by (simp_all add: configured_def last_setting_snoc setting_or_snoc listen_snoc variables_def)

lemma configured_next:
  assumes "configured res pre cfg" and "parse_variable res n name val cfg = Inr cfg'" and "value_ok val" and "length val < sizeof_filename"
  shows "configured res (pre @ [(name, val)]) cfg'"
proof -
  have copy: "copy_filename val = val" using assms(4) by (simp add: copy_filename_def)
  have C: "fst ` set pre \<subseteq> variables" "\<forall>val \<in> snd ` set pre. value_ok val" "address_set res pre (listen_address cfg)" "port_set pre (listen_port cfg)"
    using assms(1) by (simp_all add: configured_def)
  have new: "name \<in> variables"
  proof (rule ccontr)
    define named where "named l \<longleftrightarrow> name = l" for l
    assume "name \<notin> variables"
    then show False
      using assms(2) unfolding parse_variable_def variables_def insert_iff empty_iff named_def [symmetric] by simp
  qed
  then have known: "fst ` set (pre @ [(name, val)]) \<subseteq> variables" "\<forall>val \<in> snd ` set (pre @ [(name, val)]). value_ok val"
    using C(1,2) assms(3) by auto
  note snoc = last_setting_snoc setting_or_snoc
  note E = configured_file [OF assms(1,3)]
  define named where "named l \<longleftrightarrow> name = l" for l
  from new consider "named ''listen_address''" | "named ''listen_port''" | "named ''pid_filename''" | "named ''log_filename''"
    | "named ''persistence_filename''" | "named ''entry_stats_filename''" | "named ''tag_stats_filename''"
    | "named ''memory_stats_filename''" | "named ''client_stats_filename''" | "named ''worker_stats_filename''"
    unfolding variables_def insert_iff empty_iff named_def [symmetric] by blast
  then show ?thesis
  proof cases
    case 1
    then have n: "name = ''listen_address''" by (simp only: named_def)
    obtain result rp where r: "res val = Inr result" "find usable_address result = Some rp" "cfg' = cfg\<lparr>listen_address := ai_s_addr rp\<rparr>"
      using assms(2) by (auto simp: parse_variable_def n split: sum.splits option.splits)
    have "address_set res (pre @ [(name, val)]) (listen_address cfg')" using r by (simp add: address_set_def snoc n)
    moreover have "port_set (pre @ [(name, val)]) (listen_port cfg')" using C(4) by (simp add: port_set_def snoc n r(3))
    ultimately show ?thesis using known assms(1) unfolding configured_def by (simp add: snoc n r(3))
  next
    case 2
    then have n: "name = ''listen_port''" by (simp only: named_def)
    obtain port where r: "strtol val = Some port" "0 \<le> port" "port \<le> 0xFFFF" "cfg' = cfg\<lparr>listen_port := htons (of_int port)\<rparr>"
      using assms(2) by (auto simp: parse_variable_def n not_less split: option.splits if_splits)
    have "port_set (pre @ [(name, val)]) (listen_port cfg')" using r by (simp add: port_set_def snoc n)
    moreover have "address_set res (pre @ [(name, val)]) (listen_address cfg')" using C(3) by (simp add: address_set_def snoc n r(4))
    ultimately show ?thesis using known assms(1) unfolding configured_def by (simp add: snoc n r(4))
  next
    case 3
    then have n: "name = ''pid_filename''" by (simp only: named_def)
    show ?thesis using E(1) assms(2) copy by (simp add: n parse_file_variable)
  next
    case 4
    then have n: "name = ''log_filename''" by (simp only: named_def)
    show ?thesis using E(2) assms(2) copy by (simp add: n parse_file_variable)
  next
    case 5
    then have n: "name = ''persistence_filename''" by (simp only: named_def)
    show ?thesis using E(3) assms(2) copy by (simp add: n parse_file_variable)
  next
    case 6
    then have n: "name = ''entry_stats_filename''" by (simp only: named_def)
    show ?thesis using E(4) assms(2) copy by (simp add: n parse_file_variable)
  next
    case 7
    then have n: "name = ''tag_stats_filename''" by (simp only: named_def)
    show ?thesis using E(5) assms(2) copy by (simp add: n parse_file_variable)
  next
    case 8
    then have n: "name = ''memory_stats_filename''" by (simp only: named_def)
    show ?thesis using E(6) assms(2) copy by (simp add: n parse_file_variable)
  next
    case 9
    then have n: "name = ''client_stats_filename''" by (simp only: named_def)
    show ?thesis using E(7) assms(2) copy by (simp add: n parse_file_variable)
  next
    case 10
    then have n: "name = ''worker_stats_filename''" by (simp only: named_def)
    show ?thesis using E(8) assms(2) copy by (simp add: n parse_file_variable)
  qed
qed

lemma parse_lines_settings:
  "configured res pre cfg \<Longrightarrow> snd (parse_lines res n cs cfg) = Some cfg' \<Longrightarrow> configured res (pre @ settings cs) cfg'"
proof (induction res n cs cfg arbitrary: pre rule: parse_lines.induct)
  case (1 res n cs cfg)
  show ?case
  proof (cases "cs = []")
    case True
    then show ?thesis using 1 by (simp add: parse_lines.simps settings.simps)
  next
    case False
    obtain chars rest where g: "fgets (sizeof_filename - 1) cs = (chars, rest)" by (cases "fgets (sizeof_filename - 1) cs")
    let ?l = "takeWhile (\<lambda>c. c \<noteq> nul) chars"
    have len: "length ?l \<le> sizeof_filename - 1"
      using length_fgets_line [of "sizeof_filename - 1" cs] length_takeWhile_le [of "\<lambda>c. c \<noteq> nul" chars] by (simp add: g [simplified])
    have st: "settings cs = (case parse_line ?l of Assignment name val \<Rightarrow> [(name, val)] | _ \<Rightarrow> []) @ settings rest"
      using False by (subst settings.simps) (simp add: g [simplified])
    note IH = 1(1-4) [OF False refl g [symmetric]]
    note step = 1(6) [unfolded parse_lines.simps [of res n cs cfg]]
    show ?thesis
    proof (cases "parse_line ?l")
      case Skipped
      then show ?thesis using IH(1) 1(5) step False g by (simp add: st)
    next
      case NoAssignment
      then show ?thesis using IH(2) 1(5) step False g by (simp add: st split: prod.splits)
    next
      case NoValue
      then show ?thesis using IH(3) 1(5) step False g by (simp add: st split: prod.splits)
    next
      case (Assignment name val)
      obtain cfg1 where v: "parse_variable res n name val cfg = Inr cfg1" "snd (parse_lines res (n + 1) rest cfg1) = Some cfg'"
        using step False g Assignment by (auto split: sum.splits)
      note val = parse_line_value [OF Assignment]
      have "length val < sizeof_filename" using val(2) len by (simp add: sizeof_filename_def)
      from IH(4) [OF Assignment v(1) configured_next [OF 1(5) v(1) val(1) this] v(2)] show ?thesis by (simp add: st Assignment)
    qed
  qed
qed

lemma configured_default: "configured res [] runtime_config"
  by (simp add: configured_def address_set_def port_set_def setting_or_def last_setting_def runtime_config_def)



end
