(* ===== verification/Cik_Net.thy ===== *)
theory Cik_Net
  imports Cik_Types
begin

text \<open>
  Reading and writing a connection: \<open>read_request_payload\<close> and \<open>write_response_payload\<close> of
  \<open>src/src/server.c\<close>. The kernel's side of a connection is data of the model: what the calls of
  \<open>read\<close> will deliver, in which pieces, and how much each call of \<open>send\<close> will take. A blocking
  call for which nothing more will ever come does not return (\<open>None\<close>).
\<close>

section \<open>The connection\<close>

datatype delivery = Data "u8 list" | ReadFails

datatype acceptance = Accepts nat | SendFails

record socket =
  incoming :: "delivery list"
  at_eof :: bool   \<comment> \<open>whether the peer closes after what is incoming\<close>
  accepting :: "acceptance list"
  sent :: "u8 list"

datatype io_result = Got "u8 list" | Eof | IoError

text \<open>\<open>read (fd, base, n)\<close> for \<open>n > 0\<close>: at most \<open>n\<close> bytes of the next piece.\<close>

fun sys_read :: "delivery list \<Rightarrow> bool \<Rightarrow> nat \<Rightarrow> (io_result \<times> delivery list) option" where
  "sys_read [] closing n = (if closing then Some (Eof, []) else None)"
| "sys_read (ReadFails # ds) closing n = Some (IoError, ds)"
| "sys_read (Data bs # ds) closing n =
     (if bs = [] then sys_read ds closing n
      else if length bs \<le> n then Some (Got bs, ds)
      else Some (Got (take n bs), Data (drop n bs) # ds))"

lemma sys_read_Got: "sys_read ds closing n = Some (Got bs, ds') \<Longrightarrow> 0 < n \<Longrightarrow> 0 < length bs \<and> length bs \<le> n"
  by (induction ds closing n rule: sys_read.induct) (auto split: if_splits)

section \<open>Reading\<close>

text \<open>The loop delivers the bytes it has written to its destination, also when it fails.\<close>

function read_loop :: "delivery list \<Rightarrow> bool \<Rightarrow> nat \<Rightarrow> (StatusCode \<times> u8 list \<times> delivery list) option" where
  "read_loop ds closing remaining_size =
     (if remaining_size = 0 then None
      else do {
        (r, ds') \<leftarrow> sys_read ds closing remaining_size;
        case r of
          IoError \<Rightarrow> Some (STATUS_NETWORK_ERROR, [], ds')
        | Eof \<Rightarrow> Some (STATUS_CONNECTION_CLOSED, [], ds')
        | Got bs \<Rightarrow>
            if remaining_size - length bs > 0 then do {
              (status, bs', ds'') \<leftarrow> read_loop ds' closing (remaining_size - length bs);
              Some (status, bs @ bs', ds'')
            } else Some (STATUS_OK, bs, ds')
      })"
  by pat_completeness auto
termination
  by (relation "measure (\<lambda>(ds, closing, n). n)") (auto dest: sys_read_Got)

declare read_loop.simps [simp del]

text \<open>\<open>cap\<close> is the room of the object behind the destination pointer: writing beyond it is undefined.\<close>

definition read_request_payload :: "socket \<Rightarrow> nat \<Rightarrow> u32 \<Rightarrow> (StatusCode \<times> u8 list \<times> socket) option" where
  "read_request_payload sock cap nmemb =
     (if nmemb = 0 then Some (STATUS_OK, [], sock)
      else do {
        (status, bs, ds) \<leftarrow> read_loop (incoming sock) (at_eof sock) (unat nmemb);
        if length bs \<le> cap then Some (status, bs, sock\<lparr>incoming := ds\<rparr>) else None
      })"

definition read_request :: "socket \<Rightarrow> (StatusCode \<times> Request \<times> socket) option" where
  "read_request sock = read_request_payload sock sizeof_Request (of_nat sizeof_Request)"

section \<open>Writing\<close>

fun sys_send :: "acceptance list \<Rightarrow> u8 list \<Rightarrow> ((nat option) \<times> acceptance list) option" where
  "sys_send [] bs = None"
| "sys_send (SendFails # as) bs = Some (None, as)"
| "sys_send (Accepts k # as) bs = Some (Some (min k (length bs)), as)"

function write_loop :: "acceptance list \<Rightarrow> u8 list \<Rightarrow> (StatusCode \<times> u8 list \<times> acceptance list) option" where
  "write_loop as bs = do {
     (r, as') \<leftarrow> sys_send as bs;
     case r of
       None \<Rightarrow> Some (STATUS_NETWORK_ERROR, [], as')
     | Some k \<Rightarrow>
         if k = 0 then Some (STATUS_CONNECTION_CLOSED, [], as')
         else if length bs - k > 0 then do {
           (status, out, as'') \<leftarrow> write_loop as' (drop k bs);
           Some (status, take k bs @ out, as'')
         } else Some (STATUS_OK, bs, as')
   }"
  by pat_completeness auto
termination
  by (relation "measure (\<lambda>(as, bs). length bs)") auto

declare write_loop.simps [simp del]

definition write_response_payload :: "socket \<Rightarrow> u8 list \<Rightarrow> (StatusCode \<times> socket) option" where
  "write_response_payload sock bs =
     (if bs = [] then Some (STATUS_OK, sock)
      else do {
        (status, out, as) \<leftarrow> write_loop (accepting sock) bs;
        Some (status, sock\<lparr>accepting := as, sent := sent sock @ out\<rparr>)
      })"

definition write_response :: "socket \<Rightarrow> Response \<Rightarrow> (StatusCode \<times> socket) option" where
  "write_response sock response = write_response_payload sock response"

section \<open>What they do\<close>

fun stream :: "delivery list \<Rightarrow> u8 list" where
  "stream [] = []"
| "stream (ReadFails # ds) = []"
| "stream (Data bs # ds) = bs @ stream ds"

text \<open>The first event after the bytes of the stream.\<close>

fun broken :: "delivery list \<Rightarrow> bool" where
  "broken [] = False"
| "broken (ReadFails # ds) = True"
| "broken (Data bs # ds) = broken ds"

lemma sys_read_stream:
  assumes "stream ds \<noteq> []" and "0 < n"
  obtains bs ds' where "sys_read ds closing n = Some (Got bs, ds')" "stream ds = bs @ stream ds'"
    "broken ds' = broken ds" "0 < length bs" "length bs \<le> n"
proof -
  have "\<exists>bs ds'. sys_read ds closing n = Some (Got bs, ds') \<and> stream ds = bs @ stream ds' \<and> broken ds' = broken ds"
    using assms by (induction ds closing n rule: sys_read.induct) (auto simp: append_assoc [symmetric] simp del: append_assoc)
  with sys_read_Got [OF _ assms(2)] that show thesis by blast
qed

lemma sys_read_end:
  assumes "stream ds = []"
  shows "sys_read ds closing n =
    (if broken ds then map_option (Pair IoError) (map_option snd (sys_read ds closing n))
     else if closing then Some (Eof, []) else None)"
  using assms by (induction ds closing n rule: sys_read.induct) auto

lemma read_loop_enough:
  assumes "0 < n" and "n \<le> length (stream ds)"
  shows "\<exists>ds'. read_loop ds closing n = Some (STATUS_OK, take n (stream ds), ds') \<and>
    stream ds' = drop n (stream ds) \<and> broken ds' = broken ds"
  using assms
proof (induction ds closing n rule: read_loop.induct)
  case (1 ds closing n)
  then have "stream ds \<noteq> []" by auto
  from sys_read_stream [OF this 1(2)] obtain bs ds1 where r: "sys_read ds closing n = Some (Got bs, ds1)"
    "stream ds = bs @ stream ds1" "broken ds1 = broken ds" "0 < length bs" "length bs \<le> n" by blast
  show ?case
  proof (cases "n - length bs > 0")
    case True
    have "n - length bs \<le> length (stream ds1)" using 1(3) r(2) by simp
    with 1(1) [OF _ r(1) refl refl True True] 1(2) obtain ds' where
      "read_loop ds1 closing (n - length bs) = Some (STATUS_OK, take (n - length bs) (stream ds1), ds')"
      "stream ds' = drop (n - length bs) (stream ds1)" "broken ds' = broken ds1" by auto
    then show ?thesis
      using 1(2) r True by (subst read_loop.simps) simp
  next
    case False
    then show ?thesis using 1(2) r by (subst read_loop.simps) simp
  qed
qed

lemma read_loop_short:
  assumes "0 < n" and "length (stream ds) < n"
  shows "if broken ds then \<exists>ds'. read_loop ds closing n = Some (STATUS_NETWORK_ERROR, stream ds, ds')
    else read_loop ds closing n = (if closing then Some (STATUS_CONNECTION_CLOSED, stream ds, []) else None)"
  using assms
proof (induction ds closing n rule: read_loop.induct)
  case (1 ds closing n)
  show ?case
  proof (cases "stream ds = []")
    case True
    have "\<exists>ds'. sys_read ds closing n = Some (IoError, ds')" if "broken ds"
      using that True by (induction ds closing n rule: sys_read.induct) auto
    moreover have "sys_read ds closing n = (if closing then Some (Eof, []) else None)" if "\<not> broken ds"
      using sys_read_end [OF True, of closing n] that by simp
    ultimately show ?thesis using 1(2) True
      by (cases "broken ds"; cases closing) (subst read_loop.simps, force)+
  next
    case False
    from sys_read_stream [OF this 1(2)] obtain bs ds1 where r: "sys_read ds closing n = Some (Got bs, ds1)"
      "stream ds = bs @ stream ds1" "broken ds1 = broken ds" "0 < length bs" "length bs \<le> n" by blast
    have more: "n - length bs > 0" "length (stream ds1) < n - length bs" using 1(3) r(2) by auto
    note IH = 1(1) [OF _ r(1) refl refl more(1) more]
    have step: "read_loop ds closing n = Option.bind (read_loop ds1 closing (n - length bs))
        (\<lambda>(status, bs', ds''). Some (status, bs @ bs', ds''))"
      using 1(2) r(1) more(1) by (subst read_loop.simps) simp
    show ?thesis
      using IH 1(2) r(2,3) unfolding step by (cases "broken ds"; cases closing) auto
  qed
qed

lemma write_loop_prefix:
  assumes "bs \<noteq> []" and "write_loop as bs = Some (status, out, as')"
  shows "(\<exists>rest. bs = out @ rest \<and> (rest = [] \<longleftrightarrow> status = STATUS_OK)) \<and>
    status \<in> {STATUS_OK, STATUS_NETWORK_ERROR, STATUS_CONNECTION_CLOSED}"
  using assms
proof (induction as bs arbitrary: status out as' rule: write_loop.induct)
  case (1 as bs)
  note step = 1(3) [unfolded write_loop.simps [of as bs]]
  obtain r as1 where r: "sys_send as bs = Some (r, as1)"
    using step by (auto simp: bind_eq_Some_conv)
  show ?case
  proof (cases r)
    case None
    then show ?thesis using 1(2) step r by auto
  next
    case (Some k)
    show ?thesis
    proof (cases "k \<noteq> 0 \<and> length bs - k > 0")
      case True
      obtain out1 where o: "write_loop as1 (drop k bs) = Some (status, out1, as')" "out = take k bs @ out1"
        using step r Some True by (auto simp: bind_eq_Some_conv)
      have "drop k bs \<noteq> []" using True by auto
      from 1(1) [OF r refl Some _ _ this o(1)] True obtain rest where
        "drop k bs = out1 @ rest" "rest = [] \<longleftrightarrow> status = STATUS_OK"
        "status \<in> {STATUS_OK, STATUS_NETWORK_ERROR, STATUS_CONNECTION_CLOSED}" by auto
      then show ?thesis using o(2) append_take_drop_id [of k bs] by (metis append_assoc)
    next
      case False
      then show ?thesis using 1(2) step r Some by (auto split: if_splits)
    qed
  qed
qed

text \<open>A file: its content is one piece, and what is left of it stays one.\<close>

definition whole :: "delivery list \<Rightarrow> bool" where
  "whole ds \<longleftrightarrow> ds = [] \<or> (\<exists>bs. ds = [Data bs])"

lemma sys_read_whole: "sys_read ds closing n = Some (r, ds') \<Longrightarrow> whole ds \<Longrightarrow> whole ds'"
  by (auto simp: whole_def split: if_splits)

lemma read_loop_whole: "read_loop ds closing n = Some (status, bs, ds') \<Longrightarrow> whole ds \<Longrightarrow> whole ds'"
proof (induction ds closing n arbitrary: status bs ds' rule: read_loop.induct)
  case (1 ds closing n)
  from 1(2) obtain r ds1 where n: "n \<noteq> 0" and r: "sys_read ds closing n = Some (r, ds1)"
    by (subst (asm) read_loop.simps) (auto split: if_splits elim!: bind_SomeE)
  note w = sys_read_whole [OF r 1(3)]
  show ?case
  proof (cases "\<exists>xs. r = Got xs \<and> n - length xs > 0")
    case True
    then obtain xs where xs: "r = Got xs" "n - length xs > 0" by blast
    then obtain bs1 where "read_loop ds1 closing (n - length xs) = Some (status, bs1, ds')"
      using 1(2) n r by (subst (asm) read_loop.simps) (auto elim!: bind_SomeE)
    from 1(1) [OF n r refl xs this w] show ?thesis .
  next
    case False
    then have "ds' = ds1" using 1(2) n r by (subst (asm) read_loop.simps) (auto split: io_result.splits if_splits)
    then show ?thesis using w by simp
  qed
qed

lemma whole_not_broken: "whole ds \<Longrightarrow> \<not> broken ds"
  by (auto simp: whole_def)

lemma sys_read_record:
  assumes "whole ds" and "stream ds = bs @ rest" and "length bs = n" and "0 < n"
  obtains ds' where "sys_read ds closing n = Some (Got bs, ds')" "whole ds'" "stream ds' = rest"
proof -
  obtain xs where ds: "ds = [Data xs]" using assms by (auto simp: whole_def)
  then have xs: "xs = bs @ rest" using assms(2) by simp
  have ne: "xs \<noteq> []" using assms(3,4) xs by auto
  show thesis
  proof (cases rest)
    case Nil
    then show thesis using that [of "[]"] ds xs ne assms(3) by (simp add: whole_def)
  next
    case (Cons b bs')
    then show thesis using that [of "[Data rest]"] ds xs ne assms(3) by (simp add: whole_def)
  qed
qed

lemma read_enough:
  assumes "unat nmemb \<le> length (stream (incoming sock))" and "unat nmemb \<le> cap"
  shows "\<exists>ds. read_request_payload sock cap nmemb =
      Some (STATUS_OK, take (unat nmemb) (stream (incoming sock)), sock\<lparr>incoming := ds\<rparr>) \<and>
    stream ds = drop (unat nmemb) (stream (incoming sock)) \<and> broken ds = broken (incoming sock)"
proof (cases "nmemb = 0")
  case True
  then show ?thesis by (intro exI [of _ "incoming sock"]) (simp add: read_request_payload_def)
next
  case False
  then have "0 < unat nmemb" by (simp add: unat_gt_0)
  from read_loop_enough [OF this assms(1), of "at_eof sock"] obtain ds where
    "read_loop (incoming sock) (at_eof sock) (unat nmemb) = Some (STATUS_OK, take (unat nmemb) (stream (incoming sock)), ds)"
    "stream ds = drop (unat nmemb) (stream (incoming sock))" "broken ds = broken (incoming sock)" by auto
  then show ?thesis
    using False assms by (auto simp: read_request_payload_def)
qed

lemma read_short:
  assumes "length (stream (incoming sock)) < unat nmemb" and "unat nmemb \<le> cap"
    and "broken (incoming sock) \<or> at_eof sock"
  shows "\<exists>sock'. read_request_payload sock cap nmemb =
    Some (if broken (incoming sock) then STATUS_NETWORK_ERROR else STATUS_CONNECTION_CLOSED,
          stream (incoming sock), sock')"
proof -
  have "nmemb \<noteq> 0" and "0 < unat nmemb" using assms(1) by auto
  with read_loop_short [OF this(2) assms(1), of "at_eof sock"] assms(2,3) assms(1) show ?thesis
    by (auto simp: read_request_payload_def split: if_splits)
qed

section \<open>Properties\<close>

text \<open>C32. Reading a payload does not depend on how the network cuts the stream into pieces: when the bytes
  asked for arrive and fit into the destination, exactly the next \<open>nmemb\<close> bytes of the stream are
  delivered, with status OK, and the stream continues behind them.\<close>

theorem read_independent_of_chunks:
  assumes "unat nmemb \<le> length (stream (incoming sock))" and "unat nmemb \<le> cap"
  shows "\<exists>ds. read_request_payload sock cap nmemb =
      Some (STATUS_OK, take (unat nmemb) (stream (incoming sock)), sock\<lparr>incoming := ds\<rparr>) \<and>
    stream ds = drop (unat nmemb) (stream (incoming sock)) \<and> broken ds = broken (incoming sock)"
  using read_enough [OF assms] .

definition sample_socket :: "delivery list \<Rightarrow> acceptance list \<Rightarrow> socket" where
  "sample_socket ds as = \<lparr>incoming = ds, at_eof = True, accepting = as, sent = []\<rparr>"

theorem read_independent_of_chunks_witness:
  "\<exists>ds. read_request_payload (sample_socket [Data [1], Data [2, 3], Data [4, 5]] []) 16 4 =
      Some (STATUS_OK, [1, 2, 3, 4], (sample_socket [Data [1], Data [2, 3], Data [4, 5]] [])\<lparr>incoming := ds\<rparr>) \<and>
    stream ds = [5]"
  using read_independent_of_chunks [of 4 "sample_socket [Data [1], Data [2, 3], Data [4, 5]] []" 16]
  by (auto simp: sample_socket_def)

text \<open>When the stream ends too early, the read fails with the status that says how: a network error, or
  a closed connection; and it returns as long as the connection does not stay silent.\<close>

theorem read_too_short:
  assumes "length (stream (incoming sock)) < unat nmemb" and "unat nmemb \<le> cap"
    and "broken (incoming sock) \<or> at_eof sock"
  shows "\<exists>sock'. read_request_payload sock cap nmemb =
    Some (if broken (incoming sock) then STATUS_NETWORK_ERROR else STATUS_CONNECTION_CLOSED,
          stream (incoming sock), sock')"
  using read_short [OF assms] .

theorem read_too_short_witness:
  "\<exists>s1 s2. read_request_payload (sample_socket [Data [1], Data [2]] []) 16 4 =
      Some (STATUS_CONNECTION_CLOSED, [1, 2], s1) \<and>
    read_request_payload (sample_socket [Data [1], ReadFails] []) 16 4 = Some (STATUS_NETWORK_ERROR, [1], s2)"
  using read_too_short [of "sample_socket [Data [1], Data [2]] []" 4 16]
    read_too_short [of "sample_socket [Data [1], ReadFails] []" 4 16]
  by (auto simp: sample_socket_def)

text \<open>Whatever the kernel accepts per call, a write puts a prefix of the bytes on the wire, in order and
  without gap or repetition, and it puts all of them exactly when it reports OK.\<close>

lemma write_in_order:
  assumes "write_response_payload sock bs = Some (status, sock')"
  shows "\<exists>out rest. bs = out @ rest \<and> sent sock' = sent sock @ out \<and> (rest = [] \<longleftrightarrow> status = STATUS_OK)"
proof (cases "bs = []")
  case True
  then show ?thesis using assms by (auto simp: write_response_payload_def)
next
  case False
  then obtain out as where "write_loop (accepting sock) bs = Some (status, out, as)" "sent sock' = sent sock @ out"
    using assms by (auto simp: write_response_payload_def bind_eq_Some_conv)
  with write_loop_prefix [OF False this(1)] show ?thesis by blast
qed

end
