(* ===== verification/Cik_State.thy ===== *)
theory Cik_State
  imports Cik_Entry Cik_Tag Cik_Log Cik_Net
begin

text \<open>
  The state of the whole server as one record: the memory region, the entries, the 6421 entry maps, the
  tag tree, the workers and the clients (\<open>Worker\<close>, \<open>Client\<close> of \<open>src/src/types.h\<close>), the
  variables of the running thread, and the environment's clocks. \<open>heap\<close> holds the content of the
  blocks that are entries; a released entry leaves it, so a use after release is undefined.
\<close>

section \<open>Workers and clients\<close>

record op_counters =
  n_get :: u32
  n_set :: u32
  n_del :: u32
  n_clr :: u32
  n_lst :: u32
  n_nfo :: u32

record op_timers =
  t_get :: u64
  t_set :: u64
  t_del :: u64
  t_clr :: u64
  t_lst :: u64
  t_nfo :: u64

record Worker =
  w_id :: u32
  payload_buffer :: Payload
  log_queue :: LogQueue
  w_counters :: op_counters
  w_timers :: op_timers

record client_counters =
  get_hit :: u32
  get_miss :: u32
  c_set :: u32
  c_del :: u32
  c_clr :: u32
  c_lst :: u32
  c_nfo :: u32

record Client =
  fd :: int
  sin_addr :: u32
  sin_port :: u16
  worker :: "nat option"
  c_counters :: client_counters
  last_request_start_tick :: u64
  last_request_end_tick :: u64
  sock :: socket   \<comment> \<open>the connection behind \<open>fd\<close>\<close>

section \<open>The server\<close>

record state =
  mem :: memory
  heap :: store
  entry_maps :: "nat \<Rightarrow> CacheEntryHashMap"
  tag_tree :: tags
  workers :: "nat \<Rightarrow> Worker"
  clients :: "nat \<Rightarrow> Client"
  current_client :: "nat option"
  current_log_queue :: "nat option"   \<comment> \<open>the worker whose queue it is\<close>
  clock :: "nat \<Rightarrow> time_t"
  clock_calls :: nat
  ticks :: "nat \<Rightarrow> u64"
  tick_calls :: nat

definition upd_client :: "nat \<Rightarrow> (Client \<Rightarrow> Client) \<Rightarrow> state \<Rightarrow> state" where
  "upd_client c f s = s\<lparr>clients := (clients s)(c := f (clients s c))\<rparr>"

definition upd_worker :: "nat \<Rightarrow> (Worker \<Rightarrow> Worker) \<Rightarrow> state \<Rightarrow> state" where
  "upd_worker w f s = s\<lparr>workers := (workers s)(w := f (workers s w))\<rparr>"

definition upd_counters :: "nat \<Rightarrow> (client_counters \<Rightarrow> client_counters) \<Rightarrow> state \<Rightarrow> state" where
  "upd_counters c f = upd_client c (c_counters_update f)"

text \<open>\<open>time (NULL)\<close> and \<open>get_performance_counter ()\<close>: the next reading of a clock.\<close>

definition time_now :: "state \<Rightarrow> time_t \<times> state" where
  "time_now s = (clock s (clock_calls s), s\<lparr>clock_calls := clock_calls s + 1\<rparr>)"

definition get_performance_counter :: "state \<Rightarrow> u64 \<times> state" where
  "get_performance_counter s = (ticks s (tick_calls s), s\<lparr>tick_calls := tick_calls s + 1\<rparr>)"

section \<open>Access to the components\<close>

definition client_read :: "state \<Rightarrow> nat \<Rightarrow> nat \<Rightarrow> u32 \<Rightarrow> (StatusCode \<times> u8 list \<times> state) option" where
  "client_read s c cap nmemb = do {
     (status, bs, sk) \<leftarrow> read_request_payload (sock (clients s c)) cap nmemb;
     Some (status, bs, upd_client c (sock_update (\<lambda>_. sk)) s)
   }"

text \<open>One of the \<open>log_request\<close> functions on the queue of the client's worker; that the queue may be
  full is ignored by every caller.\<close>

definition log_with :: "state \<Rightarrow> nat \<Rightarrow> (LogQueue \<Rightarrow> origin \<Rightarrow> (bool \<times> LogQueue) option) \<Rightarrow> state option" where
  "log_with s c f = do {
     w \<leftarrow> worker (clients s c);
     (_, q) \<leftarrow> f (log_queue (workers s w)) (w_id (workers s w), sin_addr (clients s c), sin_port (clients s c));
     Some (upd_worker w (log_queue_update (\<lambda>_. q)) s)
   }"

definition lock_entry :: "state \<Rightarrow> addr \<Rightarrow> state option" where
  "lock_entry s a = do { st \<leftarrow> LOCK_ENTRY (heap s) a; Some (s\<lparr>heap := st\<rparr>) }"

definition unlock_entry :: "state \<Rightarrow> addr \<Rightarrow> state option" where
  "unlock_entry s a = do { st \<leftarrow> UNLOCK_ENTRY (heap s) a; Some (s\<lparr>heap := st\<rparr>) }"

definition upd_entry :: "addr \<Rightarrow> (CacheEntry \<Rightarrow> CacheEntry) \<Rightarrow> state \<Rightarrow> state" where
  "upd_entry a f s = s\<lparr>heap := (heap s)(a := map_option f (heap s a))\<rparr>"

text \<open>\<open>UNLOCK_ENTRY (entry); release_memory (entry);\<close>\<close>

definition unlock_and_release :: "state \<Rightarrow> addr \<Rightarrow> state option" where
  "unlock_and_release s a = do {
     s1 \<leftarrow> unlock_entry s a;
     m \<leftarrow> release_memory (mem s1) a;
     Some (s1\<lparr>mem := m, heap := (heap s1)(a := None)\<rparr>)
   }"

text \<open>\<open>reserve_and_lock_entry\<close> of \<open>src/src/memory.c\<close>. The size is a \<open>size_t\<close> that is
  narrowed to 32 bits by the call.\<close>

definition reserve_and_lock_entry :: "state \<Rightarrow> nat \<Rightarrow> (addr option \<times> state) option" where
  "reserve_and_lock_entry s payload_size =
     (case reserve_memory (mem s) (of_nat (sizeof_CacheEntry + payload_size)) of
        (None, m) \<Rightarrow> Some (None, s\<lparr>mem := m\<rparr>)
      | (Some a, m) \<Rightarrow>
          (let (now, s1) = time_now (s\<lparr>mem := m\<rparr>);
               s2 = s1\<lparr>heap := (heap s1)(a \<mapsto> CACHE_ENTRY_INIT now)\<rparr>
           in do { s3 \<leftarrow> lock_entry s2 a; Some (Some a, s3) }))"

text \<open>How many bytes a block has: the size of its bucket.\<close>

definition bucket_size :: "memory \<Rightarrow> addr \<Rightarrow> nat" where
  "bucket_size m a = (case buckets m (a - TPADDED_Bucket) of
     None \<Rightarrow> 0 | Some i \<Rightarrow> unat (p_size (partitions m ! i)))"

section \<open>Choosing the map\<close>

text \<open>The value of a little-endian integer.\<close>

fun le_value :: "u8 list \<Rightarrow> nat" where
  "le_value [] = 0"
| "le_value (b # bs) = unat b + 256 * le_value bs"

text \<open>\<open>get_map_for_key\<close>: the first 8, 4, 2 or 1 bytes of the (reversed) key as an integer.\<close>

definition map_for_key :: "u8 list \<Rightarrow> nat" where
  "map_for_key key =
     (if length key \<ge> 8 then le_value (take 8 key) mod NUM_CACHE_ENTRY_MAPS
      else if length key \<ge> 4 then le_value (take 4 key) mod NUM_CACHE_ENTRY_MAPS
      else if length key \<ge> 2 then le_value (take 2 key) mod NUM_CACHE_ENTRY_MAPS
      else if length key \<ge> 1 then le_value (take 1 key) mod NUM_CACHE_ENTRY_MAPS
      else 0)"

definition map_get :: "state \<Rightarrow> u8 list \<Rightarrow> (addr option \<times> state) option" where
  "map_get s key = (let i = map_for_key key in do {
     (r, m, st) \<leftarrow> lock_and_get_cache_entry (entry_maps s i) (heap s) key;
     Some (r, s\<lparr>entry_maps := (entry_maps s)(i := m), heap := st\<rparr>)
   })"

definition map_unset :: "state \<Rightarrow> u8 list \<Rightarrow> (addr option \<times> state) option" where
  "map_unset s key = (let i = map_for_key key in do {
     (r, m, st) \<leftarrow> lock_and_unset_cache_entry (entry_maps s i) (heap s) key;
     Some (r, s\<lparr>entry_maps := (entry_maps s)(i := m), heap := st\<rparr>)
   })"

definition map_set :: "state \<Rightarrow> addr \<Rightarrow> (bool \<times> addr option \<times> state) option" where
  "map_set s a = do {
     e \<leftarrow> heap s a;
     let i = map_for_key (e_key e);
     (ok, old, m, st) \<leftarrow> set_locked_cache_entry (entry_maps s i) (heap s) a;
     Some (ok, old, s\<lparr>entry_maps := (entry_maps s)(i := m), heap := st\<rparr>)
   }"

text \<open>The loops over the tags of an entry.\<close>

definition remove_key_from_tags :: "state \<Rightarrow> u8 list list \<Rightarrow> u8 list \<Rightarrow> state option" where
  "remove_key_from_tags s tags key = do {
     (t, m) \<leftarrow> fold_opt (\<lambda>tag (t, m). remove_key_from_tag m t tag key) tags (tag_tree s, mem s);
     Some (s\<lparr>tag_tree := t, mem := m\<rparr>)
   }"

definition add_key_to_tags :: "state \<Rightarrow> u8 list list \<Rightarrow> u8 list \<Rightarrow> state option" where
  "add_key_to_tags s tags key = do {
     (t, m) \<leftarrow> fold_opt (\<lambda>tag (t, m). add_key_to_tag m t tag key) tags (tag_tree s, mem s);
     Some (s\<lparr>tag_tree := t, mem := m\<rparr>)
   }"

section \<open>Walking all maps\<close>

text \<open>The callback works on the state, with data of its own; the map that is walked is put back when its
  walk ends (no callback looks at the maps).\<close>

definition walk_map :: "(addr \<Rightarrow> state \<times> 'd \<Rightarrow> (bool \<times> state \<times> 'd) option) \<Rightarrow> nat \<Rightarrow> state \<times> 'd \<Rightarrow> (state \<times> 'd) option"
  where
  "walk_map callback i = (\<lambda>(s, d). do {
     (m, st, s', d') \<leftarrow> walk_entries
       (\<lambda>a st (s, d). do { (b, s', d') \<leftarrow> callback a (s\<lparr>heap := st\<rparr>, d); Some (b, heap s', s', d') })
       (entry_maps s i, heap s, s, d);
     Some (s'\<lparr>entry_maps := (entry_maps s')(i := m), heap := st\<rparr>, d')
   })"

definition walk_all_entries :: "(addr \<Rightarrow> state \<times> 'd \<Rightarrow> (bool \<times> state \<times> 'd) option) \<Rightarrow> state \<times> 'd \<Rightarrow> (state \<times> 'd) option"
  where
  "walk_all_entries callback sd = fold_opt (walk_map callback) [0..<NUM_CACHE_ENTRY_MAPS] sd"

end
