(* ===== verification/Cik_Controller.thy ===== *)
theory Cik_Controller
  imports Cik_State Cik_Util
begin

text \<open>
  \<open>src/src/controller.c\<close>: one handler per operation of the protocol, and \<open>handle_request\<close>
  that dispatches to them. A handler returns its status, the payload it points the caller to, and the
  state. The thread-specific \<open>current_client\<close> is the field of that name.
\<close>

text \<open>\<open>*response_payload\<close>: \<open>NULL\<close>, the worker's buffer, or a variable of a block that has
  been left.\<close>

datatype payload_ptr = NullPayload | WorkerPayload | DeadPayload

section \<open>Reading keys and tags\<close>

definition sizeof_tmp_key_data :: nat where "sizeof_tmp_key_data = 0xFF"

definition read_request_key :: "state \<Rightarrow> nat \<Rightarrow> u8 \<Rightarrow> (StatusCode \<times> u8 list \<times> state) option" where
  "read_request_key s c klen = do {
     (status, bs, s1) \<leftarrow> client_read s c sizeof_tmp_key_data (ucast klen);
     if status \<noteq> STATUS_OK then Some (status, bs, s1)
     else do {
       buf \<leftarrow> reverse_bytes sizeof_tmp_key_data (store_bytes (\<lambda>_. 0) 0 bs) 0 (ucast klen);
       Some (STATUS_OK, load_bytes buf 0 (unat klen), s1)
     }
   }"

definition set_payload_data :: "nat \<Rightarrow> buffer \<Rightarrow> state \<Rightarrow> state" where
  "set_payload_data w d = upd_worker w (payload_buffer_update (payload_data_update (\<lambda>_. d)))"

definition set_payload_nmemb :: "nat \<Rightarrow> u32 \<Rightarrow> state \<Rightarrow> state" where
  "set_payload_nmemb w n = upd_worker w (payload_buffer_update (payload_nmemb_update (\<lambda>_. n)))"

text \<open>A tag that has been read: its offset in the payload buffer and its length.\<close>

type_synonym tag_ref = "nat \<times> u8"

definition tag_bytes :: "buffer \<Rightarrow> tag_ref list \<Rightarrow> u8 list list" where
  "tag_bytes d refs = map (\<lambda>(off, n). load_bytes d off (unat n)) refs"

fun read_tags_loop :: "state \<Rightarrow> nat \<Rightarrow> nat \<Rightarrow> nat \<Rightarrow> u32 \<Rightarrow> nat \<Rightarrow>
    (StatusCode \<times> tag_ref list \<times> u32 \<times> state) option" where
  "read_tags_loop s c w off buffer_cap 0 = Some (STATUS_OK, [], buffer_cap, s)"
| "read_tags_loop s c w off buffer_cap (Suc k) = do {
     (status, bs, s1) \<leftarrow> client_read s c 1 1;
     if status \<noteq> STATUS_OK then Some (status, [], buffer_cap, s1)
     else do {
       let nmemb = hd bs;
       if ucast nmemb > buffer_cap then Some (STATUS_OUT_OF_MEMORY, [], buffer_cap, s1)
       else do {
         _ \<leftarrow> payload_base (payload_buffer (workers s1 w));
         (status, bs, s2) \<leftarrow> client_read s1 c (unat buffer_cap) (ucast nmemb);
         let pl = payload_buffer (workers s2 w);
         let d = store_bytes (payload_data pl) off bs;
         if status \<noteq> STATUS_OK then Some (status, [], buffer_cap, set_payload_data w d s2)
         else do {
           d' \<leftarrow> reverse_bytes (unat (payload_cap pl)) d off (ucast nmemb);
           (status, refs, cap', s3) \<leftarrow>
             read_tags_loop (set_payload_data w d' s2) c w (off + unat nmemb) (buffer_cap - ucast nmemb) k;
           Some (status, (off, nmemb) # refs, cap', s3)
         }
       }
     }
   }"

definition read_tags_using_payload_buffer :: "state \<Rightarrow> nat \<Rightarrow> u8 \<Rightarrow> (StatusCode \<times> tag_ref list \<times> state) option"
  where
  "read_tags_using_payload_buffer s c ntags = do {
     w \<leftarrow> worker (clients s c);
     let cap = payload_cap (payload_buffer (workers s w));
     (status, refs, buffer_cap, s1) \<leftarrow> read_tags_loop s c w 0 cap (unat ntags);
     if status \<noteq> STATUS_OK then Some (status, refs, s1)
     else Some (STATUS_OK, refs, set_payload_nmemb w (cap - buffer_cap) s1)
   }"

section \<open>GET\<close>

text \<open>Whether the entry has expired; the time is only asked for when it matters.\<close>

definition check_expires :: "state \<Rightarrow> u8 \<Rightarrow> CacheEntry \<Rightarrow> bool \<times> state" where
  "check_expires s flags e =
     (if NOT flags AND GET_FLAG_IGNORE_EXPIRES \<noteq> 0 \<and> expires e \<noteq> CACHE_EXPIRES_INIT
      then let (now, s') = time_now s in (sint (expires e) < sint now, s')
      else (False, s))"

definition handle_get_request :: "state \<Rightarrow> nat \<Rightarrow> Request \<Rightarrow> (StatusCode \<times> payload_ptr \<times> state) option" where
  "handle_get_request s c request = do {
     w \<leftarrow> worker (clients s c);
     let klen = req_g_klen request;
     let flags = req_g_flags request;
     (status, key, s1) \<leftarrow> read_request_key s c klen;
     if status \<noteq> STATUS_OK then Some (status, NullPayload, s1)
     else do {
       (r, s2) \<leftarrow> map_get s1 key;
       case r of
         None \<Rightarrow> do {
           s3 \<leftarrow> log_with s2 c (\<lambda>q who. log_request_get_miss q who key);
           Some (STATUS_NOT_FOUND, NullPayload, upd_counters c (get_miss_update (\<lambda>n. n + 1)) s3)
         }
       | Some a \<Rightarrow> do {
           e \<leftarrow> heap s2 a;
           let (expired, s3) = check_expires s2 flags e;
           if expired then do {
             s4 \<leftarrow> unlock_entry s3 a;
             s5 \<leftarrow> log_with s4 c (\<lambda>q who. log_request_get_miss q who key);
             Some (STATUS_EXPIRED, NullPayload, upd_counters c (get_miss_update (\<lambda>n. n + 1)) s5)
           } else do {
             s4 \<leftarrow> log_with s3 c (\<lambda>q who. log_request_get_hit q who key);
             let s5 = upd_entry a (nhits_update (\<lambda>n. n + 1)) s4;
             let s6 = upd_counters c (get_hit_update (\<lambda>n. n + 1)) s5;
             let pl = payload_buffer (workers s6 w);
             if length (e_value e) > unat (payload_cap pl) then do {
               s7 \<leftarrow> unlock_entry s6 a;
               Some (STATUS_BUG, NullPayload, s7)
             } else if length (e_value e) > 0 then do {
               _ \<leftarrow> payload_base pl;
               let s7 = set_payload_nmemb w (of_nat (length (e_value e))) s6;
               let s8 = set_payload_data w (store_bytes (payload_data pl) 0 (e_value e)) s7;
               s9 \<leftarrow> unlock_entry s8 a;
               Some (STATUS_OK, WorkerPayload, s9)
             } else do {
               s7 \<leftarrow> unlock_entry s6 a;
               Some (STATUS_OK, NullPayload, s7)
             }
           }
         }
     }
   }"

section \<open>SET\<close>

text \<open>\<open>SET\<close> with \<open>SET_FLAG_ONLY_TTL\<close>: only the time of expiry changes.\<close>

definition set_only_ttl :: "state \<Rightarrow> u8 list \<Rightarrow> u32 \<Rightarrow> (StatusCode \<times> state) option" where
  "set_only_ttl s key ttl = do {
     (r, s1) \<leftarrow> map_get s key;
     case r of
       None \<Rightarrow> Some (STATUS_NOT_FOUND, s1)
     | Some a \<Rightarrow> do {
         let (t, s2) = (if ttl = -1 then (CACHE_EXPIRES_INIT, s1)
                        else let (now, s') = time_now s1 in (now + ucast ttl, s'));
         s3 \<leftarrow> unlock_entry (upd_entry a (expires_update (\<lambda>_. t)) s2) a;
         Some (STATUS_OK, s3)
       }
   }"

text \<open>Once the entry is filled: put it into its map, and update the tag index for the entry it replaces and
  for itself.\<close>

definition publish_entry :: "state \<Rightarrow> addr \<Rightarrow> (StatusCode \<times> state) option" where
  "publish_entry s a = do {
     e \<leftarrow> heap s a;
     (ok, old_entry, s1) \<leftarrow> map_set s a;
     if \<not> ok then do {
       s2 \<leftarrow> unlock_and_release s1 a;
       Some (STATUS_OUT_OF_MEMORY, s2)
     } else do {
       s2 \<leftarrow> (case old_entry of
                None \<Rightarrow> Some s1
              | Some b \<Rightarrow> do {
                  old \<leftarrow> heap s1 b;
                  s' \<leftarrow> remove_key_from_tags s1 (e_tags old) (e_key old);
                  unlock_and_release s' b
                });
       s3 \<leftarrow> add_key_to_tags s2 (e_tags e) (e_key e);
       s4 \<leftarrow> unlock_entry s3 a;
       Some (STATUS_OK, s4)
     }
   }"

text \<open>
  The sizes: \<open>tlen + key.nmemb + vlen\<close> is computed in 32 bits. What is copied into the block in front
  of the value (the tag array, the tags, the key) must fit into the bucket, and so must the value that is
  read.
\<close>

definition handle_set_request :: "state \<Rightarrow> nat \<Rightarrow> Request \<Rightarrow> (StatusCode \<times> state) option" where
  "handle_set_request s c request = do {
     w \<leftarrow> worker (clients s c);
     let klen = req_s_klen request;
     let vlen = ntohl (req_s_vlen request);
     let ntags = req_s_ntags request;
     let ttl = ntohl (req_s_ttl request);
     let flags = req_s_flags request;
     (status, key, s1) \<leftarrow> read_request_key s c klen;
     if status \<noteq> STATUS_OK then Some (status, s1)
     else do {
       s2 \<leftarrow> log_with (upd_counters c (c_set_update (\<lambda>n. n + 1)) s1) c (\<lambda>q who. log_request_set q who key);
       if flags AND SET_FLAG_ONLY_TTL \<noteq> 0 then set_only_ttl s2 key ttl
       else do {
         (status, refs, s3) \<leftarrow> read_tags_using_payload_buffer s2 c ntags;
         if status \<noteq> STATUS_OK then Some (status, s3)
         else do {
           let tags = tag_bytes (payload_data (payload_buffer (workers s3 w))) refs;
           let tlen = fold (\<lambda>(_, n) t. t + ucast n) refs (of_nat (sizeof_CacheTag * unat ntags) :: u32);
           let total_size = unat (tlen + ucast klen + vlen);
           (entry, s4) \<leftarrow> reserve_and_lock_entry s3 total_size;
           case entry of
             None \<Rightarrow> Some (STATUS_OUT_OF_MEMORY, s4)
           | Some a \<Rightarrow> do {
               let used = sizeof_CacheEntry + sizeof_CacheTag * length tags + sum_list (map length tags) + length key;
               if used > bucket_size (mem s4) a then None
               else do {
                 let s5 = upd_entry a (\<lambda>e. e\<lparr>e_tags := tags, e_key := key\<rparr>) s4;
                 (status, value, s6) \<leftarrow> client_read s5 c (bucket_size (mem s4) a - used) vlen;
                 if status \<noteq> STATUS_OK then do {
                   s7 \<leftarrow> unlock_and_release s6 a;
                   Some (status, s7)
                 } else do {
                   let (now, s7) = time_now s6;
                   let s8 = upd_entry a (\<lambda>e. e\<lparr>e_value := value, mtime := now,
                     expires := (if ttl \<noteq> -1 then now + ucast ttl else expires e)\<rparr>) s7;
                   publish_entry s8 a
                 }
               }
             }
         }
       }
     }
   }"

section \<open>DEL\<close>

text \<open>\<open>do \<dots> while (entry != NULL)\<close>: unlock and release what was found, look again.\<close>

partial_function (option) delete_copies :: "state \<Rightarrow> u8 list \<Rightarrow> addr \<Rightarrow> state option" where
  "delete_copies s key a = do {
     s1 \<leftarrow> unlock_and_release s a;
     (r, s2) \<leftarrow> map_unset s1 key;
     case r of None \<Rightarrow> Some s2 | Some b \<Rightarrow> delete_copies s2 key b
   }"

definition delete_entry_by_key :: "state \<Rightarrow> u8 list \<Rightarrow> (StatusCode \<times> state) option" where
  "delete_entry_by_key s key = do {
     c \<leftarrow> current_client s;
     s1 \<leftarrow> log_with s c (\<lambda>q who. log_request_del q who key);
     (r, s2) \<leftarrow> map_unset s1 key;
     case r of
       None \<Rightarrow> Some (STATUS_NOT_FOUND, s2)
     | Some a \<Rightarrow> do {
         e \<leftarrow> heap s2 a;
         s3 \<leftarrow> remove_key_from_tags s2 (e_tags e) (e_key e);
         s4 \<leftarrow> delete_copies s3 key a;
         Some (STATUS_OK, s4)
       }
   }"

definition handle_del_request :: "state \<Rightarrow> nat \<Rightarrow> Request \<Rightarrow> (StatusCode \<times> state) option" where
  "handle_del_request s c request = do {
     (status, key, s1) \<leftarrow> read_request_key s c (req_d_klen request);
     if status \<noteq> STATUS_OK then Some (status, s1)
     else delete_entry_by_key (upd_counters c (c_del_update (\<lambda>n. n + 1)) s1) key
   }"

section \<open>CLR\<close>

definition clear_all_callback :: "addr \<Rightarrow> state \<times> 'd \<Rightarrow> (bool \<times> state \<times> 'd) option" where
  "clear_all_callback a = (\<lambda>(s, d). do {
     e \<leftarrow> heap s a;
     c \<leftarrow> current_client s;
     s1 \<leftarrow> log_with s c (\<lambda>q who. log_request_del q who (e_key e));
     s2 \<leftarrow> remove_key_from_tags s1 (e_tags e) (e_key e);
     s3 \<leftarrow> unlock_and_release s2 a;
     Some (True, s3, d)
   })"

definition clear_old_callback :: "addr \<Rightarrow> state \<times> time_t \<Rightarrow> (bool \<times> state \<times> time_t) option" where
  "clear_old_callback a = (\<lambda>(s, now). do {
     e \<leftarrow> heap s a;
     if expires e = CACHE_EXPIRES_INIT \<or> sint (expires e) \<ge> sint now then Some (False, s, now)
     else clear_all_callback a (s, now)
   })"

definition tags_match :: "u8 list list \<Rightarrow> u8 list list \<Rightarrow> bool" where
  "tags_match wants haves = list_ex (\<lambda>want. list_ex (\<lambda>have.
     length want = length have \<and> memcmp want have (length have) = 0) haves) wants"

definition clear_non_matching_callback :: "addr \<Rightarrow> state \<times> u8 list list \<Rightarrow> (bool \<times> state \<times> u8 list list) option"
  where
  "clear_non_matching_callback a = (\<lambda>(s, tags). do {
     e \<leftarrow> heap s a;
     if tags_match tags (e_tags e) then Some (False, s, tags) else clear_all_callback a (s, tags)
   })"

fun delete_keys :: "state \<Rightarrow> key_elem list \<Rightarrow> state option" where
  "delete_keys s [] = Some s"
| "delete_keys s (elem # es) = do { (_, s1) \<leftarrow> delete_entry_by_key s (snd elem); delete_keys s1 es }"

definition free_key_list :: "state \<Rightarrow> key_elem list \<Rightarrow> state option" where
  "free_key_list s keys = do { m \<leftarrow> release_key_list (mem s) keys; Some (s\<lparr>mem := m\<rparr>) }"

definition keys_matching :: "bool \<Rightarrow> state \<Rightarrow> u8 list list \<Rightarrow> (key_elem list \<times> state) option" where
  "keys_matching all_tags s tags = do {
     (keys, t, m) \<leftarrow> (if all_tags then get_keys_matching_all_tags (mem s) (tag_tree s) tags
                       else get_keys_matching_any_tag (mem s) (tag_tree s) tags);
     Some (keys, s\<lparr>tag_tree := t, mem := m\<rparr>)
   }"

definition handle_clr_request :: "state \<Rightarrow> nat \<Rightarrow> Request \<Rightarrow> (StatusCode \<times> state) option" where
  "handle_clr_request s c request = do {
     w \<leftarrow> worker (clients s c);
     (status, refs, s1) \<leftarrow> read_tags_using_payload_buffer s c (req_c_ntags request);
     if status \<noteq> STATUS_OK then Some (status, s1)
     else do {
       let s2 = upd_counters c (c_clr_update (\<lambda>n. n + 1)) s1;
       let tags = tag_bytes (payload_data (payload_buffer (workers s2 w))) refs;
       case to_ClearMode (req_c_mode request) of
         None \<Rightarrow> Some (STATUS_PROTOCOL_ERROR, s2)
       | Some CLEAR_MODE_ALL \<Rightarrow> do {
           s3 \<leftarrow> log_with s2 c (\<lambda>q who. Some (log_request_clr_all q who));
           (s4, _) \<leftarrow> walk_all_entries clear_all_callback (s3, ());
           Some (STATUS_OK, s4)
         }
       | Some CLEAR_MODE_OLD \<Rightarrow> do {
           let (now, s3) = time_now s2;
           s4 \<leftarrow> log_with s3 c (\<lambda>q who. Some (log_request_clr_old q who));
           (s5, _) \<leftarrow> walk_all_entries clear_old_callback (s4, now);
           Some (STATUS_OK, s5)
         }
       | Some CLEAR_MODE_MATCH_NONE \<Rightarrow> do {
           s3 \<leftarrow> log_with s2 c (\<lambda>q who. Some (log_request_clr_match_none q who tags));
           (s4, _) \<leftarrow> walk_all_entries clear_non_matching_callback (s3, tags);
           Some (STATUS_OK, s4)
         }
       | Some CLEAR_MODE_MATCH_ALL \<Rightarrow> do {
           s3 \<leftarrow> log_with s2 c (\<lambda>q who. Some (log_request_clr_match_all q who tags));
           (keys, s4) \<leftarrow> keys_matching True s3 tags;
           s5 \<leftarrow> delete_keys s4 keys;
           s6 \<leftarrow> free_key_list s5 keys;
           Some (STATUS_OK, s6)
         }
       | Some CLEAR_MODE_MATCH_ANY \<Rightarrow> do {
           s3 \<leftarrow> log_with s2 c (\<lambda>q who. Some (log_request_clr_match_any q who tags));
           (keys, s4) \<leftarrow> keys_matching False s3 tags;
           s5 \<leftarrow> delete_keys s4 keys;
           s6 \<leftarrow> free_key_list s5 keys;
           Some (STATUS_OK, s6)
         }
     }
   }"

section \<open>LST\<close>

text \<open>The callbacks' data: the status and the payload that is filled, whose \<open>base\<close> is an offset in the
  worker's buffer.\<close>

record list_data =
  l_status :: StatusCode
  l_buf :: buffer
  l_base :: nat
  l_nmemb :: u32
  l_cap :: u32

text \<open>Appending a length byte and a name, reversed in place.\<close>

definition put_name :: "list_data \<Rightarrow> u8 list \<Rightarrow> list_data option" where
  "put_name d name =
     (if l_nmemb d + 1 + of_nat (length name) > l_cap d then Some (d\<lparr>l_status := STATUS_OUT_OF_MEMORY\<rparr>)
      else do {
        let b1 = (l_buf d)(l_base d + unat (l_nmemb d) := of_nat (length name));
        let n1 = l_nmemb d + 1;
        let b2 = store_bytes b1 (l_base d + unat n1) name;
        b3 \<leftarrow> reverse_bytes (l_base d + unat (l_cap d)) b2 (l_base d + unat n1) (of_nat (length name));
        Some (d\<lparr>l_buf := b3, l_nmemb := n1 + of_nat (length name)\<rparr>)
      })"

definition list_all_keys_callback :: "addr \<Rightarrow> state \<times> list_data \<Rightarrow> (bool \<times> state \<times> list_data) option" where
  "list_all_keys_callback a = (\<lambda>(s, d).
     if l_status d \<noteq> STATUS_OK then Some (False, s, d)
     else do { e \<leftarrow> heap s a; d' \<leftarrow> put_name d (e_key e); Some (False, s, d') })"

definition list_non_matching_callback ::
    "addr \<Rightarrow> state \<times> list_data \<times> tag_ref list \<Rightarrow> (bool \<times> state \<times> list_data \<times> tag_ref list) option" where
  "list_non_matching_callback a = (\<lambda>(s, d, refs).
     if l_status d \<noteq> STATUS_OK then Some (False, s, d, refs)
     else do {
       e \<leftarrow> heap s a;
       if tags_match (tag_bytes (l_buf d) refs) (e_tags e) then Some (False, s, d, refs)
       else do {
         (b, s', d') \<leftarrow> list_all_keys_callback a (s, d);
         Some (b, s', d', refs)
       }
     })"

definition list_all_tags_callback :: "u8 list \<Rightarrow> list_data \<Rightarrow> list_data option" where
  "list_all_tags_callback tag d = (if l_status d \<noteq> STATUS_OK then Some d else put_name d tag)"

fun list_keys_loop :: "key_elem list \<Rightarrow> list_data \<Rightarrow> list_data option" where
  "list_keys_loop [] d = Some d"
| "list_keys_loop (elem # es) d = do {
     d' \<leftarrow> put_name d (snd elem);
     if l_status d' \<noteq> STATUS_OK then Some d' else list_keys_loop es d'
   }"

text \<open>The worker's buffer, emptied, as the payload to fill; and what was filled put back. (A worker that got
  no buffer has capacity 0 and fills nothing.)\<close>

definition open_list :: "state \<Rightarrow> nat \<Rightarrow> list_data" where
  "open_list s w = (let pl = payload_buffer (workers s w) in
     \<lparr>l_status = STATUS_OK, l_buf = payload_data pl, l_base = 0, l_nmemb = 0, l_cap = payload_cap pl\<rparr>)"

definition close_list :: "state \<Rightarrow> nat \<Rightarrow> list_data \<Rightarrow> state" where
  "close_list s w d = set_payload_nmemb w (l_nmemb d) (set_payload_data w (l_buf d) s)"

definition handle_lst_request :: "state \<Rightarrow> nat \<Rightarrow> Request \<Rightarrow> (StatusCode \<times> payload_ptr \<times> state) option" where
  "handle_lst_request s c request = do {
     w \<leftarrow> worker (clients s c);
     (status, refs, s1) \<leftarrow> read_tags_using_payload_buffer s c (req_c_ntags request);
     if status \<noteq> STATUS_OK then Some (status, NullPayload, s1)
     else do {
       let s2 = upd_counters c (c_lst_update (\<lambda>n. n + 1)) s1;
       let pl = payload_buffer (workers s2 w);
       let tags = tag_bytes (payload_data pl) refs;
       case to_ListMode (req_c_mode request) of
         None \<Rightarrow> Some (STATUS_PROTOCOL_ERROR, NullPayload, s2)
       | Some LIST_MODE_ALL_KEYS \<Rightarrow> do {
           let d = open_list s2 w;
           s3 \<leftarrow> log_with s2 c (\<lambda>q who. Some (log_request_lst_all_keys q who));
           (s4, d') \<leftarrow> walk_all_entries list_all_keys_callback (s3, d);
           Some (l_status d', WorkerPayload, close_list s4 w d')
         }
       | Some LIST_MODE_ALL_TAGS \<Rightarrow> do {
           let d = open_list s2 w;
           s3 \<leftarrow> log_with s2 c (\<lambda>q who. Some (log_request_lst_all_tags q who));
           (m, d') \<leftarrow> walk_all_tags list_all_tags_callback (mem s3) (tag_tree s3) d;
           Some (l_status d', WorkerPayload, close_list (s3\<lparr>mem := m\<rparr>) w d')
         }
       | Some LIST_MODE_MATCH_NONE \<Rightarrow> do {
           let d = \<lparr>l_status = STATUS_OK, l_buf = payload_data pl, l_base = unat (payload_nmemb pl),
                    l_nmemb = 0, l_cap = payload_cap pl - payload_nmemb pl\<rparr>;
           s3 \<leftarrow> log_with s2 c (\<lambda>q who. Some (log_request_lst_match_none q who tags));
           (s4, d', _) \<leftarrow> walk_all_entries list_non_matching_callback (s3, d, refs);
           Some (l_status d', DeadPayload, set_payload_data w (l_buf d') s4)
         }
       | Some LIST_MODE_MATCH_ALL \<Rightarrow> do {
           s3 \<leftarrow> log_with s2 c (\<lambda>q who. Some (log_request_lst_match_all q who tags));
           (keys, s4) \<leftarrow> keys_matching True s3 tags;
           let d = open_list s4 w;
           d' \<leftarrow> list_keys_loop keys d;
           s5 \<leftarrow> free_key_list (close_list s4 w d') keys;
           Some (l_status d', WorkerPayload, s5)
         }
       | Some LIST_MODE_MATCH_ANY \<Rightarrow> do {
           s3 \<leftarrow> log_with s2 c (\<lambda>q who. Some (log_request_lst_match_any q who tags));
           (keys, s4) \<leftarrow> keys_matching False s3 tags;
           let d = open_list s4 w;
           d' \<leftarrow> list_keys_loop keys d;
           s5 \<leftarrow> free_key_list (close_list s4 w d') keys;
           Some (l_status d', WorkerPayload, s5)
         }
     }
   }"

section \<open>NFO\<close>

definition htonll :: "u64 \<Rightarrow> u64" where
  "htonll x = push_bit 32 (ucast (htonl (ucast x))) OR ucast (htonl (ucast (drop_bit 32 x)))"

text \<open>The tag stream of an entry, written behind the two times. Second result: whether all fit.\<close>

fun put_tags :: "buffer \<Rightarrow> u32 \<Rightarrow> u32 \<Rightarrow> u8 list list \<Rightarrow> (bool \<times> buffer \<times> u32) option" where
  "put_tags b nmemb cap [] = Some (True, b, nmemb)"
| "put_tags b nmemb cap (tag # tags) =
     (if nmemb + 1 + of_nat (length tag) > cap then Some (False, b, nmemb)
      else do {
        let b1 = b(unat nmemb := of_nat (length tag));
        let b2 = store_bytes b1 (unat nmemb + 1) tag;
        b3 \<leftarrow> reverse_bytes (unat cap) b2 (unat nmemb + 1) (of_nat (length tag));
        put_tags b3 (nmemb + 1 + of_nat (length tag)) cap tags
      })"

definition nfo_server_bytes :: "NFOServer \<Rightarrow> u8 list" where
  "nfo_server_bytes nfo = u32_bytes (htonl (bytes_reserved nfo)) @ u32_bytes (htonl (bytes_used nfo))
     @ u32_bytes (htonl (bytes_free nfo)) @ u32_bytes (htonl (bytes_reused nfo))"

definition handle_nfo_request :: "state \<Rightarrow> nat \<Rightarrow> Request \<Rightarrow> (StatusCode \<times> payload_ptr \<times> state) option" where
  "handle_nfo_request s c request = do {
     w \<leftarrow> worker (clients s c);
     let klen = req_n_klen request;
     let s1 = upd_counters c (c_nfo_update (\<lambda>n. n + 1))
                (set_payload_nmemb w (of_nat sizeof_NFOResponsePayload) s);
     if klen > 0 then do {
       (status, key, s2) \<leftarrow> read_request_key s1 c klen;
       if status \<noteq> STATUS_OK then Some (status, WorkerPayload, s2)
       else do {
         s3 \<leftarrow> log_with s2 c (\<lambda>q who. log_request_nfo_key q who key);
         (r, s4) \<leftarrow> map_get s3 key;
         case r of
           None \<Rightarrow> Some (STATUS_NOT_FOUND, WorkerPayload, s4)
         | Some a \<Rightarrow> do {
             e \<leftarrow> heap s4 a;
             let pl = payload_buffer (workers s4 w);
             _ \<leftarrow> payload_base pl;
             let b = store_bytes (payload_data pl) 0 (u64_bytes (htonll (expires e)) @ u64_bytes (htonll (mtime e)));
             (fits, b', n) \<leftarrow> put_tags b (payload_nmemb pl) (payload_cap pl) (e_tags e);
             s5 \<leftarrow> unlock_entry (set_payload_nmemb w n (set_payload_data w b' s4)) a;
             Some (if fits then STATUS_OK else STATUS_BUG, WorkerPayload, s5)
           }
       }
     } else do {
       s2 \<leftarrow> log_with s1 c (\<lambda>q who. Some (log_request_nfo q who));
       let pl = payload_buffer (workers s2 w);
       _ \<leftarrow> payload_base pl;
       let b = store_bytes (payload_data pl) 0 (nfo_server_bytes (populate_nfo_response (mem s2)));
       Some (STATUS_OK, WorkerPayload, set_payload_data w b s2)
     }
   }"

section \<open>Dispatch\<close>

text \<open>After a handler: the worker's timer of the operation, then its counter.\<close>

definition account :: "nat \<Rightarrow> u64 \<Rightarrow> ((u64 \<Rightarrow> u64) \<Rightarrow> op_timers \<Rightarrow> op_timers) \<Rightarrow>
    ((u32 \<Rightarrow> u32) \<Rightarrow> op_counters \<Rightarrow> op_counters) \<Rightarrow> state \<Rightarrow> state" where
  "account w start_tick timer counter s =
     (let (now, s1) = get_performance_counter s
      in upd_worker w (\<lambda>wk. wk\<lparr>w_timers := timer (\<lambda>t. t + (now - start_tick)) (w_timers wk),
                              w_counters := counter (\<lambda>n. n + 1) (w_counters wk)\<rparr>) s1)"

definition handle_request :: "state \<Rightarrow> nat \<Rightarrow> Request \<Rightarrow> (StatusCode \<times> payload_ptr \<times> state) option" where
  "handle_request s c request =
     (case worker (clients s c) of
        None \<Rightarrow> Some (STATUS_BUG, NullPayload, s)
      | Some w \<Rightarrow>
          if req_cik request \<noteq> [CONTROL_BYTE_1, CONTROL_BYTE_2, CONTROL_BYTE_3] then
            Some (STATUS_PROTOCOL_ERROR, NullPayload, s)
          else
            (let (start_tick, s1) =
               get_performance_counter (s\<lparr>current_client := Some c, current_log_queue := Some w\<rparr>)
             in if req_op request = CMD_BYTE_GET then do {
                  (status, p, s2) \<leftarrow> handle_get_request s1 c request;
                  Some (status, p, account w start_tick t_get_update n_get_update s2)
                } else if req_op request = CMD_BYTE_SET then do {
                  (status, s2) \<leftarrow> handle_set_request s1 c request;
                  Some (status, NullPayload, account w start_tick t_set_update n_set_update s2)
                } else if req_op request = CMD_BYTE_DEL then do {
                  (status, s2) \<leftarrow> handle_del_request s1 c request;
                  Some (status, NullPayload, account w start_tick t_del_update n_del_update s2)
                } else if req_op request = CMD_BYTE_CLR then do {
                  (status, s2) \<leftarrow> handle_clr_request s1 c request;
                  Some (status, NullPayload, account w start_tick t_clr_update n_clr_update s2)
                } else if req_op request = CMD_BYTE_LST then do {
                  (status, p, s2) \<leftarrow> handle_lst_request s1 c request;
                  Some (status, p, account w start_tick t_lst_update n_lst_update s2)
                } else if req_op request = CMD_BYTE_NFO then do {
                  (status, p, s2) \<leftarrow> handle_nfo_request s1 c request;
                  Some (status, p, account w start_tick t_nfo_update n_nfo_update s2)
                } else Some (STATUS_PROTOCOL_ERROR, NullPayload, s1)))"

end
