(* ===== verification/Cik_Thread.thy ===== *)
theory Cik_Thread
  imports Cik_Memory
begin

text \<open>
  \<open>src/src/thrd-compat.h\<close>: the C11 thread functions on top of the pthread library. What a pthread
  function returns is an argument. A thread is started with a block of the region that carries its function,
  the argument and, once it has ended, its result; whoever joins the thread releases the block.
\<close>

section \<open>Results\<close>

definition thrd_success :: int where "thrd_success = 0"
definition thrd_error :: int where "thrd_error = 2"
definition thrd_nomem :: int where "thrd_nomem = 3"

definition ENOMEM :: int where "ENOMEM = 12"
definition EINTR :: int where "EINTR = 4"

section \<open>Thread-specific variables\<close>

text \<open>\<open>pthread_key_create\<close> gives an error number, and \<open>pthread_setspecific\<close> too.\<close>

definition tss_create :: "int \<Rightarrow> int" where
  "tss_create err = (if err = 0 then thrd_success else thrd_error)"

definition tss_set :: "int \<Rightarrow> 'a \<Rightarrow> 'a \<Rightarrow> int \<times> 'a" where
  "tss_set err val old = (if err = 0 then (thrd_success, val) else (thrd_error, old))"

section \<open>Threads\<close>

text \<open>The functions the server runs as threads, with the worker that is the argument; each is started at most
  once, so they name the threads as well.\<close>

datatype thread = run_worker_thread nat | run_accept_thread_thread | run_logging_thread_thread

record start_routine_arg =
  wrapper :: addr
  res :: int

text \<open>Two pointers and an \<open>int\<close>, padded.\<close>

definition sizeof_start_routine_arg :: u32 where "sizeof_start_routine_arg = 24"

text \<open>The block of every thread that was created and not joined; \<open>pthread_join\<close> on another handle is
  undefined.\<close>

type_synonym thread_table = "thread \<rightharpoonup> start_routine_arg"

text \<open>\<open>err\<close> is the result of \<open>pthread_create\<close>. The assertion is a real one. The block of a
  thread that could not be created is not given back.\<close>

definition thrd_create :: "int \<Rightarrow> thread \<Rightarrow> thread_table \<times> memory \<Rightarrow> (int \<times> thread_table \<times> memory) option" where
  "thrd_create err thr = (\<lambda>(ts, m). case reserve_memory m sizeof_start_routine_arg of
     (None, _) \<Rightarrow> None
   | (Some a, m1) \<Rightarrow> Some
       (if err = ENOMEM then (thrd_nomem, ts, m1)
        else if err = 0 then (thrd_success, ts(thr \<mapsto> \<lparr>wrapper = a, res = thrd_success\<rparr>), m1)
        else (thrd_error, ts, m1)))"

text \<open>The thread's own last step: the value of its function.\<close>

definition thrd_start_routine :: "thread \<Rightarrow> int \<Rightarrow> thread_table \<Rightarrow> thread_table" where
  "thrd_start_routine thr r ts = ts(thr := map_option (res_update (\<lambda>_. r)) (ts thr))"

text \<open>\<open>err\<close> is the result of \<open>pthread_join\<close>. Second result: what \<open>*res\<close> would be set to.\<close>

definition thrd_join :: "int \<Rightarrow> thread \<Rightarrow> thread_table \<times> memory \<Rightarrow> (int \<times> int option \<times> thread_table \<times> memory) option" where
  "thrd_join err thr = (\<lambda>(ts, m). do {
     arg \<leftarrow> ts thr;
     if err \<noteq> 0 then Some (thrd_error, None, ts, m)
     else do {
       m1 \<leftarrow> release_memory m (wrapper arg);
       Some (thrd_success, Some (res arg), ts(thr := None), m1)
     }
   })"

text \<open>\<open>err\<close> is the result of \<open>nanosleep\<close>.\<close>

definition thrd_sleep :: "int \<Rightarrow> int \<Rightarrow> int" where
  "thrd_sleep err errno = (if err = 0 then 0 else if errno = EINTR then -1 else - errno)"

end
