(* ===== verification/Cik_Server.thy ===== *)
theory Cik_Server
  imports Complex_Main Cik_Controller Cik_Thread
begin

text \<open>
  \<open>src/src/server.c\<close>: starting and stopping, accepting connections, and the workers' event loop
  that reads a request, has it handled, and answers. The kernel's descriptors and the clients that an
  epoll instance watches are part of the record; what a system call returns is an argument.
\<close>

section \<open>The process\<close>

record server =
  st :: state
  sv_fd :: int
  sv_epfd :: int
  is_running :: bool
  threads :: thread_table
  sv_addr :: u32
  sv_port :: u16
  next_worker :: u32   \<comment> \<open>the static \<open>worker_id\<close> of \<open>wait_for_new_connection\<close>\<close>
  w_epfd :: "nat \<Rightarrow> int"
  open_fds :: "int list"
  watched :: "(nat \<times> nat) list"   \<comment> \<open>worker and client\<close>

definition close_fd :: "int \<Rightarrow> server \<Rightarrow> server" where
  "close_fd n sv = sv\<lparr>open_fds := removeAll n (open_fds sv)\<rparr>"

definition upd_st :: "(state \<Rightarrow> state) \<Rightarrow> server \<Rightarrow> server" where
  "upd_st f sv = sv\<lparr>st := f (st sv)\<rparr>"

text \<open>The kernel drops the registration of a descriptor that is closed.\<close>

definition close_client :: "nat \<Rightarrow> server \<Rightarrow> server" where
  "close_client c sv =
     (if fd (clients (st sv) c) < 0 then sv
      else upd_st (upd_client c (\<lambda>cl. cl\<lparr>fd := -1, worker := None\<rparr>))
             (close_fd (fd (clients (st sv) c)) (sv\<lparr>watched := filter (\<lambda>(w, d). d \<noteq> c) (watched sv)\<rparr>)))"

section \<open>Starting\<close>

record boot_calls =
  socket_result :: int
  bind_result :: int
  listen_result :: int
  epoll_create_result :: int
  epoll_ctl_result :: int
  boot_errno :: int
  create_result :: "thread \<Rightarrow> int"   \<comment> \<open>of \<open>pthread_create\<close>\<close>

definition zero_log_entry :: LogEntry where
  "zero_log_entry = \<lparr>log_type = LOG_TYPE_REQUEST_GET_HIT, worker_id = 0, client_ip = 0, client_port = 0,
     log_data = (\<lambda>_. 0)\<rparr>"

text \<open>Only the first 256 clients are objects; the loop sets their descriptors.\<close>

definition init_clients :: "state \<Rightarrow> state" where
  "init_clients s = fold (\<lambda>i. upd_client i (fd_update (\<lambda>_. -1))) [0..<MAX_NUM_CLIENTS] s"

definition start_worker :: "nat \<Rightarrow> state \<Rightarrow> state" where
  "start_worker i s =
     (let (_, pl, m) = reserve_biggest_possible_payload (mem s) (payload_buffer (workers s i))
      in upd_worker i (\<lambda>w. w\<lparr>w_id := of_nat i, payload_buffer := pl, log_queue := LOG_QUEUE_INIT (\<lambda>_. zero_log_entry)\<rparr>)
           (s\<lparr>mem := m\<rparr>))"

definition start_thread :: "boot_calls \<Rightarrow> thread \<Rightarrow> server \<Rightarrow> server option" where
  "start_thread k thr sv = do {
     (_, ts, m) \<leftarrow> thrd_create (create_result k thr) thr (threads sv, mem (st sv));
     Some (upd_st (mem_update (\<lambda>_. m)) (sv\<lparr>threads := ts\<rparr>))
   }"

text \<open>That a thread could not be created is only printed.\<close>

definition start_workers :: "boot_calls \<Rightarrow> nat \<Rightarrow> server \<Rightarrow> server option" where
  "start_workers k n sv = fold_opt (\<lambda>i sv. start_thread k (run_worker_thread i) (upd_st (start_worker i) sv)) [0..<n] sv"

definition start_server :: "u32 \<Rightarrow> u16 \<Rightarrow> boot_calls \<Rightarrow> server \<Rightarrow> (int \<times> server) option" where
  "start_server listen_address listen_port k sv =
     (let sv1 = (upd_st init_clients sv)\<lparr>sv_fd := socket_result k\<rparr>
      in if socket_result k < 0 then Some (boot_errno k, sv1)
      else let sv2 = sv1\<lparr>open_fds := socket_result k # open_fds sv1, sv_addr := listen_address, sv_port := listen_port\<rparr>
      in if bind_result k < 0 then Some (boot_errno k, close_fd (sv_fd sv2) sv2)
      else if listen_result k < 0 then Some (boot_errno k, close_fd (sv_fd sv2) sv2)
      else let sv3 = sv2\<lparr>sv_epfd := epoll_create_result k\<rparr>
      in if epoll_create_result k < 0 then Some (boot_errno k, close_fd (sv_fd sv3) sv3)
      else let sv4 = sv3\<lparr>open_fds := epoll_create_result k # open_fds sv3\<rparr>
      in if epoll_ctl_result k < 0 then Some (boot_errno k, close_fd (sv_fd sv4) (close_fd (sv_epfd sv4) sv4))
      else do {
        sv5 \<leftarrow> start_workers k NUM_WORKERS (sv4\<lparr>is_running := True\<rparr>);
        sv6 \<leftarrow> start_thread k run_accept_thread_thread sv5;
        Some (0, sv6)
      })"

section \<open>Accepting\<close>

definition EPOLLIN :: u32 where "EPOLLIN = 0x001"
definition EPOLLERR :: u32 where "EPOLLERR = 0x008"
definition EPOLLHUP :: u32 where "EPOLLHUP = 0x010"
definition EAGAIN :: int where "EAGAIN = 11"

datatype poll_result = PollFails int | PollTimeout | PollEvent u32

text \<open>What \<open>accept\<close> and \<open>epoll_ctl\<close> will return, and the value of \<open>errno\<close> after them.\<close>

record accept_calls =
  accept_result :: int
  peer_addr :: u32
  peer_port :: u16
  peer :: socket
  ctl_result :: int
  accept_errno :: int

definition find_free_client :: "state \<Rightarrow> nat option" where
  "find_free_client s = find (\<lambda>i. fd (clients s i) = -1) [0..<MAX_NUM_CLIENTS]"

definition no_counters :: client_counters where
  "no_counters = \<lparr>get_hit = 0, get_miss = 0, c_set = 0, c_del = 0, c_clr = 0, c_lst = 0, c_nfo = 0\<rparr>"

definition wait_for_new_connection :: "poll_result \<Rightarrow> accept_calls \<Rightarrow> server \<Rightarrow> int \<times> server" where
  "wait_for_new_connection poll k sv = (case poll of
     PollFails nevents \<Rightarrow> (- nevents, sv)
   | PollTimeout \<Rightarrow> (0, sv)
   | PollEvent events \<Rightarrow>
       if NOT events AND EPOLLIN \<noteq> 0 then (0, sv)
       else (case find_free_client (st sv) of
         None \<Rightarrow> (EAGAIN, sv)
       | Some c \<Rightarrow>
           let sv1 = upd_st (upd_client c (fd_update (\<lambda>_. accept_result k))) sv
           in if accept_result k < 0 then (accept_errno k, sv1)
           else let sv2 = upd_st (upd_client c (\<lambda>cl. cl\<lparr>sin_addr := peer_addr k, sin_port := peer_port k, sock := peer k,
                    c_counters := no_counters, worker := Some (unat (next_worker sv1))\<rparr>))
                  (sv1\<lparr>open_fds := accept_result k # open_fds sv1\<rparr>)
           in if ctl_result k < 0 then (accept_errno k, close_client c sv2)
           else (0, sv2\<lparr>watched := (unat (next_worker sv2), c) # watched sv2,
                        next_worker := (next_worker sv2 + 1) mod of_nat NUM_WORKERS\<rparr>)))"

text \<open>One result per round, while the server runs; the value counts the pauses after a round that failed.\<close>

fun run_accept_thread :: "(poll_result \<times> accept_calls) list \<Rightarrow> server \<Rightarrow> nat \<times> server" where
  "run_accept_thread [] sv = (0, sv)"
| "run_accept_thread ((poll, k) # rounds) sv =
     (if \<not> is_running sv then (0, sv)
      else let (r, sv1) = wait_for_new_connection poll k sv;
               (naps, sv2) = run_accept_thread rounds sv1
           in (if r \<noteq> 0 then naps + 1 else naps, sv2))"

section \<open>Serving a request\<close>

definition client_write :: "state \<Rightarrow> nat \<Rightarrow> u8 list \<Rightarrow> (StatusCode \<times> state) option" where
  "client_write s c bs = do {
     (status, sk) \<leftarrow> write_response_payload (sock (clients s c)) bs;
     Some (status, upd_client c (sock_update (\<lambda>_. sk)) s)
   }"

text \<open>\<open>payload\<close> as the handler left it, dereferenced: its \<open>nmemb\<close> and its bytes. A pointer to a
  variable that is gone must not be.\<close>

definition payload_of :: "state \<Rightarrow> nat \<Rightarrow> payload_ptr \<Rightarrow> Payload option option" where
  "payload_of s c p = (case p of
     NullPayload \<Rightarrow> Some None
   | WorkerPayload \<Rightarrow> do { w \<leftarrow> worker (clients s c); Some (Some (payload_buffer (workers s w))) }
   | DeadPayload \<Rightarrow> None)"

definition make_response :: "state \<Rightarrow> nat \<Rightarrow> StatusCode \<Rightarrow> payload_ptr \<Rightarrow> Response option" where
  "make_response s c status p =
     (if sends_failure status then Some (MAKE_FAILURE_RESPONSE status)
      else do {
        pl \<leftarrow> payload_of s c p;
        Some (MAKE_SUCCESS_RESPONSE (case pl of None \<Rightarrow> 0 | Some b \<Rightarrow> payload_nmemb b))
      })"

text \<open>Whatever the response says, a payload that is there is sent behind it.\<close>

definition write_payload :: "state \<Rightarrow> nat \<Rightarrow> payload_ptr \<Rightarrow> (StatusCode \<times> state) option" where
  "write_payload s c p = do {
     pl \<leftarrow> payload_of s c p;
     case pl of
       None \<Rightarrow> Some (STATUS_OK, s)
     | Some b \<Rightarrow>
         if payload_nmemb b = 0 then Some (STATUS_OK, s)
         else do {
           _ \<leftarrow> payload_base b;
           client_write s c (load_bytes (payload_data b) 0 (unat (payload_nmemb b)))
         }
   }"

definition answer :: "nat \<Rightarrow> StatusCode \<Rightarrow> payload_ptr \<Rightarrow> server \<Rightarrow> server option" where
  "answer c status p sv = do {
     response \<leftarrow> make_response (st sv) c status p;
     (status1, s1) \<leftarrow> client_write (st sv) c response;
     if closes_connection status1 then Some (close_client c (sv\<lparr>st := s1\<rparr>))
     else do {
       (status2, s2) \<leftarrow> write_payload s1 c p;
       if closes_connection status2 then Some (close_client c (sv\<lparr>st := s2\<rparr>))
       else let (now, s3) = get_performance_counter s2
            in Some (sv\<lparr>st := upd_client c (last_request_end_tick_update (\<lambda>_. now)) s3\<rparr>)
     }
   }"

definition process_request :: "nat \<Rightarrow> server \<Rightarrow> server option" where
  "process_request c sv = do {
     let (start, s0) = get_performance_counter (st sv);
     let s1 = upd_client c (last_request_start_tick_update (\<lambda>_. start)) s0;
     (status, request, sk) \<leftarrow> read_request (sock (clients s1 c));
     let s2 = upd_client c (sock_update (\<lambda>_. sk)) s1;
     if closes_connection status then Some (close_client c (sv\<lparr>st := s2\<rparr>))
     else do {
       (status, p, s3) \<leftarrow> handle_request s2 c request;
       if closes_connection status then Some (close_client c (sv\<lparr>st := s3\<rparr>))
       else answer c status p (sv\<lparr>st := s3\<rparr>)
     }
   }"

definition process_event :: "nat \<times> u32 \<Rightarrow> server \<Rightarrow> server option" where
  "process_event = (\<lambda>(c, events) sv.
     if events AND (EPOLLERR OR EPOLLHUP) \<noteq> 0 then Some (close_client c sv)
     else if events AND EPOLLIN \<noteq> 0 then process_request c sv
     else Some sv)"

text \<open>The result of \<open>epoll_wait\<close>: it failed, or the events; and the value the function returns.\<close>

definition process_worker_events :: "(int + (nat \<times> u32) list) \<Rightarrow> server \<Rightarrow> (int \<times> server) option" where
  "process_worker_events poll sv = (case poll of
     Inl nevents \<Rightarrow> Some (nevents, sv)
   | Inr events \<Rightarrow> do { sv' \<leftarrow> fold_opt process_event events sv; Some (int (length events), sv') })"

fun worker_loop :: "(int + (nat \<times> u32) list) list \<Rightarrow> server \<Rightarrow> server option" where
  "worker_loop [] sv = Some sv"
| "worker_loop (poll # polls) sv =
     (if \<not> is_running sv then Some sv
      else do { (_, sv1) \<leftarrow> process_worker_events poll sv; worker_loop polls sv1 })"

definition no_payload :: Payload where
  "no_payload = \<lparr>payload_base = None, payload_data = (\<lambda>_. 0), payload_nmemb = 0, payload_cap = 0\<rparr>"

text \<open>Second result: whether the thread ended well.\<close>

definition run_worker :: "nat \<Rightarrow> int \<Rightarrow> (int + (nat \<times> u32) list) list \<Rightarrow> server \<Rightarrow> (server \<times> bool) option" where
  "run_worker w epfd polls sv =
     (let sv1 = sv\<lparr>w_epfd := (w_epfd sv)(w := epfd)\<rparr>
      in if epfd < 0 then Some (sv1, False)
      else do {
        sv2 \<leftarrow> worker_loop polls (sv1\<lparr>open_fds := epfd # open_fds sv1\<rparr>);
        let sv3 = close_fd (w_epfd sv2 w) sv2;
        a \<leftarrow> payload_base (payload_buffer (workers (st sv3) w));
        m \<leftarrow> release_memory (mem (st sv3)) a;
        Some (upd_st (\<lambda>s. upd_worker w (payload_buffer_update (\<lambda>_. no_payload)) (s\<lparr>mem := m\<rparr>)) sv3, True)
      })"

text \<open>The thread around it.\<close>

definition worker_thread :: "nat \<Rightarrow> int \<Rightarrow> (int + (nat \<times> u32) list) list \<Rightarrow> server \<Rightarrow> server option" where
  "worker_thread w epfd polls sv = do {
     (sv', ok) \<leftarrow> run_worker w epfd polls sv;
     Some (sv'\<lparr>threads := thrd_start_routine (run_worker_thread w) (if ok then thrd_success else thrd_error) (threads sv')\<rparr>)
   }"

section \<open>Stopping\<close>

text \<open>\<open>join\<close> gives the results of \<open>pthread_join\<close>. The error of \<open>thrd_join\<close> is positive,
  and compared with \<open>0 >\<close>.\<close>

definition join_thread :: "(thread \<Rightarrow> int) \<Rightarrow> thread \<Rightarrow> server \<Rightarrow> server option" where
  "join_thread join thr sv = do {
     (_, _, ts, m) \<leftarrow> thrd_join (join thr) thr (threads sv, mem (st sv));
     Some (upd_st (mem_update (\<lambda>_. m)) (sv\<lparr>threads := ts\<rparr>))
   }"

definition stop_server :: "(thread \<Rightarrow> int) \<Rightarrow> server \<Rightarrow> server option" where
  "stop_server join sv = do {
     sv1 \<leftarrow> join_thread join run_accept_thread_thread (sv\<lparr>is_running := False\<rparr>);
     sv2 \<leftarrow> fold_opt (\<lambda>w. join_thread join (run_worker_thread w)) [0..<NUM_WORKERS] sv1;
     let sv3 = fold close_client [0..<MAX_NUM_CLIENTS] sv2;
     Some (close_fd (sv_fd sv3) (close_fd (sv_epfd sv3) sv3))
   }"

section \<open>The log\<close>

text \<open>The loop over one queue; that it ends is a property of the queue.\<close>

partial_function (option) flush_queue ::
    "LogQueue \<Rightarrow> ((string option \<times> printed_arg) list \<times> LogQueue) option" where
  "flush_queue q = (case dequeue_log_entry q of
     (None, q1) \<Rightarrow> Some ([], q1)
   | (Some e, q1) \<Rightarrow> do {
       line \<leftarrow> print_log_entry e;
       (lines, q2) \<leftarrow> flush_queue q1;
       Some (line # lines, q2)
     })"

definition flush_worker_logs :: "state \<Rightarrow> ((string option \<times> printed_arg) list \<times> state) option" where
  "flush_worker_logs s = fold_opt (\<lambda>w (lines, s). do {
       (new, q) \<leftarrow> flush_queue (log_queue (workers s w));
       Some (lines @ new, upd_worker w (log_queue_update (\<lambda>_. q)) s)
     }) [0..<NUM_WORKERS] ([], s)"

section \<open>Loading the persisted requests\<close>

text \<open>
  \<open>load_request_log\<close>: its local client and worker are the objects behind the arrays. The loop ends
  when \<open>read\<close> returns 0; a short read leaves the rest of the request as it was, and so does a read that
  fails.
\<close>

definition log_client :: nat where "log_client = MAX_NUM_CLIENTS"
definition log_worker :: nat where "log_worker = NUM_WORKERS"

definition overwrite :: "u8 list \<Rightarrow> u8 list \<Rightarrow> u8 list" where
  "overwrite new old = new @ drop (length new) old"

partial_function (option) load_loop :: "Request \<Rightarrow> state \<Rightarrow> state option" where
  "load_loop request s = do {
     (r, ds) \<leftarrow> sys_read (incoming (sock (clients s log_client))) (at_eof (sock (clients s log_client))) sizeof_Request;
     let s1 = upd_client log_client (sock_update (incoming_update (\<lambda>_. ds))) s;
     case r of
       Eof \<Rightarrow> Some s1
     | IoError \<Rightarrow> do { (_, _, s2) \<leftarrow> handle_request s1 log_client request; load_loop request s2 }
     | Got bs \<Rightarrow> do {
         (_, _, s2) \<leftarrow> handle_request s1 log_client (overwrite bs request);
         load_loop (overwrite bs request) s2
       }
   }"

definition file_socket :: "u8 list \<Rightarrow> socket" where
  "file_socket bs = \<lparr>incoming = [Data bs], at_eof = True, accepting = [], sent = []\<rparr>"

definition open_log :: "u8 list \<Rightarrow> int \<Rightarrow> state \<Rightarrow> state" where
  "open_log content n s =
     (let (_, pl, m) = reserve_biggest_possible_payload (mem s) (payload_buffer (workers s log_worker))
      in upd_client log_client (\<lambda>cl. cl\<lparr>fd := n, worker := Some log_worker, sock := file_socket content\<rparr>)
           (upd_worker log_worker (\<lambda>w. w\<lparr>w_id := -1, payload_buffer := pl,
              log_queue := LOG_QUEUE_INIT (\<lambda>_. zero_log_entry)\<rparr>) (s\<lparr>mem := m\<rparr>)))"

definition load_request_log :: "u8 list \<Rightarrow> int \<Rightarrow> Request \<Rightarrow> state \<Rightarrow> state option" where
  "load_request_log content n uninitialised s = do {
     s1 \<leftarrow> load_loop uninitialised (open_log content n s);
     a \<leftarrow> payload_base (payload_buffer (workers s1 log_worker));
     m \<leftarrow> release_memory (mem s1) a;
     Some (s1\<lparr>mem := m\<rparr>)
   }"

section \<open>Statistics\<close>

text \<open>The numbers of a printed line; times in ticks, to be divided by the frequency.\<close>

datatype busy = Idle u64 | Working u64 | Unknown

type_synonym client_line = "u32 list \<times> busy \<times> int \<times> u32 list \<times> u16"

definition client_busy :: "state \<Rightarrow> nat \<Rightarrow> busy \<times> state" where
  "client_busy s c =
     (let first = last_request_start_tick (clients s c); final = last_request_end_tick (clients s c)
      in if first < final then (let (now, s1) = get_performance_counter s in (Idle (now - final), s1))
      else if final < first then (let (now, s1) = get_performance_counter s in (Working (now - first), s1))
      else (Unknown, s))"

definition write_client_stats_line :: "state \<Rightarrow> nat \<Rightarrow> client_line \<times> state" where
  "write_client_stats_line s c =
     (let k = c_counters (clients s c); a = sin_addr (clients s c); (b, s1) = client_busy s c
      in (([get_hit k, get_miss k, c_set k, c_del k, c_clr k, c_lst k, c_nfo k], b, fd (clients s c),
           [a AND 0x000000FF, drop_bit 8 (a AND 0x0000FF00), drop_bit 16 (a AND 0x00FF0000), drop_bit 24 (a AND 0xFF000000)],
           sin_port (clients s c)), s1))"

definition write_client_stats :: "state \<Rightarrow> client_line list \<times> state" where
  "write_client_stats s = fold (\<lambda>c (lines, s).
       if fd (clients s c) \<noteq> -1 then (let (line, s1) = write_client_stats_line s c in (lines @ [line], s1))
       else (lines, s)) [0..<MAX_NUM_CLIENTS] ([], s)"

text \<open>How often, and the milliseconds per request: a quotient of floating-point numbers in the code, the
  exact quotient here.\<close>

definition average_ms :: "u64 \<Rightarrow> u32 \<Rightarrow> rat" where
  "average_ms t n = (let ms = (1000 / 1000000000) * of_nat (unat t) in if n \<noteq> 0 then ms / of_nat (unat n) else 0)"

definition write_workers_stats :: "state \<Rightarrow> (u32 \<times> rat) list list" where
  "write_workers_stats s = map (\<lambda>w.
     let k = w_counters (workers s w); t = w_timers (workers s w)
     in [(n_get k, average_ms (t_get t) (n_get k)), (n_set k, average_ms (t_set t) (n_set k)),
         (n_del k, average_ms (t_del t) (n_del k)), (n_clr k, average_ms (t_clr t) (n_clr k)),
         (n_lst k, average_ms (t_lst t) (n_lst k)), (n_nfo k, average_ms (t_nfo t) (n_nfo k))]) [0..<NUM_WORKERS]"

end
