(* ===== verification/Cik_Main.thy ===== *)
theory Cik_Main
  imports Cik_Server Cik_Config
begin

text \<open>
  \<open>src/src/main.c\<close>: bringing the server up step by step, the main thread's loop with the signals that
  steer it, the reports it writes, and the persisting of the cache at the end as a sequence of \<open>SET\<close>
  requests.
\<close>

section \<open>Signals\<close>

datatype signal = SIGINT | SIGTERM | SIGPIPE | SIGUSR1 | SIGUSR2

datatype disposition = SIG_DFL | SIG_IGN | sigint_handler | sigterm_handler | sigusr1_handler

record signals =
  disposition_of :: "signal \<Rightarrow> disposition"
  quit :: bool
  do_write_stats :: bool
  killed :: bool   \<comment> \<open>by a signal nobody handles\<close>

definition install_handlers :: "signals \<Rightarrow> signals" where
  "install_handlers s = s\<lparr>disposition_of := (disposition_of s)(SIGINT := sigint_handler, SIGTERM := sigterm_handler,
     SIGPIPE := SIG_IGN, SIGUSR1 := sigusr1_handler, SIGUSR2 := SIG_IGN)\<rparr>"

definition run_sigint_handler :: "signal \<Rightarrow> signals \<Rightarrow> signals" where
  "run_sigint_handler sig s = s\<lparr>disposition_of := (disposition_of s)(sig := SIG_DFL), quit := True\<rparr>"

definition run_sigterm_handler :: "signal \<Rightarrow> signals \<Rightarrow> signals" where
  "run_sigterm_handler sig s = s\<lparr>disposition_of := (disposition_of s)(sig := SIG_DFL), quit := True\<rparr>"

definition run_sigusr1_handler :: "signal \<Rightarrow> signals \<Rightarrow> signals" where
  "run_sigusr1_handler sig s = s\<lparr>disposition_of := (disposition_of s)(sig := sigusr1_handler), do_write_stats := True\<rparr>"

definition deliver :: "signal \<Rightarrow> signals \<Rightarrow> signals" where
  "deliver sig s = (case disposition_of s sig of
     SIG_DFL \<Rightarrow> s\<lparr>killed := True\<rparr>
   | SIG_IGN \<Rightarrow> s
   | sigint_handler \<Rightarrow> run_sigint_handler sig s
   | sigterm_handler \<Rightarrow> run_sigterm_handler sig s
   | sigusr1_handler \<Rightarrow> run_sigusr1_handler sig s)"

section \<open>The main thread's loop\<close>

datatype phase = AtTest | AtBody | AtReport | AtSleep | Left

record main_loop =
  phase :: phase
  signals :: signals
  reports :: nat   \<comment> \<open>calls of \<open>write_stats\<close>\<close>

text \<open>The next step of the thread, and what may happen to it: a step, or a signal between two steps.\<close>

definition main_step :: "main_loop \<Rightarrow> main_loop" where
  "main_step m = (case phase m of
     AtTest \<Rightarrow> m\<lparr>phase := if quit (signals m) then Left else AtBody\<rparr>
   | AtBody \<Rightarrow> if do_write_stats (signals m)
       then m\<lparr>phase := AtReport, signals := (signals m)\<lparr>do_write_stats := False\<rparr>\<rparr>
       else m\<lparr>phase := AtSleep\<rparr>
   | AtReport \<Rightarrow> m\<lparr>phase := AtSleep, reports := reports m + 1\<rparr>
   | AtSleep \<Rightarrow> m\<lparr>phase := AtTest\<rparr>
   | Left \<Rightarrow> m)"

datatype event = Step | Signal signal

definition happen :: "event \<Rightarrow> main_loop \<Rightarrow> main_loop" where
  "happen ev m = (if killed (signals m) then m else case ev of
     Step \<Rightarrow> main_step m
   | Signal sig \<Rightarrow> m\<lparr>signals := deliver sig (signals m)\<rparr>)"

section \<open>Initialisation\<close>

text \<open>The thread-specific keys: the arguments are the results of \<open>pthread_key_create\<close>.\<close>

definition init_util :: "int \<Rightarrow> int \<Rightarrow> int" where
  "init_util key2str_key tag2str_key =
     (let err = tss_create key2str_key
      in if err \<noteq> thrd_success then err
      else let err = tss_create tag2str_key
      in if err \<noteq> thrd_success then err else 0)"

definition init_log :: "int \<Rightarrow> int" where
  "init_log key = (let err = tss_create key in if err \<noteq> thrd_success then err else 0)"

definition init_controller :: "int \<Rightarrow> int" where
  "init_controller key = (let err = tss_create key in if err \<noteq> thrd_success then err else 0)"

definition init_maps :: "state \<Rightarrow> state" where
  "init_maps s = fold (\<lambda>i s. s\<lparr>entry_maps := (entry_maps s)(i := init_cache_entry_map)\<rparr>) [0..<NUM_CACHE_ENTRY_MAPS] s"

text \<open>The statics, all of them zero; what the clocks will say is the environment's.\<close>

definition zero_worker :: Worker where
  "zero_worker = \<lparr>w_id = 0, payload_buffer = no_payload,
     log_queue = \<lparr>q_mask = 0, q_read = 0, q_write = 0, elems = (\<lambda>_. zero_log_entry)\<rparr>,
     w_counters = \<lparr>n_get = 0, n_set = 0, n_del = 0, n_clr = 0, n_lst = 0, n_nfo = 0\<rparr>,
     w_timers = \<lparr>t_get = 0, t_set = 0, t_del = 0, t_clr = 0, t_lst = 0, t_nfo = 0\<rparr>\<rparr>"

definition zero_client :: Client where
  "zero_client = \<lparr>fd = 0, sin_addr = 0, sin_port = 0, worker = None, c_counters = no_counters,
     last_request_start_tick = 0, last_request_end_tick = 0,
     sock = \<lparr>incoming = [], at_eof = False, accepting = [], sent = []\<rparr>\<rparr>"

definition statics :: "(nat \<Rightarrow> time_t) \<Rightarrow> (nat \<Rightarrow> u64) \<Rightarrow> server" where
  "statics clk tks = \<lparr>
     st = \<lparr>mem = \<lparr>main_memory = 0, memory_cursor = 0, partitions = [], buckets = Map.empty, total_system_size = 0\<rparr>,
       heap = Map.empty, entry_maps = (\<lambda>_. init_cache_entry_map), tag_tree = init_tags,
       workers = (\<lambda>_. zero_worker), clients = (\<lambda>_. zero_client), current_client = None, current_log_queue = None,
       clock = clk, clock_calls = 0, ticks = tks, tick_calls = 0\<rparr>,
     sv_fd = 0, sv_epfd = 0, is_running = False, threads = Map.empty, sv_addr = 0, sv_port = 0, next_worker = 0, w_epfd = (\<lambda>_. 0),
     open_fds = [], watched = []\<rparr>"

text \<open>What the environment answers on the way.\<close>

record main_calls =
  the_config :: "RuntimeConfig option"
  pid_open :: int
  pid_lock :: int
  mmap_result :: "addr option"
  mprotect_ok :: bool
  memory_errno :: int
  util_tss :: "int \<times> int"
  log_tss :: int
  controller_tss :: int
  boot :: boot_calls
  persistence_open :: int
  persistence_lock :: int

datatype startup = EXIT_FAILURE server | Running server

text \<open>Leaving \<open>main\<close> closes the descriptors of the two files, if they are open.\<close>

definition unlock_and_close_fd_ptr :: "int \<Rightarrow> server \<Rightarrow> server" where
  "unlock_and_close_fd_ptr n sv = (if n \<ge> 0 then close_fd n sv else sv)"

definition leave_main :: "int \<Rightarrow> int \<Rightarrow> server \<Rightarrow> server" where
  "leave_main pid_fd persistence_fd sv = unlock_and_close_fd_ptr pid_fd (unlock_and_close_fd_ptr persistence_fd sv)"

definition open_file :: "int \<Rightarrow> server \<Rightarrow> server" where
  "open_file n sv = sv\<lparr>open_fds := n # open_fds sv\<rparr>"

text \<open>
  From \<open>init_util\<close> to the loop. The result of \<open>init_memory\<close> is an argument: without memory the
  entry maps are null pointers, and initialising them faults (\<open>None\<close>), after everything in front of it.
\<close>

definition start_up_server :: "main_calls \<Rightarrow> RuntimeConfig \<Rightarrow> (addr option list \<times> memory) option \<Rightarrow> server \<Rightarrow> startup option" where
  "start_up_server k config memory sv =
     (if init_util (fst (util_tss k)) (snd (util_tss k)) \<noteq> 0 then Some (EXIT_FAILURE (leave_main (pid_open k) (-1) sv))
      else if init_log (log_tss k) \<noteq> 0 then Some (EXIT_FAILURE (leave_main (pid_open k) (-1) sv))
      else if init_controller (controller_tss k) \<noteq> 0 then Some (EXIT_FAILURE (leave_main (pid_open k) (-1) sv))
      else do {
        (maps, m) \<leftarrow> memory;
        (err, sv1) \<leftarrow> start_server (listen_address config) (listen_port config) (boot k) (upd_st init_maps sv);
        if err \<noteq> 0 then Some (EXIT_FAILURE (leave_main (pid_open k) (-1) sv1))
        else if persistence_open k < 0 then Some (EXIT_FAILURE (leave_main (pid_open k) (persistence_open k) sv1))
        else do {
          let sv2 = open_file (persistence_open k) sv1;
          if persistence_lock k < 0 then Some (EXIT_FAILURE (leave_main (pid_open k) (persistence_open k) sv2))
          else do {
            sv3 \<leftarrow> start_thread (boot k) run_logging_thread_thread sv2;
            Some (Running sv3)
          }
        }
      })"

text \<open>
  \<open>main\<close> up to its loop. The result of \<open>init_memory\<close> is compared with \<open>0 >\<close>, so that the
  positive error number it returns is not seen. The assertions are real.
\<close>

definition start_up :: "main_calls \<Rightarrow> server \<Rightarrow> startup option" where
  "start_up k sv = (case the_config k of
     None \<Rightarrow> Some (EXIT_FAILURE sv)
   | Some config \<Rightarrow>
       if pid_open k < 0 then Some (EXIT_FAILURE sv)
       else
         let sv1 = open_file (pid_open k) sv
         in if pid_lock k < 0 then Some (EXIT_FAILURE (leave_main (pid_open k) (-1) sv1))
         else if \<not> IS_REQUEST_STRUCT_VALID \<or> \<not> IS_RESPONSE_STRUCT_VALID \<or>
           NUM_LOG_QUEUE_ELEMS AND (NUM_LOG_QUEUE_ELEMS - 1) \<noteq> 0 then None
         else do {
           (err, memory) \<leftarrow> init_memory (mmap_result k) (mprotect_ok k) (memory_errno k);
           let sv2 = (case memory of None \<Rightarrow> sv1 | Some (_, m) \<Rightarrow> upd_st (\<lambda>s. s\<lparr>mem := m\<rparr>) sv1);
           if 0 > err then Some (EXIT_FAILURE (leave_main (pid_open k) (-1) sv2))
           else start_up_server k config memory sv2
         })"

section \<open>The logging thread\<close>

text \<open>Second result: whether the file could be opened for writing; the loop runs until \<open>quit\<close>.\<close>

fun logging_loop :: "nat \<Rightarrow> state \<Rightarrow> ((string option \<times> printed_arg) list \<times> state) option" where
  "logging_loop 0 s = Some ([], s)"
| "logging_loop (Suc rounds) s = do {
     (lines, s1) \<leftarrow> flush_worker_logs s;
     (lines', s2) \<leftarrow> logging_loop rounds s1;
     Some (lines @ lines', s2)
   }"

definition run_logging_thread :: "int \<Rightarrow> nat \<Rightarrow> state \<Rightarrow> (bool \<times> (string option \<times> printed_arg) list \<times> state) option" where
  "run_logging_thread wr_fd rounds s =
     (if wr_fd = -1 then Some (False, [], s)
      else do { (lines, s1) \<leftarrow> logging_loop rounds s; Some (True, lines, s1) })"

section \<open>Reports\<close>

datatype report =
    EntryStats "stats_line list" | TagStats "tag_line list" | MemoryStats "(u32 \<times> u32 \<times> u32 \<times> u32 \<times> u32) list"
  | ClientStats "client_line list" | WorkerStats "(u32 \<times> rat) list list"

definition write_entry_stats_proxy :: "state \<Rightarrow> (report \<times> state) option" where
  "write_entry_stats_proxy s = do {
     let (now, s1) = time_now s;
     (maps, h, lines) \<leftarrow> write_entry_stats now (entry_maps s1) (heap s1) NUM_CACHE_ENTRY_MAPS;
     Some (EntryStats lines, s1\<lparr>entry_maps := maps, heap := h\<rparr>)
   }"

text \<open>The writers in the order of the table, with the file each writes to.\<close>

definition writer_map :: "RuntimeConfig \<Rightarrow> (string option \<times> (state \<Rightarrow> (report \<times> state) option)) list" where
  "writer_map config =
     [(entry_stats_filename config, write_entry_stats_proxy),
      (tag_stats_filename config, \<lambda>s. do { lines \<leftarrow> write_tag_stats (tag_tree s); Some (TagStats lines, s) }),
      (memory_stats_filename config, \<lambda>s. Some (MemoryStats (write_memory_stats (mem s)), s)),
      (client_stats_filename config, \<lambda>s. let (lines, s1) = write_client_stats s in Some (ClientStats lines, s1)),
      (worker_stats_filename config, \<lambda>s. Some (WorkerStats (write_workers_stats s), s))]"

text \<open>\<open>can_open\<close> says which files \<open>fopen\<close> opens; the result is what was written where.\<close>

fun write_reports ::
    "(string \<Rightarrow> bool) \<Rightarrow> (string option \<times> (state \<Rightarrow> (report \<times> state) option)) list \<Rightarrow> state \<Rightarrow>
     ((string \<times> report) list \<times> state) option" where
  "write_reports can_open [] s = Some ([], s)"
| "write_reports can_open ((filename, write_fn) # ws) s = do {
     let (_, s1) = get_performance_counter s;
     case filename of
       None \<Rightarrow> write_reports can_open ws s1
     | Some f \<Rightarrow>
         if can_open f then do {
           (r, s2) \<leftarrow> write_fn s1;
           let (_, s3) = get_performance_counter s2;
           (rs, s4) \<leftarrow> write_reports can_open ws s3;
           Some ((f, r) # rs, s4)
         } else write_reports can_open ws s1
   }"

definition write_stats :: "(string \<Rightarrow> bool) \<Rightarrow> RuntimeConfig \<Rightarrow> state \<Rightarrow> ((string \<times> report) list \<times> state) option" where
  "write_stats can_open config s = write_reports can_open (writer_map config) s"

section \<open>Persisting\<close>

text \<open>\<open>reverse_bytes (base, nmemb)\<close> on the bytes of a key or a tag.\<close>

definition reversed_in_place :: "u8 list \<Rightarrow> u8 list option" where
  "reversed_in_place bs = do {
     b \<leftarrow> reverse_bytes (length bs) (store_bytes (\<lambda>_. 0) 0 bs) 0 (of_nat (length bs));
     Some (load_bytes b 0 (length bs))
   }"

definition set_request :: "CacheEntry \<Rightarrow> u32 \<Rightarrow> Request" where
  "set_request e ttl =
     [CONTROL_BYTE_1, CONTROL_BYTE_2, CONTROL_BYTE_3, CMD_BYTE_SET,
      of_nat (length (e_key e)), of_nat (length (e_tags e)), SET_FLAG_NONE, 0]
     @ u32_bytes (htonl (of_nat (length (e_value e)))) @ u32_bytes ttl"

text \<open>The \<open>ttl\<close> field, or nothing when the entry has expired.\<close>

definition persisted_ttl :: "state \<Rightarrow> CacheEntry \<Rightarrow> u32 option \<times> state" where
  "persisted_ttl s e =
     (if expires e \<noteq> CACHE_EXPIRES_INIT
      then let (now, s1) = time_now s
        in if sint (expires e) < sint now then (None, s1) else (Some (htonl (ucast (expires e - now))), s1)
      else (Some (htonl 0xFFFFFFFF), s))"

text \<open>
  The file that is written to. The \<open>i\<close>-th call of \<open>write\<close>, given \<open>n\<close> bytes, puts the first
  \<open>accepts i n\<close> of them into the file (none when it fails); its result is not looked at.
\<close>

record outfile =
  file_bytes :: "u8 list"
  writes :: nat
  accepts :: "nat \<Rightarrow> nat \<Rightarrow> nat"

definition write_file :: "u8 list \<Rightarrow> outfile \<Rightarrow> outfile" where
  "write_file bs f = f\<lparr>file_bytes := file_bytes f @ take (accepts f (writes f) (length bs)) bs, writes := writes f + 1\<rparr>"

text \<open>The loop over the tags: each is reversed where it lies and written behind its length. Results: the file, and
  the tags as they are left.\<close>

fun write_tags :: "u8 list list \<Rightarrow> outfile \<Rightarrow> (outfile \<times> u8 list list) option" where
  "write_tags [] f = Some (f, [])"
| "write_tags (tag # tags) f = do {
     let f1 = write_file [of_nat (length tag)] f;
     rtag \<leftarrow> reversed_in_place tag;
     (f2, rtags) \<leftarrow> write_tags tags (write_file rtag f1);
     Some (f2, rtag # rtags)
   }"

definition write_entry_as_set_request_callback :: "addr \<Rightarrow> state \<times> outfile \<Rightarrow> (bool \<times> state \<times> outfile) option" where
  "write_entry_as_set_request_callback a = (\<lambda>(s, f). do {
     e \<leftarrow> heap s a;
     case persisted_ttl s e of
       (None, s1) \<Rightarrow> Some (False, s1, f)
     | (Some ttl, s1) \<Rightarrow> do {
         let f1 = write_file (set_request e ttl) f;
         rkey \<leftarrow> reversed_in_place (e_key e);
         (f2, rtags) \<leftarrow> write_tags (e_tags e) (write_file rkey f1);
         Some (True, upd_entry a (\<lambda>e. e\<lparr>e_key := rkey, e_tags := rtags\<rparr>) s1, write_file (e_value e) f2)
       }
   })"

text \<open>What the calls on the file do: its old content stays behind what is written unless \<open>ftruncate\<close> succeeds,
  which is not looked at either.\<close>

record file_calls =
  old_content :: "u8 list"
  ftruncate_result :: int
  write_accepts :: "nat \<Rightarrow> nat \<Rightarrow> nat"

definition persist :: "file_calls \<Rightarrow> state \<Rightarrow> (u8 list \<times> state) option" where
  "persist calls s = do {
     let old = (if ftruncate_result calls = 0 then [] else old_content calls);
     (s1, f) \<leftarrow> walk_all_entries write_entry_as_set_request_callback
       (s, \<lparr>file_bytes = [], writes = 0, accepts = write_accepts calls\<rparr>);
     Some (overwrite (file_bytes f) old, s1)
   }"

text \<open>From \<open>quit\<close> to the end: the content of the file, the process with the descriptors that are left,
  and the region, if it is still there. \<open>join\<close>, \<open>calls\<close> and \<open>munmap_result\<close> are results of calls.\<close>

definition shut_down :: "(thread \<Rightarrow> int) \<Rightarrow> file_calls \<Rightarrow> int \<Rightarrow> int \<Rightarrow> int \<Rightarrow> server \<Rightarrow> (u8 list \<times> server \<times> memory option) option" where
  "shut_down join calls munmap_result pid_fd persistence_fd sv = do {
     sv1 \<leftarrow> stop_server join sv;
     sv2 \<leftarrow> join_thread join run_logging_thread_thread sv1;
     (file, s) \<leftarrow> persist calls (st sv2);
     Some (file, leave_main pid_fd persistence_fd (sv2\<lparr>st := s\<rparr>), release_all_memory munmap_result (mem s))
   }"

end
