(* ===== verification/Cik_Core.thy ===== *)
theory Cik_Core
  imports Cik_Controller Cik_Map_Laws Cik_Tag_Ops
begin

text \<open>
  The invariant that ties the components together, and what the state operations of the handlers do under
  it. \<open>core_inv X K s\<close>: the allocator and the tag index are well-formed, every map is, an entry sits in
  the map its key selects, the entries are live blocks that the tag index does not own, and every entry is
  in a map, except for those in \<open>X\<close> that the thread has taken out, and unlocked, except for those in
  \<open>K\<close> whose lock the thread holds.
\<close>

section \<open>Invariant\<close>

text \<open>What the block of an entry holds.\<close>

definition entry_size :: "CacheEntry \<Rightarrow> nat" where
  "entry_size e = sizeof_CacheEntry + sizeof_CacheTag * length (e_tags e) + sum_list (map length (e_tags e)) +
     length (e_key e) + length (e_value e)"

definition entry_fine :: "CacheEntry \<Rightarrow> bool" where
  "entry_fine e \<longleftrightarrow> length (e_key e) \<in> {1..255} \<and> (\<forall>tag \<in> set (e_tags e). length tag \<in> {1..255}) \<and>
     length (e_tags e) \<le> 255 \<and> entry_size e \<le> MAX_BUCKET_SIZE"

definition occupied :: "state \<Rightarrow> addr set" where
  "occupied s = (\<Union>i < NUM_CACHE_ENTRY_MAPS. occupants (entry_maps s i))"

definition maps_inv :: "state \<Rightarrow> bool" where
  "maps_inv s \<longleftrightarrow> (\<forall>i < NUM_CACHE_ENTRY_MAPS. map_ok (entry_maps s i) (heap s) \<and>
     (\<forall>a \<in> occupants (entry_maps s i). \<exists>e. heap s a = Some e \<and> map_for_key (e_key e) = i))"

definition heap_inv :: "addr set \<Rightarrow> addr set \<Rightarrow> state \<Rightarrow> bool" where
  "heap_inv X K s \<longleftrightarrow> dom (heap s) = occupied s \<union> X \<and> occupied s \<inter> X = {} \<and>
     dom (heap s) \<subseteq> live (mem s) - tag_blocks (tag_tree s) \<and>
     (\<forall>a e. heap s a = Some e \<longrightarrow> entry_fine e \<and> (a \<notin> K \<longrightarrow> \<not> guard e))"

definition core_inv :: "addr set \<Rightarrow> addr set \<Rightarrow> state \<Rightarrow> bool" where
  "core_inv X K s \<longleftrightarrow> mem_inv (mem s) \<and> tag_inv (mem s) (tag_tree s) \<and> maps_inv s \<and> heap_inv X K s"

abbreviation sys_inv :: "state \<Rightarrow> bool" where
  "sys_inv \<equiv> core_inv {} {}"

text \<open>The cache as its clients see it: the entry of a key, without the lock.\<close>

definition unlocked_entry :: "CacheEntry \<Rightarrow> CacheEntry" where
  "unlocked_entry e = e\<lparr>guard := False\<rparr>"

definition entry_of :: "state \<Rightarrow> u8 list \<Rightarrow> addr option" where
  "entry_of s key = hm_abs (entry_maps s (map_for_key key)) (heap s) key"

definition cache :: "state \<Rightarrow> u8 list \<rightharpoonup> CacheEntry" where
  "cache s key = Option.bind (entry_of s key) (\<lambda>a. map_option unlocked_entry (heap s a))"

definition copies_of :: "state \<Rightarrow> u8 list \<Rightarrow> nat" where
  "copies_of s key = hm_copies (entry_maps s (map_for_key key), heap s) key"

lemma map_for_key_less [simp]: "map_for_key key < NUM_CACHE_ENTRY_MAPS"
  by (simp add: map_for_key_def)

text \<open>What the components below the maps see of the state.\<close>

definition same_core :: "state \<Rightarrow> state \<Rightarrow> bool" where
  "same_core s s' \<longleftrightarrow> mem s' = mem s \<and> heap s' = heap s \<and> entry_maps s' = entry_maps s \<and> tag_tree s' = tag_tree s"

lemma same_core_refl [simp]: "same_core s s"
  by (simp add: same_core_def)

lemma same_core_trans: "same_core s t \<Longrightarrow> same_core t u \<Longrightarrow> same_core s u"
  by (simp add: same_core_def)

lemma same_core_inv: "same_core s s' \<Longrightarrow> core_inv X K s' = core_inv X K s"
  by (simp add: same_core_def core_inv_def maps_inv_def heap_inv_def occupied_def)

lemma same_core_cache: "same_core s s' \<Longrightarrow> cache s' = cache s"
  by (rule ext) (simp add: same_core_def cache_def entry_of_def)

lemma upd_core [simp]:
  "mem (upd_client c f s) = mem s" "heap (upd_client c f s) = heap s"
  "entry_maps (upd_client c f s) = entry_maps s" "tag_tree (upd_client c f s) = tag_tree s"
  "workers (upd_client c f s) = workers s" "current_client (upd_client c f s) = current_client s"
  "mem (upd_worker w g s) = mem s" "heap (upd_worker w g s) = heap s"
  "entry_maps (upd_worker w g s) = entry_maps s" "tag_tree (upd_worker w g s) = tag_tree s"
  "clients (upd_worker w g s) = clients s" "current_client (upd_worker w g s) = current_client s"
  by (simp_all add: upd_client_def upd_worker_def)

section \<open>Looking a key up\<close>

lemma core_invD:
  assumes "core_inv X K s"
  shows "mem_inv (mem s)" and "tag_inv (mem s) (tag_tree s)" and "maps_inv s" and "dom (heap s) = occupied s \<union> X"
    and "occupied s \<inter> X = {}" and "dom (heap s) \<subseteq> live (mem s) - tag_blocks (tag_tree s)"
    and "heap s a = Some e \<Longrightarrow> entry_fine e" and "heap s a = Some e \<Longrightarrow> a \<notin> K \<Longrightarrow> \<not> guard e"
  using assms unfolding core_inv_def heap_inv_def by blast+

lemma fine_names:
  assumes "entry_fine e"
  shows "name_fine (e_key e)" and "\<forall>tag \<in> set (e_tags e). name_fine tag"
  using assms by (fastforce simp: entry_fine_def name_fine_def)+

lemma entry_fine_simps [simp]:
  "entry_fine (e\<lparr>guard := b\<rparr>) = entry_fine e" "entry_fine (e\<lparr>nhits := n\<rparr>) = entry_fine e"
  "entry_fine (e\<lparr>expires := t\<rparr>) = entry_fine e" "entry_fine (e\<lparr>mtime := t\<rparr>) = entry_fine e"
  by (simp_all add: entry_fine_def entry_size_def)

lemma hm_ok_map:
  assumes inv: "core_inv X K s" and i: "i < NUM_CACHE_ENTRY_MAPS" and K: "K \<inter> occupants (entry_maps s i) = {}"
  shows "hm_ok (entry_maps s i, heap s)"
proof -
  have "map_ok (entry_maps s i) (heap s)" using core_invD(3) [OF inv] i by (simp add: maps_inv_def)
  moreover have "unlocked (heap s) (occupants (entry_maps s i))"
    unfolding unlocked_def using core_invD(8) [OF inv] K by blast
  ultimately show ?thesis by (simp add: hm_ok_def)
qed

lemma state_same [simp]: "s\<lparr>entry_maps := (entry_maps s)(i := entry_maps s i), heap := heap s\<rparr> = s"
  by simp

lemma map_get_eq:
  assumes inv: "core_inv X K s" and K: "K \<inter> occupied s = {}"
  shows "map_get s key = (case entry_of s key of
      None \<Rightarrow> Some (None, s)
    | Some a \<Rightarrow> Some (Some a, s\<lparr>heap := set_guard True a (heap s)\<rparr>))"
proof -
  have "K \<inter> occupants (entry_maps s (map_for_key key)) = {}"
    using K by (fastforce simp: occupied_def)
  from hm_ok_map [OF inv _ this] have "hm_ok (entry_maps s (map_for_key key), heap s)" by simp
  then have "lock_and_get_cache_entry (entry_maps s (map_for_key key)) (heap s) key =
      (case entry_of s key of None \<Rightarrow> Some (None, entry_maps s (map_for_key key), heap s)
       | Some a \<Rightarrow> Some (Some a, entry_maps s (map_for_key key), set_guard True a (heap s)))"
    using lock_and_get_eq by (simp add: hm_ok_def entry_of_def)
  then show ?thesis
    by (cases "entry_of s key") (simp_all add: map_get_def Let_def)
qed

lemma entry_of_Some:
  assumes "entry_of s key = Some a"
  obtains e where "heap s a = Some e" "e_key e = key" "a \<in> occupied s" "cache s key = Some (unlocked_entry e)"
proof -
  from hm_abs_SomeD [OF assms [unfolded entry_of_def]] obtain e where
    e: "heap s a = Some e" "e_key e = key" "a \<in> occupants (entry_maps s (map_for_key key))" by auto
  moreover have "a \<in> occupied s" using e(3) map_for_key_less by (auto simp: occupied_def)
  ultimately show thesis using that assms by (simp add: cache_def)
qed

lemma entry_of_None: "entry_of s key = None \<longleftrightarrow> cache s key = None"
proof (cases "entry_of s key")
  case (Some a)
  then show ?thesis by (auto elim!: entry_of_Some)
qed (simp add: cache_def)

lemma entry_of_heap:
  assumes "\<forall>a. entry_key (heap s') a = entry_key (heap s) a" and "entry_maps s' = entry_maps s"
  shows "entry_of s' = entry_of s"
proof -
  have "slot_key m (heap s') = slot_key m (heap s)" for m
    using assms(1) by (simp add: slot_key_def fun_eq_iff ext [of "entry_key (heap s')" "entry_key (heap s)"])
  then show ?thesis by (simp add: entry_of_def hm_abs_def find_key_def assms(2) fun_eq_iff)
qed

section \<open>Changing entries in place\<close>

text \<open>An update of the fields a map does not look at.\<close>

lemma core_inv_heap:
  assumes inv: "core_inv X K s"
    and h: "\<And>a e. heap s a = Some e \<Longrightarrow> \<exists>e'. heap s' a = Some e' \<and> e_key e' = e_key e \<and> entry_fine e' \<and> (a \<notin> K' \<longrightarrow> \<not> guard e')"
    and d: "dom (heap s') = dom (heap s)"
    and same: "mem s' = mem s" "entry_maps s' = entry_maps s" "tag_tree s' = tag_tree s"
  shows "core_inv X K' s'" and "entry_of s' = entry_of s"
proof -
  have k: "entry_key (heap s') a = entry_key (heap s) a" for a
  proof (cases "heap s a")
    case None
    then have "heap s' a = None" using d by (metis domIff)
    with None show ?thesis by (simp add: entry_key_def)
  next
    case (Some e)
    with h [OF this] show ?thesis by (auto simp: entry_key_def)
  qed
  then show "entry_of s' = entry_of s" using same by (intro entry_of_heap) auto
  have "map_ok m (heap s')" if "map_ok m (heap s)" for m
    using that h unfolding map_ok_def by metis
  then have "maps_inv s'"
    using inv h same unfolding core_inv_def maps_inv_def by metis
  moreover have "heap_inv X K' s'"
  proof -
    have "occupied s' = occupied s" using same by (simp add: occupied_def)
    moreover have "entry_fine e' \<and> (a \<notin> K' \<longrightarrow> \<not> guard e')" if e': "heap s' a = Some e'" for a e'
    proof -
      have "a \<in> dom (heap s)" using e' d by blast
      then obtain e where "heap s a = Some e" by blast
      from h [OF this] e' show ?thesis by simp
    qed
    ultimately show ?thesis
      unfolding heap_inv_def d same(1,3) using core_invD(4,5,6) [OF inv] by metis
  qed
  ultimately show "core_inv X K' s'" using inv same by (simp add: core_inv_def)
qed

lemma core_inv_lock:
  assumes "core_inv X K s"
  shows "core_inv X (insert a K) (s\<lparr>heap := set_guard True a (heap s)\<rparr>)"
    and "entry_of (s\<lparr>heap := set_guard b a (heap s)\<rparr>) = entry_of s"
proof -
  have h: "\<exists>e'. set_guard b a (heap s) c = Some e' \<and> e_key e' = e_key e \<and> entry_fine e' \<and>
      (c \<notin> insert a K \<longrightarrow> \<not> guard e')" if "heap s c = Some e" for c e b
    using core_invD(7,8) [OF assms that] that
    by (cases "c = a") (simp_all add: set_guard_same)
  show "core_inv X (insert a K) (s\<lparr>heap := set_guard True a (heap s)\<rparr>)"
    by (rule core_inv_heap(1) [OF assms]) (use h in auto)
  show "entry_of (s\<lparr>heap := set_guard b a (heap s)\<rparr>) = entry_of s"
    by (rule core_inv_heap(2) [OF assms, where K' = "insert a K"]) (use h in auto)
qed

lemma unlock_entry_eq:
  assumes inv: "core_inv X K s" and a: "heap s a = Some e"
  shows "unlock_entry s a = Some (s\<lparr>heap := set_guard False a (heap s)\<rparr>)"
    and "core_inv X (K - {a}) (s\<lparr>heap := set_guard False a (heap s)\<rparr>)"
    and "cache (s\<lparr>heap := set_guard False a (heap s)\<rparr>) = cache s"
proof -
  show "unlock_entry s a = Some (s\<lparr>heap := set_guard False a (heap s)\<rparr>)"
    using a by (simp add: unlock_entry_def UNLOCK_ENTRY_eq)
  have h: "\<exists>e'. set_guard False a (heap s) c = Some e' \<and> e_key e' = e_key e \<and> entry_fine e' \<and>
      (c \<notin> K - {a} \<longrightarrow> \<not> guard e')" if "heap s c = Some e" for c e
    using core_invD(7,8) [OF inv that] that
    by (cases "c = a") (simp_all add: set_guard_same)
  show "core_inv X (K - {a}) (s\<lparr>heap := set_guard False a (heap s)\<rparr>)"
    by (rule core_inv_heap(1) [OF inv]) (use h in auto)
  have "map_option unlocked_entry (set_guard False a (heap s) c) = map_option unlocked_entry (heap s c)" for c
    by (cases "c = a") (auto simp: set_guard_def unlocked_entry_def split: option.splits)
  then show "cache (s\<lparr>heap := set_guard False a (heap s)\<rparr>) = cache s"
    using core_inv_lock(2) [OF inv, of False a] by (simp add: cache_def fun_eq_iff)
qed

section \<open>Taking an entry out\<close>

lemma occupied_upd:
  assumes "i < NUM_CACHE_ENTRY_MAPS"
  shows "occupied (s\<lparr>entry_maps := (entry_maps s)(i := m)\<rparr>) =
    (\<Union>j \<in> {..<NUM_CACHE_ENTRY_MAPS} - {i}. occupants (entry_maps s j)) \<union> occupants m"
proof (rule set_eqI)
  fix a
  have "(\<exists>j < NUM_CACHE_ENTRY_MAPS. a \<in> occupants (if j = i then m else entry_maps s j)) \<longleftrightarrow>
      (\<exists>j < NUM_CACHE_ENTRY_MAPS. j \<noteq> i \<and> a \<in> occupants (entry_maps s j)) \<or> a \<in> occupants m"
    using assms by (metis (full_types))
  moreover have "a \<in> occupied (s\<lparr>entry_maps := (entry_maps s)(i := m)\<rparr>) \<longleftrightarrow>
      (\<exists>j < NUM_CACHE_ENTRY_MAPS. a \<in> occupants (if j = i then m else entry_maps s j))"
    by (simp add: occupied_def fun_upd_def Bex_def)
  moreover have "a \<in> (\<Union>j \<in> {..<NUM_CACHE_ENTRY_MAPS} - {i}. occupants (entry_maps s j)) \<union> occupants m \<longleftrightarrow>
      (\<exists>j < NUM_CACHE_ENTRY_MAPS. j \<noteq> i \<and> a \<in> occupants (entry_maps s j)) \<or> a \<in> occupants m"
    by blast
  ultimately show "a \<in> occupied (s\<lparr>entry_maps := (entry_maps s)(i := m)\<rparr>) \<longleftrightarrow>
      a \<in> (\<Union>j \<in> {..<NUM_CACHE_ENTRY_MAPS} - {i}. occupants (entry_maps s j)) \<union> occupants m"
    by blast
qed

lemma occupants_disjoint:
  assumes "maps_inv s" "i < NUM_CACHE_ENTRY_MAPS" "j < NUM_CACHE_ENTRY_MAPS" "i \<noteq> j"
  shows "occupants (entry_maps s i) \<inter> occupants (entry_maps s j) = {}"
proof -
  have "False" if "a \<in> occupants (entry_maps s i)" "a \<in> occupants (entry_maps s j)" for a
  proof -
    obtain e where "heap s a = Some e" "map_for_key (e_key e) = i"
      using assms(1,2) \<open>a \<in> occupants (entry_maps s i)\<close> unfolding maps_inv_def by blast
    moreover obtain e' where "heap s a = Some e'" "map_for_key (e_key e') = j"
      using assms(1,3) \<open>a \<in> occupants (entry_maps s j)\<close> unfolding maps_inv_def by blast
    ultimately show False using assms(4) by simp
  qed
  then show ?thesis by blast
qed

text \<open>The state in which the entry \<open>a\<close> has been taken out of slot \<open>p\<close> of map \<open>i\<close> and is locked.\<close>

definition unset_at :: "nat \<Rightarrow> nat \<Rightarrow> addr \<Rightarrow> state \<Rightarrow> state" where
  "unset_at i p a s = s\<lparr>entry_maps := (entry_maps s)(i := unset_slot (entry_maps s i) p),
     heap := set_guard True a (heap s)\<rparr>"

lemma unset_at_simps [simp]:
  "heap (unset_at i p a s) = set_guard True a (heap s)" "mem (unset_at i p a s) = mem s"
  "tag_tree (unset_at i p a s) = tag_tree s"
  by (simp_all add: unset_at_def)

lemma unset_at_inv:
  assumes inv: "core_inv X K s" and i: "i < NUM_CACHE_ENTRY_MAPS" and p: "p < CACHE_ENTRY_MAP_SIZE"
    and a: "mask (entry_maps s i) p" "entries (entry_maps s i) p = Some a"
  shows "core_inv (insert a X) (insert a K) (unset_at i p a s)" and "occupied (unset_at i p a s) = occupied s - {a}"
    and "a \<in> occupied s"
proof -
  let ?m = "entry_maps s i" and ?m' = "unset_slot (entry_maps s i) p"
  note D = core_invD [OF inv]
  have mok: "map_ok ?m (heap s)" using D(3) i by (simp add: maps_inv_def)
  have aocc: "a \<in> occupants ?m" using p a by (auto simp: occupants_def)
  have occ': "occupants ?m' = occupants ?m - {a}" using occupants_unset [OF mok p a] .
  let ?s = "s\<lparr>entry_maps := (entry_maps s)(i := ?m')\<rparr>"
  define R where "R = (\<Union>j \<in> {..<NUM_CACHE_ENTRY_MAPS} - {i}. occupants (entry_maps s j))"
  have "a \<notin> occupants (entry_maps s j)" if "j \<in> {..<NUM_CACHE_ENTRY_MAPS} - {i}" for j
    using occupants_disjoint [OF D(3) _ i, of j] that aocc by blast
  then have "a \<notin> R" by (simp add: R_def)
  moreover have "occupied ?s = R \<union> (occupants ?m - {a})"
    using occupied_upd [OF i, of s ?m'] by (simp add: occ' R_def)
  moreover have os: "occupied s = R \<union> occupants ?m"
    using occupied_upd [OF i, of s ?m] by (simp add: occupied_def R_def)
  ultimately have occ: "occupied ?s = occupied s - {a}" by blast
  then show "occupied (unset_at i p a s) = occupied s - {a}" by (simp add: occupied_def unset_at_def)
  show inocc: "a \<in> occupied s" using aocc os by blast
  have "maps_inv ?s"
    using D(3) map_ok_unset [OF mok] occ' by (auto simp: maps_inv_def)
  moreover have "heap_inv (insert a X) K ?s"
    unfolding heap_inv_def occ
  proof (intro conjI)
    show "dom (heap ?s) = (occupied s - {a}) \<union> insert a X" using D(4) inocc by (simp, blast)
    show "(occupied s - {a}) \<inter> insert a X = {}" using D(5) by blast
    show "dom (heap ?s) \<subseteq> live (mem ?s) - tag_blocks (tag_tree ?s)" using D(6) by simp
    show "\<forall>c e. heap ?s c = Some e \<longrightarrow> entry_fine e \<and> (c \<notin> K \<longrightarrow> \<not> guard e)" using D(7,8) by simp
  qed
  ultimately have inv1: "core_inv (insert a X) K ?s" using D(1,2) by (simp add: core_inv_def)
  show "core_inv (insert a X) (insert a K) (unset_at i p a s)"
    using core_inv_lock(1) [OF inv1, of a] by (simp add: unset_at_def)
qed

lemma unlocked_set_guard_opt [simp]:
  "map_option unlocked_entry (set_guard b a st c) = map_option unlocked_entry (st c)"
  by (cases "c = a") (auto simp: set_guard_def unlocked_entry_def split: option.splits)

text \<open>An entry that is looked up elsewhere is still found.\<close>

lemma find_key_unset:
  assumes "find_key m st key = Some q" and "q \<noteq> p"
  shows "find_key (unset_slot m p) st key = Some q"
proof -
  obtain i where i: "i < CACHE_ENTRY_MAP_SIZE" "probe_seq (home key) ! i = q" "slot_key m st q = Some key"
    "\<And>j. j < i \<Longrightarrow> slot_key m st (probe_seq (home key) ! j) \<noteq> Some key"
    using assms(1) by (auto simp: find_key_def find_Some_iff)
  then have "find_key (unset_slot m p) st key = Some (probe_seq (home key) ! i)"
    unfolding find_key_def using assms(2) by (intro find_first_SomeI) (auto simp: slot_key_unset)
  with i(2) show ?thesis by simp
qed

lemma hm_abs_unset:
  assumes "hm_abs m st key = Some c" and "entries m p = Some a" and "a \<noteq> c"
  shows "hm_abs (unset_slot m p) st key = Some c"
proof -
  obtain q where q: "find_key m st key = Some q" "entries m q = Some c"
    using assms(1) by (auto simp: hm_abs_def bind_eq_Some_conv)
  then have "q \<noteq> p" using assms(2,3) by auto
  with find_key_unset [OF q(1) this] q(2) show ?thesis by (simp add: hm_abs_def) (simp add: unset_slot_def)
qed

lemma unset_at_cache:
  assumes a: "mask (entry_maps s i) p" "entries (entry_maps s i) p = Some a" "heap s a = Some e"
  shows "key \<noteq> e_key e \<Longrightarrow> cache (unset_at i p a s) key = cache s key"
    and "entry_of s key \<noteq> Some a \<Longrightarrow> cache s key = Some f \<Longrightarrow> cache (unset_at i p a s) key = Some f"
proof -
  let ?s = "unset_at i p a s"
  have slot: "slot_key (entry_maps s i) (heap s) p = Some (e_key e)"
    using a by (simp add: slot_key_def entry_key_def)
  have e': "entry_of ?s k = (if map_for_key k = i then hm_abs (unset_slot (entry_maps s i) p) (heap s) k else entry_of s k)" for k
    by (simp add: entry_of_def unset_at_def)
  show "cache ?s key = cache s key" if "key \<noteq> e_key e"
  proof -
    have "entry_of ?s key = entry_of s key"
      unfolding e' using hm_abs_unset_other [OF slot that] by (simp add: entry_of_def)
    then show ?thesis by (simp add: cache_def)
  qed
  show "cache ?s key = Some f" if c: "entry_of s key \<noteq> Some a" "cache s key = Some f"
  proof -
    obtain b where b: "entry_of s key = Some b" using c(2) by (auto simp: cache_def bind_eq_Some_conv)
    have "entry_of ?s key = Some b"
      unfolding e' using b c(1) hm_abs_unset [OF _ a(2), of "heap s" key b] by (auto simp: entry_of_def)
    then show ?thesis using b c(2) by (simp add: cache_def)
  qed
qed

lemma map_unset_eq:
  assumes inv: "core_inv X K s" and K: "K \<inter> occupied s = {}"
  obtains (none) "map_unset s key = Some (None, s)" "cache s key = None" "copies_of s key = 0"
  | (some) i p a e where "map_unset s key = Some (Some a, unset_at i p a s)" "heap s a = Some e"
      "e_key e = key" "cache s key = Some (unlocked_entry e)" "a \<in> occupied s"
      "core_inv (insert a X) (insert a K) (unset_at i p a s)" "occupied (unset_at i p a s) = occupied s - {a}"
      "copies_of s key = Suc (copies_of (unset_at i p a s) key)"
      "\<And>k. k \<noteq> key \<Longrightarrow> cache (unset_at i p a s) k = cache s k"
proof -
  let ?i = "map_for_key key"
  let ?m = "entry_maps s ?i"
  have "K \<inter> occupants ?m = {}"
    using K map_for_key_less by (fastforce simp: occupied_def)
  from hm_ok_map [OF inv _ this] have mok: "map_ok ?m (heap s)" and un: "unlocked (heap s) (occupants ?m)"
    by (auto simp: hm_ok_def)
  note eq = lock_and_unset_eq [OF mok un, of key]
  show thesis
  proof (cases "find_key ?m (heap s) key")
    case None
    then have e: "entry_of s key = None" by (simp add: entry_of_def hm_abs_None)
    then have "copies_of s key = 0"
      by (simp add: copies_of_def hm_copies_def key_slots_empty entry_of_def)
    with e show thesis using eq None by (intro none) (simp_all add: map_unset_def Let_def entry_of_None)
  next
    case (Some p)
    then have p: "p < CACHE_ENTRY_MAP_SIZE" "slot_key ?m (heap s) p = Some key" using find_key_SomeD by auto
    then obtain a e where a: "mask ?m p" "entries ?m p = Some a" "heap s a = Some e" "e_key e = key"
      by (auto elim: slot_key_SomeE)
    note U = unset_at_inv [OF inv map_for_key_less p(1) a(1,2)]
    have "card (key_slots ?m (heap s) key) = Suc (card (key_slots ?m (heap s) key - {p}))"
      using p by (intro card_Suc_Diff1 [symmetric]) (auto simp: key_slots_def)
    then have "copies_of s key = Suc (copies_of (unset_at ?i p a s) key)"
      by (simp add: copies_of_def hm_copies_def unset_at_def key_slots_unset)
    moreover have "cache s key = Some (unlocked_entry e)" using Some a by (simp add: cache_def entry_of_def hm_abs_def)
    moreover have "map_unset s key = Some (Some a, unset_at ?i p a s)"
      using eq Some a by (simp add: map_unset_def unset_at_def Let_def)
    moreover have "cache (unset_at ?i p a s) k = cache s k" if "k \<noteq> key" for k
      using unset_at_cache(1) [OF a(1-3)] that a(4) by simp
    ultimately show thesis
      using some [of a ?i p e] a(3,4) U by blast
  qed
qed

end
