(* ===== verification/Cik_Core_Ops.thy ===== *)
theory Cik_Core_Ops
  imports Cik_Core
begin

text \<open>
  The handlers' operations under the invariant of \<open>Cik_Core\<close>: giving an entry back, de-indexing and
  indexing its tags, putting a new entry into its map, and the deletion of a key. Every lemma says what
  the cache is afterwards, and that what the requests' input and output use is left alone.
\<close>

section \<open>Frames\<close>

text \<open>Workers, clients, the thread's variables and the clocks.\<close>

definition same_io :: "state \<Rightarrow> state \<Rightarrow> bool" where
  "same_io s s' \<longleftrightarrow> workers s' = workers s \<and> clients s' = clients s \<and> current_client s' = current_client s \<and>
     current_log_queue s' = current_log_queue s \<and> clock s' = clock s \<and> clock_calls s' = clock_calls s \<and>
     ticks s' = ticks s \<and> tick_calls s' = tick_calls s"

lemma same_io_refl [simp]: "same_io s s"
  by (simp add: same_io_def)

lemma same_io_trans: "same_io s t \<Longrightarrow> same_io t u \<Longrightarrow> same_io s u"
  by (simp add: same_io_def)

lemma same_io_upd [simp]:
  "same_io s (s\<lparr>heap := h\<rparr>)" "same_io s (s\<lparr>mem := m\<rparr>)" "same_io s (s\<lparr>entry_maps := f\<rparr>)"
  "same_io s (s\<lparr>tag_tree := t, mem := m\<rparr>)" "same_io s (s\<lparr>entry_maps := f, heap := h\<rparr>)"
  by (simp_all add: same_io_def)

text \<open>What the budget of small blocks keeps.\<close>

definition room_kept :: "state \<Rightarrow> state \<Rightarrow> bool" where
  "room_kept s s' \<longleftrightarrow> (\<forall>k. room (mem s) k \<longrightarrow> room (mem s') k)"

lemma room_kept_refl [simp]: "room_kept s s"
  by (simp add: room_kept_def)

lemma room_kept_trans: "room_kept s t \<Longrightarrow> room_kept t u \<Longrightarrow> room_kept s u"
  by (simp add: room_kept_def)

text \<open>Live memory that neither the entries nor the tag index own: the workers' buffers, a query's keys.\<close>

definition loose :: "state \<Rightarrow> addr set" where
  "loose s = live (mem s) - tag_blocks (tag_tree s) - dom (heap s)"

lemma loose_same: "mem s' = mem s \<Longrightarrow> tag_tree s' = tag_tree s \<Longrightarrow> dom (heap s') = dom (heap s) \<Longrightarrow> loose s' = loose s"
  by (simp add: loose_def)

lemma loose_unset_at [simp]: "loose (unset_at i p a s) = loose s"
  by (simp add: loose_def)

lemma same_io_unset_at [simp]: "same_io s (unset_at i p a s)"
  by (simp add: same_io_def unset_at_def)

lemma room_kept_mem: "mem s' = mem s \<Longrightarrow> room_kept s s'"
  by (simp add: room_kept_def)

section \<open>Giving an entry back\<close>

lemma hm_abs_heap_cong:
  assumes "\<And>a. a \<in> occupants m \<Longrightarrow> st' a = st a"
  shows "hm_abs m st' = hm_abs m st" and "key_slots m st' = key_slots m st"
proof -
  have k: "slot_key m st' p = slot_key m st p" if "p < CACHE_ENTRY_MAP_SIZE" for p
  proof (cases "mask m p \<and> entries m p \<noteq> None")
    case True
    then obtain a where a: "mask m p" "entries m p = Some a" by blast
    then have "a \<in> occupants m" using that by (auto simp: occupants_def)
    from assms [OF this] a show ?thesis by (simp add: slot_key_def entry_key_def)
  qed (auto simp: slot_key_def)
  then have "find (\<lambda>p. slot_key m st' p = Some key) ps = find (\<lambda>p. slot_key m st p = Some key) ps"
    if "set ps \<subseteq> {..<CACHE_ENTRY_MAP_SIZE}" for ps key
    using that by (induction ps) auto
  then have "find_key m st' key = find_key m st key" for key
    using set_probe_seq [of "home key"] by (simp add: find_key_def lessThan_def subset_eq)
  then show "hm_abs m st' = hm_abs m st" by (simp add: hm_abs_def fun_eq_iff)
  show "key_slots m st' = key_slots m st" using k by (auto simp: key_slots_def fun_eq_iff)
qed

lemma map_ok_heap_cong:
  assumes "\<And>a. a \<in> occupants m \<Longrightarrow> st' a = st a" and "map_ok m st"
  shows "map_ok m st'"
proof -
  have "st' a = st a" if "p < CACHE_ENTRY_MAP_SIZE" "mask m p" "entries m p = Some a" for p a
    using that assms(1) by (auto simp: occupants_def)
  then show ?thesis using assms(2) unfolding map_ok_def by metis
qed

lemma occupants_occupied: "i < NUM_CACHE_ENTRY_MAPS \<Longrightarrow> a \<in> occupants (entry_maps s i) \<Longrightarrow> a \<in> occupied s"
  by (auto simp: occupied_def)

text \<open>A change of the heap outside the maps is not seen through them.\<close>

lemma heap_outside:
  assumes inv: "core_inv X K s" and h: "\<And>a. a \<in> occupied s \<Longrightarrow> heap s' a = heap s a" and m: "entry_maps s' = entry_maps s"
  shows "cache s' = cache s" and "copies_of s' = copies_of s" and "entry_of s' = entry_of s" and "maps_inv s'"
proof -
  have hm: "hm_abs (entry_maps s i) (heap s') = hm_abs (entry_maps s i) (heap s)"
    "key_slots (entry_maps s i) (heap s') = key_slots (entry_maps s i) (heap s)" if "i < NUM_CACHE_ENTRY_MAPS" for i
    using hm_abs_heap_cong [of "entry_maps s i" "heap s'" "heap s"] h occupants_occupied [OF that] by blast+
  then show e: "entry_of s' = entry_of s" by (simp add: entry_of_def fun_eq_iff m)
  show "copies_of s' = copies_of s" using hm by (simp add: copies_of_def hm_copies_def fun_eq_iff m)
  have "Option.bind (entry_of s key) (\<lambda>a. map_option unlocked_entry (heap s' a)) =
      Option.bind (entry_of s key) (\<lambda>a. map_option unlocked_entry (heap s a))" for key
    using h by (cases "entry_of s key") (auto elim: entry_of_Some)
  then show "cache s' = cache s" by (simp add: cache_def fun_eq_iff e)
  show "maps_inv s'"
    unfolding maps_inv_def m
  proof (intro allI impI conjI ballI)
    fix i assume i: "i < NUM_CACHE_ENTRY_MAPS"
    note I = core_invD(3) [OF inv, unfolded maps_inv_def, rule_format, OF i]
    show "map_ok (entry_maps s i) (heap s')"
      by (rule map_ok_heap_cong [of _ _ "heap s"]) (use h occupants_occupied [OF i] I in blast)+
    fix a assume a: "a \<in> occupants (entry_maps s i)"
    then show "\<exists>e. heap s' a = Some e \<and> map_for_key (e_key e) = i"
      using I h occupants_occupied [OF i] by metis
  qed
qed

lemma release_entry:
  assumes inv: "core_inv X K s" and a: "a \<in> X"
  obtains s' where "unlock_and_release s a = Some s'" "core_inv (X - {a}) (K - {a}) s'" "cache s' = cache s"
    "copies_of s' = copies_of s" "same_io s s'" "room_kept s s'" "tag_tree s' = tag_tree s"
    "occupied s' = occupied s" "heap s' = (heap s)(a := None)" "loose s' = loose s" "entry_maps s' = entry_maps s"
proof -
  note D = core_invD [OF inv]
  have "a \<in> dom (heap s)" using D(4) a by blast
  then obtain e where e: "heap s a = Some e" by blast
  then have "a \<in> live (mem s)" and out: "a \<notin> tag_blocks (tag_tree s)" using D(6) by blast+
  from bmem.release_roomE [OF D(1) this(1)] obtain m where m: "release_memory (mem s) a = Some m" "mem_inv m"
    "live m = live (mem s) - {a}" "\<And>k. room (mem s) k \<Longrightarrow> room m k" by metis
  define s' where "s' = s\<lparr>mem := m, heap := (heap s)(a := None)\<rparr>"
  have "(set_guard False a (heap s))(a := None) = (heap s)(a := None)"
    using e by (simp add: set_guard_def)
  then have run: "unlock_and_release s a = Some s'"
    using e m(1) by (simp add: unlock_and_release_def unlock_entry_def UNLOCK_ENTRY_eq s'_def)
  have occ: "occupied s' = occupied s" by (simp add: occupied_def s'_def)
  have notocc: "a \<notin> occupied s" using D(5) a by blast
  have h: "heap s' c = heap s c" if "c \<in> occupied s" for c
    using that notocc by (auto simp: s'_def)
  have em: "entry_maps s' = entry_maps s" by (simp add: s'_def)
  note O = heap_outside [OF inv h em]
  have "tag_inv m (tag_tree s)" using D(2) out m(3) unfolding tag_inv_def by blast
  moreover have "heap_inv (X - {a}) (K - {a}) s'"
    unfolding heap_inv_def occ
  proof (intro conjI allI impI)
    show "dom (heap s') = occupied s \<union> (X - {a})"
      using D(4) notocc unfolding s'_def by (simp, blast)
    show "occupied s \<inter> (X - {a}) = {}" using D(5) by blast
    show "dom (heap s') \<subseteq> live (mem s') - tag_blocks (tag_tree s')"
      using D(6) unfolding s'_def by (simp add: m(3), blast)
    fix c e assume "heap s' c = Some e"
    then have c: "heap s c = Some e" "c \<noteq> a" by (auto simp: s'_def split: if_splits)
    then show "entry_fine e" and "c \<notin> K - {a} \<Longrightarrow> \<not> guard e" using D(7,8) by blast+
  qed
  ultimately have "core_inv (X - {a}) (K - {a}) s'"
    using m(2) O(4) by (simp add: core_inv_def s'_def)
  moreover have "same_io s s'" "room_kept s s'" using m(4) by (simp_all add: same_io_def room_kept_def s'_def)
  moreover have "loose s' = loose s" unfolding loose_def s'_def using e by (simp add: m(3), blast)
  ultimately show thesis
    using that [OF run] O(1,2) occ by (simp add: s'_def)
qed

section \<open>The tag index\<close>

lemma core_inv_tags:
  assumes inv: "core_inv X K s" and m: "mem_inv m" "tag_inv m t" "tag_frame (mem s) (tag_tree s) m t"
  shows "core_inv X K (s\<lparr>tag_tree := t, mem := m\<rparr>)" and "cache (s\<lparr>tag_tree := t, mem := m\<rparr>) = cache s"
    and "copies_of (s\<lparr>tag_tree := t, mem := m\<rparr>) = copies_of s"
    and "loose (s\<lparr>tag_tree := t, mem := m\<rparr>) = loose s"
proof -
  have fr: "live m - tag_blocks t = live (mem s) - tag_blocks (tag_tree s)" using m(3) by (simp add: tag_frame_def)
  then show "loose (s\<lparr>tag_tree := t, mem := m\<rparr>) = loose s" by (simp add: loose_def)
  from fr have "dom (heap s) \<subseteq> live m - tag_blocks t" using core_invD(6) [OF inv] by simp
  with inv m(1,2) show "core_inv X K (s\<lparr>tag_tree := t, mem := m\<rparr>)"
    unfolding core_inv_def maps_inv_def heap_inv_def occupied_def by simp
  show "cache (s\<lparr>tag_tree := t, mem := m\<rparr>) = cache s" "copies_of (s\<lparr>tag_tree := t, mem := m\<rparr>) = copies_of s"
    by (simp_all add: cache_def entry_of_def copies_of_def fun_eq_iff)
qed

lemma remove_key_from_tags_ok:
  assumes inv: "core_inv X K s"
  obtains s' where "remove_key_from_tags s tags key = Some s'" "core_inv X K s'" "cache s' = cache s"
    "copies_of s' = copies_of s" "same_io s s'" "room_kept s s'" "heap s' = heap s" "entry_maps s' = entry_maps s" "loose s' = loose s"
    "\<And>g. set (keys_of (tag_tree s') g) = set (keys_of (tag_tree s) g) - (if g \<in> set tags then {key} else {})"
proof -
  from tags.remove_all [of "mem s" "tag_tree s" key tags] core_invD(1,2) [OF inv] obtain t m where
    r: "fold_opt (\<lambda>tag (t, m). remove_key_from_tag m t tag key) tags (tag_tree s, mem s) = Some (t, m)"
    "mem_inv m" "tag_inv m t" "tag_frame (mem s) (tag_tree s) m t" "\<forall>k. room (mem s) k \<longrightarrow> room m k"
    "\<forall>g. set (keys_of t g) = set (keys_of (tag_tree s) g) - (if g \<in> set tags then {key} else {})"
    by blast
  note C = core_inv_tags [OF inv r(2-4)]
  show thesis
    by (rule that [of "s\<lparr>tag_tree := t, mem := m\<rparr>"])
      (use r C in \<open>simp_all add: remove_key_from_tags_def room_kept_def\<close>)
qed

lemma add_key_to_tags_ok:
  assumes inv: "core_inv X K s" and len: "name_fine key" "\<forall>tag \<in> set tags. name_fine tag"
    and room: "room (mem s) (2 * length tags + k)"
  obtains s' where "add_key_to_tags s tags key = Some s'" "core_inv X K s'" "cache s' = cache s" "room (mem s') k"
    "copies_of s' = copies_of s" "same_io s s'" "heap s' = heap s" "entry_maps s' = entry_maps s" "loose s' = loose s"
    "\<And>g. set (keys_of (tag_tree s') g) = set (keys_of (tag_tree s) g) \<union> (if g \<in> set tags then {key} else {})"
proof -
  from tags.add_all [of "mem s" "tag_tree s" key tags k] core_invD(1,2) [OF inv] len room obtain t m where
    r: "fold_opt (\<lambda>tag (t, m). add_key_to_tag m t tag key) tags (tag_tree s, mem s) = Some (t, m)"
    "mem_inv m" "tag_inv m t" "tag_frame (mem s) (tag_tree s) m t" "room m k"
    "\<forall>g. set (keys_of t g) = set (keys_of (tag_tree s) g) \<union> (if g \<in> set tags then {key} else {})"
    by auto
  note C = core_inv_tags [OF inv r(2-4)]
  show thesis
    by (rule that [of "s\<lparr>tag_tree := t, mem := m\<rparr>"])
      (use r C in \<open>simp_all add: add_key_to_tags_def\<close>)
qed

section \<open>Putting an entry in\<close>

lemma find_slot_found:
  assumes "find_slot m st key = Some p" and "mask m p"
  shows "find_key m st key = Some p"
proof -
  obtain i where i: "i < CACHE_ENTRY_MAP_SIZE" "probe_seq (home key) ! i = p" "slot_key m st p = Some key"
    "\<And>j. j < i \<Longrightarrow> slot_key m st (probe_seq (home key) ! j) \<noteq> Some key"
    using assms by (auto simp: find_slot_def find_Some_iff)
  then have "find_key m st key = Some (probe_seq (home key) ! i)"
    unfolding find_key_def by (intro find_first_SomeI) auto
  with i(2) show ?thesis by simp
qed

definition put_at :: "nat \<Rightarrow> nat \<Rightarrow> u8 list \<Rightarrow> addr \<Rightarrow> state \<Rightarrow> state" where
  "put_at i p key a s = s\<lparr>entry_maps := (entry_maps s)(i := put_slot (entry_maps s i) p (get_key_hash key) a)\<rparr>"

lemma put_at_simps [simp]:
  "heap (put_at i p key a s) = heap s" "mem (put_at i p key a s) = mem s"
  "tag_tree (put_at i p key a s) = tag_tree s" "same_io s (put_at i p key a s)"
  by (simp_all add: put_at_def same_io_def)

lemma put_at_inv:
  assumes inv: "core_inv X K s" and a: "a \<in> X" "heap s a = Some e"
    and p: "find_slot (entry_maps s (map_for_key (e_key e))) (heap s) (e_key e) = Some p"
  defines "i \<equiv> map_for_key (e_key e)"
  defines "B \<equiv> (if mask (entry_maps s i) p then set_option (entries (entry_maps s i) p) else {})"
  shows "core_inv ((X - {a}) \<union> B) K (put_at i p (e_key e) a s)"
    and "occupied (put_at i p (e_key e) a s) = insert a (occupied s - B)"
    and "entry_of (put_at i p (e_key e) a s) = (entry_of s)(e_key e \<mapsto> a)"
    and "B \<subseteq> occupied s"
proof -
  note D = core_invD [OF inv]
  let ?m = "entry_maps s i" and ?s = "put_at i p (e_key e) a s"
  let ?m' = "put_slot ?m p (get_key_hash (e_key e)) a"
  have i: "i < NUM_CACHE_ENTRY_MAPS" by (simp add: i_def)
  have notocc: "a \<notin> occupied s" using D(5) a(1) by blast
  then have notm: "a \<notin> occupants ?m" using occupants_occupied [OF i] by blast
  have mok: "map_ok ?m (heap s)" using D(3) i by (simp add: maps_inv_def)
  have pl: "p < CACHE_ENTRY_MAP_SIZE" using find_slot_SomeD [OF p] by simp
  have occm: "occupants ?m' = insert a (occupants ?m - B)"
    using occupants_put [OF mok pl] by (simp add: B_def)
  have Bm: "B \<subseteq> occupants ?m" using pl by (auto simp: B_def occupants_def)
  then show Bo: "B \<subseteq> occupied s" using occupants_occupied [OF i] by blast
  define R where "R = (\<Union>j \<in> {..<NUM_CACHE_ENTRY_MAPS} - {i}. occupants (entry_maps s j))"
  have "B \<inter> occupants (entry_maps s j) = {}" if "j \<in> {..<NUM_CACHE_ENTRY_MAPS} - {i}" for j
    using occupants_disjoint [OF D(3) _ i, of j] that Bm by blast
  then have BR: "B \<inter> R = {}" unfolding R_def by blast
  have "occupied s = R \<union> occupants ?m"
    using occupied_upd [OF i, of s ?m] by (simp add: occupied_def R_def)
  moreover have "occupied ?s = R \<union> insert a (occupants ?m - B)"
    using occupied_upd [OF i, of s ?m'] by (simp add: occm put_at_def R_def)
  ultimately show occ: "occupied ?s = insert a (occupied s - B)" using BR by (simp, blast)
  show "entry_of ?s = (entry_of s)(e_key e \<mapsto> a)"
  proof
    fix k
    show "entry_of ?s k = ((entry_of s)(e_key e \<mapsto> a)) k"
      using hm_abs_put [where st = "heap s" and a = a, OF a(2) p]
      by (cases "map_for_key k = i") (auto simp: entry_of_def put_at_def i_def)
  qed
  have "maps_inv ?s"
    unfolding maps_inv_def
  proof (intro allI impI conjI ballI)
    fix j assume j: "j < NUM_CACHE_ENTRY_MAPS"
    note J = D(3) [unfolded maps_inv_def, rule_format, OF j]
    show "map_ok (entry_maps ?s j) (heap ?s)"
      using J map_ok_put [where st = "heap s", OF mok a(2) notm] by (simp add: put_at_def)
    fix c assume c: "c \<in> occupants (entry_maps ?s j)"
    show "\<exists>f. heap ?s c = Some f \<and> map_for_key (e_key f) = j"
    proof (cases "j = i \<and> c = a")
      case True
      then show ?thesis using a(2) by (simp add: i_def)
    next
      case False
      then have "c \<in> occupants (entry_maps s j)" using c occm by (auto simp: put_at_def split: if_splits)
      with J show ?thesis by simp
    qed
  qed
  moreover have "heap_inv ((X - {a}) \<union> B) K ?s"
    unfolding heap_inv_def occ
  proof (intro conjI)
    show "dom (heap ?s) = insert a (occupied s - B) \<union> (X - {a} \<union> B)"
      using D(4) Bo a(1) by (simp, blast)
    show "insert a (occupied s - B) \<inter> (X - {a} \<union> B) = {}" using D(5) Bo notocc by blast
    show "dom (heap ?s) \<subseteq> live (mem ?s) - tag_blocks (tag_tree ?s)" using D(6) by simp
    show "\<forall>c f. heap ?s c = Some f \<longrightarrow> entry_fine f \<and> (c \<notin> K \<longrightarrow> \<not> guard f)" using D(7,8) by simp
  qed
  ultimately show "core_inv ((X - {a}) \<union> B) K ?s" using D(1,2) by (simp add: core_inv_def)
qed

lemma cache_put:
  assumes "entry_of s' = (entry_of s)(e_key e \<mapsto> a)" and "heap s a = Some e"
    and "\<And>c. map_option unlocked_entry (heap s' c) = map_option unlocked_entry (heap s c)"
  shows "cache s' = (cache s)(e_key e \<mapsto> unlocked_entry e)"
  using assms by (auto simp: cache_def fun_eq_iff)

text \<open>Whether the map a key belongs to has no free slot.\<close>

definition map_full :: "state \<Rightarrow> u8 list \<Rightarrow> bool" where
  "map_full s key \<longleftrightarrow> (\<forall>p < CACHE_ENTRY_MAP_SIZE. mask (entry_maps s (map_for_key key)) p)"

text \<open>How many slots of a map are taken.\<close>

definition fill :: "state \<Rightarrow> nat \<Rightarrow> nat" where
  "fill s i = card {p. p < CACHE_ENTRY_MAP_SIZE \<and> mask (entry_maps s i) p}"

lemma fill_cong: "entry_maps s' i = entry_maps s i \<Longrightarrow> fill s' i = fill s i"
  by (simp add: fill_def)

lemma fill_put: "fill (put_at j p key a s) i \<le> fill s i + (if i = j then 1 else 0)"
proof (cases "i = j")
  case True
  let ?A = "{q. q < CACHE_ENTRY_MAP_SIZE \<and> mask (entry_maps s i) q}"
  have "fill (put_at j p key a s) i \<le> card (insert p ?A)"
    unfolding fill_def by (rule card_mono) (auto simp: put_at_def put_slot_def True)
  also have "\<dots> \<le> card ?A + 1" by (simp add: card_insert_if)
  finally show ?thesis using True by (simp add: fill_def)
qed (simp add: fill_def put_at_def)

lemma fill_full:
  assumes "map_full s key"
  shows "fill s (map_for_key key) = CACHE_ENTRY_MAP_SIZE"
proof -
  have "{p. p < CACHE_ENTRY_MAP_SIZE \<and> mask (entry_maps s (map_for_key key)) p} = {..<CACHE_ENTRY_MAP_SIZE}"
    using assms by (auto simp: map_full_def)
  then show ?thesis by (simp add: fill_def)
qed

lemma map_set_cases:
  assumes inv: "core_inv X K s" and K: "K \<inter> occupied s = {}" and a: "a \<in> X" "heap s a = Some e"
  obtains (full) "map_set s a = Some (False, None, s)" "cache s (e_key e) = None" "map_full s (e_key e)"
  | (fresh) s' where "map_set s a = Some (True, None, s')" "core_inv (X - {a}) K s'"
      "cache s' = (cache s)(e_key e \<mapsto> unlocked_entry e)" "heap s' = heap s" "mem s' = mem s" "tag_tree s' = tag_tree s"
      "same_io s s'" "a \<in> occupied s'" "\<And>i. fill s' i \<le> fill s i + (if i = map_for_key (e_key e) then 1 else 0)"
  | (replaced) b old s' where "map_set s a = Some (True, Some b, s')" "core_inv (insert b (X - {a})) (insert b K) s'"
      "heap s b = Some old" "e_key old = e_key e" "cache s (e_key e) = Some (unlocked_entry old)"
      "cache s' = (cache s)(e_key e \<mapsto> unlocked_entry e)" "heap s' = set_guard True b (heap s)"
      "mem s' = mem s" "tag_tree s' = tag_tree s" "same_io s s'" "a \<in> occupied s'" "b \<noteq> a"
      "\<And>i. fill s' i \<le> fill s i + (if i = map_for_key (e_key e) then 1 else 0)"
proof -
  let ?i = "map_for_key (e_key e)"
  let ?m = "entry_maps s ?i"
  have i: "?i < NUM_CACHE_ENTRY_MAPS" by simp
  have "K \<inter> occupants ?m = {}" using K occupants_occupied [OF i] by blast
  from hm_ok_map [OF inv i this] have mok: "map_ok ?m (heap s)" and un: "unlocked (heap s) (occupants ?m)"
    by (auto simp: hm_ok_def)
  have notocc: "a \<notin> occupied s" using core_invD(5) [OF inv] a(1) by blast
  then have "a \<notin> occupants ?m" using occupants_occupied [OF i] by blast
  note eq = set_locked_eq [where st = "heap s", OF mok un a(2) this]
  show thesis
  proof (cases "find_slot ?m (heap s) (e_key e)")
    case None
    then have "entry_of s (e_key e) = None"
      by (simp add: entry_of_def hm_abs_None find_key_None find_slot_None)
    moreover have "map_full s (e_key e)" using None by (simp add: map_full_def find_slot_None)
    ultimately show thesis using eq None full a(2) by (simp add: map_set_def Let_def entry_of_None)
  next
    case (Some p)
    note P = put_at_inv [OF inv a Some]
    let ?s = "put_at ?i p (e_key e) a s"
    show thesis
    proof (cases "mask ?m p")
      case False
      then have "map_set s a = Some (True, None, ?s)"
        using eq Some a(2) by (simp add: map_set_def Let_def put_at_def)
      moreover have "core_inv (X - {a}) K ?s" "a \<in> occupied ?s" using P(1,2) False by simp_all
      moreover have "cache ?s = (cache s)(e_key e \<mapsto> unlocked_entry e)"
        by (rule cache_put [OF P(3) a(2)]) simp
      ultimately show thesis by (intro fresh [OF _ _ _ _ _ _ _ _ fill_put]) simp_all
    next
      case True
      obtain b old where b: "entries ?m p = Some b" "heap s b = Some old" "e_key old = e_key e"
        using find_slot_SomeD [OF Some] True by (auto elim: slot_key_SomeE)
      have "entry_of s (e_key e) = Some b"
        using find_slot_found [OF Some True] b(1) by (simp add: entry_of_def hm_abs_def)
      then have vis: "cache s (e_key e) = Some (unlocked_entry old)" using b(2) by (simp add: cache_def)
      let ?t = "?s\<lparr>heap := set_guard True b (heap s)\<rparr>"
      have run: "map_set s a = Some (True, Some b, ?t)"
        using eq Some a(2) b(1) True by (simp add: map_set_def Let_def put_at_def)
      have B: "(X - {a}) \<union> (if mask ?m p then set_option (entries ?m p) else {}) = insert b (X - {a})"
        using True b(1) by simp
      have inv1: "core_inv (insert b (X - {a})) K ?s" using P(1) unfolding B .
      have ent: "entry_of ?t = entry_of ?s" using core_inv_lock(2) [OF inv1, of True b] by simp
      have bo: "b \<in> occupied s" using P(4) True b(1) by simp
      have full: "fill ?t i \<le> fill s i + (if i = ?i then 1 else 0)" for i
      proof -
        have "fill ?t i = fill ?s i" by (rule fill_cong) simp
        then show ?thesis using fill_put by (rule ord_eq_le_trans)
      qed
      have "cache ?t = (cache s)(e_key e \<mapsto> unlocked_entry e)"
        by (rule cache_put [OF _ a(2)]) (simp_all add: ent P(3))
      moreover have "core_inv (insert b (X - {a})) (insert b K) ?t" using core_inv_lock(1) [OF inv1, of b] by simp
      moreover have "a \<in> occupied ?t" using P(2) by (simp add: occupied_def)
      moreover have "b \<noteq> a" using bo notocc by blast
      moreover have "same_io s ?t" by (simp add: same_io_def put_at_def)
      ultimately show thesis
        using run b(2,3) vis by (intro replaced [of b ?t old, OF _ _ _ _ _ _ _ _ _ _ _ _ full]) simp_all
    qed
  qed
qed

end
