(* ===== verification/Cik_Cache_Ops.thy ===== *)
theory Cik_Cache_Ops
  imports Cik_Core_Ops
begin

text \<open>
  The steps the request handlers share, in terms of the cache: logging, reading the cache, deleting a key
  with all its copies, publishing a new entry, and clearing entries during a walk over all maps.
\<close>

section \<open>What a request leaves alone\<close>

text \<open>Everything of the requests' side but the log queues.\<close>

definition io_kept :: "state \<Rightarrow> state \<Rightarrow> bool" where
  "io_kept s s' \<longleftrightarrow> (\<forall>w. \<exists>q. workers s' w = (workers s w)\<lparr>log_queue := q\<rparr>) \<and> clients s' = clients s \<and>
     current_client s' = current_client s \<and> clock s' = clock s \<and> clock_calls s' = clock_calls s \<and>
     ticks s' = ticks s \<and> tick_calls s' = tick_calls s"

lemma same_io_kept: "same_io s s' \<Longrightarrow> io_kept s s'"
proof -
  have "\<exists>q. w = w\<lparr>log_queue := q\<rparr>" for w :: Worker by (cases w) auto
  then show "same_io s s' \<Longrightarrow> io_kept s s'" by (simp add: same_io_def io_kept_def)
qed

lemma io_kept_refl [simp]: "io_kept s s"
  by (simp add: same_io_kept)

lemma io_kept_trans:
  assumes "io_kept s t" "io_kept t u"
  shows "io_kept s u"
proof -
  have "\<exists>q. workers u w = (workers s w)\<lparr>log_queue := q\<rparr>" for w
  proof -
    obtain q where q: "workers t w = (workers s w)\<lparr>log_queue := q\<rparr>" using assms(1) unfolding io_kept_def by blast
    obtain r where "workers u w = (workers t w)\<lparr>log_queue := r\<rparr>" using assms(2) unfolding io_kept_def by blast
    then have "workers u w = (workers s w)\<lparr>log_queue := r\<rparr>" by (simp add: q)
    then show ?thesis ..
  qed
  then show ?thesis using assms by (simp add: io_kept_def)
qed

lemma io_keptD:
  assumes "io_kept s s'"
  shows "clients s' = clients s" "current_client s' = current_client s"
    "payload_buffer (workers s' w) = payload_buffer (workers s w)"
    "w_counters (workers s' w) = w_counters (workers s w)"
    "clock s' = clock s" "clock_calls s' = clock_calls s"
proof -
  obtain q where "workers s' w = (workers s w)\<lparr>log_queue := q\<rparr>" using assms by (auto simp: io_kept_def)
  then show "payload_buffer (workers s' w) = payload_buffer (workers s w)"
    "w_counters (workers s' w) = w_counters (workers s w)" by simp_all
qed (use assms in \<open>simp_all add: io_kept_def\<close>)

section \<open>Logging\<close>

lemma log_with_ok:
  assumes "worker (clients s c) = Some w" and "\<And>q who. f q who \<noteq> None"
  obtains s' where "log_with s c f = Some s'" "same_core s s'" "io_kept s s'"
proof -
  obtain b q where q: "f (log_queue (workers s w)) (w_id (workers s w), sin_addr (clients s c), sin_port (clients s c)) = Some (b, q)"
    using assms(2) by (metis not_None_eq surj_pair)
  let ?s = "upd_worker w (log_queue_update (\<lambda>_. q)) s"
  have "\<exists>q. x = x\<lparr>log_queue := q\<rparr>" for x :: Worker by (cases x) auto
  then have "io_kept s ?s" by (auto simp: io_kept_def upd_worker_def)
  then show thesis using that [of ?s] q assms(1) by (simp add: log_with_def same_core_def)
qed

lemma log_key_defined:
  assumes "length key \<le> 255"
  shows "log_request_get_hit q who key \<noteq> None" "log_request_get_miss q who key \<noteq> None"
    "log_request_set q who key \<noteq> None" "log_request_del q who key \<noteq> None" "log_request_nfo_key q who key \<noteq> None"
  using assms by (simp_all add: log_request_get_hit_def log_request_get_miss_def log_request_set_def
      log_request_del_def log_request_nfo_key_def log_request_with_key_def sizeof_log_data_def)

section \<open>Deleting a key\<close>

lemma delete_copies_ok:
  assumes "core_inv {a} {a} s"
  shows "\<exists>s'. delete_copies s key a = Some s' \<and> sys_inv s' \<and> cache s' = (cache s)(key := None) \<and> same_io s s' \<and>
    room_kept s s' \<and> tag_tree s' = tag_tree s \<and> loose s' = loose s"
  using assms
proof (induction "copies_of s key" arbitrary: s a rule: less_induct)
  case less
  obtain s1 where s1: "unlock_and_release s a = Some s1" "sys_inv s1" "cache s1 = cache s" "copies_of s1 = copies_of s"
    "same_io s s1" "room_kept s s1" "tag_tree s1 = tag_tree s" "loose s1 = loose s"
    by (rule release_entry [OF less.prems, of a]) auto
  show ?case
  proof (cases rule: map_unset_eq [OF s1(2), of key])
    case 2
    then have "delete_copies s key a = Some s1" using s1(1) by (subst delete_copies.simps) simp
    moreover have "cache s1 = (cache s)(key := None)" using 2 s1(3) by (simp add: fun_eq_iff)
    ultimately show ?thesis using s1 by simp
  next
    case (3 i p b e)
    let ?t = "unset_at i p b s1"
    have "copies_of ?t key < copies_of s key" using 3(8) s1(4) by simp
    moreover have "core_inv {b} {b} ?t" using 3(6) .
    ultimately obtain s' where s': "delete_copies ?t key b = Some s'" "sys_inv s'" "cache s' = (cache ?t)(key := None)"
      "same_io ?t s'" "room_kept ?t s'" "tag_tree s' = tag_tree ?t" "loose s' = loose ?t"
      using less.hyps by blast
    have "delete_copies s key a = Some s'" using s1(1) 3(1) s'(1) by (subst delete_copies.simps) simp
    moreover have "cache s' = (cache s)(key := None)" using s'(3) 3(9) s1(3) by (auto simp: fun_eq_iff)
    moreover have "same_io s s'"
      using s1(5) s'(4) same_io_unset_at same_io_trans by blast
    moreover have "room_kept s s'"
      using s1(6) s'(5) by (simp add: room_kept_def)
    ultimately show ?thesis using s' s1(7,8) by auto
  qed simp
qed

text \<open>The keys a state's index may still give for a tag.\<close>

definition indexed :: "state \<Rightarrow> bool" where
  "indexed s \<longleftrightarrow> (\<forall>key e tag. cache s key = Some e \<longrightarrow> tag \<in> set (e_tags e) \<longrightarrow> key \<in> set (keys_of (tag_tree s) tag))"

lemma delete_entry_ok:
  assumes inv: "sys_inv s" and c: "current_client s = Some c" "worker (clients s c) = Some w" and key: "length key \<le> 255"
  obtains s' where "delete_entry_by_key s key =
      Some (if cache s key = None then STATUS_NOT_FOUND else STATUS_OK, s')"
    "sys_inv s'" "cache s' = (cache s)(key := None)" "io_kept s s'" "room_kept s s'" "loose s' = loose s"
    "indexed s \<Longrightarrow> indexed s'" "\<And>g. set (keys_of (tag_tree s') g) \<subseteq> set (keys_of (tag_tree s) g)"
proof -
  obtain s1 where s1: "log_with s c (\<lambda>q who. log_request_del q who key) = Some s1" "same_core s s1" "io_kept s s1"
    by (rule log_with_ok [where f = "\<lambda>q who. log_request_del q who key", OF c(2)]) (use log_key_defined(4) [OF key] in auto)
  have inv1: "sys_inv s1" and cache1: "cache s1 = cache s" using same_core_inv same_core_cache s1(2) inv by auto
  have core: "mem s1 = mem s" "tag_tree s1 = tag_tree s" "heap s1 = heap s" using s1(2) by (simp_all add: same_core_def)
  show thesis
  proof (cases rule: map_unset_eq [OF inv1, of key])
    case 2
    then have "cache s key = None" using cache1 by simp
    then have "(cache s)(key := None) = cache s" by auto
    moreover have "delete_entry_by_key s key = Some (STATUS_NOT_FOUND, s1)"
      using c s1(1) 2(1) by (simp add: delete_entry_by_key_def)
    moreover have "indexed s1" if "indexed s" using that by (simp add: indexed_def cache1 core)
    moreover have "room_kept s s1" "loose s1 = loose s" by (simp_all add: room_kept_def loose_def core)
    ultimately show thesis
      by (intro that [of s1]) (simp_all only: inv1 cache1 s1(3) core \<open>cache s key = None\<close> order_refl if_P refl)
  next
    case (3 i p a e)
    let ?t = "unset_at i p a s1"
    have at: "heap ?t a = Some (e\<lparr>guard := True\<rparr>)" using 3(2) by (simp add: set_guard_same)
    obtain s3 where s3: "remove_key_from_tags ?t (e_tags e) key = Some s3" "core_inv {a} {a} s3"
      "cache s3 = cache ?t" "same_io ?t s3" "room_kept ?t s3" "loose s3 = loose ?t"
      "\<And>g. set (keys_of (tag_tree s3) g) = set (keys_of (tag_tree ?t) g) - (if g \<in> set (e_tags e) then {key} else {})"
      by (rule remove_key_from_tags_ok [OF 3(6), of "e_tags e" key]) blast
    obtain s4 where s4: "delete_copies s3 key a = Some s4" "sys_inv s4" "cache s4 = (cache s3)(key := None)"
      "same_io s3 s4" "room_kept s3 s4" "tag_tree s4 = tag_tree s3" "loose s4 = loose s3"
      using delete_copies_ok [OF s3(2)] by blast
    have vis: "cache s key \<noteq> None" using 3(4) cache1 by simp
    have run: "delete_entry_by_key s key = Some (STATUS_OK, s4)"
      using c s1(1) 3(1,3) at s3(1) s4(1) by (simp add: delete_entry_by_key_def)
    have c4: "cache s4 = (cache s)(key := None)" using s4(3) s3(3) 3(9) cache1 by (auto simp: fun_eq_iff)
    have "io_kept s s4"
      by (rule io_kept_trans [OF s1(3) same_io_kept]) (use s3(4) s4(4) same_io_unset_at same_io_trans in blast)
    moreover have "room_kept s s4"
      using s3(5) s4(5) core(1) by (simp add: room_kept_def)
    moreover have "loose s4 = loose s"
      using s4(7) s3(6) loose_same [OF core(1,2)] core(3) by simp
    moreover have keys: "set (keys_of (tag_tree s4) g) = set (keys_of (tag_tree s) g) - (if g \<in> set (e_tags e) then {key} else {})" for g
      using s3(7) s4(6) core(2) by simp
    moreover have "indexed s4" if "indexed s"
      using that c4 keys unfolding indexed_def by (auto split: if_splits)
    ultimately show thesis using that [of s4] run vis s4(2) c4 by auto
  qed simp
qed

section \<open>Publishing an entry\<close>

lemma publish_entry_ok:
  assumes inv: "core_inv {a} {a} s" and a: "heap s a = Some e" and room: "room (mem s) (2 * length (e_tags e) + k)"
  obtains (full) s' where "publish_entry s a = Some (STATUS_OUT_OF_MEMORY, s')" "sys_inv s'" "cache s' = cache s"
      "cache s (e_key e) = None" "map_full s (e_key e)" "same_io s s'" "tag_tree s' = tag_tree s" "loose s' = loose s"
  | (stored) s' where "publish_entry s a = Some (STATUS_OK, s')" "sys_inv s'"
      "cache s' = (cache s)(e_key e \<mapsto> unlocked_entry e)" "same_io s s'" "indexed s \<Longrightarrow> indexed s'" "loose s' = loose s"
      "\<And>g k. k \<in> set (keys_of (tag_tree s') g) \<Longrightarrow> k \<in> set (keys_of (tag_tree s) g) \<or> (k = e_key e \<and> g \<in> set (e_tags e))"
      "room (mem s') k" "\<And>i. fill s' i \<le> fill s i + (if i = map_for_key (e_key e) then 1 else 0)"
proof -
  note D = core_invD [OF inv]
  have K: "{a} \<inter> occupied s = {}" using D(5) by blast
  have fine: "name_fine (e_key e)" "\<forall>tag \<in> set (e_tags e). name_fine tag"
    using D(7) [OF a] by (rule fine_names)+
  have finish: thesis
    if s2: "core_inv {} {a} s2" "cache s2 = (cache s)(e_key e \<mapsto> unlocked_entry e)" "same_io s s2" "room_kept s s2"
      "heap s2 a = Some f" "loose s2 = loose s"
      and run: "publish_entry s a = Option.bind (add_key_to_tags s2 (e_tags e) (e_key e))
        (\<lambda>s3. Option.bind (unlock_entry s3 a) (\<lambda>s4. Some (STATUS_OK, s4)))"
      and keys: "\<And>g. set (keys_of (tag_tree s2) g) = set (keys_of (tag_tree s) g) - B g"
      and B: "\<And>g. B g \<subseteq> {e_key e}"
      and full: "\<And>i. fill s2 i \<le> fill s i + (if i = map_for_key (e_key e) then 1 else 0)" for s2 f B
  proof -
    have "room (mem s2) (2 * length (e_tags e) + k)" using room s2(4) by (simp add: room_kept_def)
    from add_key_to_tags_ok [OF s2(1) fine this] obtain s3 where
      s3: "add_key_to_tags s2 (e_tags e) (e_key e) = Some s3" "core_inv {} {a} s3" "cache s3 = cache s2" "same_io s2 s3"
      "heap s3 = heap s2" "loose s3 = loose s2" "entry_maps s3 = entry_maps s2" "room (mem s3) k"
      "\<And>g. set (keys_of (tag_tree s3) g) = set (keys_of (tag_tree s2) g) \<union> (if g \<in> set (e_tags e) then {e_key e} else {})"
      by metis
    have at: "heap s3 a = Some f" using s2(5) s3(5) by simp
    let ?s4 = "s3\<lparr>heap := set_guard False a (heap s3)\<rparr>"
    note U = unlock_entry_eq [OF s3(2) at]
    have c4: "cache ?s4 = (cache s)(e_key e \<mapsto> unlocked_entry e)" using U(3) s3(3) s2(2) by simp
    have k4: "set (keys_of (tag_tree ?s4) g) = set (keys_of (tag_tree s) g) - B g \<union> (if g \<in> set (e_tags e) then {e_key e} else {})" for g
      using s3(9) keys by simp
    have "indexed ?s4" if "indexed s"
      unfolding indexed_def
    proof (intro allI impI)
      fix k x tag assume x: "cache ?s4 k = Some x" "tag \<in> set (e_tags x)"
      show "k \<in> set (keys_of (tag_tree ?s4) tag)"
      proof (cases "k = e_key e")
        case True
        then have "x = unlocked_entry e" using x(1) c4 by simp
        then have "tag \<in> set (e_tags e)" using x(2) by (simp add: unlocked_entry_def)
        then show ?thesis using True unfolding k4 by simp
      next
        case False
        then have "cache s k = Some x" using x(1) c4 by simp
        then have "k \<in> set (keys_of (tag_tree s) tag)" using that x(2) unfolding indexed_def by blast
        then show ?thesis using False B [of tag] unfolding k4 by blast
      qed
    qed
    moreover have "publish_entry s a = Some (STATUS_OK, ?s4)" using run s3(1) U(1) by simp
    moreover have "same_io s ?s4" using s2(3) s3(4) by (simp add: same_io_def)
    moreover have "loose ?s4 = loose s" using s3(6) s2(6) by (simp add: loose_def)
    moreover have "sys_inv ?s4" using U(2) by simp
    moreover have "k \<in> set (keys_of (tag_tree s) g) \<or> (k = e_key e \<and> g \<in> set (e_tags e))"
      if "k \<in> set (keys_of (tag_tree ?s4) g)" for g k
      using that unfolding k4 by (auto split: if_splits)
    moreover have "room (mem ?s4) k" using s3(8) by simp
    moreover have "fill ?s4 i \<le> fill s i + (if i = map_for_key (e_key e) then 1 else 0)" for i
      using full [of i] fill_cong [of ?s4 i s2] s3(7) by simp
    ultimately show thesis using stored [of ?s4] c4 by blast
  qed
  show thesis
  proof (cases rule: map_set_cases [OF inv K _ a])
    case 2
    obtain s' where "unlock_and_release s a = Some s'" "sys_inv s'" "cache s' = cache s" "same_io s s'"
      "tag_tree s' = tag_tree s" "loose s' = loose s"
      by (rule release_entry [OF inv, of a]) auto
    then show thesis using full [of s'] 2 a by (simp add: publish_entry_def)
  next
    case (3 s2)
    show thesis
    proof (rule finish [of s2 e "\<lambda>_. {}"])
      show "core_inv {} {a} s2" using 3(2) by simp
      show "room_kept s s2" by (rule room_kept_mem) (rule 3(5))
      show "loose s2 = loose s" by (rule loose_same) (simp_all add: 3)
      show "publish_entry s a = Option.bind (add_key_to_tags s2 (e_tags e) (e_key e))
        (\<lambda>s3. Option.bind (unlock_entry s3 a) (\<lambda>s4. Some (STATUS_OK, s4)))"
        using a 3(1) by (simp add: publish_entry_def)
    qed (simp_all add: 3 a)
  next
    case (4 b old s1)
    have i1: "core_inv {b} {b, a} s1" using 4(2) by simp
    have bt: "heap s1 b = Some (old\<lparr>guard := True\<rparr>)" using 4(3,7) by (simp add: set_guard_same)
    obtain s' where s': "remove_key_from_tags s1 (e_tags old) (e_key e) = Some s'" "core_inv {b} {b, a} s'"
      "cache s' = cache s1" "same_io s1 s'" "room_kept s1 s'" "heap s' = heap s1" "loose s' = loose s1" "entry_maps s' = entry_maps s1"
      "\<And>g. set (keys_of (tag_tree s') g) = set (keys_of (tag_tree s1) g) - (if g \<in> set (e_tags old) then {e_key e} else {})"
      by (rule remove_key_from_tags_ok [OF i1, of "e_tags old" "e_key e"]) blast
    obtain s2 where s2: "unlock_and_release s' b = Some s2" "core_inv ({b} - {b}) ({b, a} - {b}) s2" "cache s2 = cache s'"
      "same_io s' s2" "room_kept s' s2" "tag_tree s2 = tag_tree s'" "heap s2 = (heap s')(b := None)" "loose s2 = loose s'"
      "entry_maps s2 = entry_maps s'"
      by (rule release_entry [OF s'(2), of b]) auto
    have diff: "{b, a} - {b} = {a}" using 4(12) by auto
    have ha: "heap s2 a = Some e" using s2(7) s'(6) 4(7,12) a by simp
    have lo: "loose s1 = loose s" by (rule loose_same) (use 4 in simp_all)
    show thesis
    proof (rule finish [of s2 e "\<lambda>g. if g \<in> set (e_tags old) then {e_key e} else {}"])
      show "core_inv {} {a} s2" using s2(2) diff by simp
      show "cache s2 = (cache s)(e_key e \<mapsto> unlocked_entry e)" using s2(3) s'(3) 4(6) by simp
      show "same_io s s2" using 4(10) s'(4) s2(4) by (simp add: same_io_def)
      show "room_kept s s2" using s'(5) s2(5) 4(8) by (simp add: room_kept_def)
      show "publish_entry s a = Option.bind (add_key_to_tags s2 (e_tags e) (e_key e))
        (\<lambda>s3. Option.bind (unlock_entry s3 a) (\<lambda>s4. Some (STATUS_OK, s4)))"
        using a 4(1,4) bt s'(1) s2(1) by (simp add: publish_entry_def)
      show "fill s2 i \<le> fill s i + (if i = map_for_key (e_key e) then 1 else 0)" for i
        using 4(13) [of i] fill_cong [of s2 i s1] s2(9) s'(8) by simp
    qed (use ha s2(6,8) s'(7,9) 4(9) lo in simp_all)
  qed simp
qed

end
