(* ===== verification/Cik_Clear.thy ===== *)
theory Cik_Clear
  imports Cik_Cache_Ops
begin

text \<open>
  The walks of \<open>CLR\<close>: a callback that clears the entries satisfying a predicate and leaves the
  others, over all maps. While a map is walked its current content is the walk's and not the state's; the
  callbacks do not look at the maps, so what they do can be read on the state in which the slot is already
  free.
\<close>

section \<open>The callback\<close>

lemma entry_maps_commute:
  "log_with (s\<lparr>entry_maps := f\<rparr>) c g = map_option (entry_maps_update (\<lambda>_. f)) (log_with s c g)"
  "remove_key_from_tags (s\<lparr>entry_maps := f\<rparr>) tags key = map_option (entry_maps_update (\<lambda>_. f)) (remove_key_from_tags s tags key)"
  "unlock_and_release (s\<lparr>entry_maps := f\<rparr>) a = map_option (entry_maps_update (\<lambda>_. f)) (unlock_and_release s a)"
proof -
  show "log_with (s\<lparr>entry_maps := f\<rparr>) c g = map_option (entry_maps_update (\<lambda>_. f)) (log_with s c g)"
  proof (cases "worker (clients s c)")
    case (Some w)
    then show ?thesis
      by (cases "g (log_queue (workers s w)) (w_id (workers s w), sin_addr (clients s c), sin_port (clients s c))")
        (auto simp: log_with_def upd_worker_def)
  qed (simp add: log_with_def)
  show "remove_key_from_tags (s\<lparr>entry_maps := f\<rparr>) tags key = map_option (entry_maps_update (\<lambda>_. f)) (remove_key_from_tags s tags key)"
    by (cases "fold_opt (\<lambda>tag (t, m). remove_key_from_tag m t tag key) tags (tag_tree s, mem s)")
      (auto simp: remove_key_from_tags_def)
  show "unlock_and_release (s\<lparr>entry_maps := f\<rparr>) a = map_option (entry_maps_update (\<lambda>_. f)) (unlock_and_release s a)"
    by (cases "UNLOCK_ENTRY (heap s) a"; cases "release_memory (mem s) a")
      (auto simp: unlock_and_release_def unlock_entry_def)
qed

lemma clear_all_commute:
  "clear_all_callback a (s\<lparr>entry_maps := f\<rparr>, d) =
   map_option (\<lambda>(b, s', d'). (b, s'\<lparr>entry_maps := f\<rparr>, d')) (clear_all_callback a (s, d))"
proof (cases "heap s a = None \<or> current_client s = None")
  case False
  then obtain e c where e: "heap s a = Some e" "current_client s = Some c" by auto
  show ?thesis
  proof (cases "log_with s c (\<lambda>q who. log_request_del q who (e_key e))")
    case (Some s1)
    show ?thesis
    proof (cases "remove_key_from_tags s1 (e_tags e) (e_key e)")
      case (Some s2)
      then show ?thesis using e \<open>log_with s c _ = Some s1\<close>
        by (cases "unlock_and_release s2 a") (simp_all add: clear_all_callback_def entry_maps_commute)
    qed (use e \<open>log_with s c _ = Some s1\<close> in \<open>simp add: clear_all_callback_def entry_maps_commute\<close>)
  qed (use e in \<open>simp add: clear_all_callback_def entry_maps_commute\<close>)
qed (auto simp: clear_all_callback_def)

lemma clear_all_ok:
  assumes inv: "core_inv {a} {a} s" and a: "heap s a = Some e"
    and c: "current_client s = Some c" "worker (clients s c) = Some w"
  obtains s' where "clear_all_callback a (s, d) = Some (True, s', d)" "sys_inv s'" "cache s' = cache s" "io_kept s s'"
    "loose s' = loose s" "heap s' = (heap s)(a := None)" "entry_maps s' = entry_maps s"
    "\<And>g. set (keys_of (tag_tree s') g) \<subseteq> set (keys_of (tag_tree s) g)"
proof -
  have key: "length (e_key e) \<le> 255" using core_invD(7) [OF inv a] by (simp add: entry_fine_def)
  obtain s1 where s1: "log_with s c (\<lambda>q who. log_request_del q who (e_key e)) = Some s1" "same_core s s1" "io_kept s s1"
    by (rule log_with_ok [where f = "\<lambda>q who. log_request_del q who (e_key e)", OF c(2)])
      (use log_key_defined(4) [OF key] in auto)
  have inv1: "core_inv {a} {a} s1" and cache1: "cache s1 = cache s" using same_core_inv same_core_cache s1(2) inv by auto
  have core: "mem s1 = mem s" "tag_tree s1 = tag_tree s" "heap s1 = heap s" "entry_maps s1 = entry_maps s"
    using s1(2) by (simp_all add: same_core_def)
  obtain s2 where s2: "remove_key_from_tags s1 (e_tags e) (e_key e) = Some s2" "core_inv {a} {a} s2" "cache s2 = cache s1"
    "same_io s1 s2" "heap s2 = heap s1" "entry_maps s2 = entry_maps s1" "loose s2 = loose s1"
    "\<And>g. set (keys_of (tag_tree s2) g) = set (keys_of (tag_tree s1) g) - (if g \<in> set (e_tags e) then {e_key e} else {})"
    by (rule remove_key_from_tags_ok [OF inv1, of "e_tags e" "e_key e"]) blast
  obtain s3 where s3: "unlock_and_release s2 a = Some s3" "core_inv ({a} - {a}) ({a} - {a}) s3" "cache s3 = cache s2"
    "same_io s2 s3" "tag_tree s3 = tag_tree s2" "heap s3 = (heap s2)(a := None)" "loose s3 = loose s2"
    "entry_maps s3 = entry_maps s2"
    by (rule release_entry [OF s2(2), of a]) auto
  have "loose s1 = loose s" by (simp add: loose_def core)
  moreover have "io_kept s s3"
    by (rule io_kept_trans [OF s1(3) same_io_kept]) (rule same_io_trans [OF s2(4) s3(4)])
  moreover have "set (keys_of (tag_tree s3) g) \<subseteq> set (keys_of (tag_tree s) g)" for g
    unfolding s3(5) s2(8) core(2) by blast
  ultimately show thesis
    by (intro that [of s3]) (use a c s1(1) s2 s3 cache1 core in \<open>simp_all add: clear_all_callback_def\<close>)
qed

section \<open>The walk\<close>

definition cleared :: "(CacheEntry \<Rightarrow> bool) \<Rightarrow> state \<Rightarrow> state \<Rightarrow> bool" where
  "cleared P s0 s \<longleftrightarrow> sys_inv s \<and> io_kept s0 s \<and> loose s = loose s0 \<and>
     (\<forall>a e. heap s a = Some e \<longrightarrow> heap s0 a = Some e) \<and>
     (\<forall>a e. heap s0 a = Some e \<longrightarrow> \<not> P e \<longrightarrow> heap s a = Some e) \<and>
     (\<forall>key e. cache s0 key = Some e \<longrightarrow> \<not> P e \<longrightarrow> cache s key = Some e) \<and>
     (\<forall>g. set (keys_of (tag_tree s) g) \<subseteq> set (keys_of (tag_tree s0) g))"

lemma cleared_refl: "sys_inv s \<Longrightarrow> cleared P s s"
  by (simp add: cleared_def)

lemma clearedD:
  assumes "cleared P s0 s"
  shows "sys_inv s" "io_kept s0 s" "loose s = loose s0" "heap s a = Some e \<Longrightarrow> heap s0 a = Some e"
    "heap s0 a = Some e \<Longrightarrow> \<not> P e \<Longrightarrow> heap s a = Some e"
    "cache s0 key = Some e \<Longrightarrow> \<not> P e \<Longrightarrow> cache s key = Some e"
    "set (keys_of (tag_tree s) g) \<subseteq> set (keys_of (tag_tree s0) g)"
  using assms unfolding cleared_def by blast+

text \<open>One slot: its entry satisfies \<open>P\<close> and is taken out and cleared.\<close>

lemma clear_slot:
  assumes cl: "cleared P s0 s" and P: "\<And>e. P (unlocked_entry e) = P e"
    and i: "i < NUM_CACHE_ENTRY_MAPS" and p: "p < CACHE_ENTRY_MAP_SIZE"
    and a: "mask (entry_maps s i) p" "entries (entry_maps s i) p = Some a" "heap s a = Some e" "P e"
    and c: "current_client s = Some c" "worker (clients s c) = Some w"
  obtains s' where "clear_all_callback a (unset_at i p a s, d) = Some (True, s', d)" "cleared P s0 s'"
    "entry_maps s' = (entry_maps s)(i := unset_slot (entry_maps s i) p)"
proof -
  note D = clearedD [OF cl]
  let ?t = "unset_at i p a s"
  have inv: "core_inv {a} {a} ?t" using unset_at_inv(1) [OF D(1) i p a(1,2)] .
  have at: "heap ?t a = Some (e\<lparr>guard := True\<rparr>)" using a(3) by (simp add: set_guard_same)
  have ct: "current_client ?t = Some c" "worker (clients ?t c) = Some w" using c by (simp_all add: unset_at_def)
  from clear_all_ok [OF inv at ct, of d] obtain s' where s': "clear_all_callback a (?t, d) = Some (True, s', d)" "sys_inv s'"
    "cache s' = cache ?t" "io_kept ?t s'" "loose s' = loose ?t" "heap s' = (heap ?t)(a := None)" "entry_maps s' = entry_maps ?t"
    "\<And>g. set (keys_of (tag_tree s') g) \<subseteq> set (keys_of (tag_tree ?t) g)" by metis
  have h: "heap s' = (heap s)(a := None)" unfolding s'(6) by (auto simp: set_guard_def a(3))
  have "cache s' key = Some f" if f: "cache s0 key = Some f" "\<not> P f" for key f
  proof -
    have cf: "cache s key = Some f" using D(6) [OF f] .
    have "entry_of s key \<noteq> Some a"
    proof
      assume "entry_of s key = Some a"
      then have "f = unlocked_entry e" using cf a(3) by (simp add: cache_def)
      with f(2) a(4) P show False by simp
    qed
    from unset_at_cache(2) [OF a(1-3) this cf] show ?thesis using s'(3) by simp
  qed
  moreover have "heap s' b = Some f" if f: "heap s0 b = Some f" "\<not> P f" for b f
  proof -
    have "heap s b = Some f" using D(5) [OF f] .
    with a(3,4) f(2) h show ?thesis by (cases "b = a") auto
  qed
  moreover have "heap s0 b = Some f" if "heap s' b = Some f" for b f
    using that D(4) [of b f] h by (simp split: if_splits)
  moreover have "io_kept s0 s'" using D(2) s'(4) io_kept_trans same_io_kept same_io_unset_at by blast
  moreover have "set (keys_of (tag_tree s') g) \<subseteq> set (keys_of (tag_tree s0) g)" for g
    using s'(8) [of g] D(7) [of g] by simp
  moreover have "loose s' = loose s0" using s'(5) D(3) by simp
  ultimately have "cleared P s0 s'" using s'(2) unfolding cleared_def by blast
  then show thesis using that [of s'] s'(1,7) by (simp add: unset_at_def)
qed

definition bad :: "(CacheEntry \<Rightarrow> bool) \<Rightarrow> state \<Rightarrow> addr set" where
  "bad P s = {a. \<exists>e. heap s a = Some e \<and> P e}"

definition clears :: "(CacheEntry \<Rightarrow> bool) \<Rightarrow> (addr \<Rightarrow> state \<times> 'd \<Rightarrow> (bool \<times> state \<times> 'd) option) \<Rightarrow> 'd \<Rightarrow> bool" where
  "clears P cb d \<longleftrightarrow> (\<forall>e. P (unlocked_entry e) = P e) \<and> (\<forall>a s e. heap s a = Some e \<longrightarrow>
     cb a (s, d) = (if P e then clear_all_callback a (s, d) else Some (False, s, d)))"

lemma walk_map_clears:
  assumes cb: "clears P cb d" and i: "i < NUM_CACHE_ENTRY_MAPS" and cl: "cleared P s0 s"
    and c: "current_client s0 = Some c" "worker (clients s0 c) = Some w"
  shows "\<exists>s'. walk_map cb i (s, d) = Some (s', d) \<and> cleared P s0 s' \<and> occupants (entry_maps s' i) \<inter> bad P s0 = {} \<and>
    (\<forall>j. j \<noteq> i \<longrightarrow> entry_maps s' j = entry_maps s j)"
proof -
  define F where "F m st sx = (sx :: state)\<lparr>entry_maps := (entry_maps sx)(i := m), heap := st\<rparr>" for m st sx
  define wcb where "wcb = (\<lambda>a st (s, d). do { (b, s', d') \<leftarrow> cb a (s\<lparr>heap := st\<rparr>, d); Some (b, heap s', s', d') })"
  define I where "I p = (\<lambda>(m, st, sx, d'). d' = d \<and> entry_maps sx = entry_maps s \<and> cleared P s0 (F m st sx) \<and>
    (\<forall>q < p. \<forall>a. mask m q \<longrightarrow> entries m q = Some a \<longrightarrow> a \<notin> bad P s0))" for p
  have Pu: "P (unlocked_entry e) = P e" for e using cb by (simp add: clears_def)
  have "\<exists>u'. walk_step wcb p u = Some u' \<and> I (Suc p) u'" if p: "p < CACHE_ENTRY_MAP_SIZE" and Iu: "I p u" for p u
  proof -
    obtain m st sx where u: "u = (m, st, sx, d)" "entry_maps sx = entry_maps s" "cleared P s0 (F m st sx)"
      and before: "\<And>q a. q < p \<Longrightarrow> mask m q \<Longrightarrow> entries m q = Some a \<Longrightarrow> a \<notin> bad P s0"
      using Iu by (cases u) (auto simp: I_def)
    let ?S = "F m st sx"
    note S = clearedD [OF u(3)]
    have Ss: "entry_maps ?S i = m" "heap ?S = st" by (simp_all add: F_def)
    have mok: "map_ok m st" using core_invD(3) [OF S(1)] i Ss by (auto simp: maps_inv_def)
    show ?thesis
    proof (cases "mask m p")
      case False
      then have "walk_step wcb p u = Some u" using slot_relock' [OF mok p] u(1) by (simp add: walk_step_def)
      moreover have "I (Suc p) u" using u before False by (auto simp: I_def less_Suc_eq)
      ultimately show ?thesis by blast
    next
      case True
      then obtain a e where ae: "entries m p = Some a" "st a = Some e" using map_okD(2) [OF mok p] by auto
      have ng: "\<not> guard e" using core_invD(8) [OF S(1), of a e] ae(2) Ss(2) by simp
      have e0: "heap s0 a = Some e" using S(4) [of a e] ae(2) Ss(2) by simp
      have st1: "set_guard True a st a = Some (e\<lparr>guard := True\<rparr>)" using ae(2) by (simp add: set_guard_same)
      have Pg: "P (e\<lparr>guard := True\<rparr>) = P e"
        using Pu [of "e\<lparr>guard := True\<rparr>"] Pu [of e] by (simp add: unlocked_entry_def)
      have cbe: "cb a (sx\<lparr>heap := set_guard True a st\<rparr>, d) =
          (if P e then clear_all_callback a (sx\<lparr>heap := set_guard True a st\<rparr>, d)
           else Some (False, sx\<lparr>heap := set_guard True a st\<rparr>, d))"
        using cb st1 Pg unfolding clears_def by simp
      show ?thesis
      proof (cases "P e")
        case False
        have "walk_step wcb p u = Some (m, st, sx\<lparr>heap := set_guard True a st\<rparr>, d)"
          using slot_relock' [OF mok p] u(1) True ae ng cbe False UNLOCK_ENTRY_eq [where st = "set_guard True a st", OF st1]
          by (simp add: walk_step_def wcb_def LOCK_ENTRY_eq set_guard_idem)
        moreover have "a \<notin> bad P s0" using e0 False by (simp add: bad_def)
        then have "I (Suc p) (m, st, sx\<lparr>heap := set_guard True a st\<rparr>, d)"
          using u before ae(1) by (auto simp: I_def less_Suc_eq F_def)
        ultimately show ?thesis by blast
      next
        case P: True
        have cS: "current_client ?S = Some c" "worker (clients ?S c) = Some w" using io_keptD [OF S(2)] c by simp_all
        have "mask (entry_maps ?S i) p" "entries (entry_maps ?S i) p = Some a" "heap ?S a = Some e"
          using True ae Ss by simp_all
        from clear_slot [OF u(3) Pu i p this P cS, of d] obtain s' where
          s': "clear_all_callback a (unset_at i p a ?S, d) = Some (True, s', d)" "cleared P s0 s'"
          "entry_maps s' = (entry_maps ?S)(i := unset_slot m p)" unfolding Ss by metis
        have T: "unset_at i p a ?S = (sx\<lparr>heap := set_guard True a st\<rparr>)\<lparr>entry_maps := (entry_maps sx)(i := unset_slot m p)\<rparr>"
          by (simp add: unset_at_def F_def)
        obtain s2 where s2: "clear_all_callback a (sx\<lparr>heap := set_guard True a st\<rparr>, d) = Some (True, s2, d)"
          "s' = s2\<lparr>entry_maps := (entry_maps sx)(i := unset_slot m p)\<rparr>"
          using s'(1) unfolding T clear_all_commute by auto
        have "sx\<lparr>heap := set_guard True a st, entry_maps := entry_maps sx\<rparr> = sx\<lparr>heap := set_guard True a st\<rparr>" by simp
        then have "s2 = s2\<lparr>entry_maps := entry_maps sx\<rparr>"
          using clear_all_commute [where s = "sx\<lparr>heap := set_guard True a st\<rparr>" and f = "entry_maps sx" and a = a and d = d] s2(1)
          by simp
        then have em: "entry_maps s2 = entry_maps sx" by (metis state.ext_inject state.surjective state.update_convs(3))
        have F': "F (unset_slot m p) (heap s2) s2 = s'" by (simp add: F_def s2(2) em)
        have "walk_step wcb p u = Some (unset_slot m p, heap s2, s2, d)"
          using slot_relock' [OF mok p] u(1) True ae ng cbe P s2(1) UNLOCK_unset_slot [OF map_okD(1) [OF mok p]]
          by (simp add: walk_step_def wcb_def LOCK_ENTRY_eq)
        moreover have "I (Suc p) (unset_slot m p, heap s2, s2, d)"
          using s'(2) F' em u(2) before by (auto simp: I_def less_Suc_eq unset_slot_def)
        ultimately show ?thesis by blast
      qed
    qed
  qed
  moreover have "I 0 (entry_maps s i, heap s, s, d)" using cl by (simp add: I_def F_def)
  ultimately obtain u' where w: "walk_entries wcb (entry_maps s i, heap s, s, d) = Some u'" "I CACHE_ENTRY_MAP_SIZE u'"
    using walk_entries_rule [of I wcb] by blast
  obtain m st sx where u': "u' = (m, st, sx, d)" "entry_maps sx = entry_maps s" "cleared P s0 (F m st sx)"
    "\<And>q a. q < CACHE_ENTRY_MAP_SIZE \<Longrightarrow> mask m q \<Longrightarrow> entries m q = Some a \<Longrightarrow> a \<notin> bad P s0"
    using w(2) by (cases u') (auto simp: I_def)
  have "walk_map cb i (s, d) = Some (F m st sx, d)"
    using w(1) u'(1) by (simp add: walk_map_def wcb_def F_def)
  moreover have "occupants (entry_maps (F m st sx) i) \<inter> bad P s0 = {}"
    using u'(4) by (auto simp: F_def occupants_def)
  ultimately show ?thesis using u'(2,3) by (intro exI [of _ "F m st sx"]) (simp add: F_def)
qed

lemma walk_all_clears:
  assumes cb: "clears P cb d" and inv: "sys_inv s0" and c: "current_client s0 = Some c" "worker (clients s0 c) = Some w"
  obtains s' where "walk_all_entries cb (s0, d) = Some (s', d)" "cleared P s0 s'"
    "\<And>a e. heap s' a = Some e \<longleftrightarrow> heap s0 a = Some e \<and> \<not> P e"
proof -
  define J where "J n = (\<lambda>(s, d'). d' = d \<and> cleared P s0 s \<and> (\<forall>i < n. occupants (entry_maps s i) \<inter> bad P s0 = {}))" for n
  have "\<exists>u'. walk_map cb i u = Some u' \<and> J (Suc i) u'" if i: "i < NUM_CACHE_ENTRY_MAPS" and Ju: "J i u" for i u
  proof -
    obtain s where u: "u = (s, d)" "cleared P s0 s" "\<And>j. j < i \<Longrightarrow> occupants (entry_maps s j) \<inter> bad P s0 = {}"
      using Ju by (cases u) (auto simp: J_def)
    from walk_map_clears [OF cb i u(2) c] obtain s' where s': "walk_map cb i (s, d) = Some (s', d)" "cleared P s0 s'"
      "occupants (entry_maps s' i) \<inter> bad P s0 = {}" "\<And>j. j \<noteq> i \<Longrightarrow> entry_maps s' j = entry_maps s j" by blast
    have "J (Suc i) (s', d)" using s' u(3) by (auto simp: J_def less_Suc_eq)
    with s'(1) u(1) show ?thesis by blast
  qed
  moreover have "J 0 (s0, d)" using cleared_refl [OF inv] by (simp add: J_def)
  ultimately obtain u' where u': "walk_all_entries cb (s0, d) = Some u'" "J NUM_CACHE_ENTRY_MAPS u'"
    using fold_opt_upt [of NUM_CACHE_ENTRY_MAPS J "walk_map cb" "(s0, d)"] unfolding walk_all_entries_def by blast
  then obtain s' where s': "u' = (s', d)" "cleared P s0 s'"
    "\<And>i. i < NUM_CACHE_ENTRY_MAPS \<Longrightarrow> occupants (entry_maps s' i) \<inter> bad P s0 = {}"
    by (cases u') (auto simp: J_def)
  note D = clearedD [OF s'(2)]
  have "occupied s' \<inter> bad P s0 = {}" using s'(3) by (auto simp: occupied_def)
  then have gone: "heap s' a = None" if "a \<in> bad P s0" for a
  proof -
    have "a \<notin> dom (heap s')" unfolding core_invD(4) [OF D(1)] using that \<open>occupied s' \<inter> bad P s0 = {}\<close> by blast
    then show ?thesis by blast
  qed
  have "heap s' a = Some e \<longleftrightarrow> heap s0 a = Some e \<and> \<not> P e" for a e
  proof (cases "a \<in> bad P s0")
    case True
    then show ?thesis using gone [of a] by (simp add: bad_def) (metis option.inject)
  next
    case False
    then have "heap s0 a = Some e \<Longrightarrow> \<not> P e" unfolding bad_def by blast
    then show ?thesis using D(4,5) [of a e] by blast
  qed
  then show thesis using that [of s'] u'(1) s'(1,2) by simp
qed

end
