(* ===== verification/Cik_Reading.thy ===== *)
theory Cik_Reading
  imports Cik_Clear
begin

text \<open>
  What the handlers read of a request that has arrived: its key and its tags, back in stored order, and
  that reading touches nothing but the connection (and, for tags, the worker's payload buffer).
\<close>

lemma unat_ucast_u8: "unat (ucast b :: u32) = unat b" for b :: u8
proof -
  have "unat b < 256" using unsigned_less [of b] by simp
  then show ?thesis by (simp add: unsigned_ucast_eq take_bit_nat_eq_self)
qed

lemma unat_u8_le: "unat b \<le> 255" for b :: u8
proof -
  have "unat b < 2 ^ 8" using unsigned_less [of b] by simp
  then show ?thesis by simp
qed

section \<open>The bytes still to be read\<close>

definition unread :: "state \<Rightarrow> nat \<Rightarrow> u8 list" where
  "unread s c = stream (incoming (sock (clients s c)))"

lemma sock_incoming: "sock_update (incoming_update (\<lambda>_. ds)) cl = cl\<lparr>sock := (sock cl)\<lparr>incoming := ds\<rparr>\<rparr>"
  by (cases cl) simp

lemma counters_assign: "c_counters_update h cl = cl\<lparr>c_counters := h (c_counters cl)\<rparr>"
  by (cases cl) simp

text \<open>What serving a client does to the clients: of the one, what is still to be read and the counters.\<close>

definition served :: "nat \<Rightarrow> state \<Rightarrow> state \<Rightarrow> bool" where
  "served c s s' \<longleftrightarrow> (\<exists>ds k. clients s' =
     (clients s)(c := (clients s c)\<lparr>sock := (sock (clients s c))\<lparr>incoming := ds\<rparr>, c_counters := k\<rparr>) \<and>
     (whole (incoming (sock (clients s c))) \<longrightarrow> whole ds))"

lemma served_eq: "clients s' = clients s \<Longrightarrow> served c s s'"
proof -
  have "(clients s)(c := (clients s c)\<lparr>sock := (sock (clients s c))\<lparr>incoming := incoming (sock (clients s c))\<rparr>,
    c_counters := c_counters (clients s c)\<rparr>) = clients s" by simp
  then show "clients s' = clients s \<Longrightarrow> served c s s'" unfolding served_def by metis
qed

lemma served_counters [simp]: "served c s (upd_counters c f s)"
  unfolding served_def upd_counters_def upd_client_def
  by (intro exI [of _ "incoming (sock (clients s c))"] exI [of _ "f (c_counters (clients s c))"])
    (simp add: counters_assign [of f])

lemma served_trans: "served c s t \<Longrightarrow> served c t u \<Longrightarrow> served c s u"
proof -
  assume "served c s t" "served c t u"
  then obtain ds k ds' k' where
    t: "clients t = (clients s)(c := (clients s c)\<lparr>sock := (sock (clients s c))\<lparr>incoming := ds\<rparr>, c_counters := k\<rparr>)" and
    u: "clients u = (clients t)(c := (clients t c)\<lparr>sock := (sock (clients t c))\<lparr>incoming := ds'\<rparr>, c_counters := k'\<rparr>)"
    and w: "whole (incoming (sock (clients s c))) \<longrightarrow> whole ds" "whole (incoming (sock (clients t c))) \<longrightarrow> whole ds'"
    unfolding served_def by blast
  have "whole (incoming (sock (clients s c))) \<longrightarrow> whole ds'" using w t by simp
  then show ?thesis unfolding served_def by (intro exI [of _ ds'] exI [of _ k']) (simp add: u t)
qed

lemma servedD:
  assumes "served c s s'"
  shows "worker (clients s' d) = worker (clients s d)" "fd (clients s' d) = fd (clients s d)"
    "at_eof (sock (clients s' d)) = at_eof (sock (clients s d))" "sent (sock (clients s' d)) = sent (sock (clients s d))"
    "accepting (sock (clients s' d)) = accepting (sock (clients s d))" "d \<noteq> c \<Longrightarrow> clients s' d = clients s d"
    "whole (incoming (sock (clients s d))) \<Longrightarrow> whole (incoming (sock (clients s' d)))"
  using assms by (cases "d = c"; auto simp: served_def)+

text \<open>The workers keep their buffers, whatever is written into them.\<close>

definition bufs_kept :: "state \<Rightarrow> state \<Rightarrow> bool" where
  "bufs_kept s s' \<longleftrightarrow> (\<forall>v. payload_base (payload_buffer (workers s' v)) = payload_base (payload_buffer (workers s v)) \<and>
     payload_cap (payload_buffer (workers s' v)) = payload_cap (payload_buffer (workers s v)))"

lemma bufs_kept_eq: "workers s' = workers s \<Longrightarrow> bufs_kept s s'"
  by (simp add: bufs_kept_def)

lemma bufs_kept_io: "io_kept s s' \<Longrightarrow> bufs_kept s s'"
  by (simp add: bufs_kept_def io_keptD(3))

lemma bufs_kept_trans: "bufs_kept s t \<Longrightarrow> bufs_kept t u \<Longrightarrow> bufs_kept s u"
  by (simp add: bufs_kept_def)

text \<open>The state after \<open>client_read\<close>: only the connection has changed.\<close>

definition read_to :: "nat \<Rightarrow> u8 list \<Rightarrow> state \<Rightarrow> state \<Rightarrow> bool" where
  "read_to c rest s s' \<longleftrightarrow>
     (\<exists>ds. s' = upd_client c (sock_update (incoming_update (\<lambda>_. ds))) s \<and> stream ds = rest \<and>
       (whole (incoming (sock (clients s c))) \<longrightarrow> whole ds))"

lemma read_toD:
  assumes "read_to c rest s s'"
  shows "same_core s s'" "workers s' = workers s" "worker (clients s' d) = worker (clients s d)" "unread s' c = rest"
    "c_counters (clients s' d) = c_counters (clients s d)" "clock s' = clock s" "clock_calls s' = clock_calls s"
    "current_client s' = current_client s" "served c s s'"
proof -
  obtain ds where s': "s' = upd_client c (sock_update (incoming_update (\<lambda>_. ds))) s" "stream ds = rest"
    "whole (incoming (sock (clients s c))) \<longrightarrow> whole ds"
    using assms by (auto simp: read_to_def)
  show "served c s s'"
    unfolding served_def s'(1) upd_client_def by (intro exI [of _ ds] exI [of _ "c_counters (clients s c)"])
      (simp add: sock_incoming s'(3))
qed (use assms in \<open>auto simp: read_to_def same_core_def unread_def upd_client_def\<close>)

lemma read_to_refl: "read_to c (unread s c) s s"
proof -
  have "upd_client c (sock_update (incoming_update (\<lambda>_. incoming (sock (clients s c))))) s = s"
    by (simp add: upd_client_def sock_incoming)
  then show ?thesis unfolding read_to_def unread_def by (intro exI [of _ "incoming (sock (clients s c))"]) simp
qed

lemma read_to_trans: "read_to c bs s t \<Longrightarrow> read_to c cs t u \<Longrightarrow> read_to c cs s u"
proof -
  have "upd_client c (sock_update (incoming_update (\<lambda>_. ds))) (upd_client c (sock_update (incoming_update (\<lambda>_. ds'))) s) =
      upd_client c (sock_update (incoming_update (\<lambda>_. ds))) s"
    for ds ds' by (simp add: upd_client_def sock_incoming)
  moreover have "incoming (sock (clients (upd_client c (sock_update (incoming_update (\<lambda>_. ds))) s) c)) = ds" for ds
    by (simp add: upd_client_def)
  ultimately show "read_to c bs s t \<Longrightarrow> read_to c cs t u \<Longrightarrow> read_to c cs s u" by (auto simp: read_to_def)
qed

lemma read_request_payload_sock:
  "read_request_payload sk cap n = Some (st, bs, sk') \<Longrightarrow> \<exists>ds. sk' = sk\<lparr>incoming := ds\<rparr> \<and> (whole (incoming sk) \<longrightarrow> whole ds)"
proof -
  have "\<exists>ds. sk = sk\<lparr>incoming := ds\<rparr> \<and> (whole (incoming sk) \<longrightarrow> whole ds)" by (intro exI [of _ "incoming sk"]) simp
  then show "read_request_payload sk cap n = Some (st, bs, sk') \<Longrightarrow> \<exists>ds. sk' = sk\<lparr>incoming := ds\<rparr> \<and> (whole (incoming sk) \<longrightarrow> whole ds)"
    using read_loop_whole by (auto simp: read_request_payload_def bind_eq_Some_conv split: if_splits)
qed

lemma read_to_sock:
  assumes "sk = (sock (clients s c))\<lparr>incoming := ds\<rparr>" and "whole (incoming (sock (clients s c))) \<longrightarrow> whole ds"
  shows "read_to c (stream ds) s (upd_client c (sock_update (\<lambda>_. sk)) s)"
  unfolding read_to_def using assms by (intro exI [of _ ds])
    (simp add: upd_client_def sock_incoming)

lemma client_read_ok:
  assumes "unread s c = bs @ rest" and "length bs = unat n" and "unat n \<le> cap"
  obtains s' where "client_read s c cap n = Some (STATUS_OK, bs, s')" "read_to c rest s s'"
proof -
  have "unat n \<le> length (stream (incoming (sock (clients s c))))" using assms(1,2) by (simp add: unread_def)
  from read_enough [OF this assms(3)] obtain ds where
    ds: "read_request_payload (sock (clients s c)) cap n = Some (STATUS_OK, bs, sock (clients s c)\<lparr>incoming := ds\<rparr>)"
    "stream ds = rest" using assms(1,2) by (auto simp: unread_def)
  obtain ds' where ds': "sock (clients s c)\<lparr>incoming := ds\<rparr> = sock (clients s c)\<lparr>incoming := ds'\<rparr>"
    "whole (incoming (sock (clients s c))) \<longrightarrow> whole ds'" using read_request_payload_sock [OF ds(1)] by blast
  have "ds = ds'" using arg_cong [OF ds'(1), of incoming] by simp
  then have w: "whole (incoming (sock (clients s c))) \<longrightarrow> whole ds" using ds'(2) by simp
  show thesis
    using that ds read_to_sock [OF refl w] by (simp add: client_read_def)
qed

lemma client_read_fails:
  assumes "length (unread s c) < unat n" and "unat n \<le> cap"
    and "broken (incoming (sock (clients s c))) \<or> at_eof (sock (clients s c))"
  obtains st bs s' rest where "client_read s c cap n = Some (st, bs, s')" "read_to c rest s s'"
    "st = (if broken (incoming (sock (clients s c))) then STATUS_NETWORK_ERROR else STATUS_CONNECTION_CLOSED)"
    "length bs \<le> unat n"
proof -
  let ?st = "if broken (incoming (sock (clients s c))) then STATUS_NETWORK_ERROR else STATUS_CONNECTION_CLOSED"
  have "length (stream (incoming (sock (clients s c)))) < unat n" using assms(1) by (simp add: unread_def)
  from read_short [OF this assms(2,3)] obtain sk where
    r: "read_request_payload (sock (clients s c)) cap n = Some (?st, stream (incoming (sock (clients s c))), sk)" by blast
  from read_request_payload_sock [OF this] obtain ds where
    ds: "sk = sock (clients s c)\<lparr>incoming := ds\<rparr>" "whole (incoming (sock (clients s c))) \<longrightarrow> whole ds" by blast
  show thesis
  proof (rule that)
    show "client_read s c cap n = Some (?st, unread s c, upd_client c (sock_update (\<lambda>_. sk)) s)"
      using r by (simp add: client_read_def unread_def)
    show "read_to c (stream ds) s (upd_client c (sock_update (\<lambda>_. sk)) s)" by (rule read_to_sock [OF ds])
  qed (use assms(1) in simp_all)
qed

lemma read_request_key_ok:
  assumes "unread s c = rev key @ rest" and "length key = unat klen" and "key \<noteq> []"
  obtains s' where "read_request_key s c klen = Some (STATUS_OK, key, s')" "read_to c rest s s'"
proof -
  have k: "unat (ucast klen :: u32) = unat klen" by (rule unat_ucast_u8)
  have len: "unat klen \<le> 255" by (rule unat_u8_le)
  obtain s1 where s1: "client_read s c sizeof_tmp_key_data (ucast klen) = Some (STATUS_OK, rev key, s1)" "read_to c rest s s1"
    by (rule client_read_ok [OF assms(1), of "ucast klen" sizeof_tmp_key_data])
      (use assms(2) k len in \<open>auto simp: sizeof_tmp_key_data_def\<close>)
  have "0 < unat (ucast klen :: u32)" using assms(2,3) k by (metis length_greater_0_conv)
  then have pos: "0 < (ucast klen :: u32)" by (simp only: word_less_nat_alt unat_0)
  have ld: "load_bytes (store_bytes (\<lambda>_. 0) 0 (rev key)) 0 (length key) = rev key" by (simp add: load_store_same)
  have "reverse_bytes sizeof_tmp_key_data (store_bytes (\<lambda>_. 0) 0 (rev key)) 0 (ucast klen) =
      Some (store_bytes (store_bytes (\<lambda>_. 0) 0 (rev key)) 0 key)"
    using reverse_bytes_eq [OF pos, of 0 sizeof_tmp_key_data "store_bytes (\<lambda>_. 0) 0 (rev key)"] len k assms(2) ld
    by (simp add: sizeof_tmp_key_data_def)
  then have "read_request_key s c klen = Some (STATUS_OK, key, s1)"
    using s1(1) assms(2) by (simp add: read_request_key_def load_store_same)
  with s1(2) show thesis using that by blast
qed

section \<open>Tags\<close>

text \<open>The tags of a request as they are sent: length byte and bytes, in the client's order.\<close>

definition tag_stream :: "u8 list list \<Rightarrow> u8 list" where
  "tag_stream tags = concat (map (\<lambda>tag. of_nat (length tag) # rev tag) tags)"

lemma tag_stream_simps [simp]:
  "tag_stream [] = []" "tag_stream (tag # tags) = of_nat (length tag) # rev tag @ tag_stream tags"
  by (simp_all add: tag_stream_def)

definition tags_ok :: "u8 list list \<Rightarrow> bool" where
  "tags_ok tags \<longleftrightarrow> (\<forall>tag \<in> set tags. length tag \<in> {1..255})"

text \<open>Reading tags changes the connection and the payload buffer's bytes.\<close>

definition tags_read :: "nat \<Rightarrow> nat \<Rightarrow> u8 list \<Rightarrow> buffer \<Rightarrow> state \<Rightarrow> state \<Rightarrow> bool" where
  "tags_read c w rest d s s' \<longleftrightarrow> (\<exists>t. read_to c rest s t \<and> s' = set_payload_data w d t)"

lemma set_payload_simps [simp]:
  "mem (set_payload_data w d s) = mem s" "heap (set_payload_data w d s) = heap s"
  "entry_maps (set_payload_data w d s) = entry_maps s" "tag_tree (set_payload_data w d s) = tag_tree s"
  "clients (set_payload_data w d s) = clients s" "unread (set_payload_data w d s) c = unread s c"
  "clock (set_payload_data w d s) = clock s" "clock_calls (set_payload_data w d s) = clock_calls s"
  "current_client (set_payload_data w d s) = current_client s"
  "payload_data (payload_buffer (workers (set_payload_data w d s) w)) = d"
  "payload_cap (payload_buffer (workers (set_payload_data w d s) v)) = payload_cap (payload_buffer (workers s v))"
  "payload_base (payload_buffer (workers (set_payload_data w d s) v)) = payload_base (payload_buffer (workers s v))"
  "payload_nmemb (payload_buffer (workers (set_payload_data w d s) v)) = payload_nmemb (payload_buffer (workers s v))"
  "mem (set_payload_nmemb w n s) = mem s" "heap (set_payload_nmemb w n s) = heap s"
  "entry_maps (set_payload_nmemb w n s) = entry_maps s" "tag_tree (set_payload_nmemb w n s) = tag_tree s"
  "clients (set_payload_nmemb w n s) = clients s" "unread (set_payload_nmemb w n s) c = unread s c"
  "clock (set_payload_nmemb w n s) = clock s" "clock_calls (set_payload_nmemb w n s) = clock_calls s"
  "current_client (set_payload_nmemb w n s) = current_client s"
  "payload_data (payload_buffer (workers (set_payload_nmemb w n s) v)) = payload_data (payload_buffer (workers s v))"
  "payload_cap (payload_buffer (workers (set_payload_nmemb w n s) v)) = payload_cap (payload_buffer (workers s v))"
  "payload_base (payload_buffer (workers (set_payload_nmemb w n s) v)) = payload_base (payload_buffer (workers s v))"
  "payload_nmemb (payload_buffer (workers (set_payload_nmemb w n s) w)) = n"
  by (simp_all add: set_payload_data_def set_payload_nmemb_def upd_worker_def unread_def)

lemma same_core_payload [simp]: "same_core s (set_payload_data w d s)" "same_core s (set_payload_nmemb w n s)"
  by (simp_all add: same_core_def)

lemma set_payload_data_twice [simp]:
  "set_payload_data w d (set_payload_data w d' s) = set_payload_data w d s"
  by (simp add: set_payload_data_def upd_worker_def fun_eq_iff)

lemma read_to_set_payload:
  "read_to c rest (set_payload_data w d s) s' \<Longrightarrow> \<exists>t. read_to c rest s t \<and> s' = set_payload_data w d t"
proof -
  assume "read_to c rest (set_payload_data w d s) s'"
  then obtain ds where "s' = upd_client c (sock_update (incoming_update (\<lambda>_. ds))) (set_payload_data w d s)"
    "stream ds = rest" "whole (incoming (sock (clients s c))) \<longrightarrow> whole ds" by (auto simp: read_to_def)
  moreover have "upd_client c f (set_payload_data w d s) = set_payload_data w d (upd_client c f s)" for f
    by (simp add: upd_client_def set_payload_data_def upd_worker_def)
  ultimately show ?thesis unfolding read_to_def by blast
qed

lemma read_tags_loop_ok:
  assumes "unread s c = tag_stream tags @ rest" and "tags_ok tags"
    and "sum_list (map length tags) \<le> unat cap" and "off + unat cap \<le> unat (payload_cap (payload_buffer (workers s w)))"
    and "tags \<noteq> [] \<longrightarrow> payload_base (payload_buffer (workers s w)) \<noteq> None"
  shows "\<exists>refs d s'. read_tags_loop s c w off cap (length tags) =
      Some (STATUS_OK, refs, cap - of_nat (sum_list (map length tags)), s') \<and>
    tags_read c w rest d s s' \<and> tag_bytes d refs = tags \<and>
    (\<forall>i < off. d i = payload_data (payload_buffer (workers s w)) i)"
  using assms
proof (induction tags arbitrary: s off cap)
  case Nil
  have "payload_buffer_update (payload_data_update (\<lambda>_. payload_data (payload_buffer x))) x = x" for x :: Worker
    by (cases x; cases "payload_buffer x") simp
  then have "set_payload_data w (payload_data (payload_buffer (workers s w))) s = s"
    unfolding set_payload_data_def upd_worker_def by (subst fun_upd_idem) simp_all
  then show ?case using Nil read_to_refl [of c s]
    by (intro exI [of _ "[]"] exI [of _ "payload_data (payload_buffer (workers s w))"] exI [of _ s])
      (auto simp: tags_read_def tag_bytes_def intro!: exI [of _ s])
next
  case (Cons tag tags)
  let ?n = "of_nat (length tag) :: u8"
  have len: "length tag \<in> {1..255}" and oks: "tags_ok tags" using Cons.prems(2) by (auto simp: tags_ok_def)
  have n: "unat ?n = length tag" using len by (simp add: unat_of_nat)
  have n32: "unat (ucast ?n :: u32) = length tag" using n by (simp add: unat_ucast_u8)
  have fits: "length tag \<le> unat cap" "sum_list (map length tags) \<le> unat cap - length tag" using Cons.prems(3) by auto
  obtain s1 where s1: "client_read s c 1 1 = Some (STATUS_OK, [?n], s1)" "read_to c (rev tag @ tag_stream tags @ rest) s s1"
    by (rule client_read_ok [of s c "[?n]" _ 1 1]) (use Cons.prems(1) in auto)
  note R1 = read_toD [OF s1(2)]
  obtain s2 where s2: "client_read s1 c (unat cap) (ucast ?n) = Some (STATUS_OK, rev tag, s2)"
    "read_to c (tag_stream tags @ rest) s1 s2"
    by (rule client_read_ok [of s1 c "rev tag" _ "ucast ?n" "unat cap"]) (use R1(4) n32 fits(1) in auto)
  have s02: "read_to c (tag_stream tags @ rest) s s2" using read_to_trans [OF s1(2) s2(2)] .
  note R2 = read_toD [OF s02]
  let ?pl = "payload_buffer (workers s w)"
  let ?d = "store_bytes (payload_data ?pl) off (rev tag)"
  have "0 < unat (ucast ?n :: u32)" using n32 len by auto
  then have "0 < (ucast ?n :: u32)" by (simp only: word_less_nat_alt unat_0)
  moreover have "off + unat (ucast ?n :: u32) \<le> unat (payload_cap ?pl)" using n32 fits(1) Cons.prems(4) by simp
  ultimately have rev: "reverse_bytes (unat (payload_cap ?pl)) ?d off (ucast ?n) = Some (store_bytes ?d off tag)"
    using reverse_bytes_eq [of "ucast ?n" off "unat (payload_cap ?pl)" ?d] n32 by (simp add: load_store_same)
  define d1 where "d1 = store_bytes ?d off tag"
  have cap': "unat (cap - ucast ?n) = unat cap - length tag"
    using fits(1) n32 by (subst unat_sub) (simp_all add: word_le_nat_alt)
  let ?s3 = "set_payload_data w d1 s2"
  have w3: "payload_cap (payload_buffer (workers ?s3 w)) = payload_cap ?pl"
    "payload_base (payload_buffer (workers ?s3 w)) \<noteq> None" "unread ?s3 c = tag_stream tags @ rest"
    "payload_data (payload_buffer (workers ?s3 w)) = d1" using R2 Cons.prems(5) by simp_all
  from Cons.IH [of ?s3 "cap - ucast ?n" "off + length tag", OF w3(3) oks] fits Cons.prems(4) w3 cap' obtain refs d s' where
    IH: "read_tags_loop ?s3 c w (off + length tag) (cap - ucast ?n) (length tags) =
      Some (STATUS_OK, refs, cap - ucast ?n - of_nat (sum_list (map length tags)), s')"
    "tags_read c w rest d ?s3 s'" "tag_bytes d refs = tags" "\<forall>i < off + length tag. d i = d1 i" by auto
  have "of_nat (unat (ucast ?n :: u32)) = (ucast ?n :: u32)" by (simp only: of_nat_unat ucast_id)
  then have u: "(ucast ?n :: u32) = of_nat (length tag)" unfolding n32 by simp
  obtain b where b: "payload_base ?pl = Some b" using Cons.prems(5) by auto
  have "\<not> ucast ?n > cap" using fits(1) n32 by (simp add: word_less_nat_alt)
  then have run: "read_tags_loop s c w off cap (length (tag # tags)) =
      Some (STATUS_OK, (off, ?n) # refs, cap - of_nat (sum_list (map length (tag # tags))), s')"
    using s1(1) s2(1) R1(2) R2(2) b rev IH(1) n
    by (simp add: d1_def Let_def u)
  have "load_bytes d off (length tag) = load_bytes d1 off (length tag)"
    using IH(4) by (intro load_bytes_cong) auto
  then have "tag_bytes d ((off, ?n) # refs) = tag # tags"
    using IH(3) n by (simp add: tag_bytes_def d1_def load_store_same)
  moreover have "\<forall>i < off. d i = payload_data ?pl i" using IH(4) by (auto simp: d1_def store_bytes_def)
  moreover have "tags_read c w rest d s s'"
  proof -
    obtain t where t: "read_to c rest ?s3 t" "s' = set_payload_data w d t" using IH(2) by (auto simp: tags_read_def)
    obtain t' where t': "read_to c rest s2 t'" "t = set_payload_data w d1 t'" using read_to_set_payload [OF t(1)] by blast
    show ?thesis using read_to_trans [OF s02 t'(1)] t(2) t'(2) by (auto simp: tags_read_def)
  qed
  ultimately show ?case using run by blast
qed

lemma read_tags_ok:
  assumes "unread s c = tag_stream tags @ rest" and "tags_ok tags" and "length tags = unat ntags"
    and "worker (clients s c) = Some w"
    and "sum_list (map length tags) \<le> unat (payload_cap (payload_buffer (workers s w)))"
    and "tags \<noteq> [] \<longrightarrow> payload_base (payload_buffer (workers s w)) \<noteq> None"
  obtains refs d t where "read_tags_using_payload_buffer s c ntags = Some (STATUS_OK, refs,
      set_payload_nmemb w (of_nat (sum_list (map length tags))) (set_payload_data w d t))"
    "read_to c rest s t" "tag_bytes d refs = tags"
proof -
  let ?cap = "payload_cap (payload_buffer (workers s w))"
  from read_tags_loop_ok [OF assms(1,2,5), of 0 w] assms(6) obtain refs d t where
    t: "read_tags_loop s c w 0 ?cap (length tags) =
      Some (STATUS_OK, refs, ?cap - of_nat (sum_list (map length tags)), set_payload_data w d t)"
    "read_to c rest s t" "tag_bytes d refs = tags" by (auto simp: tags_read_def)
  then show thesis
    using assms(3,4) by (intro that [of refs d t]) (simp_all add: read_tags_using_payload_buffer_def Let_def)
qed

lemma tag_refs_lengths: "tag_bytes d refs = tags \<Longrightarrow> map (\<lambda>(_, n). unat n) refs = map length tags"
  by (auto simp: tag_bytes_def split_def)

lemma tlen_eq:
  assumes "tag_bytes d refs = tags"
  shows "fold (\<lambda>(_, n) t. t + ucast n) refs (of_nat k :: u32) = of_nat (k + sum_list (map length tags))"
proof -
  have "fold (\<lambda>(_, n) t. t + ucast n) refs (of_nat k :: u32) = of_nat (k + sum_list (map (\<lambda>(_, n). unat n) refs))"
  proof (induction refs arbitrary: k)
    case (Cons r refs)
    obtain off n where r: "r = (off, n)" by (cases r)
    have "(of_nat k + ucast n :: u32) = of_nat (k + unat n)" by (simp add: of_nat_unat)
    then show ?case using Cons.IH [of "k + unat n"] by (simp add: r add.assoc)
  qed simp
  then show ?thesis using tag_refs_lengths [OF assms] by simp
qed

end
