(* ===== verification/Cik_Get.thy ===== *)
theory Cik_Get
  imports Cik_Reading
begin

text \<open>
  The handlers that look one entry up (\<open>GET\<close>, the TTL-only \<open>SET\<close>) and the one that deletes
  it (\<open>DEL\<close>), described on the cache.
\<close>

section \<open>Changing the entry that was looked up\<close>

lemma cache_upd:
  assumes "entry_of s' = entry_of s" and "heap s' = (heap s)(a \<mapsto> e')" and "entry_of s key = Some a"
  shows "cache s' = (cache s)(key \<mapsto> unlocked_entry e')"
proof
  fix k
  have "k = key" if "entry_of s k = Some a"
    using that assms(3) by (metis entry_of_Some option.inject)
  then show "cache s' k = ((cache s)(key \<mapsto> unlocked_entry e')) k"
    using assms by (cases "entry_of s k") (auto simp: cache_def)
qed

lemma unlocked_entry_id: "\<not> guard e \<Longrightarrow> unlocked_entry e = e"
  by (cases e) (simp add: unlocked_entry_def)

lemma replace_entry:
  assumes inv: "sys_inv s" and a: "entry_of s key = Some a" "heap s a = Some e"
    and e': "e_key e' = e_key e" "entry_fine e'" "\<not> guard e'"
  shows "sys_inv (s\<lparr>heap := (heap s)(a \<mapsto> e')\<rparr>)"
    and "cache (s\<lparr>heap := (heap s)(a \<mapsto> e')\<rparr>) = (cache s)(key \<mapsto> e')"
proof -
  have h: "\<exists>f'. ((heap s)(a \<mapsto> e')) c = Some f' \<and> e_key f' = e_key f \<and> entry_fine f' \<and> (c \<notin> {} \<longrightarrow> \<not> guard f')"
    if "heap s c = Some f" for c f
    using core_invD(7,8) [OF inv that] that a(2) e' by (cases "c = a") simp_all
  have d: "dom ((heap s)(a \<mapsto> e')) = dom (heap s)" using a(2) by auto
  show "sys_inv (s\<lparr>heap := (heap s)(a \<mapsto> e')\<rparr>)"
    by (rule core_inv_heap(1) [OF inv]) (use h d in simp_all)
  have "entry_of (s\<lparr>heap := (heap s)(a \<mapsto> e')\<rparr>) = entry_of s"
    by (rule core_inv_heap(2) [OF inv, where K' = "{}"]) (use h d in simp_all)
  from cache_upd [OF this _ a(1), of e'] show "cache (s\<lparr>heap := (heap s)(a \<mapsto> e')\<rparr>) = (cache s)(key \<mapsto> e')"
    using unlocked_entry_id [OF e'(3)] by simp
qed

text \<open>Looking a key up and unlocking the entry again, having changed fields of it.\<close>

lemma found_entry:
  assumes inv: "sys_inv s" and c: "cache s key = Some e"
  obtains a where "map_get s key = Some (Some a, s\<lparr>heap := set_guard True a (heap s)\<rparr>)" "entry_of s key = Some a"
    "heap s a = Some e" "\<not> guard e" "e_key e = key" "entry_fine e"
proof -
  obtain a where a: "entry_of s key = Some a" using c entry_of_None by (cases "entry_of s key") auto
  obtain f where f: "heap s a = Some f" "e_key f = key" "cache s key = Some (unlocked_entry f)" by (rule entry_of_Some [OF a])
  have g: "\<not> guard f" "entry_fine f" using core_invD(7,8) [OF inv f(1)] by auto
  from unlocked_entry_id [OF g(1)] f(3) c have "f = e" by simp
  with that [of a] a f g show thesis by (simp add: map_get_eq [OF inv])
qed

lemma time_now_simps [simp]:
  "time_now s = (clock s (clock_calls s), s\<lparr>clock_calls := clock_calls s + 1\<rparr>)"
  by (simp add: time_now_def)

lemma same_core_upds [simp]:
  "same_core s (s\<lparr>clock_calls := n\<rparr>)" "same_core s (upd_counters c f s)"
  by (simp_all add: same_core_def upd_counters_def)

lemma upd_counters_simps [simp]:
  "mem (upd_counters c f s) = mem s" "heap (upd_counters c f s) = heap s" "workers (upd_counters c f s) = workers s"
  "worker (clients (upd_counters c f s) d) = worker (clients s d)" "unread (upd_counters c f s) d = unread s d"
  "c_counters (clients (upd_counters c f s) c) = f (c_counters (clients s c))"
  "current_client (upd_counters c f s) = current_client s"
  "clock (upd_counters c f s) = clock s" "clock_calls (upd_counters c f s) = clock_calls s"
  by (simp_all add: upd_counters_def upd_client_def unread_def)

lemma check_expires_guard [simp]: "check_expires s flags (e\<lparr>guard := b\<rparr>) = check_expires s flags e"
  by (simp add: check_expires_def)

lemma upd_entry_simps [simp]:
  "workers (upd_entry a f s) = workers s" "clients (upd_entry a f s) = clients s" "unread (upd_entry a f s) c = unread s c"
  "mem (upd_entry a f s) = mem s" "entry_maps (upd_entry a f s) = entry_maps s" "tag_tree (upd_entry a f s) = tag_tree s"
  "clock (upd_entry a f s) = clock s" "clock_calls (upd_entry a f s) = clock_calls s" "same_io s (upd_entry a f s)"
  by (simp_all add: upd_entry_def unread_def same_io_def)

lemma unread_cong: "clients s' = clients s \<Longrightarrow> unread s' c = unread s c"
  by (simp add: unread_def)

lemma guard_off [simp]: "\<not> guard e \<Longrightarrow> e\<lparr>guard := False\<rparr> = e"
  by (cases e) simp

lemma nhits_guard: "nhits_update (\<lambda>n. n + 1) (e\<lparr>guard := True\<rparr>) = e\<lparr>guard := True, nhits := nhits e + 1\<rparr>"
  by (cases e) simp

definition expired_at :: "u8 \<Rightarrow> CacheEntry \<Rightarrow> time_t \<Rightarrow> bool" where
  "expired_at flags e now \<longleftrightarrow> NOT flags AND GET_FLAG_IGNORE_EXPIRES \<noteq> 0 \<and> expires e \<noteq> CACHE_EXPIRES_INIT \<and>
     sint (expires e) < sint now"

text \<open>The bytes a handler's payload pointer stands for.\<close>

definition payload_bytes :: "state \<Rightarrow> nat \<Rightarrow> payload_ptr \<Rightarrow> u8 list" where
  "payload_bytes s w p = (case p of
     WorkerPayload \<Rightarrow> (let pl = payload_buffer (workers s w) in load_bytes (payload_data pl) 0 (unat (payload_nmemb pl)))
   | _ \<Rightarrow> [])"

lemma payload_bytes_heap [simp]: "payload_bytes (s\<lparr>heap := h\<rparr>) w p = payload_bytes s w p"
  by (cases p) (simp_all add: payload_bytes_def)

lemma unat_u32_less: "unat x < 2 ^ 32" for x :: u32
  using unsigned_less [of x] by simp

definition get_outcome :: "state \<Rightarrow> nat \<Rightarrow> nat \<Rightarrow> u8 \<Rightarrow> u8 list \<Rightarrow> StatusCode \<Rightarrow> payload_ptr \<Rightarrow> state \<Rightarrow> bool" where
  "get_outcome s c w flags key st p s' \<longleftrightarrow> (case cache s key of
     None \<Rightarrow> st = STATUS_NOT_FOUND \<and> p = NullPayload \<and> cache s' = cache s \<and>
       c_counters (clients s' c) = get_miss_update (\<lambda>n. n + 1) (c_counters (clients s c))
   | Some e \<Rightarrow>
       if expired_at flags e (clock s (clock_calls s)) then
         st = STATUS_EXPIRED \<and> p = NullPayload \<and> cache s' = cache s \<and>
         c_counters (clients s' c) = get_miss_update (\<lambda>n. n + 1) (c_counters (clients s c))
       else cache s' = (cache s)(key \<mapsto> e\<lparr>nhits := nhits e + 1\<rparr>) \<and>
         c_counters (clients s' c) = get_hit_update (\<lambda>n. n + 1) (c_counters (clients s c)) \<and>
         (if length (e_value e) \<le> unat (payload_cap (payload_buffer (workers s w)))
          then st = STATUS_OK \<and> payload_bytes s' w p = e_value e
          else st = STATUS_BUG \<and> p = NullPayload))"

definition get_post :: "state \<Rightarrow> nat \<Rightarrow> nat \<Rightarrow> Request \<Rightarrow> u8 list \<Rightarrow> u8 list \<Rightarrow> bool" where
  "get_post s c w r key rest \<longleftrightarrow> (\<exists>st p s'. handle_get_request s c r = Some (st, p, s') \<and> sys_inv s' \<and> unread s' c = rest \<and>
    tag_tree s' = tag_tree s \<and> mem s' = mem s \<and> served c s s' \<and> p \<noteq> DeadPayload \<and>
    bufs_kept s s' \<and> get_outcome s c w (req_g_flags r) key st p s')"

lemma get_absent:
  assumes inv: "sys_inv s" and w: "worker (clients s c) = Some w"
    and key: "unread s c = rev key @ rest" "length key = unat (req_g_klen r)" "key \<noteq> []"
    and None: "cache s key = None"
  shows "get_post s c w r key rest"
proof -
  obtain s1 where s1: "read_request_key s c (req_g_klen r) = Some (STATUS_OK, key, s1)" "read_to c rest s s1"
    by (rule read_request_key_ok [OF key])
  note R = read_toD [OF s1(2)]
  have inv1: "sys_inv s1" and c1: "cache s1 = cache s"
    using same_core_inv [OF R(1)] same_core_cache [OF R(1)] inv by simp_all
  have "length key \<le> 255" unfolding key(2) by (rule unat_u8_le)
  note log = log_key_defined [OF this]
  have get: "map_get s1 key = Some (None, s1)"
    using map_get_eq [OF inv1, of key] c1 entry_of_None [of s1 key] None by simp
  obtain s3 where s3: "log_with s1 c (\<lambda>q who. log_request_get_miss q who key) = Some s3" "same_core s1 s3" "io_kept s1 s3"
    by (rule log_with_ok [where f = "\<lambda>q who. log_request_get_miss q who key" and s = s1 and c = c and w = w]) (use R w log in auto)
  let ?s = "upd_counters c (get_miss_update (\<lambda>n. n + 1)) s3"
  have run: "handle_get_request s c r = Some (STATUS_NOT_FOUND, NullPayload, ?s)"
    using w s1(1) get s3(1) by (simp add: handle_get_request_def)
  have sc: "same_core s ?s" using R(1) s3(2) same_core_trans same_core_upds(2) by blast
  have cl: "clients s3 = clients s1" using io_keptD(1) [OF s3(3)] .
  have "get_outcome s c w (req_g_flags r) key STATUS_NOT_FOUND NullPayload ?s"
    using None same_core_cache [OF sc] R(5) cl by (simp add: get_outcome_def)
  moreover have "unread ?s c = rest" using R(4) unread_cong [OF cl] by simp
  moreover have "sys_inv ?s" using same_core_inv [OF sc] inv by simp
  moreover have "tag_tree ?s = tag_tree s" "mem ?s = mem s" using sc by (simp_all add: same_core_def)
  moreover have "served c s ?s" by (rule served_trans [OF R(9) served_trans [OF served_eq [OF cl] served_counters]])
  moreover have "bufs_kept s ?s" using bufs_kept_io [OF s3(3)] R(2) by (simp add: bufs_kept_def)
  ultimately show ?thesis using run unfolding get_post_def by blast
qed

text \<open>The lookup and the test of the time of expiry, which both of the remaining cases start with.\<close>

lemma get_found_start:
  assumes inv: "sys_inv s" and w: "worker (clients s c) = Some w"
    and key: "unread s c = rev key @ rest" "length key = unat (req_g_klen r)" "key \<noteq> []"
    and e: "cache s key = Some e"
  obtains s1 s3 a where "read_request_key s c (req_g_klen r) = Some (STATUS_OK, key, s1)" "read_to c rest s s1"
    "map_get s1 key = Some (Some a, s1\<lparr>heap := set_guard True a (heap s1)\<rparr>)" "entry_of s1 key = Some a"
    "heap s1 a = Some e" "\<not> guard e" "e_key e = key" "entry_fine e"
    "check_expires (s1\<lparr>heap := set_guard True a (heap s1)\<rparr>) (req_g_flags r) e =
      (expired_at (req_g_flags r) e (clock s (clock_calls s)), s3)"
    "heap s3 = set_guard True a (heap s1)" "mem s3 = mem s1" "entry_maps s3 = entry_maps s1"
    "tag_tree s3 = tag_tree s1" "clients s3 = clients s1" "workers s3 = workers s1"
proof -
  obtain s1 where s1: "read_request_key s c (req_g_klen r) = Some (STATUS_OK, key, s1)" "read_to c rest s s1"
    by (rule read_request_key_ok [OF key])
  note R = read_toD [OF s1(2)]
  have inv1: "sys_inv s1" and c1: "cache s1 = cache s"
    using same_core_inv [OF R(1)] same_core_cache [OF R(1)] inv by simp_all
  from found_entry [OF inv1 e [folded c1]] obtain a where
    a: "map_get s1 key = Some (Some a, s1\<lparr>heap := set_guard True a (heap s1)\<rparr>)" "entry_of s1 key = Some a"
    "heap s1 a = Some e" "\<not> guard e" "e_key e = key" "entry_fine e" by metis
  let ?s2 = "s1\<lparr>heap := set_guard True a (heap s1)\<rparr>"
  define s3 where "s3 = (if NOT (req_g_flags r) AND GET_FLAG_IGNORE_EXPIRES \<noteq> 0 \<and> expires e \<noteq> CACHE_EXPIRES_INIT
    then ?s2\<lparr>clock_calls := clock_calls s + 1\<rparr> else ?s2)"
  have "heap s3 = set_guard True a (heap s1)" "mem s3 = mem s1" "entry_maps s3 = entry_maps s1"
    "tag_tree s3 = tag_tree s1" "clients s3 = clients s1" "workers s3 = workers s1" by (simp_all add: s3_def)
  moreover have "check_expires ?s2 (req_g_flags r) e = (expired_at (req_g_flags r) e (clock s (clock_calls s)), s3)"
    using R(6,7) by (simp add: check_expires_def expired_at_def s3_def)
  ultimately show thesis using that s1 a by blast
qed

lemma get_expired:
  assumes inv: "sys_inv s" and w: "worker (clients s c) = Some w"
    and key: "unread s c = rev key @ rest" "length key = unat (req_g_klen r)" "key \<noteq> []"
    and e: "cache s key = Some e" and ex: "expired_at (req_g_flags r) e (clock s (clock_calls s))"
  shows "get_post s c w r key rest"
proof -
  from get_found_start [OF inv w key e] obtain s1 s3 a where
    F: "read_request_key s c (req_g_klen r) = Some (STATUS_OK, key, s1)" "read_to c rest s s1"
    "map_get s1 key = Some (Some a, s1\<lparr>heap := set_guard True a (heap s1)\<rparr>)" "heap s1 a = Some e" "\<not> guard e"
    and exp: "check_expires (s1\<lparr>heap := set_guard True a (heap s1)\<rparr>) (req_g_flags r) e =
      (expired_at (req_g_flags r) e (clock s (clock_calls s)), s3)"
    and s3: "heap s3 = set_guard True a (heap s1)" "mem s3 = mem s1" "entry_maps s3 = entry_maps s1"
    "tag_tree s3 = tag_tree s1" "clients s3 = clients s1" "workers s3 = workers s1" by metis
  note R = read_toD [OF F(2)]
  have h2: "set_guard True a (heap s1) a = Some (e\<lparr>guard := True\<rparr>)" using F(4) by (simp add: set_guard_same)
  let ?s4 = "s3\<lparr>heap := heap s1\<rparr>"
  have u: "unlock_entry s3 a = Some ?s4"
    using s3(1) h2 F(4,5) UNLOCK_ENTRY_eq [of "heap s3" a "e\<lparr>guard := True\<rparr>"] by (simp add: unlock_entry_def set_guard_idem)
  have c4: "same_core s1 ?s4" using s3 by (simp add: same_core_def)
  have "length key \<le> 255" unfolding key(2) by (rule unat_u8_le)
  note log = log_key_defined [OF this]
  obtain s5 where s5: "log_with ?s4 c (\<lambda>q who. log_request_get_miss q who key) = Some s5" "same_core ?s4 s5" "io_kept ?s4 s5"
    by (rule log_with_ok [where f = "\<lambda>q who. log_request_get_miss q who key" and s = ?s4 and c = c and w = w])
      (use R w log s3 in auto)
  let ?s6 = "upd_counters c (get_miss_update (\<lambda>n. n + 1)) s5"
  have run: "handle_get_request s c r = Some (STATUS_EXPIRED, NullPayload, ?s6)"
    using w F(1,3) h2 u s5(1) by (simp add: handle_get_request_def exp ex del: time_now_simps)
  have sc: "same_core s ?s6" using R(1) c4 s5(2) same_core_trans same_core_upds(2) by blast
  have cl: "clients s5 = clients s1" using io_keptD(1) [OF s5(3)] s3(5) by simp
  have "get_outcome s c w (req_g_flags r) key STATUS_EXPIRED NullPayload ?s6"
    using e ex same_core_cache [OF sc] R(5) cl by (simp add: get_outcome_def)
  moreover have "unread ?s6 c = rest" using R(4) unread_cong [OF cl] by simp
  moreover have "sys_inv ?s6" using same_core_inv [OF sc] inv by simp
  moreover have "tag_tree ?s6 = tag_tree s" "mem ?s6 = mem s" using sc by (simp_all add: same_core_def)
  moreover have "served c s ?s6" by (rule served_trans [OF R(9) served_trans [OF served_eq [OF cl] served_counters]])
  moreover have "bufs_kept s ?s6" using bufs_kept_io [OF s5(3)] s3(6) R(2) by (simp add: bufs_kept_def)
  ultimately show ?thesis using run unfolding get_post_def by blast
qed

lemma get_hit_ok:
  assumes inv: "sys_inv s" and w: "worker (clients s c) = Some w"
    and key: "unread s c = rev key @ rest" "length key = unat (req_g_klen r)" "key \<noteq> []"
    and e: "cache s key = Some e" and ex: "\<not> expired_at (req_g_flags r) e (clock s (clock_calls s))"
    and base: "payload_base (payload_buffer (workers s w)) \<noteq> None"
  shows "get_post s c w r key rest"
proof -
  from get_found_start [OF inv w key e] obtain s1 s3 a where
    F: "read_request_key s c (req_g_klen r) = Some (STATUS_OK, key, s1)" "read_to c rest s s1"
    "map_get s1 key = Some (Some a, s1\<lparr>heap := set_guard True a (heap s1)\<rparr>)" "heap s1 a = Some e" "\<not> guard e"
    "entry_of s1 key = Some a" "entry_fine e"
    and exp: "check_expires (s1\<lparr>heap := set_guard True a (heap s1)\<rparr>) (req_g_flags r) e =
      (expired_at (req_g_flags r) e (clock s (clock_calls s)), s3)"
    and s3: "heap s3 = set_guard True a (heap s1)" "mem s3 = mem s1" "entry_maps s3 = entry_maps s1"
    "tag_tree s3 = tag_tree s1" "clients s3 = clients s1" "workers s3 = workers s1" by metis
  note R = read_toD [OF F(2)]
  have inv1: "sys_inv s1" and c1: "cache s1 = cache s"
    using same_core_inv [OF R(1)] same_core_cache [OF R(1)] inv by simp_all
  have "length key \<le> 255" unfolding key(2) by (rule unat_u8_le)
  note log = log_key_defined [OF this]
  obtain s4 where s4: "log_with s3 c (\<lambda>q who. log_request_get_hit q who key) = Some s4" "same_core s3 s4" "io_kept s3 s4"
    by (rule log_with_ok [where f = "\<lambda>q who. log_request_get_hit q who key" and s = s3 and c = c and w = w])
      (use R w log s3 in auto)
  let ?e = "e\<lparr>nhits := nhits e + 1\<rparr>"
  let ?v = "e_value e" and ?pl = "payload_buffer (workers s w)"
  define t where "t = s1\<lparr>heap := (heap s1)(a \<mapsto> ?e)\<rparr>"
  define s6 where "s6 = upd_counters c (get_hit_update (\<lambda>n. n + 1)) (upd_entry a (nhits_update (\<lambda>n. n + 1)) s4)"
  have "heap s4 = set_guard True a (heap s1)" using s4(2) s3(1) by (simp add: same_core_def)
  then have h6: "heap s6 = (heap s1)(a \<mapsto> e\<lparr>guard := True, nhits := nhits e + 1\<rparr>)"
    using F(4) by (simp add: s6_def upd_entry_def set_guard_def nhits_guard)
  have sc6: "mem s6 = mem s1" "entry_maps s6 = entry_maps s1" "tag_tree s6 = tag_tree s1"
    using s4(2) s3 by (simp_all add: s6_def upd_entry_def same_core_def upd_counters_def)
  have cl: "clients s4 = clients s1" using io_keptD(1) [OF s4(3)] s3(5) by simp
  have io6: "workers s6 = workers s4" "unread s6 c = rest"
    "c_counters (clients s6 c) = get_hit_update (\<lambda>n. n + 1) (c_counters (clients s c))"
    using R(4,5) unread_cong [OF cl] by (simp_all add: s6_def cl)
  have pl: "payload_buffer (workers s4 w) = ?pl"
    using io_keptD(3) [OF s4(3)] s3(6) R(2) by simp
  have u: "unlock_entry x a = Some (x\<lparr>heap := heap t\<rparr>)" if "heap x = heap s6" for x
    using that F(5) by (simp add: unlock_entry_def UNLOCK_ENTRY_def h6 t_def)
  have run: "handle_get_request s c r =
     (if length ?v > unat (payload_cap ?pl) then Option.bind (unlock_entry s6 a) (\<lambda>s7. Some (STATUS_BUG, NullPayload, s7))
      else if length ?v > 0 then Option.bind (payload_base ?pl) (\<lambda>_.
        Option.bind (unlock_entry (set_payload_data w (store_bytes (payload_data ?pl) 0 ?v)
          (set_payload_nmemb w (of_nat (length ?v)) s6)) a) (\<lambda>s9. Some (STATUS_OK, WorkerPayload, s9)))
      else Option.bind (unlock_entry s6 a) (\<lambda>s7. Some (STATUS_OK, NullPayload, s7)))"
    using w F(1,3,4) s4(1) pl io6(1)
    by (simp add: handle_get_request_def set_guard_same exp ex Let_def s6_def [symmetric] del: time_now_simps)
  have fin: ?thesis if x: "handle_get_request s c r = Some (st, p, x\<lparr>heap := heap t\<rparr>)" "mem x = mem s1"
    "entry_maps x = entry_maps s1" "tag_tree x = tag_tree s1" "clients x = clients s6" "p \<noteq> DeadPayload" "bufs_kept s6 x"
    "if length ?v \<le> unat (payload_cap ?pl) then st = STATUS_OK \<and> payload_bytes x w p = ?v else st = STATUS_BUG \<and> p = NullPayload"
    for st p x
  proof -
    let ?x = "x\<lparr>heap := heap t\<rparr>"
    have key': "e_key e = key" using F(4,6) by (metis entry_of_Some option.inject)
    have T: "sys_inv t" "cache t = (cache s)(key \<mapsto> ?e)"
      using replace_entry [OF inv1 F(6,4), of ?e] F(5,7) c1 by (simp_all add: t_def)
    have "same_core t ?x" using x(2-4) by (simp add: same_core_def t_def)
    then have X: "sys_inv ?x" "cache ?x = (cache s)(key \<mapsto> ?e)" using same_core_inv same_core_cache T by metis+
    have "get_outcome s c w (req_g_flags r) key st p ?x"
      using e ex X(2) io6(3) x(5,8) by (simp add: get_outcome_def)
    moreover have "unread ?x c = rest" using io6(2) x(5) by (simp add: unread_def)
    moreover have "tag_tree ?x = tag_tree s" "mem ?x = mem s" using R(1) x(2,4) by (simp_all add: same_core_def)
    moreover have "served c s ?x"
    proof (rule served_trans [OF R(9) served_trans])
      show "served c s1 (upd_entry a (nhits_update (\<lambda>n. n + 1)) s4)" by (rule served_eq) (simp add: cl)
      show "served c (upd_entry a (nhits_update (\<lambda>n. n + 1)) s4) ?x"
        by (rule served_trans [OF served_counters served_eq]) (simp add: x(5) s6_def)
    qed
    moreover have "bufs_kept s ?x"
      using x(7) bufs_kept_io [OF s4(3)] s3(6) R(2) by (simp add: bufs_kept_def s6_def)
    ultimately show ?thesis using x(1,6) X(1) unfolding get_post_def by (intro exI conjI) simp_all
  qed
  consider "length ?v > unat (payload_cap ?pl)" | "length ?v \<le> unat (payload_cap ?pl)" "?v \<noteq> []" | "?v = []" by force
  then show ?thesis
  proof cases
    case 1
    then show ?thesis by (intro fin [of STATUS_BUG NullPayload s6]) (simp_all add: run u sc6 bufs_kept_def)
  next
    case 2
    let ?x = "set_payload_data w (store_bytes (payload_data ?pl) 0 ?v) (set_payload_nmemb w (of_nat (length ?v)) s6)"
    have "length ?v < 2 ^ 32" using 2(1) unat_u32_less [of "payload_cap ?pl"] by linarith
    then have "payload_bytes ?x w WorkerPayload = ?v"
      by (simp add: payload_bytes_def Let_def set_payload_data_def set_payload_nmemb_def upd_worker_def unat_of_nat load_store_same)
    then show ?thesis
      using 2 base by (intro fin [of STATUS_OK WorkerPayload ?x]) (auto simp: run u sc6 bufs_kept_def)
  next
    case 3
    then show ?thesis by (intro fin [of STATUS_OK NullPayload s6]) (simp_all add: run u sc6 bufs_kept_def payload_bytes_def)
  qed
qed

lemma get_ok:
  assumes "sys_inv s" and "worker (clients s c) = Some w"
    and "unread s c = rev key @ rest" "length key = unat (req_g_klen r)" "key \<noteq> []"
    and "payload_base (payload_buffer (workers s w)) \<noteq> None"
  shows "get_post s c w r key rest"
  using get_absent [OF assms(1-5)] get_expired [OF assms(1-5)] get_hit_ok [OF assms(1-5) _ _ assms(6)]
  by (cases "cache s key") blast+

section \<open>DEL\<close>

lemma del_ok:
  assumes inv: "sys_inv s" and w: "current_client s = Some c" "worker (clients s c) = Some w"
    and key: "unread s c = rev key @ rest" "length key = unat (req_d_klen r)" "key \<noteq> []"
  shows "\<exists>s'. handle_del_request s c r = Some (if cache s key = None then STATUS_NOT_FOUND else STATUS_OK, s') \<and>
    sys_inv s' \<and> served c s s' \<and> bufs_kept s s' \<and> cache s' = (cache s)(key := None) \<and> unread s' c = rest \<and> loose s' = loose s \<and>
    (indexed s \<longrightarrow> indexed s')"
proof -
  obtain s1 where s1: "read_request_key s c (req_d_klen r) = Some (STATUS_OK, key, s1)" "read_to c rest s s1"
    by (rule read_request_key_ok [OF key])
  note R = read_toD [OF s1(2)]
  let ?s = "upd_counters c (c_del_update (\<lambda>n. n + 1)) s1"
  have sc: "same_core s ?s" using R(1) same_core_trans same_core_upds(2) by blast
  have inv1: "sys_inv ?s" and c1: "cache ?s = cache s" using same_core_inv [OF sc] same_core_cache [OF sc] inv by simp_all
  have len: "length key \<le> 255" unfolding key(2) by (rule unat_u8_le)
  have w1: "current_client ?s = Some c" "worker (clients ?s c) = Some w" using w R(3,8) by simp_all
  obtain s' where s': "delete_entry_by_key ?s key = Some (if cache s key = None then STATUS_NOT_FOUND else STATUS_OK, s')"
    "sys_inv s'" "cache s' = (cache s)(key := None)" "io_kept ?s s'" "loose s' = loose ?s" "indexed ?s \<Longrightarrow> indexed s'"
    by (rule delete_entry_ok [OF inv1 w1 len]) (simp only: c1)
  have "unread s' c = rest" using R(4) unread_cong [OF io_keptD(1) [OF s'(4)]] by simp
  moreover have "served c s s'"
    by (rule served_trans [OF R(9) served_trans [OF served_counters served_eq [OF io_keptD(1) [OF s'(4)]]]])
  moreover have "bufs_kept s s'" using bufs_kept_io [OF s'(4)] R(2) by (simp add: bufs_kept_def)
  moreover have "indexed ?s = indexed s" using sc by (simp add: indexed_def c1 same_core_def)
  moreover have "loose ?s = loose s" using sc by (simp add: loose_def same_core_def)
  moreover have "handle_del_request s c r = Some (if cache s key = None then STATUS_NOT_FOUND else STATUS_OK, s')"
    using s1(1) s'(1) by (simp add: handle_del_request_def)
  ultimately show ?thesis using s' by (intro exI [of _ s']) simp
qed

end
