(* ===== verification/Cik_Set.thy ===== *)
theory Cik_Set
  imports Cik_Get
begin

text \<open>
  \<open>SET\<close>, described on the cache: the new entry replaces what the key had, or the request is refused and
  the cache is what it was, also when the value never arrives.
\<close>

section \<open>Only the time of expiry\<close>

lemma set_only_ttl_ok:
  assumes inv: "sys_inv s"
  shows "\<exists>s'. set_only_ttl s key ttl = Some (if cache s key = None then STATUS_NOT_FOUND else STATUS_OK, s') \<and>
    sys_inv s' \<and> clients s' = clients s \<and> tag_tree s' = tag_tree s \<and> loose s' = loose s \<and>
    cache s' = (case cache s key of None \<Rightarrow> cache s | Some e \<Rightarrow> (cache s)(key \<mapsto>
      e\<lparr>expires := if ttl = -1 then CACHE_EXPIRES_INIT else clock s (clock_calls s) + ucast ttl\<rparr>))"
proof (cases "cache s key")
  case None
  then have "set_only_ttl s key ttl = Some (STATUS_NOT_FOUND, s)"
    using map_get_eq [OF inv, of key] entry_of_None [of s key] by (simp add: set_only_ttl_def)
  then show ?thesis using None inv by simp
next
  case (Some e)
  from found_entry [OF inv Some] obtain a where a: "map_get s key = Some (Some a, s\<lparr>heap := set_guard True a (heap s)\<rparr>)"
    "entry_of s key = Some a" "heap s a = Some e" "\<not> guard e" "e_key e = key" "entry_fine e" by metis
  let ?t = "if ttl = -1 then CACHE_EXPIRES_INIT else clock s (clock_calls s) + ucast ttl"
  let ?e = "e\<lparr>expires := ?t\<rparr>"
  define s2 where "s2 = (if ttl = -1 then s else s\<lparr>clock_calls := clock_calls s + 1\<rparr>)"
  have ex: "expires_update (\<lambda>_. ?t) (e\<lparr>guard := True\<rparr>) = ?e\<lparr>guard := True\<rparr>" by (cases e) simp
  have ng: "?e\<lparr>guard := False\<rparr> = ?e" using a(4) by simp
  have "set_only_ttl s key ttl = Some (STATUS_OK, s2\<lparr>heap := (heap s)(a \<mapsto> ?e)\<rparr>)"
    using a(1,3,4) ex ng
    by (simp add: set_only_ttl_def s2_def upd_entry_def unlock_entry_def UNLOCK_ENTRY_def set_guard_def Let_def)
  moreover have "same_core (s\<lparr>heap := (heap s)(a \<mapsto> ?e)\<rparr>) (s2\<lparr>heap := (heap s)(a \<mapsto> ?e)\<rparr>)"
    by (simp add: same_core_def s2_def)
  moreover note replace_entry [OF inv a(2,3), of ?e]
  ultimately show ?thesis
    using Some a same_core_inv same_core_cache
    by (intro exI [of _ "s2\<lparr>heap := (heap s)(a \<mapsto> ?e)\<rparr>"]) (auto simp: s2_def loose_def)
qed

section \<open>A new entry\<close>

lemma new_entry_inv:
  assumes inv: "sys_inv s" and r: "reserve_memory (mem s) n = (Some a, m)" and e: "entry_fine e"
  shows "core_inv {a} {a} (s\<lparr>mem := m, heap := (heap s)(a \<mapsto> e)\<rparr>)"
    and "cache (s\<lparr>mem := m, heap := (heap s)(a \<mapsto> e)\<rparr>) = cache s"
    and "loose (s\<lparr>mem := m, heap := (heap s)(a \<mapsto> e)\<rparr>) = loose s"
proof -
  note D = core_invD [OF inv]
  note M = mem.reserve_inv [OF D(1) r] mem.reserve_Some [OF D(1) r]
  let ?s = "s\<lparr>mem := m, heap := (heap s)(a \<mapsto> e)\<rparr>"
  have new: "a \<notin> dom (heap s)" "a \<notin> occupied s" "a \<notin> tag_blocks (tag_tree s)"
    using D(2,4,6) M(2) by (auto simp: tag_inv_def)
  have h: "heap ?s c = heap s c" if "c \<in> occupied s" for c using that new(2) by auto
  have em: "entry_maps ?s = entry_maps s" by simp
  have occ: "occupied ?s = occupied s" by (simp add: occupied_def)
  note O = heap_outside [OF inv h em]
  have "heap_inv {a} {a} ?s"
    unfolding heap_inv_def occ
  proof (intro conjI)
    show "dom (heap ?s) = occupied s \<union> {a}" using D(4) by simp
    show "occupied s \<inter> {a} = {}" using new(2) by simp
    show "dom (heap ?s) \<subseteq> live (mem ?s) - tag_blocks (tag_tree ?s)" using D(6) new(3) M(2) by simp blast
    show "\<forall>c f. heap ?s c = Some f \<longrightarrow> entry_fine f \<and> (c \<notin> {a} \<longrightarrow> \<not> guard f)" using D(7,8) e by simp
  qed
  moreover have "tag_inv m (tag_tree s)" using D(2) M(2) tag_inv_memory by blast
  ultimately show "core_inv {a} {a} ?s" using M(1) O(4) by (simp add: core_inv_def)
  show "cache ?s = cache s" using O(1) .
  show "loose ?s = loose s" using M(2) new(1) by (simp add: loose_def) blast
qed

lemma bucket_size_eq:
  assumes "mem_inv m" and "a \<in> live m"
  shows "bucket_size m a = block_size m a"
proof -
  obtain b i where b: "a = b + TPADDED_Bucket" "buckets m b = Some i" using assms(2) by (auto simp: live_def)
  then have "i < NUM_CLASSES" using assms(1) unfolding mem_inv_def wf_layout_def by blast
  then show ?thesis using b assms(1) by (simp add: bucket_size_def block_size_def mem_invD(3))
qed

lemma live_block_size:
  assumes "mem_inv m" and "a \<in> live m"
  shows "block_size m a \<le> MAX_BUCKET_SIZE"
proof -
  obtain b i where b: "a = b + TPADDED_Bucket" "buckets m b = Some i" using assms(2) by (auto simp: live_def)
  then have "i < NUM_CLASSES" using assms(1) unfolding mem_inv_def wf_layout_def by blast
  then show ?thesis using b class_size_bounds by (simp add: block_size_def)
qed

section \<open>Up to the value\<close>

text \<open>The request as it arrives, and the entry it stands for.\<close>

definition set_total :: "u8 list list \<Rightarrow> u8 list \<Rightarrow> nat \<Rightarrow> nat" where
  "set_total tags key vlen = sizeof_CacheTag * length tags + sum_list (map length tags) + length key + vlen"

definition set_request_ok :: "state \<Rightarrow> nat \<Rightarrow> nat \<Rightarrow> Request \<Rightarrow> u8 list \<Rightarrow> u8 list list \<Rightarrow> u8 list \<Rightarrow> bool" where
  "set_request_ok s c w r key tags rest \<longleftrightarrow> worker (clients s c) = Some w \<and> req_s_flags r AND SET_FLAG_ONLY_TTL = 0 \<and>
     unread s c = rev key @ tag_stream tags @ rest \<and> length key = unat (req_s_klen r) \<and> key \<noteq> [] \<and>
     length tags = unat (req_s_ntags r) \<and> tags_ok tags \<and>
     sum_list (map length tags) \<le> unat (payload_cap (payload_buffer (workers s w))) \<and>
     (tags \<noteq> [] \<longrightarrow> payload_base (payload_buffer (workers s w)) \<noteq> None) \<and>
     sizeof_CacheEntry + set_total tags key (unat (ntohl (req_s_vlen r))) < 2 ^ 32"

definition set_expires :: "Request \<Rightarrow> time_t \<Rightarrow> time_t" where
  "set_expires r now = (if ntohl (req_s_ttl r) \<noteq> -1 then now + ucast (ntohl (req_s_ttl r)) else CACHE_EXPIRES_INIT)"

definition set_entry :: "Request \<Rightarrow> u8 list \<Rightarrow> u8 list list \<Rightarrow> u8 list \<Rightarrow> time_t \<Rightarrow> CacheEntry" where
  "set_entry r key tags val now = \<lparr>e_key = key, e_tags = tags, e_value = val, mtime = now,
     expires = set_expires r now, nhits = 0, guard = False\<rparr>"

text \<open>The state in which the value is read: the entry is reserved and locked, and holds tags and key.\<close>

definition set_start :: "state \<Rightarrow> nat \<Rightarrow> Request \<Rightarrow> u8 list \<Rightarrow> u8 list list \<Rightarrow> addr \<Rightarrow> state \<Rightarrow> bool" where
  "set_start s c r key tags a s5 \<longleftrightarrow> core_inv {a} {a} s5 \<and> cache s5 = cache s \<and> loose s5 = loose s \<and>
     tag_tree s5 = tag_tree s \<and>
     heap s5 a = Some ((CACHE_ENTRY_INIT (clock s (clock_calls s)))\<lparr>guard := True, e_tags := tags, e_key := key\<rparr>) \<and>
     clock s5 = clock s \<and> clock_calls s5 = clock_calls s + 1 \<and> current_client s5 = current_client s \<and>
     served c s s5 \<and> bufs_kept s s5 \<and> entry_maps s5 = entry_maps s"

lemma unat_of_nat_u32: "k < 2 ^ 32 \<Longrightarrow> unat (of_nat k :: u32) = k"
  by (simp add: unat_of_nat)

lemma set_total_word:
  assumes "tag_bytes d refs = tags" "length key = unat klen" "set_total tags key (unat vlen) < 2 ^ 32"
  shows "unat (fold (\<lambda>(_, n) t. t + ucast n) refs (of_nat (sizeof_CacheTag * length tags) :: u32) + ucast klen + vlen) =
    set_total tags key (unat vlen)"
proof -
  have "(ucast klen :: u32) = of_nat (length key)" by (simp only: assms(2) of_nat_unat)
  moreover have "vlen = of_nat (unat vlen)" by simp
  ultimately have "fold (\<lambda>(_, n) t. t + ucast n) refs (of_nat (sizeof_CacheTag * length tags) :: u32) + ucast klen + vlen =
      of_nat (set_total tags key (unat vlen))"
    unfolding tlen_eq [OF assms(1)] set_total_def by (metis of_nat_add)
  then show ?thesis using assms(3) by (simp add: unat_of_nat)
qed

text \<open>What the handler does once it has asked for the value.\<close>

definition set_rest :: "Request \<Rightarrow> addr \<Rightarrow> StatusCode \<times> u8 list \<times> state \<Rightarrow> (StatusCode \<times> state) option" where
  "set_rest r a = (\<lambda>(status, val, s6).
     if status \<noteq> STATUS_OK then Option.bind (unlock_and_release s6 a) (\<lambda>s7. Some (status, s7))
     else let (now, s7) = time_now s6 in publish_entry (upd_entry a (\<lambda>e. e\<lparr>e_value := val, mtime := now,
       expires := (if ntohl (req_s_ttl r) \<noteq> -1 then now + ucast (ntohl (req_s_ttl r)) else expires e)\<rparr>) s7) a)"

lemma set_read:
  assumes inv: "sys_inv s" and ok: "set_request_ok s c w r key tags rest"
  obtains s3 where "same_core s s3" "unread s3 c = rest" "clock s3 = clock s" "clock_calls s3 = clock_calls s"
    "current_client s3 = current_client s" "served c s s3" "bufs_kept s s3"
    "handle_set_request s c r = Option.bind (reserve_and_lock_entry s3 (set_total tags key (unat (ntohl (req_s_vlen r))))) (\<lambda>(entry, s4). case entry of
      None \<Rightarrow> Some (STATUS_OUT_OF_MEMORY, s4)
    | Some a \<Rightarrow> (let used = sizeof_CacheEntry + sizeof_CacheTag * length tags + sum_list (map length tags) + length key in
        if used > bucket_size (mem s4) a then None
        else let s5 = upd_entry a (\<lambda>e. e\<lparr>e_tags := tags, e_key := key\<rparr>) s4 in
          Option.bind (client_read s5 c (bucket_size (mem s4) a - used) (ntohl (req_s_vlen r))) (set_rest r a)))"
proof -
  let ?vlen = "ntohl (req_s_vlen r)" and ?klen = "req_s_klen r"
  let ?total = "set_total tags key (unat ?vlen)" and ?pl = "payload_buffer (workers s w)"
  have w: "worker (clients s c) = Some w" and fl: "req_s_flags r AND SET_FLAG_ONLY_TTL = 0"
    and str: "unread s c = rev key @ tag_stream tags @ rest" and kl: "length key = unat ?klen" "key \<noteq> []"
    and tl: "length tags = unat (req_s_ntags r)" "tags_ok tags" "sum_list (map length tags) \<le> unat (payload_cap ?pl)"
    "tags \<noteq> [] \<longrightarrow> payload_base ?pl \<noteq> None" and small: "sizeof_CacheEntry + ?total < 2 ^ 32"
    using ok unfolding set_request_ok_def by blast+
  have len: "length key \<le> 255" unfolding kl(1) by (rule unat_u8_le)
  obtain s1 where s1: "read_request_key s c ?klen = Some (STATUS_OK, key, s1)" "read_to c (tag_stream tags @ rest) s s1"
    by (rule read_request_key_ok [OF str kl])
  note R1 = read_toD [OF s1(2)]
  let ?s1 = "upd_counters c (c_set_update (\<lambda>n. n + 1)) s1"
  obtain s2 where s2: "log_with ?s1 c (\<lambda>q who. log_request_set q who key) = Some s2" "same_core ?s1 s2" "io_kept ?s1 s2"
    by (rule log_with_ok [where f = "\<lambda>q who. log_request_set q who key" and s = ?s1 and c = c and w = w])
      (use R1 w log_key_defined(3) [OF len] in auto)
  note K2 = io_keptD [OF s2(3)]
  have str2: "unread s2 c = tag_stream tags @ rest" using unread_cong [OF K2(1)] R1(4) by simp
  have w2: "worker (clients s2 c) = Some w" "payload_buffer (workers s2 w) = ?pl" using K2(1,3) R1(2,3) w by simp_all
  obtain refs d t where t: "read_tags_using_payload_buffer s2 c (req_s_ntags r) = Some (STATUS_OK, refs,
      set_payload_nmemb w (of_nat (sum_list (map length tags))) (set_payload_data w d t))"
    "read_to c rest s2 t" "tag_bytes d refs = tags"
    by (rule read_tags_ok [OF str2 tl(2,1) w2(1)]) (use tl(3,4) w2(2) in simp_all)
  note R2 = read_toD [OF t(2)]
  define s3 where "s3 = set_payload_nmemb w (of_nat (sum_list (map length tags))) (set_payload_data w d t)"
  have c3: "same_core s s3"
    using R1(1) same_core_upds(2) s2(2) R2(1) same_core_payload same_core_trans unfolding s3_def by metis
  have io3: "unread s3 c = rest" "clock s3 = clock s" "clock_calls s3 = clock_calls s" "current_client s3 = current_client s"
    "payload_data (payload_buffer (workers s3 w)) = d"
    using R1 R2 K2 by (simp_all add: s3_def)
  have "served c s1 s2" using served_trans [OF served_counters served_eq [OF K2(1)]] .
  moreover have "served c t s3" by (rule served_eq) (simp add: s3_def)
  ultimately have sv: "served c s s3" using served_trans [OF R1(9)] served_trans [OF R2(9)] served_trans by metis
  have bk: "bufs_kept s s3" using bufs_kept_io [OF s2(3)] R1(2) R2(2) by (simp add: bufs_kept_def s3_def)
  have tw: "unat (fold (\<lambda>(_, n) t. t + ucast n) refs (of_nat (sizeof_CacheTag * length tags) :: u32) + ucast ?klen + ?vlen) = ?total"
    by (rule set_total_word [OF t(3) kl(1)]) (use small in simp)
  have "handle_set_request s c r = Option.bind (reserve_and_lock_entry s3 ?total) (\<lambda>(entry, s4). case entry of
      None \<Rightarrow> Some (STATUS_OUT_OF_MEMORY, s4)
    | Some a \<Rightarrow> (let used = sizeof_CacheEntry + sizeof_CacheTag * length tags + sum_list (map length tags) + length key in
        if used > bucket_size (mem s4) a then None
        else let s5 = upd_entry a (\<lambda>e. e\<lparr>e_tags := tags, e_key := key\<rparr>) s4 in
          Option.bind (client_read s5 c (bucket_size (mem s4) a - used) ?vlen) (set_rest r a)))"
    unfolding handle_set_request_def w s1(1) s2(1) fl t(1) [folded s3_def] t(3) io3(5) tl(1) [symmetric] tw
      Let_def set_rest_def bind.bind_lunit prod.case simp_thms if_True if_False ..
  then show thesis using that [of s3] c3 io3 sv bk by blast
qed

lemma set_prepare:
  assumes inv: "sys_inv s" and ok: "set_request_ok s c w r key tags rest"
    and rm: "room (mem s) (k + block_budget (sizeof_CacheEntry + set_total tags key (unat (ntohl (req_s_vlen r)))))"
  obtains (refused) s' where "handle_set_request s c r = Some (STATUS_OUT_OF_MEMORY, s')" "same_core s s'"
      "MAX_BUCKET_SIZE < sizeof_CacheEntry + set_total tags key (unat (ntohl (req_s_vlen r)))" "unread s' c = rest" "served c s s'" "bufs_kept s s'"
  | (ready) a s5 n where "set_start s c r key tags a s5" "unread s5 c = rest" "room (mem s5) k"
      "unat (ntohl (req_s_vlen r)) \<le> n" "sizeof_CacheEntry + set_total tags key (unat (ntohl (req_s_vlen r))) \<le> MAX_BUCKET_SIZE"
      "handle_set_request s c r = Option.bind (client_read s5 c n (ntohl (req_s_vlen r))) (set_rest r a)"
proof -
  let ?vlen = "ntohl (req_s_vlen r)"
  let ?total = "set_total tags key (unat ?vlen)"
  let ?used = "sizeof_CacheEntry + sizeof_CacheTag * length tags + sum_list (map length tags) + length key"
  have tl: "tags_ok tags" "key \<noteq> []" "length key = unat (req_s_klen r)" "length tags = unat (req_s_ntags r)"
    and small: "sizeof_CacheEntry + ?total < 2 ^ 32" using ok unfolding set_request_ok_def by blast+
  have len: "length key \<le> 255" unfolding tl(3) by (rule unat_u8_le)
  obtain s3 where c3: "same_core s s3" and io3: "unread s3 c = rest" "clock s3 = clock s" "clock_calls s3 = clock_calls s"
    "current_client s3 = current_client s" "served c s s3" "bufs_kept s s3"
    and run: "handle_set_request s c r = Option.bind (reserve_and_lock_entry s3 ?total) (\<lambda>(entry, s4). case entry of
      None \<Rightarrow> Some (STATUS_OUT_OF_MEMORY, s4)
    | Some a \<Rightarrow> (let used = ?used in if used > bucket_size (mem s4) a then None
        else let s5 = upd_entry a (\<lambda>e. e\<lparr>e_tags := tags, e_key := key\<rparr>) s4 in
          Option.bind (client_read s5 c (bucket_size (mem s4) a - used) ?vlen) (set_rest r a)))"
    by (rule set_read [OF inv ok])
  have inv3: "sys_inv s3" and ca3: "cache s3 = cache s" using same_core_inv [OF c3] same_core_cache [OF c3] inv by simp_all
  have me: "mem s3 = mem s" "heap s3 = heap s" "tag_tree s3 = tag_tree s" "loose s3 = loose s" "entry_maps s3 = entry_maps s"
    using c3 by (simp_all add: same_core_def loose_def)
  let ?n = "of_nat (sizeof_CacheEntry + ?total) :: u32"
  have n: "unat ?n = sizeof_CacheEntry + ?total" using small by (rule unat_of_nat_u32)
  have rmn: "room (mem s) (k + block_budget (unat ?n))" unfolding n by (rule rm)
  show thesis
  proof (cases "reserve_memory (mem s) ?n")
    case (Pair r' m)
    show thesis
    proof (cases r')
      case None
      have big: "MAX_BUCKET_SIZE < unat ?n \<and> m = mem s" by (rule reserve_budgeted(2) [OF core_invD(1) [OF inv] rmn]) (simp add: Pair None del: of_nat_add)
      then have "reserve_and_lock_entry s3 ?total = Some (None, s3\<lparr>mem := mem s\<rparr>)"
        using Pair None by (simp add: reserve_and_lock_entry_def me del: of_nat_add)
      moreover have "s3\<lparr>mem := mem s\<rparr> = s3" using me(1) by simp
      ultimately have "handle_set_request s c r = Some (STATUS_OUT_OF_MEMORY, s3)" using run by simp
      then show thesis using refused [of s3] c3 big n io3(1,5,6) by simp
    next
      case (Some a)
      have r: "reserve_memory (mem s3) ?n = (Some a, m)" using Pair Some me by (simp del: of_nat_add)
      let ?init = "(CACHE_ENTRY_INIT (clock s (clock_calls s)))\<lparr>guard := True\<rparr>"
      let ?e = "?init\<lparr>e_tags := tags, e_key := key\<rparr>"
      define s4 where "s4 = s3\<lparr>mem := m, clock_calls := clock_calls s + 1, heap := (heap s3)(a \<mapsto> ?init)\<rparr>"
      define s5 where "s5 = upd_entry a (\<lambda>e. e\<lparr>e_tags := tags, e_key := key\<rparr>) s4"
      have res: "reserve_and_lock_entry s3 ?total = Some (Some a, s4)"
        using r io3(2,3) by (simp add: reserve_and_lock_entry_def s4_def lock_entry_def LOCK_ENTRY_def CACHE_ENTRY_INIT_def del: of_nat_add)
      note M = mem.reserve_inv [OF core_invD(1) [OF inv3] r] mem.reserve_Some [OF core_invD(1) [OF inv3] r]
      have fit: "sizeof_CacheEntry + ?total \<le> block_size m a" using M(2) n by simp
      have "a \<in> live m" using M(2) by simp
      then have fitm: "sizeof_CacheEntry + ?total \<le> MAX_BUCKET_SIZE" using fit live_block_size [OF M(1)] by fastforce
      have nt: "length tags \<le> 255" using tl(4) unat_u8_le [of "req_s_ntags r"] by simp
      have "entry_size ?e \<le> MAX_BUCKET_SIZE" using fitm by (simp add: entry_size_def set_total_def CACHE_ENTRY_INIT_def)
      then have fine: "entry_fine ?e" using tl(1,2) len nt by (auto simp: entry_fine_def tags_ok_def Suc_le_eq)
      note N = new_entry_inv [OF inv3 r fine]
      have sc5: "same_core (s3\<lparr>mem := m, heap := (heap s3)(a \<mapsto> ?e)\<rparr>) s5"
        by (simp add: same_core_def s5_def s4_def upd_entry_def)
      have cl5: "clients s5 = clients s3" "entry_maps s5 = entry_maps s" "tag_tree s5 = tag_tree s" "clock s5 = clock s"
        "clock_calls s5 = clock_calls s + 1" "current_client s5 = current_client s" "heap s5 a = Some ?e" "workers s5 = workers s3"
        by (simp_all add: s5_def s4_def upd_entry_def me io3)
      have "loose s5 = loose s" using N(3) me(4) sc5 by (simp add: loose_def same_core_def)
      then have st: "set_start s c r key tags a s5"
        unfolding set_start_def using N(1,2) same_core_inv [OF sc5] same_core_cache [OF sc5] ca3 cl5
          served_trans [OF io3(5) served_eq [OF cl5(1)]] bufs_kept_trans [OF io3(6) bufs_kept_eq [OF cl5(8)]] by (intro conjI) (simp_all only:)
      have mem5: "mem s5 = m" "mem s4 = m" by (simp_all add: s5_def s4_def)
      have bs: "bucket_size m a = block_size m a" using bucket_size_eq M by blast
      have us: "?used + unat ?vlen \<le> block_size m a" using fit by (simp add: set_total_def)
      have un5: "unread s5 c = rest" using io3(1) by (simp add: s5_def s4_def unread_def)
      show thesis
      proof (rule ready [OF st un5])
        show "room (mem s5) k" unfolding mem5 by (rule reserve_budgeted(1) [OF core_invD(1) [OF inv] rmn, of a]) (simp add: Pair Some del: of_nat_add)
        show "sizeof_CacheEntry + ?total \<le> MAX_BUCKET_SIZE" by (rule fitm)
        show "unat ?vlen \<le> block_size m a - ?used" using us by simp
        have "\<not> ?used > bucket_size (mem s4) a" using us bs mem5 by simp
        then show "handle_set_request s c r = Option.bind (client_read s5 c (block_size m a - ?used) ?vlen) (set_rest r a)"
          unfolding run res by (simp only: bind.bind_lunit case_prod_conv option.case Let_def if_False s5_def bs mem5)
      qed
    qed
  qed
qed

section \<open>The value, and the end\<close>

lemma upd_locked_entry:
  assumes inv: "core_inv {a} {a} s" and e: "heap s a = Some e" and f: "e_key (f e) = e_key e" "entry_fine (f e)"
  shows "core_inv {a} {a} (upd_entry a f s)" and "cache (upd_entry a f s) = cache s" and "loose (upd_entry a f s) = loose s"
proof -
  note D = core_invD [OF inv]
  have h: "\<exists>g'. heap (upd_entry a f s) c = Some g' \<and> e_key g' = e_key g \<and> entry_fine g' \<and> (c \<notin> {a} \<longrightarrow> \<not> guard g')"
    if "heap s c = Some g" for c g
    using D(7,8) [OF that] that e f by (cases "c = a") (auto simp: upd_entry_def)
  have d: "dom (heap (upd_entry a f s)) = dom (heap s)" using e by (auto simp: upd_entry_def)
  show "core_inv {a} {a} (upd_entry a f s)" by (rule core_inv_heap(1) [OF inv]) (use h d in simp_all)
  have "a \<notin> occupied s" using D(5) by simp
  then show "cache (upd_entry a f s) = cache s" by (intro heap_outside(1) [OF inv]) (auto simp: upd_entry_def)
  show "loose (upd_entry a f s) = loose s" using d by (simp add: loose_def)
qed

lemma set_ok_room:
  assumes inv: "sys_inv s" and ok: "set_request_ok s c w r key tags (val @ rest)"
    and vlen: "length val = unat (ntohl (req_s_vlen r))"
    and rm: "room (mem s) (2 * length tags + k + block_budget (sizeof_CacheEntry + set_total tags key (length val)))"
  shows "\<exists>st s'. handle_set_request s c r = Some (st, s') \<and> sys_inv s' \<and> loose s' = loose s \<and>
    served c s s' \<and> bufs_kept s s' \<and> (indexed s \<longrightarrow> indexed s') \<and>
    (st = STATUS_OK \<and> unread s' c = rest \<and>
       cache s' = (cache s)(key \<mapsto> set_entry r key tags val (clock s (clock_calls s + 1))) \<and>
       clock s' = clock s \<and> clock_calls s' = clock_calls s + 2 \<and> room (mem s') k \<and>
       (\<forall>i. fill s' i \<le> fill s i + (if i = map_for_key key then 1 else 0)) \<or>
     st = STATUS_OUT_OF_MEMORY \<and> cache s' = cache s \<and>
       (MAX_BUCKET_SIZE < sizeof_CacheEntry + set_total tags key (length val) \<and> unread s' c = val @ rest \<or>
        cache s key = None \<and> map_full s key \<and> unread s' c = rest))"
proof (cases rule: set_prepare [OF inv ok rm [unfolded vlen]])
  case (1 s')
  then show ?thesis using inv vlen same_core_inv [OF 1(2)] same_core_cache [OF 1(2)]
    by (intro exI [of _ STATUS_OUT_OF_MEMORY] exI [of _ s']) (simp add: same_core_def loose_def indexed_def)
next
  case (2 a s5 n)
  let ?now = "clock s (clock_calls s + 1)"
  have S: "core_inv {a} {a} s5" "cache s5 = cache s" "loose s5 = loose s" "tag_tree s5 = tag_tree s"
    "heap s5 a = Some ((CACHE_ENTRY_INIT (clock s (clock_calls s)))\<lparr>guard := True, e_tags := tags, e_key := key\<rparr>)"
    "clock s5 = clock s" "clock_calls s5 = clock_calls s + 1" "served c s s5" "entry_maps s5 = entry_maps s" "bufs_kept s s5"
    using 2(1) by (auto simp: set_start_def)
  obtain s6 where s6: "client_read s5 c n (ntohl (req_s_vlen r)) = Some (STATUS_OK, val, s6)" "read_to c rest s5 s6"
    by (rule client_read_ok [OF 2(2) vlen 2(4)])
  note R = read_toD [OF s6(2)]
  define f :: "CacheEntry \<Rightarrow> CacheEntry" where "f = (\<lambda>e. e\<lparr>e_value := val, mtime := ?now,
    expires := (if ntohl (req_s_ttl r) \<noteq> -1 then ?now + ucast (ntohl (req_s_ttl r)) else expires e)\<rparr>)"
  let ?s7 = "s6\<lparr>clock_calls := clock_calls s6 + 1\<rparr>"
  let ?s8 = "upd_entry a f ?s7"
  have sc: "same_core s5 ?s7" using R(1) by (simp add: same_core_def)
  have i7: "core_inv {a} {a} ?s7" "cache ?s7 = cache s" "loose ?s7 = loose s" "tag_tree ?s7 = tag_tree s"
    using S same_core_inv [OF sc] same_core_cache [OF sc] sc by (simp_all add: same_core_def loose_def)
  let ?e5 = "(CACHE_ENTRY_INIT (clock s (clock_calls s)))\<lparr>guard := True, e_tags := tags, e_key := key\<rparr>"
  have h7: "heap ?s7 a = Some ?e5" using S(5) R(1) by (simp add: same_core_def)
  have "entry_size (f ?e5) \<le> MAX_BUCKET_SIZE" using 2(5) vlen by (simp add: entry_size_def set_total_def f_def)
  then have fine: "entry_fine (f ?e5)" using core_invD(7) [OF i7(1) h7] by (simp add: entry_fine_def f_def)
  have i8: "core_inv {a} {a} ?s8" "cache ?s8 = cache s" "loose ?s8 = loose s"
    using upd_locked_entry [where f = f, OF i7(1) h7 _ fine] i7 by (simp_all add: f_def)
  have e8: "heap ?s8 a = Some (f ?e5)" using h7 by (simp add: upd_entry_def)
  have fe: "e_tags (f ?e5) = tags" "e_key (f ?e5) = key" "unlocked_entry (f ?e5) = set_entry r key tags val ?now"
    by (simp_all add: f_def unlocked_entry_def set_entry_def CACHE_ENTRY_INIT_def set_expires_def)
  have rm8: "room (mem ?s8) (2 * length (e_tags (f ?e5)) + k)" using 2(3) R(1) fe(1) by (simp add: same_core_def)
  have run: "handle_set_request s c r = publish_entry ?s8 a"
  proof -
    have now: "clock s6 (clock_calls s6) = ?now" using R(6,7) S(6,7) by simp
    show ?thesis unfolding 2(6) s6(1) by (simp add: set_rest_def f_def now cong: if_cong)
  qed
  have ind: "indexed ?s8 = indexed s" using i8(2) i7(4) by (simp add: indexed_def)
  have un: "unread s' c = rest" if "same_io ?s8 s'" for s'
    using that R(4) unread_cong [of s' ?s8 c] unread_cong [of ?s7 s6 c] by (simp add: same_io_def)
  have sv: "served c s s'" if "same_io ?s8 s'" for s'
  proof (rule served_trans [OF S(8) served_trans [OF R(9) served_eq]])
    show "clients s' = clients s6" using that by (simp add: same_io_def)
  qed
  have bk: "bufs_kept s s'" if "same_io ?s8 s'" for s'
    using that S(10) R(2) by (simp add: bufs_kept_def same_io_def)
  have em: "entry_maps ?s8 = entry_maps s" using S(9) R(1) by (simp add: same_core_def)
  have full: "map_full ?s8 key = map_full s key" and fill: "fill ?s8 i = fill s i" for i
    using em by (simp_all add: map_full_def fill_def)
  have clk: "clock s' = clock s \<and> clock_calls s' = clock_calls s + 2" if "same_io ?s8 s'" for s'
    using that S(6,7) R(6,7) by (simp add: same_io_def)
  show ?thesis
  proof (cases rule: publish_entry_ok [OF i8(1) e8 rm8])
    case (1 s')
    have "indexed s' = indexed s" using 1(3,7) i8(2) i7(4) by (simp add: indexed_def)
    then show ?thesis using run 1 i8 fe(2) full sv bk un by (intro exI [of _ STATUS_OUT_OF_MEMORY] exI [of _ s']) simp
  next
    case (2 s')
    then show ?thesis using run i8 fe ind un sv bk fill clk by (intro exI [of _ STATUS_OK] exI [of _ s']) simp
  qed
qed

lemma set_ok:
  assumes inv: "sys_inv s" and ok: "set_request_ok s c w r key tags (val @ rest)"
    and vlen: "length val = unat (ntohl (req_s_vlen r))" and rm: "room (mem s) (2 * length tags + BIG)"
  shows "\<exists>st s'. handle_set_request s c r = Some (st, s') \<and> sys_inv s' \<and> loose s' = loose s \<and>
    served c s s' \<and> bufs_kept s s' \<and> (indexed s \<longrightarrow> indexed s') \<and>
    (st = STATUS_OK \<and> unread s' c = rest \<and>
       cache s' = (cache s)(key \<mapsto> set_entry r key tags val (clock s (clock_calls s + 1))) \<or>
     st = STATUS_OUT_OF_MEMORY \<and> cache s' = cache s \<and>
       (MAX_BUCKET_SIZE < sizeof_CacheEntry + set_total tags key (length val) \<and> unread s' c = val @ rest \<or>
        cache s key = None \<and> map_full s key \<and> unread s' c = rest))"
proof -
  have "room (mem s) (2 * length tags + 0 + block_budget (sizeof_CacheEntry + set_total tags key (length val)))"
    by (rule bmem.room_mono [OF rm]) (use block_budget_le(1) in simp)
  from set_ok_room [OF inv ok vlen this] show ?thesis by blast
qed

text \<open>The value does not arrive: the block goes back, and nothing else has happened.\<close>

lemma set_aborted:
  assumes inv: "sys_inv s" and ok: "set_request_ok s c w r key tags part" and rm: "room (mem s) BIG"
    and fit: "sizeof_CacheEntry + set_total tags key (unat (ntohl (req_s_vlen r))) \<le> MAX_BUCKET_SIZE"
    and short: "length part < unat (ntohl (req_s_vlen r))"
    and ends: "at_eof (sock (clients s c))"
  shows "\<exists>st s'. handle_set_request s c r = Some (st, s') \<and> st \<in> {STATUS_NETWORK_ERROR, STATUS_CONNECTION_CLOSED} \<and>
    sys_inv s' \<and> cache s' = cache s \<and> loose s' = loose s \<and> tag_tree s' = tag_tree s \<and> served c s s' \<and> bufs_kept s s'"
proof -
  have rm': "room (mem s) (0 + block_budget (sizeof_CacheEntry + set_total tags key (unat (ntohl (req_s_vlen r)))))"
    by (rule bmem.room_mono [OF rm]) (use block_budget_le(1) in simp)
  show ?thesis
  proof (cases rule: set_prepare [OF inv ok rm'])
    case (1 s')
    then show ?thesis using fit by simp
  next
    case (2 a s5 n)
    have S: "core_inv {a} {a} s5" "cache s5 = cache s" "loose s5 = loose s" "tag_tree s5 = tag_tree s"
      "at_eof (sock (clients s5 c))" using 2(1) ends servedD(3) [of c s s5 c] by (auto simp: set_start_def)
    obtain st bs s6 rest where s6: "client_read s5 c n (ntohl (req_s_vlen r)) = Some (st, bs, s6)" "read_to c rest s5 s6"
      "st = (if broken (incoming (sock (clients s5 c))) then STATUS_NETWORK_ERROR else STATUS_CONNECTION_CLOSED)"
      by (rule client_read_fails [of s5 c "ntohl (req_s_vlen r)" n]) (use 2(2,4) short S(5) in simp_all)
    note sc = read_toD(1) [OF s6(2)]
    have i6: "core_inv {a} {a} s6" "cache s6 = cache s" "loose s6 = loose s" "tag_tree s6 = tag_tree s"
      using S same_core_inv [OF sc] same_core_cache [OF sc] sc by (simp_all add: same_core_def loose_def)
    obtain s7 where s7: "unlock_and_release s6 a = Some s7" "core_inv {} {} s7" "cache s7 = cache s6"
      "tag_tree s7 = tag_tree s6" "loose s7 = loose s6" "same_io s6 s7"
      by (rule release_entry [OF i6(1), of a]) simp_all
    have "handle_set_request s c r = Some (st, s7)"
      unfolding 2(6) s6(1) using s6(3) s7(1) by (simp add: set_rest_def)
    moreover have "served c s s7"
    proof (rule served_trans [OF _ served_trans [OF read_toD(9) [OF s6(2)] served_eq]])
      show "served c s s5" using 2(1) by (simp add: set_start_def)
      show "clients s7 = clients s6" using s7(6) by (simp add: same_io_def)
    qed
    moreover have "bufs_kept s s7"
      using 2(1) read_toD(2) [OF s6(2)] s7(6) by (simp add: set_start_def bufs_kept_def same_io_def)
    ultimately show ?thesis using s6(3) s7 i6 by auto
  qed
qed

end
