(* ===== verification/Cik_Serving.thy ===== *)
theory Cik_Serving
  imports Cik_Set Cik_Server
begin

text \<open>
  From the bytes a client sends to the bytes it gets: the worker's event loop around the handlers.
\<close>

section \<open>Writing to a client that listens\<close>

text \<open>The kernel will take at least \<open>n\<close> more bytes.\<close>

definition willing :: "acceptance list \<Rightarrow> nat \<Rightarrow> bool" where
  "willing as n \<longleftrightarrow> n \<le> length as \<and> (\<forall>a \<in> set as. \<exists>k. a = Accepts (Suc k))"

lemma willing_mono: "willing as n \<Longrightarrow> m \<le> n \<Longrightarrow> willing as m"
  by (simp add: willing_def)

lemma write_loop_all:
  assumes "bs \<noteq> []" and "willing as (length bs + n)"
  shows "\<exists>as'. write_loop as bs = Some (STATUS_OK, bs, as') \<and> willing as' n"
  using assms
proof (induction as bs rule: write_loop.induct)
  case (1 as bs)
  from 1(2,3) obtain a as1 where as: "as = a # as1" by (cases as) (auto simp: willing_def)
  then obtain k where k: "a = Accepts (Suc k)" using 1(3) by (auto simp: willing_def)
  let ?k = "min (Suc k) (length bs)"
  have send: "sys_send as bs = Some (Some ?k, as1)" by (simp add: as k)
  have pos: "?k \<noteq> 0" using 1(2) by simp
  show ?case
  proof (cases "length bs - ?k > 0")
    case True
    have "willing as1 (length (drop ?k bs) + n)" using 1(3) True by (auto simp: willing_def as)
    moreover have lt: "Suc k < length bs" using True by simp
    ultimately obtain as' where
      "write_loop as1 (drop ?k bs) = Some (STATUS_OK, drop ?k bs, as')" "willing as' n"
      using 1(1) [OF send refl refl pos True] by auto
    then show ?thesis using send lt by (subst write_loop.simps) simp
  next
    case False
    have "willing as1 n" using 1(2,3) by (cases bs) (auto simp: willing_def as)
    then show ?thesis using send pos False by (subst write_loop.simps) simp
  qed
qed

text \<open>The state after bytes have gone out to a client.\<close>

definition wrote :: "nat \<Rightarrow> u8 list \<Rightarrow> nat \<Rightarrow> state \<Rightarrow> state \<Rightarrow> bool" where
  "wrote c bs n s s' \<longleftrightarrow> (\<exists>as. s' = upd_client c (sock_update (\<lambda>sk. sk\<lparr>accepting := as, sent := sent sk @ bs\<rparr>)) s \<and>
     willing as n)"

lemma wroteD:
  assumes "wrote c bs n s s'"
  shows "same_core s s'" "workers s' = workers s" "unread s' d = unread s d" "clock s' = clock s" "clock_calls s' = clock_calls s"
    "sent (sock (clients s' c)) = sent (sock (clients s c)) @ bs" "willing (accepting (sock (clients s' c))) n"
    "worker (clients s' d) = worker (clients s d)" "fd (clients s' d) = fd (clients s d)"
    "at_eof (sock (clients s' d)) = at_eof (sock (clients s d))"
    "d \<noteq> c \<Longrightarrow> clients s' d = clients s d"
  using assms by (cases "d = c"; auto simp: wrote_def same_core_def unread_def upd_client_def)+

lemma client_write_all:
  assumes "willing (accepting (sock (clients s c))) (length bs + n)"
  obtains s' where "client_write s c bs = Some (STATUS_OK, s')" "wrote c bs n s s'"
proof (cases "bs = []")
  case True
  let ?sk = "sock (clients s c)"
  have "wrote c bs n s (upd_client c (sock_update (\<lambda>_. ?sk)) s)"
    unfolding wrote_def
  proof (intro exI conjI)
    show "upd_client c (sock_update (\<lambda>_. ?sk)) s =
        upd_client c (sock_update (\<lambda>sk. sk\<lparr>accepting := accepting ?sk, sent := sent sk @ bs\<rparr>)) s"
      using True by (cases "clients s c"; cases ?sk) (simp add: upd_client_def)
    show "willing (accepting ?sk) n" using assms True by simp
  qed
  then show thesis using True that by (simp add: client_write_def write_response_payload_def)
next
  case False
  from write_loop_all [OF this assms] obtain as where
    as: "write_loop (accepting (sock (clients s c))) bs = Some (STATUS_OK, bs, as)" "willing as n" by blast
  let ?sk = "sock (clients s c)"
  let ?s = "upd_client c (sock_update (\<lambda>_. ?sk\<lparr>accepting := as, sent := sent ?sk @ bs\<rparr>)) s"
  have "?s = upd_client c (sock_update (\<lambda>sk. sk\<lparr>accepting := as, sent := sent sk @ bs\<rparr>)) s"
    by (cases "clients s c") (simp add: upd_client_def)
  then have "wrote c bs n s ?s" using as(2) unfolding wrote_def by blast
  then show thesis using False as(1) that [of ?s] by (simp add: client_write_def write_response_payload_def)
qed

section \<open>The answer\<close>

definition reply :: "StatusCode \<Rightarrow> u8 list \<Rightarrow> u8 list" where
  "reply status body =
     (if sends_failure status then MAKE_FAILURE_RESPONSE status else MAKE_SUCCESS_RESPONSE (of_nat (length body))) @ body"

text \<open>What a request has changed of the clients: one of them got bytes, and is to be read on from
  somewhere else.\<close>

definition talked :: "nat \<Rightarrow> u8 list \<Rightarrow> u8 list \<Rightarrow> state \<Rightarrow> state \<Rightarrow> bool" where
  "talked c bs rest s s' \<longleftrightarrow> (\<forall>d. d \<noteq> c \<longrightarrow> clients s' d = clients s d) \<and> unread s' c = rest \<and>
     sent (sock (clients s' c)) = sent (sock (clients s c)) @ bs \<and>
     worker (clients s' c) = worker (clients s c) \<and> fd (clients s' c) = fd (clients s c) \<and>
     at_eof (sock (clients s' c)) = at_eof (sock (clients s c))"

lemma payload_of_bytes:
  assumes "worker (clients s c) = Some w" and "p \<noteq> DeadPayload"
  shows "\<exists>pl. payload_of s c p = Some pl \<and>
    (case pl of None \<Rightarrow> payload_bytes s w p = []
     | Some b \<Rightarrow> b = payload_buffer (workers s w) \<and> payload_bytes s w p = load_bytes (payload_data b) 0 (unat (payload_nmemb b)))"
  using assms by (cases p) (simp_all add: payload_of_def payload_bytes_def Let_def)

lemma answer_ok:
  assumes w: "worker (clients s c) = Some w" and p: "p \<noteq> DeadPayload"
    and base: "payload_bytes s w p \<noteq> [] \<Longrightarrow> payload_base (payload_buffer (workers s w)) \<noteq> None"
    and will: "willing (accepting (sock (clients s c))) (length (reply status (payload_bytes s w p)) + n)"
  shows "\<exists>s'. answer c status p (sv\<lparr>st := s\<rparr>) = Some (sv\<lparr>st := s'\<rparr>) \<and> same_core s s' \<and> workers s' = workers s \<and>
    clock s' = clock s \<and> clock_calls s' = clock_calls s \<and>
    talked c (reply status (payload_bytes s w p)) (unread s c) s s' \<and> willing (accepting (sock (clients s' c))) n"
proof -
  let ?body = "payload_bytes s w p"
  let ?head = "if sends_failure status then MAKE_FAILURE_RESPONSE status else MAKE_SUCCESS_RESPONSE (of_nat (length ?body))"
  obtain pl where pl: "payload_of s c p = Some pl"
    "case pl of None \<Rightarrow> ?body = []
     | Some b \<Rightarrow> b = payload_buffer (workers s w) \<and> ?body = load_bytes (payload_data b) 0 (unat (payload_nmemb b))"
    using payload_of_bytes [OF w p] by blast
  have size: "(case pl of None \<Rightarrow> 0 | Some b \<Rightarrow> payload_nmemb b) = of_nat (length ?body)"
    using pl(2) by (cases pl) simp_all
  have make: "make_response s c status p = Some ?head" using size by (simp add: make_response_def pl(1))
  have head: "length ?head = 8" by simp
  have "length (reply status ?body) + n = length ?head + (length ?body + n)" by (simp add: reply_def)
  with will obtain s1 where s1: "client_write s c ?head = Some (STATUS_OK, s1)" "wrote c ?head (length ?body + n) s s1"
    using client_write_all [of s c ?head "length ?body + n"] by metis
  note W1 = wroteD [OF s1(2)]
  have pl1: "payload_of s1 c p = Some pl" using pl(1) W1(2,8) by (simp add: payload_of_def split: payload_ptr.splits)
  obtain s2 where s2: "write_payload s1 c p = Some (STATUS_OK, s2)" "wrote c ?body n s1 s2"
  proof -
    obtain s2 where c: "client_write s1 c ?body = Some (STATUS_OK, s2)" "wrote c ?body n s1 s2"
      by (rule client_write_all [OF W1(7)])
    show thesis
    proof (cases "?body = []")
      case True
      then have w0: "wrote c ?body n s1 s1"
      proof -
        let ?sk = "sock (clients s1 c)"
        have "s1 = upd_client c (sock_update (\<lambda>sk. sk\<lparr>accepting := accepting ?sk, sent := sent sk @ ?body\<rparr>)) s1"
          using True by (cases s1; cases "clients s1 c"; cases ?sk) (auto simp: upd_client_def fun_eq_iff)
        moreover have "willing (accepting ?sk) n" using W1(7) True by simp
        ultimately show ?thesis unfolding wrote_def by blast
      qed
      have "payload_nmemb b = 0" if b: "pl = Some b" for b
      proof -
        have "length ?body = unat (payload_nmemb b)" using pl(2) by (simp add: b)
        then show ?thesis using True by (simp add: unat_eq_0)
      qed
      then have "write_payload s1 c p = Some (STATUS_OK, s1)"
        using pl1 by (cases pl) (simp_all add: write_payload_def)
      then show thesis using that w0 by blast
    next
      case False
      then obtain b where b: "pl = Some b" "b = payload_buffer (workers s w)"
        "?body = load_bytes (payload_data b) 0 (unat (payload_nmemb b))" using pl(2) by (cases pl) auto
      moreover have "payload_nmemb b \<noteq> 0" using False b(3) by (auto simp: load_bytes_def)
      moreover obtain a where "payload_base b = Some a" using base [OF False] b(2) by auto
      ultimately have "write_payload s1 c p = client_write s1 c ?body" using pl1 by (simp add: write_payload_def)
      then show thesis using that c by simp
    qed
  qed
  note W2 = wroteD [OF s2(2)]
  define s3 where "s3 = upd_client c (last_request_end_tick_update (\<lambda>_. ticks s2 (tick_calls s2))) (s2\<lparr>tick_calls := tick_calls s2 + 1\<rparr>)"
  have run: "answer c status p (sv\<lparr>st := s\<rparr>) = Some (sv\<lparr>st := s3\<rparr>)"
    using make s1(1) s2(1)
    by (simp add: answer_def closes_connection_iff get_performance_counter_def Let_def s3_def del: MAKE_SUCCESS_RESPONSE_def)
  have core: "same_core s s3" using W1(1) W2(1) by (auto simp: same_core_def s3_def)
  have "talked c (?head @ ?body) (unread s c) s s3"
    using W1 W2 by (simp add: talked_def s3_def upd_client_def unread_def)
  moreover have "willing (accepting (sock (clients s3 c))) n" using W2(7) by (simp add: s3_def upd_client_def)
  moreover have "workers s3 = workers s" "clock s3 = clock s" "clock_calls s3 = clock_calls s"
    using W1 W2 by (simp_all add: s3_def upd_client_def)
  ultimately show ?thesis using run core by (intro exI [of _ s3]) (simp add: reply_def)
qed

section \<open>The request\<close>

definition request_ok :: "u8 \<Rightarrow> Request \<Rightarrow> bool" where
  "request_ok op r \<longleftrightarrow> length r = sizeof_Request \<and> req_cik r = [CONTROL_BYTE_1, CONTROL_BYTE_2, CONTROL_BYTE_3] \<and> req_op r = op"

text \<open>The state in which a handler runs.\<close>

definition arrived :: "nat \<Rightarrow> u8 list \<Rightarrow> state \<Rightarrow> state \<Rightarrow> bool" where
  "arrived c rest s s1 \<longleftrightarrow> same_core s s1 \<and> workers s1 = workers s \<and> clock s1 = clock s \<and> clock_calls s1 = clock_calls s \<and>
     talked c [] rest s s1 \<and> accepting (sock (clients s1 c)) = accepting (sock (clients s c))"

lemma arrivedD:
  assumes "arrived c rest s s1"
  shows "same_core s s1" "workers s1 = workers s" "clock s1 = clock s" "clock_calls s1 = clock_calls s"
    "unread s1 c = rest" "worker (clients s1 c) = worker (clients s c)" "talked c [] rest s s1"
    "sent (sock (clients s1 c)) = sent (sock (clients s c))" "d \<noteq> c \<Longrightarrow> clients s1 d = clients s d"
    "at_eof (sock (clients s1 c)) = at_eof (sock (clients s c))" "accepting (sock (clients s1 c)) = accepting (sock (clients s c))"
  using assms by (auto simp: arrived_def talked_def)

lemma account_simps [simp]:
  "same_core s (account w t tm cn s)" "clients (account w t tm cn s) = clients s"
  "payload_buffer (workers (account w t tm cn s) v) = payload_buffer (workers s v)"
  "clock (account w t tm cn s) = clock s" "clock_calls (account w t tm cn s) = clock_calls s"
  "unread (account w t tm cn s) c = unread s c"
  by (simp_all add: account_def get_performance_counter_def Let_def upd_worker_def same_core_def unread_def)

lemma payload_bytes_account [simp]: "payload_bytes (account w t tm cn s) v p = payload_bytes s v p"
  by (simp add: payload_bytes_def Let_def split: payload_ptr.splits)

text \<open>The dispatch, once the control bytes are right.\<close>

definition dispatch :: "nat \<Rightarrow> nat \<Rightarrow> u64 \<Rightarrow> Request \<Rightarrow> state \<Rightarrow> (StatusCode \<times> payload_ptr \<times> state) option" where
  "dispatch w c start r s =
     (if req_op r = CMD_BYTE_GET then do {
        (status, p, s2) \<leftarrow> handle_get_request s c r; Some (status, p, account w start t_get_update n_get_update s2) }
      else if req_op r = CMD_BYTE_SET then do {
        (status, s2) \<leftarrow> handle_set_request s c r; Some (status, NullPayload, account w start t_set_update n_set_update s2) }
      else if req_op r = CMD_BYTE_DEL then do {
        (status, s2) \<leftarrow> handle_del_request s c r; Some (status, NullPayload, account w start t_del_update n_del_update s2) }
      else if req_op r = CMD_BYTE_CLR then do {
        (status, s2) \<leftarrow> handle_clr_request s c r; Some (status, NullPayload, account w start t_clr_update n_clr_update s2) }
      else if req_op r = CMD_BYTE_LST then do {
        (status, p, s2) \<leftarrow> handle_lst_request s c r; Some (status, p, account w start t_lst_update n_lst_update s2) }
      else if req_op r = CMD_BYTE_NFO then do {
        (status, p, s2) \<leftarrow> handle_nfo_request s c r; Some (status, p, account w start t_nfo_update n_nfo_update s2) }
      else Some (STATUS_PROTOCOL_ERROR, NullPayload, s))"

definition conclude :: "nat \<Rightarrow> server \<Rightarrow> StatusCode \<times> payload_ptr \<times> state \<Rightarrow> server option" where
  "conclude c sv = (\<lambda>(status, p, s3).
     if closes_connection status then Some (close_client c (sv\<lparr>st := s3\<rparr>)) else answer c status p (sv\<lparr>st := s3\<rparr>))"

lemma handle_request_dispatch:
  assumes "worker (clients s c) = Some w" and "req_cik r = [CONTROL_BYTE_1, CONTROL_BYTE_2, CONTROL_BYTE_3]"
  shows "handle_request s c r = dispatch w c (ticks s (tick_calls s)) r
    (s\<lparr>current_client := Some c, current_log_queue := Some w, tick_calls := tick_calls s + 1\<rparr>)"
  using assms by (simp add: handle_request_def dispatch_def get_performance_counter_def)

lemma read_request_ok:
  assumes "unread s c = r @ rest" and "length r = sizeof_Request"
  obtains ds where "read_request (sock (clients s c)) = Some (STATUS_OK, r, sock (clients s c)\<lparr>incoming := ds\<rparr>)" "stream ds = rest"
proof -
  have n: "unat (of_nat sizeof_Request :: u32) = sizeof_Request" by (simp add: sizeof_Request_def)
  have "unat (of_nat sizeof_Request :: u32) \<le> length (stream (incoming (sock (clients s c))))"
    using assms by (simp only: n) (simp add: unread_def)
  from read_enough [OF this, of sizeof_Request] assms that show thesis
    by (auto simp: read_request_def unread_def n)
qed

lemma request_received:
  assumes "unread (st sv) c = r @ rest" and "length r = sizeof_Request" and "worker (clients (st sv) c) = Some w"
    and "req_cik r = [CONTROL_BYTE_1, CONTROL_BYTE_2, CONTROL_BYTE_3]"
  obtains s1 start where "arrived c rest (st sv) s1" "current_client s1 = Some c"
    "process_request c sv = Option.bind (dispatch w c start r s1) (conclude c sv)"
proof -
  let ?s = "st sv"
  let ?begun = "upd_client c (last_request_start_tick_update (\<lambda>_. ticks ?s (tick_calls ?s))) (?s\<lparr>tick_calls := tick_calls ?s + 1\<rparr>)"
  have "unread ?begun c = r @ rest" using assms(1) by (simp add: unread_def upd_client_def)
  then obtain ds where ds: "read_request (sock (clients ?begun c)) = Some (STATUS_OK, r, sock (clients ?begun c)\<lparr>incoming := ds\<rparr>)"
    "stream ds = rest" by (rule read_request_ok [OF _ assms(2)])
  define s2 where "s2 = upd_client c (sock_update (\<lambda>_. sock (clients ?begun c)\<lparr>incoming := ds\<rparr>)) ?begun"
  have w2: "worker (clients s2 c) = Some w" using assms(3) by (simp add: s2_def upd_client_def)
  define s1 where "s1 = s2\<lparr>current_client := Some c, current_log_queue := Some w, tick_calls := tick_calls s2 + 1\<rparr>"
  have "process_request c sv = Option.bind (handle_request s2 c r) (conclude c sv)"
    using ds(1)
    by (simp add: process_request_def get_performance_counter_def closes_connection_iff conclude_def s2_def Let_def)
  then have run: "process_request c sv = Option.bind (dispatch w c (ticks s2 (tick_calls s2)) r s1) (conclude c sv)"
    using handle_request_dispatch [OF w2 assms(4)] by (simp add: s1_def)
  have arr: "arrived c rest ?s s1"
    using ds(2) by (simp add: arrived_def same_core_def talked_def s1_def s2_def upd_client_def unread_def)
  show thesis by (rule that [OF arr _ run]) (simp add: s1_def)
qed

text \<open>A handler that left the connection open has its status and payload sent.\<close>

lemma conclude_ok:
  assumes arr: "arrived c rest' (st sv) s1" and w: "worker (clients (st sv) c) = Some w" and sv2: "served c s1 s2"
    and status: "\<not> closes_connection status" and p: "p \<noteq> DeadPayload"
    and base: "payload_bytes s2 w p \<noteq> [] \<Longrightarrow> payload_base (payload_buffer (workers s2 w)) \<noteq> None"
    and will: "willing (accepting (sock (clients (st sv) c))) (length (reply status (payload_bytes s2 w p)) + n)"
  shows "\<exists>s3. conclude c sv (status, p, s2) = Some (sv\<lparr>st := s3\<rparr>) \<and> same_core s2 s3 \<and> workers s3 = workers s2 \<and>
    clock s3 = clock s2 \<and> clock_calls s3 = clock_calls s2 \<and>
    talked c (reply status (payload_bytes s2 w p)) (unread s2 c) (st sv) s3 \<and> willing (accepting (sock (clients s3 c))) n"
proof -
  note A = arrivedD [OF arr] and S = servedD [OF sv2]
  have "worker (clients s2 c) = Some w" using A(6) S(1) w by simp
  moreover have "willing (accepting (sock (clients s2 c))) (length (reply status (payload_bytes s2 w p)) + n)"
    using will A(11) S(5) by simp
  ultimately obtain s3 where s3: "answer c status p (sv\<lparr>st := s2\<rparr>) = Some (sv\<lparr>st := s3\<rparr>)" "same_core s2 s3"
    "workers s3 = workers s2" "clock s3 = clock s2" "clock_calls s3 = clock_calls s2"
    "talked c (reply status (payload_bytes s2 w p)) (unread s2 c) s2 s3" "willing (accepting (sock (clients s3 c))) n"
    using answer_ok [where s = s2 and w = w and c = c and status = status and n = n and sv = sv, OF _ p base] by blast
  have "talked c (reply status (payload_bytes s2 w p)) (unread s2 c) (st sv) s3"
    using s3(6) A(7) S by (simp add: talked_def)
  then show ?thesis using s3 status by (intro exI [of _ s3]) (simp add: conclude_def)
qed

section \<open>GET\<close>

definition get_reply :: "u8 \<Rightarrow> time_t \<Rightarrow> CacheEntry option \<Rightarrow> u8 list" where
  "get_reply flags now r = (case r of
     None \<Rightarrow> reply STATUS_NOT_FOUND []
   | Some e \<Rightarrow> if expired_at flags e now then reply STATUS_EXPIRED [] else reply STATUS_OK (e_value e))"

text \<open>The cache after a \<open>GET\<close>: a hit is counted in the entry.\<close>

definition get_counted :: "u8 \<Rightarrow> time_t \<Rightarrow> u8 list \<Rightarrow> (u8 list \<rightharpoonup> CacheEntry) \<Rightarrow> (u8 list \<rightharpoonup> CacheEntry)" where
  "get_counted flags now key C = (case C key of
     None \<Rightarrow> C
   | Some e \<Rightarrow> if expired_at flags e now then C else C(key \<mapsto> e\<lparr>nhits := nhits e + 1\<rparr>))"

lemma get_served:
  fixes sv c w r key rest n
  defines "s \<equiv> st sv"
  defines "now \<equiv> clock s (clock_calls s)"
  assumes inv: "sys_inv s" and w: "worker (clients s c) = Some w" and r: "request_ok CMD_BYTE_GET r"
    and key: "unread s c = r @ rev key @ rest" "length key = unat (req_g_klen r)" "key \<noteq> []"
    and pl: "payload_base (payload_buffer (workers s w)) \<noteq> None"
      "\<forall>e. cache s key = Some e \<longrightarrow> length (e_value e) \<le> unat (payload_cap (payload_buffer (workers s w)))"
    and will: "willing (accepting (sock (clients s c))) (length (get_reply (req_g_flags r) now (cache s key)) + n)"
  shows "\<exists>s'. process_request c sv = Some (sv\<lparr>st := s'\<rparr>) \<and> sys_inv s' \<and>
    cache s' = get_counted (req_g_flags r) now key (cache s) \<and> bufs_kept s s' \<and>
    talked c (get_reply (req_g_flags r) now (cache s key)) rest s s' \<and> willing (accepting (sock (clients s' c))) n"
proof -
  have R: "length r = sizeof_Request" "req_cik r = [CONTROL_BYTE_1, CONTROL_BYTE_2, CONTROL_BYTE_3]" "req_op r = CMD_BYTE_GET"
    using r by (simp_all add: request_ok_def)
  obtain s1 start where s1: "arrived c (rev key @ rest) s s1"
    "process_request c sv = Option.bind (dispatch w c start r s1) (conclude c sv)"
    using request_received [of sv c r "rev key @ rest" w] key(1) R(1,2) w unfolding s_def by metis
  note A = arrivedD [OF s1(1)]
  have inv1: "sys_inv s1" and c1: "cache s1 = cache s" using same_core_inv [OF A(1)] same_core_cache [OF A(1)] inv by simp_all
  have now: "clock s1 (clock_calls s1) = now" using A(3,4) by (simp add: now_def)
  obtain status p s2 where g: "handle_get_request s1 c r = Some (status, p, s2)" "sys_inv s2" "unread s2 c = rest"
    "served c s1 s2" "p \<noteq> DeadPayload" "bufs_kept s1 s2"
    "get_outcome s1 c w (req_g_flags r) key status p s2"
    using get_ok [OF inv1 _ A(5) key(2,3), of w] A(2,6) w pl(1) unfolding get_post_def by auto
  define x where "x = account w start t_get_update n_get_update s2"
  have run: "dispatch w c start r s1 = Some (status, p, x)" using R(3) g(1) by (simp add: dispatch_def x_def)
  have out: "\<not> closes_connection status \<and> reply status (payload_bytes s2 w p) = get_reply (req_g_flags r) now (cache s key) \<and>
      cache s2 = get_counted (req_g_flags r) now key (cache s)"
  proof (cases "cache s key")
    case None
    then show ?thesis using g(7) by (auto simp: get_outcome_def c1 closes_connection_iff get_reply_def get_counted_def payload_bytes_def)
  next
    case (Some e)
    show ?thesis
    proof (cases "expired_at (req_g_flags r) e now")
      case True
      then show ?thesis using g(7) Some
        by (auto simp: get_outcome_def c1 now closes_connection_iff get_reply_def get_counted_def payload_bytes_def)
    next
      case False
      then show ?thesis using g(7) Some pl(2) A(2)
        by (auto simp: get_outcome_def c1 now closes_connection_iff get_reply_def get_counted_def)
    qed
  qed
  have pb: "payload_bytes x w p = payload_bytes s2 w p" by (simp add: x_def)
  have "\<exists>s3. conclude c sv (status, p, x) = Some (sv\<lparr>st := s3\<rparr>) \<and> same_core x s3 \<and> workers s3 = workers x \<and>
    clock s3 = clock x \<and> clock_calls s3 = clock_calls x \<and>
    talked c (reply status (payload_bytes x w p)) (unread x c) (st sv) s3 \<and> willing (accepting (sock (clients s3 c))) n"
  proof (rule conclude_ok)
    show "arrived c (rev key @ rest) (st sv) s1" using s1(1) by (simp add: s_def)
    show "worker (clients (st sv) c) = Some w" using w by (simp add: s_def)
    show "served c s1 x" by (rule served_trans [OF g(4) served_eq]) (simp add: x_def)
    show "payload_base (payload_buffer (workers x w)) \<noteq> None" using g(6) A(2) pl(1) by (simp add: x_def bufs_kept_def)
    show "willing (accepting (sock (clients (st sv) c))) (length (reply status (payload_bytes x w p)) + n)"
      using will out by (simp add: pb s_def)
  qed (use out g(5) in simp_all)
  then obtain s3 where s3: "conclude c sv (status, p, x) = Some (sv\<lparr>st := s3\<rparr>)" "same_core x s3" "workers s3 = workers x"
    "talked c (reply status (payload_bytes x w p)) (unread x c) (st sv) s3" "willing (accepting (sock (clients s3 c))) n" by blast
  have "same_core s2 s3" by (rule same_core_trans [OF _ s3(2)]) (simp add: x_def)
  then have "sys_inv s3" "cache s3 = cache s2" using same_core_inv same_core_cache g(2) by blast+
  moreover have "bufs_kept s s3" using g(6) s3(3) A(2) by (simp add: bufs_kept_def x_def)
  ultimately show ?thesis using s1(2) run s3 out pb g(3) by (intro exI [of _ s3]) (simp add: s_def x_def)
qed

section \<open>The operations that answer without a payload\<close>

lemma plain_served:
  assumes arr: "arrived c rest' (st sv) s1" and w: "worker (clients (st sv) c) = Some w" and sv2: "served c s1 s2"
    and bk: "bufs_kept s1 s2" and status: "\<not> closes_connection status"
    and run: "process_request c sv = conclude c sv (status, NullPayload, account w start tm cn s2)"
    and will: "willing (accepting (sock (clients (st sv) c))) (length (reply status []) + n)"
  obtains s3 where "process_request c sv = Some (sv\<lparr>st := s3\<rparr>)" "same_core s2 s3" "bufs_kept (st sv) s3"
    "talked c (reply status []) (unread s2 c) (st sv) s3" "willing (accepting (sock (clients s3 c))) n"
    "clock s3 = clock s2" "clock_calls s3 = clock_calls s2"
proof -
  define x where "x = account w start tm cn s2"
  have pb: "payload_bytes x w NullPayload = []" by (simp add: payload_bytes_def)
  have "served c s1 x" by (rule served_trans [OF sv2 served_eq]) (simp add: x_def)
  from conclude_ok [where sv = sv and status = status and p = NullPayload and n = n, OF arr w this status] will pb
  obtain s3 where s3: "conclude c sv (status, NullPayload, x) = Some (sv\<lparr>st := s3\<rparr>)" "same_core x s3" "workers s3 = workers x"
    "clock s3 = clock x" "clock_calls s3 = clock_calls x" "talked c (reply status []) (unread x c) (st sv) s3"
    "willing (accepting (sock (clients s3 c))) n" by auto
  have "same_core s2 s3" by (rule same_core_trans [OF _ s3(2)]) (simp add: x_def)
  moreover have "bufs_kept (st sv) s3" using bk s3(3) arrivedD(2) [OF arr] by (simp add: bufs_kept_def x_def)
  ultimately show thesis using that [of s3] run s3 by (simp add: x_def)
qed

lemma del_served:
  fixes sv c w r key rest n
  defines "s \<equiv> st sv"
  assumes inv: "sys_inv s" and w: "worker (clients s c) = Some w" and r: "request_ok CMD_BYTE_DEL r"
    and key: "unread s c = r @ rev key @ rest" "length key = unat (req_d_klen r)" "key \<noteq> []"
    and will: "willing (accepting (sock (clients s c))) (8 + n)"
  shows "\<exists>s'. process_request c sv = Some (sv\<lparr>st := s'\<rparr>) \<and> sys_inv s' \<and> cache s' = (cache s)(key := None) \<and>
    (indexed s \<longrightarrow> indexed s') \<and> loose s' = loose s \<and> bufs_kept s s' \<and>
    talked c (reply (if cache s key = None then STATUS_NOT_FOUND else STATUS_OK) []) rest s s' \<and>
    willing (accepting (sock (clients s' c))) n"
proof -
  have R: "length r = sizeof_Request" "req_cik r = [CONTROL_BYTE_1, CONTROL_BYTE_2, CONTROL_BYTE_3]" "req_op r = CMD_BYTE_DEL"
    using r by (simp_all add: request_ok_def)
  obtain s1 start where s1: "arrived c (rev key @ rest) s s1" "current_client s1 = Some c"
    "process_request c sv = Option.bind (dispatch w c start r s1) (conclude c sv)"
    using request_received [of sv c r "rev key @ rest" w] key(1) R(1,2) w unfolding s_def by metis
  note A = arrivedD [OF s1(1)]
  have inv1: "sys_inv s1" and c1: "cache s1 = cache s" using same_core_inv [OF A(1)] same_core_cache [OF A(1)] inv by simp_all
  let ?status = "if cache s key = None then STATUS_NOT_FOUND else STATUS_OK"
  have w1: "worker (clients s1 c) = Some w" using A(6) w by simp
  obtain s2 where d: "handle_del_request s1 c r = Some (?status, s2)" "sys_inv s2" "served c s1 s2" "bufs_kept s1 s2"
    "cache s2 = (cache s)(key := None)" "unread s2 c = rest" "loose s2 = loose s1" "indexed s1 \<longrightarrow> indexed s2"
    using del_ok [OF inv1 s1(2) w1 A(5) key(2,3)] c1 by auto
  have other: "CMD_BYTE_DEL \<noteq> CMD_BYTE_GET" "CMD_BYTE_DEL \<noteq> CMD_BYTE_SET" by (simp_all add: command_byte_defs)
  have run: "process_request c sv = conclude c sv (?status, NullPayload, account w start t_del_update n_del_update s2)"
    using s1(3) d(1) other by (simp add: dispatch_def R(3))
  have st: "\<not> closes_connection ?status" by (simp add: closes_connection_iff)
  have will': "willing (accepting (sock (clients (st sv) c))) (length (reply ?status []) + n)"
    using will by (simp add: reply_def s_def)
  obtain s3 where s3: "process_request c sv = Some (sv\<lparr>st := s3\<rparr>)" "same_core s2 s3" "bufs_kept (st sv) s3"
    "talked c (reply ?status []) (unread s2 c) (st sv) s3" "willing (accepting (sock (clients s3 c))) n"
    by (rule plain_served [OF s1(1) [unfolded s_def] w [unfolded s_def] d(3,4) st run will']) blast
  have "sys_inv s3" "cache s3 = cache s2" using same_core_inv same_core_cache s3(2) d(2) by blast+
  moreover have "loose s3 = loose s" using s3(2) d(7) A(1) by (simp add: loose_def same_core_def)
  moreover have "indexed s \<longrightarrow> indexed s3"
    using d(8) s3(2) A(1) calculation(2) c1 by (simp add: indexed_def same_core_def)
  ultimately show ?thesis using s3 d(5,6) by (intro exI [of _ s3]) (simp add: s_def)
qed

section \<open>SET\<close>

text \<open>A request that stores a value, and what follows it.\<close>

definition set_wire :: "Request \<Rightarrow> u8 list \<Rightarrow> u8 list list \<Rightarrow> u8 list \<Rightarrow> bool" where
  "set_wire r key tags val \<longleftrightarrow> request_ok CMD_BYTE_SET r \<and> req_s_flags r AND SET_FLAG_ONLY_TTL = 0 \<and>
     length key = unat (req_s_klen r) \<and> key \<noteq> [] \<and> length tags = unat (req_s_ntags r) \<and> tags_ok tags \<and>
     length val = unat (ntohl (req_s_vlen r)) \<and> sizeof_CacheEntry + set_total tags key (length val) \<le> MAX_BUCKET_SIZE"

definition worker_ready :: "state \<Rightarrow> nat \<Rightarrow> bool" where
  "worker_ready s w \<longleftrightarrow> payload_base (payload_buffer (workers s w)) \<noteq> None \<and>
     payload_cap (payload_buffer (workers s w)) = of_nat MAX_BUCKET_SIZE"

lemma worker_ready_kept: "bufs_kept s s' \<Longrightarrow> worker_ready s' w = worker_ready s w"
  by (simp add: worker_ready_def bufs_kept_def)

lemma set_wire_ok:
  assumes "set_wire r key tags val" and "worker_ready s w" and "worker (clients s c) = Some w"
    and "unread s c = rev key @ tag_stream tags @ rest"
  shows "set_request_ok s c w r key tags rest"
proof -
  have "unat (of_nat MAX_BUCKET_SIZE :: u32) = MAX_BUCKET_SIZE" by (simp add: MAX_BUCKET_SIZE_def)
  moreover have "sum_list (map length tags) \<le> MAX_BUCKET_SIZE" using assms(1) by (simp add: set_wire_def set_total_def)
  moreover have "MAX_BUCKET_SIZE < 2 ^ 32" by (simp add: MAX_BUCKET_SIZE_def)
  ultimately show ?thesis using assms unfolding set_request_ok_def worker_ready_def set_wire_def by auto
qed

lemma set_served:
  fixes sv c w r key tags val rest n
  defines "s \<equiv> st sv"
  defines "now \<equiv> clock s (clock_calls s + 1)"
  assumes inv: "sys_inv s" and w: "worker (clients s c) = Some w" "worker_ready s w" and r: "set_wire r key tags val"
    and str: "unread s c = r @ rev key @ tag_stream tags @ val @ rest"
    and rm: "room (mem s) (2 * length tags + BIG)"
    and will: "willing (accepting (sock (clients s c))) (8 + n)"
  shows "\<exists>status s'. process_request c sv = Some (sv\<lparr>st := s'\<rparr>) \<and> sys_inv s' \<and> (indexed s \<longrightarrow> indexed s') \<and>
    loose s' = loose s \<and> bufs_kept s s' \<and> talked c (reply status []) rest s s' \<and> willing (accepting (sock (clients s' c))) n \<and>
    (status = STATUS_OK \<and> cache s' = (cache s)(key \<mapsto> set_entry r key tags val now) \<or>
     status = STATUS_OUT_OF_MEMORY \<and> cache s' = cache s \<and> cache s key = None \<and> map_full s key)"
proof -
  have R: "length r = sizeof_Request" "req_cik r = [CONTROL_BYTE_1, CONTROL_BYTE_2, CONTROL_BYTE_3]" "req_op r = CMD_BYTE_SET"
    using r by (simp_all add: set_wire_def request_ok_def)
  have vlen: "length val = unat (ntohl (req_s_vlen r))" and small: "sizeof_CacheEntry + set_total tags key (length val) \<le> MAX_BUCKET_SIZE"
    using r unfolding set_wire_def by blast+
  obtain s1 start where s1: "arrived c (rev key @ tag_stream tags @ val @ rest) s s1"
    "process_request c sv = Option.bind (dispatch w c start r s1) (conclude c sv)"
    using request_received [of sv c r "rev key @ tag_stream tags @ val @ rest" w] str R(1,2) w(1) unfolding s_def by metis
  note A = arrivedD [OF s1(1)]
  have inv1: "sys_inv s1" and c1: "cache s1 = cache s" using same_core_inv [OF A(1)] same_core_cache [OF A(1)] inv by simp_all
  have core: "mem s1 = mem s" "entry_maps s1 = entry_maps s" "tag_tree s1 = tag_tree s" "loose s1 = loose s"
    using A(1) by (simp_all add: same_core_def loose_def)
  have now: "clock s1 (clock_calls s1 + 1) = now" using A(3,4) by (simp add: now_def)
  have ok: "set_request_ok s1 c w r key tags (val @ rest)"
    by (rule set_wire_ok [OF r _ _ A(5)]) (use w A(2,6) in \<open>simp_all add: worker_ready_def\<close>)
  have ind: "indexed s1 = indexed s" using c1 core(3) by (simp add: indexed_def)
  have full: "map_full s1 key = map_full s key" using core(2) by (simp add: map_full_def)
  obtain status s2 where h: "handle_set_request s1 c r = Some (status, s2)" "sys_inv s2" "loose s2 = loose s1"
    "served c s1 s2" "bufs_kept s1 s2" "indexed s1 \<longrightarrow> indexed s2" "unread s2 c = rest"
    "status = STATUS_OK \<and> cache s2 = (cache s)(key \<mapsto> set_entry r key tags val now) \<or>
     status = STATUS_OUT_OF_MEMORY \<and> cache s2 = cache s \<and> cache s key = None \<and> map_full s key"
    using set_ok [OF inv1 ok vlen] rm small full unfolding core(1) c1 now by fastforce
  have other: "CMD_BYTE_SET \<noteq> CMD_BYTE_GET" by (simp add: command_byte_defs)
  have run: "process_request c sv = conclude c sv (status, NullPayload, account w start t_set_update n_set_update s2)"
    using s1(2) h(1) other by (simp add: dispatch_def R(3))
  have st: "\<not> closes_connection status" using h(8) by (auto simp: closes_connection_iff)
  have will': "willing (accepting (sock (clients (st sv) c))) (length (reply status []) + n)"
    using will by (simp add: reply_def s_def)
  obtain s3 where s3: "process_request c sv = Some (sv\<lparr>st := s3\<rparr>)" "same_core s2 s3" "bufs_kept (st sv) s3"
    "talked c (reply status []) (unread s2 c) (st sv) s3" "willing (accepting (sock (clients s3 c))) n"
    by (rule plain_served [OF s1(1) [unfolded s_def] w(1) [unfolded s_def] h(4,5) st run will']) blast
  have s3c: "sys_inv s3" "cache s3 = cache s2" using same_core_inv same_core_cache s3(2) h(2) by blast+
  moreover have "loose s3 = loose s" using s3(2) h(3) core(4) by (simp add: loose_def same_core_def)
  moreover have "indexed s \<longrightarrow> indexed s3"
    using h(6) s3(2) s3c(2) ind by (simp add: indexed_def same_core_def)
  ultimately show ?thesis using s3 h(7,8) unfolding s_def by (intro exI [of _ status] exI [of _ s3]) simp
qed

text \<open>What was set on a connection is read on it.\<close>

lemma set_get_served:
  fixes sv c w r r' key tags val rest n
  defines "s \<equiv> st sv"
  defines "now \<equiv> clock s (clock_calls s + 1)"
  assumes inv: "sys_inv s" and w: "worker (clients s c) = Some w" "worker_ready s w" and r: "set_wire r key tags val"
    and r': "request_ok CMD_BYTE_GET r'" "length key = unat (req_g_klen r')"
    and str: "unread s c = r @ rev key @ tag_stream tags @ val @ r' @ rev key @ rest"
    and rm: "room (mem s) (2 * length tags + BIG)" and free: "cache s key \<noteq> None \<or> \<not> map_full s key"
    and flags: "NOT (req_g_flags r') AND GET_FLAG_IGNORE_EXPIRES = 0 \<or> ntohl (req_s_ttl r) = -1"
    and will: "willing (accepting (sock (clients s c))) (16 + length val + n)"
  shows "\<exists>s' s''. process_request c sv = Some (sv\<lparr>st := s'\<rparr>) \<and> process_request c (sv\<lparr>st := s'\<rparr>) = Some (sv\<lparr>st := s''\<rparr>) \<and>
    sys_inv s'' \<and> sent (sock (clients s'' c)) = sent (sock (clients s c)) @ MAKE_SUCCESS_RESPONSE 0 @
      MAKE_SUCCESS_RESPONSE (of_nat (length val)) @ val \<and> unread s'' c = rest \<and>
    cache s'' = (cache s)(key \<mapsto> (set_entry r key tags val now)\<lparr>nhits := 1\<rparr>)"
proof -
  let ?e = "set_entry r key tags val now"
  have will1: "willing (accepting (sock (clients s c))) (8 + (8 + length val + n))" by (rule willing_mono [OF will]) simp
  obtain s' where s': "process_request c sv = Some (sv\<lparr>st := s'\<rparr>)" "sys_inv s'" "bufs_kept s s'"
    "talked c (reply STATUS_OK []) (r' @ rev key @ rest) s s'" "willing (accepting (sock (clients s' c))) (8 + length val + n)"
    "cache s' = (cache s)(key \<mapsto> ?e)"
    using set_served [where sv = sv and c = c and w = w and r = r and key = key and tags = tags and val = val
        and rest = "r' @ rev key @ rest" and n = "8 + length val + n"]
      inv w r str rm will1 free unfolding s_def now_def by auto
  have w': "worker (clients s' c) = Some w" "worker_ready s' w"
    using s'(4) w worker_ready_kept [OF s'(3)] by (simp_all add: talked_def)
  have key: "length val \<le> MAX_BUCKET_SIZE" "key \<noteq> []" using r by (simp_all add: set_wire_def set_total_def)
  have cap: "unat (payload_cap (payload_buffer (workers s' w))) = MAX_BUCKET_SIZE"
    using w'(2) by (simp add: worker_ready_def MAX_BUCKET_SIZE_def)
  let ?now = "clock s' (clock_calls s')"
  have fresh: "\<not> expired_at (req_g_flags r') ?e ?now"
    using flags by (auto simp: expired_at_def set_entry_def set_expires_def)
  have rep: "get_reply (req_g_flags r') ?now (cache s' key) = reply STATUS_OK val"
    using fresh by (simp add: get_reply_def s'(6)) (simp add: set_entry_def)
  have len: "length (reply STATUS_OK val) = 8 + length val" by (simp add: reply_def sends_failure_iff)
  have vals: "\<forall>e. cache s' key = Some e \<longrightarrow> length (e_value e) \<le> unat (payload_cap (payload_buffer (workers s' w)))"
    using key(1) cap by (simp add: s'(6)) (simp add: set_entry_def)
  obtain s'' where s'': "process_request c (sv\<lparr>st := s'\<rparr>) = Some (sv\<lparr>st := s''\<rparr>)" "sys_inv s''"
    "cache s'' = get_counted (req_g_flags r') ?now key (cache s')" "talked c (reply STATUS_OK val) rest s' s''"
    using get_served [where sv = "sv\<lparr>st := s'\<rparr>" and c = c and w = w and r = r' and key = key and rest = rest and n = n]
      s'(2,4,5) w' r' key vals rep len by (auto simp: talked_def worker_ready_def)
  have "cache s'' = (cache s)(key \<mapsto> ?e\<lparr>nhits := 1\<rparr>)"
    using fresh unfolding s''(3) get_counted_def s'(6) by (simp add: set_entry_def)
  moreover have "sent (sock (clients s'' c)) = sent (sock (clients s c)) @ MAKE_SUCCESS_RESPONSE 0 @
      MAKE_SUCCESS_RESPONSE (of_nat (length val)) @ val" "unread s'' c = rest"
    using s'(4) s''(4) by (simp_all add: talked_def reply_def sends_failure_iff)
  ultimately show ?thesis using s'(1) s''(1,2) by blast
qed

end
