(* ===== verification/Cik_Boot.thy ===== *)
theory Cik_Boot
  imports Cik_Main Cik_Serving Cik_Log_Laws
begin

text \<open>
  What the start brings about: the invariant of the whole state, workers with their buffers, free client
  slots; and which descriptors are open when it fails.
\<close>

section \<open>The workers\<close>

lemma reserve_keeps:
  assumes inv: "sys_inv s" and r: "reserve_memory (mem s) n = (Some a, m)"
  shows "sys_inv (s\<lparr>mem := m\<rparr>)" and "loose (s\<lparr>mem := m\<rparr>) = insert a (loose s)"
proof -
  note D = core_invD [OF inv]
  note M = mem.reserve_inv [OF D(1) r] mem.reserve_Some [OF D(1) r]
  have new: "a \<notin> dom (heap s)" "a \<notin> tag_blocks (tag_tree s)" using D(2,6) M(2) by (auto simp: tag_inv_def)
  have "tag_inv m (tag_tree s)" using D(2) M(2) tag_inv_memory by blast
  moreover have "heap_inv {} {} (s\<lparr>mem := m\<rparr>)"
    using D(4-8) M(2) unfolding heap_inv_def occupied_def by (simp, blast)
  ultimately show "sys_inv (s\<lparr>mem := m\<rparr>)"
    using M(1) D(3) by (simp add: core_inv_def maps_inv_def)
  show "loose (s\<lparr>mem := m\<rparr>) = insert a (loose s)" using M(2) new by (auto simp: loose_def)
qed

lemma reserve_payload_ok:
  assumes inv: "sys_inv s" and rm: "room (mem s) (k + BIG)"
  obtains a m where "reserve_biggest_possible_payload (mem s) pl =
      (True, pl\<lparr>payload_base := Some a, payload_nmemb := 0, payload_cap := of_nat MAX_BUCKET_SIZE\<rparr>, m)"
    "reserve_memory (mem s) (of_nat MAX_BUCKET_SIZE) = (Some a, m)" "room m k"
proof (cases "reserve_memory (mem s) (of_nat MAX_BUCKET_SIZE)")
  case (Pair r m)
  note B = reserve_big [OF core_invD(1) [OF inv] rm]
  have "unat (of_nat MAX_BUCKET_SIZE :: u32) = MAX_BUCKET_SIZE" by (simp add: MAX_BUCKET_SIZE_def)
  then have "r \<noteq> None" using B(2) [of "of_nat MAX_BUCKET_SIZE" m] Pair by (cases r) auto
  then obtain a where "r = Some a" by auto
  then show thesis using that [of a m] B(1) [of "of_nat MAX_BUCKET_SIZE" a m] Pair
    by (simp add: reserve_biggest_possible_payload_def)
qed

definition worker_started :: "state \<Rightarrow> nat \<Rightarrow> bool" where
  "worker_started s w \<longleftrightarrow> worker_ready s w \<and> w_id (workers s w) = of_nat w \<and> q_ok (log_queue (workers s w)) \<and>
     q_contents (log_queue (workers s w)) = []"

lemma worker_started_cong: "workers s w = workers t w \<Longrightarrow> worker_started s w = worker_started t w"
  by (simp add: worker_started_def worker_ready_def)

lemma start_worker_ok:
  assumes "sys_inv s" and "room (mem s) (k + BIG)"
  shows "sys_inv (start_worker n s)" "room (mem (start_worker n s)) k" "worker_started (start_worker n s) n"
    and "v \<noteq> n \<Longrightarrow> workers (start_worker n s) v = workers s v" and "clients (start_worker n s) = clients s"
    and "heap (start_worker n s) = heap s" "tag_tree (start_worker n s) = tag_tree s" "entry_maps (start_worker n s) = entry_maps s"
proof -
  obtain a m where am: "reserve_biggest_possible_payload (mem s) (payload_buffer (workers s n)) =
      (True, (payload_buffer (workers s n))\<lparr>payload_base := Some a, payload_nmemb := 0, payload_cap := of_nat MAX_BUCKET_SIZE\<rparr>, m)"
    "reserve_memory (mem s) (of_nat MAX_BUCKET_SIZE) = (Some a, m)" "room m k"
    by (rule reserve_payload_ok [OF assms])
  let ?t = "start_worker n s"
  show fields: "v \<noteq> n \<Longrightarrow> workers ?t v = workers s v" "clients ?t = clients s" "heap ?t = heap s" "tag_tree ?t = tag_tree s"
    "entry_maps ?t = entry_maps s"
    using am(1) by (simp_all add: start_worker_def upd_worker_def)
  have m: "mem ?t = m" using am(1) by (simp add: start_worker_def upd_worker_def)
  show "worker_started ?t n"
    using am(1) by (simp add: start_worker_def upd_worker_def worker_started_def worker_ready_def queue_init)
  have "same_core (s\<lparr>mem := m\<rparr>) ?t" using fields m by (simp add: same_core_def)
  then show "sys_inv ?t" using same_core_inv reserve_keeps(1) [OF assms(1) am(2)] by blast
  show "room (mem ?t) k" using am(3) m by simp
qed

section \<open>The threads\<close>

text \<open>Starting threads touches the memory and the table of threads, nothing else.\<close>

definition threads_only :: "server \<Rightarrow> server \<Rightarrow> bool" where
  "threads_only sv sv' \<longleftrightarrow> (\<exists>m ts. sv' = upd_st (mem_update (\<lambda>_. m)) (sv\<lparr>threads := ts\<rparr>))"

lemma threads_onlyD:
  assumes "threads_only sv sv'"
  shows "workers (st sv') = workers (st sv)" "clients (st sv') = clients (st sv)" "heap (st sv') = heap (st sv)"
    "tag_tree (st sv') = tag_tree (st sv)" "entry_maps (st sv') = entry_maps (st sv)" "is_running sv' = is_running sv"
    "open_fds sv' = open_fds sv" "next_worker sv' = next_worker sv" "watched sv' = watched sv"
  using assms by (auto simp: threads_only_def upd_st_def)

lemma start_thread_ok:
  assumes inv: "sys_inv (st sv)" and rm: "room (mem (st sv)) (Suc k)"
  obtains sv' where "start_thread b thr sv = Some sv'" "threads_only sv sv'" "sys_inv (st sv')" "room (mem (st sv')) k"
    "dom (threads sv') = (if create_result b thr = 0 then insert thr (dom (threads sv)) else dom (threads sv))"
proof -
  have "sizeof_start_routine_arg \<le> SMALL_BLOCK" by (simp add: sizeof_start_routine_arg_def SMALL_BLOCK_def)
  then obtain a m where am: "reserve_memory (mem (st sv)) sizeof_start_routine_arg = (Some a, m)" "room m k"
    using bmem.reserve_room [OF core_invD(1) [OF inv] _ rm] by blast
  have m: "st sv\<lparr>mem := m\<rparr> = mem_update (\<lambda>_. m) (st sv)" by simp
  define ts where "ts = (if create_result b thr = 0 then (threads sv)(thr \<mapsto> \<lparr>wrapper = a, res = thrd_success\<rparr>) else threads sv)"
  define sv' where "sv' = upd_st (mem_update (\<lambda>_. m)) (sv\<lparr>threads := ts\<rparr>)"
  have "start_thread b thr sv = Some sv'"
    by (simp add: start_thread_def thrd_create_def am(1) sv'_def ts_def ENOMEM_def)
  moreover have "threads_only sv sv'" by (auto simp: threads_only_def sv'_def)
  moreover have "sys_inv (st sv')" using reserve_keeps(1) [OF inv am(1)] by (simp add: sv'_def upd_st_def)
  ultimately show thesis using that am(2) by (simp add: sv'_def upd_st_def ts_def)
qed

text \<open>The threads of the first \<open>n\<close> workers that could be created.\<close>

definition worker_threads :: "boot_calls \<Rightarrow> nat \<Rightarrow> thread set" where
  "worker_threads b n = {run_worker_thread w | w. w < n \<and> create_result b (run_worker_thread w) = 0}"

lemma worker_threads_Suc:
  "worker_threads b (Suc n) = (if create_result b (run_worker_thread n) = 0 then insert (run_worker_thread n) (worker_threads b n)
     else worker_threads b n)"
  by (auto simp: worker_threads_def less_Suc_eq)

definition workers_up :: "boot_calls \<Rightarrow> nat \<Rightarrow> server \<Rightarrow> server \<Rightarrow> bool" where
  "workers_up b n sv sv' \<longleftrightarrow> sys_inv (st sv') \<and> (\<forall>w < n. worker_started (st sv') w) \<and>
     clients (st sv') = clients (st sv) \<and> heap (st sv') = heap (st sv) \<and> tag_tree (st sv') = tag_tree (st sv) \<and>
     entry_maps (st sv') = entry_maps (st sv) \<and> is_running sv' = is_running sv \<and> open_fds sv' = open_fds sv \<and>
     next_worker sv' = next_worker sv \<and> watched sv' = watched sv \<and> dom (threads sv') = dom (threads sv) \<union> worker_threads b n"

lemma start_workers_ok:
  assumes "sys_inv (st sv)" and "room (mem (st sv)) (k + n * Suc BIG)"
  obtains sv' where "start_workers b n sv = Some sv'" "workers_up b n sv sv'" "room (mem (st sv')) k"
proof -
  have "\<exists>sv'. start_workers b n sv = Some sv' \<and> workers_up b n sv sv' \<and> room (mem (st sv')) k"
    using assms(2)
  proof (induction n arbitrary: k)
    case 0
    then show ?case using assms(1) by (simp add: start_workers_def workers_up_def worker_threads_def)
  next
    case (Suc n)
    have "room (mem (st sv)) (Suc k + BIG + n * Suc BIG)" using Suc.prems by (simp add: algebra_simps)
    from Suc.IH [OF this] obtain sv1 where sv1: "start_workers b n sv = Some sv1" "workers_up b n sv sv1"
      "room (mem (st sv1)) (Suc k + BIG)" by blast
    have inv: "sys_inv (st sv1)" using sv1(2) by (simp add: workers_up_def)
    note W = start_worker_ok [where n = n, OF inv sv1(3)]
    have s: "sys_inv (st (upd_st (start_worker n) sv1))" "room (mem (st (upd_st (start_worker n) sv1))) (Suc k)"
      using W(1,2) by (simp_all add: upd_st_def)
    obtain sv2 where sv2: "start_thread b (run_worker_thread n) (upd_st (start_worker n) sv1) = Some sv2"
      "threads_only (upd_st (start_worker n) sv1) sv2" "sys_inv (st sv2)" "room (mem (st sv2)) k"
      "dom (threads sv2) = (if create_result b (run_worker_thread n) = 0 then insert (run_worker_thread n) (dom (threads sv1))
         else dom (threads sv1))"
      by (rule start_thread_ok [OF s, of b "run_worker_thread n"]) (simp add: upd_st_def)
    note T = threads_onlyD [OF sv2(2)]
    have "start_workers b (Suc n) sv = Some sv2" using sv1(1) sv2(1) by (simp add: start_workers_def fold_opt_append)
    moreover have "worker_started (st sv2) w" if "w < Suc n" for w
    proof (cases "w = n")
      case True
      then show ?thesis using W(3) worker_started_cong [of "st sv2" n "start_worker n (st sv1)"] T(1) by (simp add: upd_st_def)
    next
      case False
      then have "workers (st sv2) w = workers (st sv1) w" using W(4) T(1) by (simp add: upd_st_def)
      moreover have "worker_started (st sv1) w" using that False sv1(2) by (simp add: workers_up_def)
      ultimately show ?thesis using worker_started_cong [of "st sv2" w "st sv1"] by simp
    qed
    then have "workers_up b (Suc n) sv sv2"
      using sv1(2) sv2(3,5) T W(5-8) by (auto simp: workers_up_def upd_st_def worker_threads_Suc)
    ultimately show ?case using sv2(4) by blast
  qed
  then show thesis using that by blast
qed

section \<open>The state at the start\<close>

text \<open>The zero-initialised statics: no entry, the empty tag tree, nothing open.\<close>

definition pristine :: "server \<Rightarrow> bool" where
  "pristine sv \<longleftrightarrow> heap (st sv) = Map.empty \<and> tag_tree (st sv) = init_tags \<and> open_fds sv = [] \<and> watched sv = [] \<and>
     next_worker sv = 0 \<and> threads sv = Map.empty \<and> (\<forall>c. worker (clients (st sv) c) = None)"

lemma statics_pristine: "pristine (statics clk tks)"
  by (simp add: pristine_def statics_def zero_client_def)

lemma init_maps_eq:
  "init_maps s = s\<lparr>entry_maps := (\<lambda>i. if i < NUM_CACHE_ENTRY_MAPS then init_cache_entry_map else entry_maps s i)\<rparr>"
proof -
  have "fold (\<lambda>i s. s\<lparr>entry_maps := (entry_maps s)(i := init_cache_entry_map)\<rparr>) [0..<n] s =
      s\<lparr>entry_maps := (\<lambda>i. if i < n then init_cache_entry_map else entry_maps s i)\<rparr>" for n
    by (induction n) (auto simp: fun_eq_iff)
  then show ?thesis unfolding init_maps_def .
qed

lemma init_clients_eq:
  "init_clients s = s\<lparr>clients := (\<lambda>i. if i < MAX_NUM_CLIENTS then (clients s i)\<lparr>fd := -1\<rparr> else clients s i)\<rparr>"
proof -
  have "fold (\<lambda>i. upd_client i (fd_update (\<lambda>_. -1))) [0..<n] s =
      s\<lparr>clients := (\<lambda>i. if i < n then (clients s i)\<lparr>fd := -1\<rparr> else clients s i)\<rparr>" for n
    by (induction n) (auto simp: fun_eq_iff upd_client_def)
  then show ?thesis unfolding init_clients_def .
qed

lemma init_inv:
  assumes "heap s = Map.empty" "tag_tree s = init_tags" "mem_inv (mem s)"
    and "\<And>i. i < NUM_CACHE_ENTRY_MAPS \<Longrightarrow> entry_maps s i = init_cache_entry_map"
  shows "sys_inv s" and "cache s = Map.empty" and "indexed s"
proof -
  have o: "occupants init_cache_entry_map = {}" by (simp add: occupants_def init_cache_entry_map_def)
  have occ: "occupied s = {}" using assms(4) o by (simp add: occupied_def)
  have "map_ok init_cache_entry_map (heap s)" using hm_ok_init [of "heap s"] by (simp add: hm_ok_def)
  then have "maps_inv s" using assms(4) o by (simp add: maps_inv_def)
  moreover have "heap_inv {} {} s" using assms(1) occ by (simp add: heap_inv_def)
  ultimately show "sys_inv s" using assms(2,3) tag_inv_init by (simp add: core_inv_def)
  show c: "cache s = Map.empty"
  proof
    fix key
    show "cache s key = None" using assms(1) by (cases "entry_of s key") (simp_all add: cache_def)
  qed
  then show "indexed s" by (simp add: indexed_def)
qed

lemma room_after_init: "n \<le> 7000000 \<Longrightarrow> room (init_state base) n"
  by (simp add: room_def init_state_def init_sizes MAX_TOTAL_MEMORY_def SMALL_BLOCK_def TPADDED_Bucket_def)

section \<open>Starting\<close>

definition boot_ok :: "boot_calls \<Rightarrow> bool" where
  "boot_ok k \<longleftrightarrow> socket_result k \<ge> 0 \<and> bind_result k \<ge> 0 \<and> listen_result k \<ge> 0 \<and> epoll_create_result k \<ge> 0 \<and>
     epoll_ctl_result k \<ge> 0"

text \<open>A running server: the invariant, all sixteen workers, no client, an empty cache.\<close>

definition started :: "server \<Rightarrow> nat \<Rightarrow> bool" where
  "started sv n \<longleftrightarrow> is_running sv \<and> sys_inv (st sv) \<and> cache (st sv) = Map.empty \<and> indexed (st sv) \<and> room (mem (st sv)) n \<and>
     (\<forall>w < NUM_WORKERS. worker_started (st sv) w) \<and> (\<forall>c < MAX_NUM_CLIENTS. fd (clients (st sv) c) = -1)"

text \<open>The threads that were to be started and could be.\<close>

definition server_threads :: "boot_calls \<Rightarrow> thread set" where
  "server_threads b = {thr \<in> insert run_accept_thread_thread {run_worker_thread w | w. w < NUM_WORKERS}. create_result b thr = 0}"

lemma server_threads_eq:
  "server_threads b = (if create_result b run_accept_thread_thread = 0 then insert run_accept_thread_thread (worker_threads b NUM_WORKERS)
     else worker_threads b NUM_WORKERS)"
  by (auto simp: server_threads_def worker_threads_def)

lemma start_server_ok:
  assumes k: "boot_ok k" and inv: "sys_inv (st sv)" "cache (st sv) = Map.empty" "indexed (st sv)"
    and rm: "room (mem (st sv)) (n + Suc (NUM_WORKERS * Suc BIG))"
  obtains sv' where "start_server a p k sv = Some (0, sv')" "started sv' n"
    "open_fds sv' = epoll_create_result k # socket_result k # open_fds sv" "next_worker sv' = next_worker sv"
    "watched sv' = watched sv" "heap (st sv') = heap (st sv)" "entry_maps (st sv') = entry_maps (st sv)"
    "\<forall>c. worker (clients (st sv') c) = worker (clients (st sv) c)" "dom (threads sv') = dom (threads sv) \<union> server_threads k"
proof -
  define sv4 where "sv4 = (upd_st init_clients sv)\<lparr>sv_fd := socket_result k, sv_addr := a, sv_port := p,
    sv_epfd := epoll_create_result k, open_fds := epoll_create_result k # socket_result k # open_fds sv, is_running := True\<rparr>"
  have c: "same_core (st sv) (st sv4)" by (simp add: sv4_def upd_st_def init_clients_eq same_core_def)
  have s: "sys_inv (st sv4)" "room (mem (st sv4)) (Suc n + NUM_WORKERS * Suc BIG)"
    using same_core_inv [OF c] inv(1) rm c by (simp_all add: same_core_def)
  obtain sv5 where sv5: "start_workers k NUM_WORKERS sv4 = Some sv5" "workers_up k NUM_WORKERS sv4 sv5" "room (mem (st sv5)) (Suc n)"
    by (rule start_workers_ok [OF s])
  have s5: "sys_inv (st sv5)" using sv5(2) by (simp add: workers_up_def)
  obtain sv6 where sv6: "start_thread k run_accept_thread_thread sv5 = Some sv6" "threads_only sv5 sv6" "sys_inv (st sv6)"
    "room (mem (st sv6)) n"
    "dom (threads sv6) = (if create_result k run_accept_thread_thread = 0 then insert run_accept_thread_thread (dom (threads sv5))
      else dom (threads sv5))"
    by (rule start_thread_ok [OF s5 sv5(3)])
  note T = threads_onlyD [OF sv6(2)]
  have e: "entry_of (st sv6) = entry_of (st sv4)"
    by (rule ext) (use T(3,5) sv5(2) in \<open>simp only: entry_of_def workers_up_def\<close>)
  then have ct: "cache (st sv6) = Map.empty"
    using same_core_cache [OF c] inv(2) T(3) sv5(2) by (simp add: cache_def fun_eq_iff workers_up_def)
  then have it: "indexed (st sv6)" by (simp add: indexed_def)
  have "start_server a p k sv = Some (0, sv6)"
    using k sv5(1) sv6(1) by (simp add: start_server_def boot_ok_def Let_def upd_st_def sv4_def)
  moreover have "started sv6 n"
    using sv6(3,4) ct it T sv5(2) by (simp add: started_def sv4_def workers_up_def upd_st_def init_clients_eq worker_started_def worker_ready_def)
  ultimately show thesis
    using that T sv5(2) sv6(5) c
    by (auto simp: sv4_def upd_st_def init_clients_eq workers_up_def server_threads_eq)
qed

definition calls_ok :: "main_calls \<Rightarrow> bool" where
  "calls_ok k \<longleftrightarrow> pid_open k \<ge> 0 \<and> pid_lock k \<ge> 0 \<and> mprotect_ok k \<and> (\<exists>b. mmap_result k = Some b \<and> b mod alignof_max_align_t = 0) \<and>
     util_tss k = (0, 0) \<and> log_tss k = 0 \<and> controller_tss k = 0 \<and> boot_ok (boot k) \<and> persistence_open k \<ge> 0 \<and> persistence_lock k \<ge> 0"

lemma structs_valid: "IS_REQUEST_STRUCT_VALID" "IS_RESPONSE_STRUCT_VALID" "NUM_LOG_QUEUE_ELEMS AND (NUM_LOG_QUEUE_ELEMS - 1) = 0"
  by (simp_all add: IS_REQUEST_STRUCT_VALID_def layout_defs IS_RESPONSE_STRUCT_VALID_def layout_response_def
      layout_error_response_def NUM_LOG_QUEUE_ELEMS_def)

text \<open>The state between \<open>init_memory\<close> and the server's own start.\<close>

lemma memory_ready:
  assumes "pristine sv"
  shows "let s = st (upd_st init_maps (upd_st (\<lambda>s. s\<lparr>mem := init_state b\<rparr>) (open_file n sv))) in
    sys_inv s \<and> cache s = Map.empty \<and> indexed s \<and> room (mem s) (6000001 + Suc (NUM_WORKERS * Suc BIG)) \<and>
    (\<forall>i < NUM_CACHE_ENTRY_MAPS. entry_maps s i = init_cache_entry_map) \<and> (\<forall>c. worker (clients s c) = None)"
proof -
  let ?s = "st (upd_st init_maps (upd_st (\<lambda>s. s\<lparr>mem := init_state b\<rparr>) (open_file n sv)))"
  have heap: "heap ?s = Map.empty" "tag_tree ?s = init_tags" "mem ?s = init_state b" "\<forall>c. worker (clients ?s c) = None"
    using assms by (simp_all add: init_maps_eq upd_st_def open_file_def pristine_def)
  have maps: "entry_maps ?s i = init_cache_entry_map" if "i < NUM_CACHE_ENTRY_MAPS" for i
    using that by (simp add: init_maps_eq upd_st_def)
  have mi: "mem_inv (mem ?s)" unfolding heap(3) by (rule init_state_inv)
  have "room (mem ?s) (6000001 + Suc (NUM_WORKERS * Suc BIG))"
    unfolding heap(3) by (rule room_after_init) (simp add: NUM_WORKERS_def BIG_def)
  then show ?thesis unfolding Let_def using init_inv [OF heap(1,2) mi maps] maps heap(4) by blast
qed

lemma start_up_ok:
  assumes k: "the_config k = Some config" "calls_ok k" and sv: "pristine sv"
  obtains sv' where "start_up k sv = Some (Running sv')" "started sv' 6000000"
    "open_fds sv' = [persistence_open k, epoll_create_result (boot k), socket_result (boot k), pid_open k]"
    "next_worker sv' = 0" "watched sv' = []" "\<forall>c. worker (clients (st sv') c) = None"
    "\<forall>i < NUM_CACHE_ENTRY_MAPS. entry_maps (st sv') i = init_cache_entry_map"
    "dom (threads sv') = {thr \<in> insert run_logging_thread_thread (insert run_accept_thread_thread {run_worker_thread w | w. w < NUM_WORKERS}).
       create_result (boot k) thr = 0}"
proof -
  obtain b where b: "mmap_result k = Some b" "b mod 16 = 0" using k(2) by (auto simp: calls_ok_def alignof_max_align_t_def)
  let ?m = "init_state b"
  let ?sv1 = "upd_st (\<lambda>s. s\<lparr>mem := ?m\<rparr>) (open_file (pid_open k) sv)"
  obtain maps where mem: "init_memory (mmap_result k) (mprotect_ok k) (memory_errno k) = Some (0, Some (maps, ?m))"
    using init_memory_eq [OF b(2)] b(1) k(2) by (simp add: calls_ok_def)
  have I: "sys_inv (st (upd_st init_maps ?sv1))" "cache (st (upd_st init_maps ?sv1)) = Map.empty" "indexed (st (upd_st init_maps ?sv1))"
    "room (mem (st (upd_st init_maps ?sv1))) (6000001 + Suc (NUM_WORKERS * Suc BIG))"
    "\<forall>i < NUM_CACHE_ENTRY_MAPS. entry_maps (st (upd_st init_maps ?sv1)) i = init_cache_entry_map"
    "\<forall>c. worker (clients (st (upd_st init_maps ?sv1)) c) = None"
    using memory_ready [OF sv, where b = b and n = "pid_open k"] unfolding Let_def by blast+
  have boot: "boot_ok (boot k)" using k(2) by (simp add: calls_ok_def)
  have more: "open_fds (upd_st init_maps ?sv1) = [pid_open k]" "next_worker (upd_st init_maps ?sv1) = 0"
    "watched (upd_st init_maps ?sv1) = []" "dom (threads (upd_st init_maps ?sv1)) = {}"
    using sv by (simp_all add: pristine_def upd_st_def open_file_def)
  obtain sv2 where sv2: "start_server (listen_address config) (listen_port config) (boot k) (upd_st init_maps ?sv1) = Some (0, sv2)"
    "started sv2 6000001" "open_fds sv2 = epoll_create_result (boot k) # socket_result (boot k) # open_fds (upd_st init_maps ?sv1)"
    "next_worker sv2 = next_worker (upd_st init_maps ?sv1)" "watched sv2 = watched (upd_st init_maps ?sv1)"
    "entry_maps (st sv2) = entry_maps (st (upd_st init_maps ?sv1))"
    "\<forall>c. worker (clients (st sv2) c) = worker (clients (st (upd_st init_maps ?sv1)) c)"
    "dom (threads sv2) = dom (threads (upd_st init_maps ?sv1)) \<union> server_threads (boot k)"
    by (rule start_server_ok [OF boot I(1-4)])
  let ?sv3 = "open_file (persistence_open k) sv2"
  have s3: "st ?sv3 = st sv2" "threads ?sv3 = threads sv2" "open_fds ?sv3 = persistence_open k # open_fds sv2"
    "next_worker ?sv3 = next_worker sv2" "watched ?sv3 = watched sv2" "is_running ?sv3 = is_running sv2"
    by (simp_all add: open_file_def)
  have S: "sys_inv (st ?sv3)" "room (mem (st ?sv3)) (Suc 6000000)" using sv2(2) by (simp_all add: s3 started_def)
  obtain sv4 where sv4: "start_thread (boot k) run_logging_thread_thread ?sv3 = Some sv4" "threads_only ?sv3 sv4" "sys_inv (st sv4)"
    "room (mem (st sv4)) 6000000"
    "dom (threads sv4) = (if create_result (boot k) run_logging_thread_thread = 0
       then insert run_logging_thread_thread (dom (threads ?sv3)) else dom (threads ?sv3))"
    by (rule start_thread_ok [OF S])
  note T = threads_onlyD [OF sv4(2), unfolded s3]
  have "start_up_server k config (Some (maps, ?m)) ?sv1 = Some (Running sv4)"
    using k(2) sv2(1) sv4(1)
    by (simp add: start_up_server_def calls_ok_def init_util_def init_log_def init_controller_def tss_create_def thrd_success_def)
  then have "start_up k sv = Some (Running sv4)"
    using k mem structs_valid by (auto simp: start_up_def calls_ok_def Let_def)
  moreover have e: "entry_of (st sv4) = entry_of (st sv2)" by (rule ext) (simp only: entry_of_def T)
  then have ct: "cache (st sv4) = Map.empty" using sv2(2) T(3) by (simp add: cache_def started_def fun_eq_iff)
  then have "indexed (st sv4)" by (simp add: indexed_def)
  with ct have "started sv4 6000000"
    using sv2(2) sv4(3,4) T by (simp add: started_def worker_started_def worker_ready_def)
  moreover have "dom (threads sv4) = {thr \<in> insert run_logging_thread_thread (insert run_accept_thread_thread
      {run_worker_thread w | w. w < NUM_WORKERS}). create_result (boot k) thr = 0}"
    unfolding sv4(5) s3(2) sv2(8) more(4) by (auto simp: server_threads_def)
  ultimately show thesis using that [of sv4] T sv2(3-7) I(5,6) more(1-3) by simp
qed

end
