(* ===== verification/Cik_Connections.thy ===== *)
theory Cik_Connections
  imports Cik_Boot
begin

text \<open>
  The table of clients as the accept thread and the workers use it: which slots are taken, who watches
  them, which descriptors are open; and what happens when the two threads meet on one slot.
\<close>

section \<open>The table of clients\<close>

definition in_use :: "server \<Rightarrow> nat \<Rightarrow> bool" where
  "in_use sv c \<longleftrightarrow> c < MAX_NUM_CLIENTS \<and> fd (clients (st sv) c) \<noteq> -1"

definition conn_inv :: "server \<Rightarrow> bool" where
  "conn_inv sv \<longleftrightarrow> unat (next_worker sv) < NUM_WORKERS \<and>
     (\<forall>c < MAX_NUM_CLIENTS. fd (clients (st sv) c) = -1 \<and> worker (clients (st sv) c) = None \<or>
        0 \<le> fd (clients (st sv) c) \<and> fd (clients (st sv) c) \<in> set (open_fds sv) \<and>
        (\<exists>w < NUM_WORKERS. worker (clients (st sv) c) = Some w \<and> (w, c) \<in> set (watched sv))) \<and>
     (\<forall>(w, c) \<in> set (watched sv). in_use sv c \<and> worker (clients (st sv) c) = Some w) \<and>
     inj_on (\<lambda>c. fd (clients (st sv) c)) {c. in_use sv c}"

lemma conn_invD:
  assumes "conn_inv sv"
  shows "unat (next_worker sv) < NUM_WORKERS"
    "c < MAX_NUM_CLIENTS \<Longrightarrow> \<not> in_use sv c \<Longrightarrow> fd (clients (st sv) c) = -1 \<and> worker (clients (st sv) c) = None"
    "in_use sv c \<Longrightarrow> 0 \<le> fd (clients (st sv) c) \<and> fd (clients (st sv) c) \<in> set (open_fds sv) \<and>
      (\<exists>w < NUM_WORKERS. worker (clients (st sv) c) = Some w \<and> (w, c) \<in> set (watched sv))"
    "(w, c) \<in> set (watched sv) \<Longrightarrow> in_use sv c \<and> worker (clients (st sv) c) = Some w"
    "in_use sv c \<Longrightarrow> in_use sv d \<Longrightarrow> fd (clients (st sv) c) = fd (clients (st sv) d) \<Longrightarrow> c = d"
  using assms unfolding conn_inv_def in_use_def inj_on_def by auto

lemma conn_invI:
  assumes "unat (next_worker sv) < NUM_WORKERS"
    and "\<And>c. c < MAX_NUM_CLIENTS \<Longrightarrow> \<not> in_use sv c \<Longrightarrow> worker (clients (st sv) c) = None"
    and "\<And>c. in_use sv c \<Longrightarrow> 0 \<le> fd (clients (st sv) c) \<and> fd (clients (st sv) c) \<in> set (open_fds sv) \<and>
      (\<exists>w < NUM_WORKERS. worker (clients (st sv) c) = Some w \<and> (w, c) \<in> set (watched sv))"
    and "\<And>w c. (w, c) \<in> set (watched sv) \<Longrightarrow> in_use sv c \<and> worker (clients (st sv) c) = Some w"
    and "\<And>c d. in_use sv c \<Longrightarrow> in_use sv d \<Longrightarrow> fd (clients (st sv) c) = fd (clients (st sv) d) \<Longrightarrow> c = d"
  shows "conn_inv sv"
  unfolding conn_inv_def
proof (intro conjI allI impI)
  show "unat (next_worker sv) < NUM_WORKERS" by (rule assms(1))
  show "fd (clients (st sv) c) = -1 \<and> worker (clients (st sv) c) = None \<or>
      0 \<le> fd (clients (st sv) c) \<and> fd (clients (st sv) c) \<in> set (open_fds sv) \<and>
      (\<exists>w < NUM_WORKERS. worker (clients (st sv) c) = Some w \<and> (w, c) \<in> set (watched sv))" if "c < MAX_NUM_CLIENTS" for c
    using assms(2,3) [of c] that unfolding in_use_def by metis
  show "\<forall>(w, c) \<in> set (watched sv). in_use sv c \<and> worker (clients (st sv) c) = Some w" using assms(4) by auto
  show "inj_on (\<lambda>c. fd (clients (st sv) c)) {c. in_use sv c}" using assms(5) by (auto simp: inj_on_def)
qed

lemma close_client_simps:
  assumes "0 \<le> fd (clients (st sv) c)"
  shows "st (close_client c sv) = upd_client c (\<lambda>cl. cl\<lparr>fd := -1, worker := None\<rparr>) (st sv)"
    "open_fds (close_client c sv) = removeAll (fd (clients (st sv) c)) (open_fds sv)"
    "watched (close_client c sv) = filter (\<lambda>(w, d). d \<noteq> c) (watched sv)"
    "next_worker (close_client c sv) = next_worker sv"
  using assms by (simp_all add: close_client_def upd_st_def close_fd_def)

lemma close_client_conn:
  assumes inv: "conn_inv sv" and c: "c < MAX_NUM_CLIENTS"
  shows "conn_inv (close_client c sv)" and "\<not> in_use (close_client c sv) c"
    and "d \<noteq> c \<Longrightarrow> clients (st (close_client c sv)) d = clients (st sv) d"
proof -
  have "conn_inv (close_client c sv) \<and> \<not> in_use (close_client c sv) c \<and>
    (\<forall>d. d \<noteq> c \<longrightarrow> clients (st (close_client c sv)) d = clients (st sv) d)"
  proof (cases "in_use sv c")
    case False
    then have "close_client c sv = sv" using conn_invD(2) [OF inv c] by (simp add: close_client_def)
    then show ?thesis using inv False by simp
  next
    case True
    note I = conn_invD [OF inv]
    note S = close_client_simps [OF conjunct1 [OF I(3) [OF True]]]
    have cl: "clients (st (close_client c sv)) d = (if d = c then (clients (st sv) c)\<lparr>fd := -1, worker := None\<rparr> else clients (st sv) d)" for d
      by (simp add: S(1) upd_client_def)
    have con: "in_use (close_client c sv) d \<longleftrightarrow> d \<noteq> c \<and> in_use sv d" for d by (simp add: in_use_def cl)
    have "conn_inv (close_client c sv)"
    proof (rule conn_invI)
      show "unat (next_worker (close_client c sv)) < NUM_WORKERS" using I(1) by (simp add: S(4))
      fix d
      show "d < MAX_NUM_CLIENTS \<Longrightarrow> \<not> in_use (close_client c sv) d \<Longrightarrow> worker (clients (st (close_client c sv)) d) = None"
        using I(2) [of d] by (auto simp: con cl)
      show "0 \<le> fd (clients (st (close_client c sv)) d) \<and> fd (clients (st (close_client c sv)) d) \<in> set (open_fds (close_client c sv)) \<and>
        (\<exists>w < NUM_WORKERS. worker (clients (st (close_client c sv)) d) = Some w \<and> (w, d) \<in> set (watched (close_client c sv)))"
        if d: "in_use (close_client c sv) d"
      proof -
        have dc: "d \<noteq> c" "in_use sv d" using d by (auto simp: con)
        then have "fd (clients (st sv) d) \<noteq> fd (clients (st sv) c)" using I(5) [OF dc(2) True] by blast
        then show ?thesis using I(3) [OF dc(2)] dc(1) by (auto simp: cl S(2,3))
      qed
      fix w
      show "(w, d) \<in> set (watched (close_client c sv)) \<Longrightarrow> in_use (close_client c sv) d \<and> worker (clients (st (close_client c sv)) d) = Some w"
        using I(4) [of w d] by (auto simp: S(3) con cl)
      fix e
      show "in_use (close_client c sv) d \<Longrightarrow> in_use (close_client c sv) e \<Longrightarrow>
        fd (clients (st (close_client c sv)) d) = fd (clients (st (close_client c sv)) e) \<Longrightarrow> d = e"
        using I(5) [of d e] by (auto simp: con cl)
    qed
    then show ?thesis by (simp add: con cl)
  qed
  then show "conn_inv (close_client c sv)" and "\<not> in_use (close_client c sv) c"
    and "d \<noteq> c \<Longrightarrow> clients (st (close_client c sv)) d = clients (st sv) d" by auto
qed

section \<open>A new connection\<close>

lemma find_free_client_Some:
  "find_free_client s = Some c \<Longrightarrow> c < MAX_NUM_CLIENTS \<and> fd (clients s c) = -1 \<and> (\<forall>d < c. fd (clients s d) \<noteq> -1)"
  by (auto simp: find_free_client_def find_Some_iff)

lemma find_free_client_None: "find_free_client s = None \<longleftrightarrow> (\<forall>c < MAX_NUM_CLIENTS. fd (clients s c) \<noteq> -1)"
  by (auto simp: find_free_client_def find_None_iff)

lemma next_worker_mod:
  assumes "unat n < NUM_WORKERS"
  shows "unat ((n + 1) mod of_nat NUM_WORKERS :: u32) = (unat n + 1) mod NUM_WORKERS"
proof -
  have "unat (n + 1) = unat n + 1" using assms by (subst unat_add_lem [THEN iffD1]) (auto simp: NUM_WORKERS_def)
  then show ?thesis by (simp add: unat_mod NUM_WORKERS_def)
qed

text \<open>The state between \<open>accept\<close> and \<open>epoll_ctl\<close>, and after it.\<close>

definition accepted :: "nat \<Rightarrow> accept_calls \<Rightarrow> server \<Rightarrow> server" where
  "accepted c k sv = upd_st (upd_client c (\<lambda>cl. cl\<lparr>fd := accept_result k, sin_addr := peer_addr k, sin_port := peer_port k,
     sock := peer k, c_counters := no_counters, worker := Some (unat (next_worker sv))\<rparr>))
     (sv\<lparr>open_fds := accept_result k # open_fds sv\<rparr>)"

definition admitted :: "nat \<Rightarrow> accept_calls \<Rightarrow> server \<Rightarrow> server" where
  "admitted c k sv = (accepted c k sv)\<lparr>watched := (unat (next_worker sv), c) # watched sv,
     next_worker := (next_worker sv + 1) mod of_nat NUM_WORKERS\<rparr>"

lemma wait_eq:
  "wait_for_new_connection poll k sv = (case poll of
     PollFails nevents \<Rightarrow> (- nevents, sv)
   | PollTimeout \<Rightarrow> (0, sv)
   | PollEvent events \<Rightarrow>
       if NOT events AND EPOLLIN \<noteq> 0 then (0, sv)
       else (case find_free_client (st sv) of
         None \<Rightarrow> (EAGAIN, sv)
       | Some c \<Rightarrow>
           if accept_result k < 0 then (accept_errno k, upd_st (upd_client c (fd_update (\<lambda>_. accept_result k))) sv)
           else if ctl_result k < 0 then (accept_errno k, close_client c (accepted c k sv))
           else (0, admitted c k sv)))"
proof -
  have "upd_st (upd_client c (\<lambda>cl. cl\<lparr>sin_addr := peer_addr k, sin_port := peer_port k, sock := peer k,
      c_counters := no_counters, worker := Some (unat (next_worker (upd_st (upd_client c (fd_update (\<lambda>_. accept_result k))) sv)))\<rparr>))
      ((upd_st (upd_client c (fd_update (\<lambda>_. accept_result k))) sv)\<lparr>open_fds := accept_result k # open_fds (upd_st (upd_client c (fd_update (\<lambda>_. accept_result k))) sv)\<rparr>)
    = accepted c k sv" for c
    by (cases "clients (st sv) c") (simp add: accepted_def upd_st_def upd_client_def)
  moreover have "watched (accepted c k sv) = watched sv" "next_worker (accepted c k sv) = next_worker sv" for c
    by (simp_all add: accepted_def upd_st_def)
  ultimately show ?thesis
    by (simp only: wait_for_new_connection_def Let_def admitted_def)
qed

lemma clients_accepted: "clients (st (accepted c k sv)) d =
    (if d = c then (clients (st sv) c)\<lparr>fd := accept_result k, sin_addr := peer_addr k, sin_port := peer_port k,
       sock := peer k, c_counters := no_counters, worker := Some (unat (next_worker sv))\<rparr> else clients (st sv) d)"
  by (simp add: accepted_def upd_st_def upd_client_def)

lemma admitted_conn:
  assumes inv: "conn_inv sv" and c: "c < MAX_NUM_CLIENTS" "fd (clients (st sv) c) = -1"
    and k: "accept_result k \<ge> 0" "accept_result k \<notin> set (open_fds sv)"
  shows "conn_inv (admitted c k sv)" and "in_use (admitted c k sv) d \<longleftrightarrow> d = c \<or> in_use sv d"
proof -
  note I = conn_invD [OF inv]
  have nc: "\<not> in_use sv c" using c by (simp add: in_use_def)
  have cl: "clients (st (admitted c k sv)) d = clients (st (accepted c k sv)) d" for d by (simp add: admitted_def)
  have con: "in_use (admitted c k sv) d \<longleftrightarrow> d = c \<or> in_use sv d" for d
    using k(1) c(1) by (auto simp: in_use_def cl clients_accepted)
  then show "in_use (admitted c k sv) d \<longleftrightarrow> d = c \<or> in_use sv d" .
  have op: "open_fds (admitted c k sv) = accept_result k # open_fds sv" by (simp add: admitted_def accepted_def upd_st_def)
  have wa: "watched (admitted c k sv) = (unat (next_worker sv), c) # watched sv" by (simp add: admitted_def)
  show "conn_inv (admitted c k sv)"
  proof (rule conn_invI)
    show "unat (next_worker (admitted c k sv)) < NUM_WORKERS"
      using next_worker_mod [OF I(1)] by (simp add: admitted_def NUM_WORKERS_def)
    fix d
    show "d < MAX_NUM_CLIENTS \<Longrightarrow> \<not> in_use (admitted c k sv) d \<Longrightarrow> worker (clients (st (admitted c k sv)) d) = None"
      using I(2) [of d] by (auto simp: con cl clients_accepted)
    show "in_use (admitted c k sv) d \<Longrightarrow> 0 \<le> fd (clients (st (admitted c k sv)) d) \<and>
      fd (clients (st (admitted c k sv)) d) \<in> set (open_fds (admitted c k sv)) \<and>
      (\<exists>w < NUM_WORKERS. worker (clients (st (admitted c k sv)) d) = Some w \<and> (w, d) \<in> set (watched (admitted c k sv)))"
      using I(1) I(3) [of d] k(1) by (auto simp: con cl clients_accepted op wa)
    fix w
    show "(w, d) \<in> set (watched (admitted c k sv)) \<Longrightarrow>
      in_use (admitted c k sv) d \<and> worker (clients (st (admitted c k sv)) d) = Some w"
      using I(4) [of w d] nc by (auto simp: con cl clients_accepted wa)
    fix e
    have other: "fd (clients (st sv) x) \<noteq> accept_result k" if "in_use sv x" for x using I(3) [OF that] k(2) by metis
    show "d = e" if "in_use (admitted c k sv) d" "in_use (admitted c k sv) e"
      "fd (clients (st (admitted c k sv)) d) = fd (clients (st (admitted c k sv)) e)"
    proof (cases "d = c"; cases "e = c")
      assume "d = c" "e \<noteq> c"
      then show ?thesis using that other [of e] by (simp add: con cl clients_accepted)
    next
      assume "d \<noteq> c" "e = c"
      then show ?thesis using that other [of d] by (simp add: con cl clients_accepted)
    next
      assume "d \<noteq> c" "e \<noteq> c"
      then show ?thesis using that I(5) [of d e] by (simp add: con cl clients_accepted)
    qed simp
  qed
qed

lemma failed_accept_conn:
  assumes inv: "conn_inv sv" and c: "c < MAX_NUM_CLIENTS" "fd (clients (st sv) c) = -1"
  defines "sv' \<equiv> upd_st (upd_client c (fd_update (\<lambda>_. -1))) sv"
  shows "sv' = sv"
proof -
  have "fd_update (\<lambda>_. -1) (clients (st sv) c) = clients (st sv) c" using c(2) by (cases "clients (st sv) c") simp
  then show ?thesis by (simp add: sv'_def upd_st_def upd_client_def fun_upd_idem)
qed

lemma refused_conn:
  assumes inv: "conn_inv sv" and c: "c < MAX_NUM_CLIENTS" "fd (clients (st sv) c) = -1"
    and k: "accept_result k \<ge> 0" "accept_result k \<notin> set (open_fds sv)"
  defines "sv' \<equiv> close_client c (accepted c k sv)"
  shows "conn_inv sv'" "in_use sv' d \<longleftrightarrow> in_use sv d" "open_fds sv' = open_fds sv" "next_worker sv' = next_worker sv"
    "d \<noteq> c \<Longrightarrow> clients (st sv') d = clients (st sv) d"
proof -
  note I = conn_invD [OF inv]
  have nc: "\<not> in_use sv c" using c by (simp add: in_use_def)
  have f: "fd (clients (st (accepted c k sv)) c) = accept_result k" by (simp add: clients_accepted)
  then have "0 \<le> fd (clients (st (accepted c k sv)) c)" using k(1) by simp
  note S = close_client_simps [OF this]
  have cl: "clients (st sv') d = (if d = c then (clients (st (accepted c k sv)) c)\<lparr>fd := -1, worker := None\<rparr> else clients (st sv) d)" for d
    by (simp add: sv'_def S(1) upd_client_def clients_accepted)
  then show "d \<noteq> c \<Longrightarrow> clients (st sv') d = clients (st sv) d" by simp
  have con: "in_use sv' d \<longleftrightarrow> in_use sv d" for d using nc by (auto simp: in_use_def cl)
  then show "in_use sv' d \<longleftrightarrow> in_use sv d" .
  have a: "open_fds (accepted c k sv) = accept_result k # open_fds sv" "watched (accepted c k sv) = watched sv"
    "next_worker (accepted c k sv) = next_worker sv" by (simp_all add: accepted_def upd_st_def)
  show op: "open_fds sv' = open_fds sv" using k(2) by (simp add: sv'_def S(2) a(1) f)
  show nw: "next_worker sv' = next_worker sv" by (simp add: sv'_def S(4) a(3))
  have "(w, c) \<notin> set (watched sv)" for w using I(4) [of w c] nc by blast
  then have wa: "watched sv' = watched sv" by (auto simp: sv'_def S(3) a(2) filter_id_conv)
  show "conn_inv sv'"
  proof (rule conn_invI)
    show "unat (next_worker sv') < NUM_WORKERS" using I(1) nw by simp
    fix d
    show "d < MAX_NUM_CLIENTS \<Longrightarrow> \<not> in_use sv' d \<Longrightarrow> worker (clients (st sv') d) = None"
      using I(2) [of d] by (simp add: con cl)
    have dc: "d \<noteq> c" if "in_use sv d" for d using that nc by blast
    show "in_use sv' d \<Longrightarrow> 0 \<le> fd (clients (st sv') d) \<and> fd (clients (st sv') d) \<in> set (open_fds sv') \<and>
      (\<exists>w < NUM_WORKERS. worker (clients (st sv') d) = Some w \<and> (w, d) \<in> set (watched sv'))"
      using I(3) [of d] dc [of d] by (simp add: con cl op wa)
    fix w
    show "(w, d) \<in> set (watched sv') \<Longrightarrow> in_use sv' d \<and> worker (clients (st sv') d) = Some w"
      using I(4) [of w d] dc [of d] by (simp add: con cl wa)
    fix e
    show "in_use sv' d \<Longrightarrow> in_use sv' e \<Longrightarrow> fd (clients (st sv') d) = fd (clients (st sv') e) \<Longrightarrow> d = e"
      using I(5) [of d e] dc [of d] dc [of e] by (simp add: con cl)
  qed
qed

section \<open>A server with one client\<close>

lemma started_conn:
  assumes "started sv n" and "watched sv = []" and "next_worker sv = 0" and "\<forall>c. worker (clients (st sv) c) = None"
  shows "conn_inv sv"
proof -
  have "\<not> in_use sv c" for c using assms(1) by (simp add: in_use_def started_def)
  then show ?thesis using assms(2-4) by (intro conn_invI) (simp_all add: NUM_WORKERS_def)
qed

text \<open>System calls that succeed, and a client that sends \<open>bs\<close> and takes what it is sent.\<close>

definition sample_calls :: main_calls where
  "sample_calls = \<lparr>the_config = Some runtime_config, pid_open = 3, pid_lock = 0, mmap_result = Some 4096,
     mprotect_ok = True, memory_errno = 0, util_tss = (0, 0), log_tss = 0, controller_tss = 0,
     boot = \<lparr>socket_result = 4, bind_result = 0, listen_result = 0, epoll_create_result = 5, epoll_ctl_result = 0, boot_errno = 0,
       create_result = (\<lambda>_. 0)\<rparr>,
     persistence_open = 6, persistence_lock = 0\<rparr>"

definition sample_accept :: "u8 list \<Rightarrow> accept_calls" where
  "sample_accept bs = \<lparr>accept_result = 7, peer_addr = 1, peer_port = 1,
     peer = \<lparr>incoming = [Data bs], at_eof = True, accepting = replicate 9000000 (Accepts 10), sent = []\<rparr>,
     ctl_result = 0, accept_errno = 0\<rparr>"

definition sample_server :: "u8 list \<Rightarrow> server option" where
  "sample_server bs = (case start_up sample_calls (statics (\<lambda>_. 1000) (\<lambda>_. 0)) of
     Some (Running sv) \<Rightarrow> Some (snd (wait_for_new_connection (PollEvent EPOLLIN) (sample_accept bs) sv))
   | _ \<Rightarrow> None)"

lemma sample_calls_ok: "calls_ok sample_calls"
  by (simp add: calls_ok_def sample_calls_def boot_ok_def alignof_max_align_t_def)

lemma sample_server_ok:
  obtains sv where "sample_server bs = Some sv" "conn_inv sv" "sys_inv (st sv)" "cache (st sv) = Map.empty" "indexed (st sv)"
    "room (mem (st sv)) 6000000" "worker (clients (st sv) 0) = Some 0" "worker_ready (st sv) 0"
    "unread (st sv) 0 = bs" "n \<le> 9000000 \<Longrightarrow> willing (accepting (sock (clients (st sv) 0))) n" "sent (sock (clients (st sv) 0)) = []"
    "\<not> map_full (st sv) key" "at_eof (sock (clients (st sv) 0))" "payload_cap (payload_buffer (workers (st sv) 0)) = of_nat MAX_BUCKET_SIZE"
    "open_fds sv = [7, 6, 5, 4, 3]"
proof -
  have c: "the_config sample_calls = Some runtime_config" by (simp add: sample_calls_def)
  obtain sv where sv: "start_up sample_calls (statics (\<lambda>_. 1000) (\<lambda>_. 0)) = Some (Running sv)" "started sv 6000000"
    "open_fds sv = [persistence_open sample_calls, epoll_create_result (boot sample_calls), socket_result (boot sample_calls), pid_open sample_calls]"
    "next_worker sv = 0" "watched sv = []" "\<forall>c. worker (clients (st sv) c) = None"
    "\<forall>i < NUM_CACHE_ENTRY_MAPS. entry_maps (st sv) i = init_cache_entry_map"
    by (rule start_up_ok [OF c sample_calls_ok statics_pristine])
  have open_fds: "open_fds sv = [6, 5, 4, 3]" using sv(3) by (simp add: sample_calls_def)
  let ?k = "sample_accept bs"
  have free: "find_free_client (st sv) = Some 0"
    using sv(2) by (simp add: find_free_client_def started_def MAX_NUM_CLIENTS_def upt_conv_Cons)
  have k: "accept_result ?k = 7" "ctl_result ?k = 0" by (simp_all add: sample_accept_def)
  have "NOT EPOLLIN AND EPOLLIN = 0" by (simp add: EPOLLIN_def)
  then have "wait_for_new_connection (PollEvent EPOLLIN) ?k sv = (0, admitted 0 ?k sv)"
    using free k by (simp add: wait_eq)
  then have run: "sample_server bs = Some (admitted 0 ?k sv)" using sv(1) by (simp add: sample_server_def)
  have "conn_inv sv" by (rule started_conn [OF sv(2,5,4,6)])
  then have conn: "conn_inv (admitted 0 ?k sv)"
    using admitted_conn(1) [of sv 0 ?k] find_free_client_Some [OF free] k open_fds by simp
  let ?s = "st (admitted 0 ?k sv)"
  have sc: "same_core (st sv) ?s" by (simp add: admitted_def accepted_def upd_st_def same_core_def)
  have w: "workers ?s = workers (st sv)" by (simp add: admitted_def accepted_def upd_st_def)
  have cl: "clients ?s 0 = clients (st (accepted 0 ?k sv)) 0" by (simp add: admitted_def)
  have "sock (clients ?s 0) = peer ?k" by (simp only: cl clients_accepted) simp
  then have sk: "sock (clients ?s 0) = \<lparr>incoming = [Data bs], at_eof = True, accepting = replicate 9000000 (Accepts 10), sent = []\<rparr>"
    by (simp add: sample_accept_def)
  have s: "sys_inv (st sv)" "cache (st sv) = Map.empty" "indexed (st sv)" "room (mem (st sv)) 6000000"
    "worker_started (st sv) 0" using sv(2) by (simp_all add: started_def NUM_WORKERS_def)
  show thesis
  proof (rule that [OF run conn])
    show "sys_inv ?s" using same_core_inv [OF sc] s(1) by simp
    show ca: "cache ?s = Map.empty" using same_core_cache [OF sc] s(2) by simp
    then show "indexed ?s" by (simp add: indexed_def)
    show "room (mem ?s) 6000000" using s(4) sc by (simp add: same_core_def)
    show "worker (clients ?s 0) = Some 0" using sv(4) by (simp add: cl clients_accepted)
    show "worker_ready ?s 0" "payload_cap (payload_buffer (workers ?s 0)) = of_nat MAX_BUCKET_SIZE"
      using s(5) by (simp_all add: worker_ready_def worker_started_def w)
    show "unread ?s 0 = bs" "sent (sock (clients ?s 0)) = []" "at_eof (sock (clients ?s 0))"
      by (simp_all add: unread_def sk)
    show "willing (accepting (sock (clients ?s 0))) n" if "n \<le> 9000000"
      using that by (simp add: sk willing_def)
    have "entry_maps ?s (map_for_key key) = init_cache_entry_map" using sv(7) sc by (simp add: same_core_def)
    then show "\<not> map_full ?s key" by (auto simp: map_full_def init_cache_entry_map_def intro: exI [of _ 0])
    show "open_fds (admitted 0 ?k sv) = [7, 6, 5, 4, 3]" using open_fds by (simp add: admitted_def accepted_def upd_st_def k)
  qed
qed

section \<open>After a call\<close>

text \<open>Whether a call of \<open>wait_for_new_connection\<close> connects somebody.\<close>

definition connects :: "poll_result \<Rightarrow> accept_calls \<Rightarrow> server \<Rightarrow> bool" where
  "connects poll k sv \<longleftrightarrow> (\<exists>events. poll = PollEvent events \<and> NOT events AND EPOLLIN = 0) \<and>
     find_free_client (st sv) \<noteq> None \<and> accept_result k \<ge> 0 \<and> ctl_result k \<ge> 0"

definition accept_post :: "poll_result \<Rightarrow> accept_calls \<Rightarrow> server \<Rightarrow> server \<Rightarrow> bool" where
  "accept_post poll k sv sv' \<longleftrightarrow> conn_inv sv' \<and>
     (\<forall>d. in_use sv d \<longrightarrow> clients (st sv') d = clients (st sv) d) \<and>
     (if connects poll k sv
      then (\<exists>c < MAX_NUM_CLIENTS. find_free_client (st sv) = Some c \<and> (\<forall>d. in_use sv' d \<longleftrightarrow> d = c \<or> in_use sv d) \<and>
        fd (clients (st sv') c) = accept_result k \<and> worker (clients (st sv') c) = Some (unat (next_worker sv)) \<and>
        c_counters (clients (st sv') c) = no_counters \<and> open_fds sv' = accept_result k # open_fds sv \<and>
        unat (next_worker sv') = (unat (next_worker sv) + 1) mod NUM_WORKERS)
      else (\<forall>d. in_use sv' d \<longleftrightarrow> in_use sv d) \<and> open_fds sv' = open_fds sv \<and> next_worker sv' = next_worker sv)"

lemma admitted_post:
  assumes inv: "conn_inv sv" and k: "0 \<le> accept_result k" "accept_result k \<notin> set (open_fds sv)" "ctl_result k \<ge> 0"
    and ev: "NOT events AND EPOLLIN = 0" and free: "find_free_client (st sv) = Some c"
  shows "accept_post (PollEvent events) k sv (admitted c k sv)"
proof -
  note c = find_free_client_Some [OF free]
  let ?sv = "admitted c k sv"
  have nc: "d \<noteq> c" if "in_use sv d" for d using that c by (auto simp: in_use_def)
  have "clients (st ?sv) d = (if d = c then (clients (st sv) c)\<lparr>fd := accept_result k, sin_addr := peer_addr k,
      sin_port := peer_port k, sock := peer k, c_counters := no_counters, worker := Some (unat (next_worker sv))\<rparr>
    else clients (st sv) d)" for d
    using clients_accepted by (simp add: admitted_def)
  moreover have "open_fds ?sv = accept_result k # open_fds sv" by (simp add: admitted_def accepted_def upd_st_def)
  moreover have "unat (next_worker ?sv) = (unat (next_worker sv) + 1) mod NUM_WORKERS"
    using next_worker_mod [OF conn_invD(1) [OF inv]] by (simp add: admitted_def)
  moreover have "connects (PollEvent events) k sv" using ev k free by (simp add: connects_def)
  ultimately show ?thesis using admitted_conn [OF inv _ _ k(1,2), of c] c nc free unfolding accept_post_def by simp
qed

lemma wait_post:
  assumes inv: "conn_inv sv" and k: "accept_result k \<ge> -1" "accept_result k \<notin> set (open_fds sv)"
  shows "accept_post poll k sv (snd (wait_for_new_connection poll k sv))"
proof -
  have kept: "accept_post poll k sv sv" if "\<not> connects poll k sv" using inv that by (simp add: accept_post_def)
  consider "\<forall>c events. \<not> (poll = PollEvent events \<and> NOT events AND EPOLLIN = 0 \<and> find_free_client (st sv) = Some c)"
    | c events where "poll = PollEvent events" "NOT events AND EPOLLIN = 0" "find_free_client (st sv) = Some c"
    by blast
  then show ?thesis
  proof cases
    case 1
    then have "\<not> connects poll k sv" "snd (wait_for_new_connection poll k sv) = sv"
      by (auto simp: wait_eq connects_def split: poll_result.split option.split)
    then show ?thesis using kept by simp
  next
    case 2
    note c = find_free_client_Some [OF 2(3)]
    have nc: "d \<noteq> c" if "in_use sv d" for d using that c by (auto simp: in_use_def)
    consider "accept_result k = -1" | "accept_result k \<ge> 0" "ctl_result k < 0" | "accept_result k \<ge> 0" "ctl_result k \<ge> 0"
      using k(1) by linarith
    then show ?thesis
    proof cases
      case 1
      then have "snd (wait_for_new_connection poll k sv) = sv" using 2 failed_accept_conn [OF inv] c by (simp add: wait_eq)
      then show ?thesis using kept 1 by (simp add: connects_def)
    next
      case neg: 2
      then have "snd (wait_for_new_connection poll k sv) = close_client c (accepted c k sv)" using 2 by (simp add: wait_eq)
      then show ?thesis using refused_conn [OF inv _ _ neg(1) k(2), of c] c nc neg by (simp add: connects_def accept_post_def)
    next
      case 3
      then show ?thesis using admitted_post [OF inv 3(1) k(2) 3(2) 2(2,3)] 2 by (simp add: wait_eq)
    qed
  qed
qed

section \<open>Properties\<close>

text \<open>C34. Accepting keeps the table of clients consistent whatever the system calls return: a taken slot has a
  descriptor of its own that is open, and a worker that watches it; a free one has no worker. A new client gets
  the first free slot, cleared counters, and the workers in turn; nothing else changes, and an attempt that
  fails leaves no descriptor open.\<close>

theorem wait_for_new_connection_correct:
  assumes "conn_inv sv" and "accept_result k \<ge> -1" and "accept_result k \<notin> set (open_fds sv)"
  shows "accept_post poll k sv (snd (wait_for_new_connection poll k sv))"
  by (rule wait_post [OF assms])

theorem wait_for_new_connection_correct_witness:
  "\<exists>sv. sample_server [] = Some sv \<and> accept_post (PollEvent EPOLLIN) ((sample_accept [])\<lparr>accept_result := 8\<rparr>) sv
     (snd (wait_for_new_connection (PollEvent EPOLLIN) ((sample_accept [])\<lparr>accept_result := 8\<rparr>) sv))"
proof -
  obtain sv where sv: "sample_server [] = Some sv" "conn_inv sv" "open_fds sv = [7, 6, 5, 4, 3]" by (rule sample_server_ok)
  show ?thesis
    using sv wait_for_new_connection_correct [OF sv(2), of "(sample_accept [])\<lparr>accept_result := 8\<rparr>" "PollEvent EPOLLIN"] by simp
qed

end
