(* ===== verification/Cik_Serving_Props.thy ===== *)
theory Cik_Serving_Props
  imports Cik_Connections
begin

text \<open>
  The operations of the protocol as a client sees them on its connection: the bytes it sends, the bytes it
  gets, and what happens to the cache.
\<close>

section \<open>An information request for a key that is not there\<close>

lemma nfo_miss:
  assumes inv: "sys_inv s" and w: "worker (clients s c) = Some w"
    and key: "unread s c = rev key @ rest" "length key = unat (req_n_klen r)" "key \<noteq> []" and absent: "cache s key = None"
  shows "\<exists>s'. handle_nfo_request s c r = Some (STATUS_NOT_FOUND, WorkerPayload, s') \<and> same_core s s' \<and> served c s s' \<and>
    bufs_kept s s' \<and> unread s' c = rest \<and> payload_bytes s' w WorkerPayload = load_bytes (payload_data (payload_buffer (workers s w))) 0 16"
proof -
  let ?s1 = "upd_counters c (c_nfo_update (\<lambda>n. n + 1)) (set_payload_nmemb w (of_nat sizeof_NFOResponsePayload) s)"
  have s1: "same_core s ?s1" by (simp add: same_core_def upd_counters_def)
  have str: "unread ?s1 c = rev key @ rest" using key(1) by simp
  obtain s2 where s2: "read_request_key ?s1 c (req_n_klen r) = Some (STATUS_OK, key, s2)" "read_to c rest ?s1 s2"
    by (rule read_request_key_ok [OF str key(2,3)])
  note R = read_toD [OF s2(2)]
  have "length key \<le> 255" unfolding key(2) by (rule unat_u8_le)
  note log = log_key_defined [OF this]
  obtain s3 where s3: "log_with s2 c (\<lambda>q who. log_request_nfo_key q who key) = Some s3" "same_core s2 s3" "io_kept s2 s3"
    by (rule log_with_ok [where f = "\<lambda>q who. log_request_nfo_key q who key" and s = s2 and c = c and w = w])
      (use R w log in auto)
  have sc: "same_core s s3" using s1 R(1) s3(2) same_core_trans by blast
  have inv3: "sys_inv s3" and c3: "cache s3 = cache s" using same_core_inv [OF sc] same_core_cache [OF sc] inv by simp_all
  have get: "map_get s3 key = Some (None, s3)"
    using map_get_eq [OF inv3, of key] c3 entry_of_None [of s3 key] absent by simp
  have pos: "0 < req_n_klen r" using key(2,3) by (metis length_greater_0_conv unat_0 word_less_nat_alt)
  have run: "handle_nfo_request s c r = Some (STATUS_NOT_FOUND, WorkerPayload, s3)"
    using w s2(1) s3(1) get pos by (simp add: handle_nfo_request_def Let_def)
  have pl: "payload_buffer (workers s3 w) = payload_buffer (workers ?s1 w)" using io_keptD(3) [OF s3(3)] R(2) by simp
  have "served c s s3"
  proof (rule served_trans [OF _ served_trans [OF R(9) served_eq [OF io_keptD(1) [OF s3(3)]]]])
    show "served c s ?s1" by (rule served_trans [OF served_eq served_counters]) simp
  qed
  moreover have "bufs_kept s s3" using bufs_kept_io [OF s3(3)] R(2) by (simp add: bufs_kept_def)
  moreover have "unread s3 c = rest" using R(4) unread_cong [OF io_keptD(1) [OF s3(3)]] by simp
  moreover have "payload_bytes s3 w WorkerPayload = load_bytes (payload_data (payload_buffer (workers s w))) 0 16"
    by (simp add: payload_bytes_def Let_def pl sizeof_NFOResponsePayload_def)
  ultimately show ?thesis using run sc by blast
qed

lemma nfo_miss_served:
  fixes sv c w r key rest n
  defines "s \<equiv> st sv"
  assumes inv: "sys_inv s" and w: "worker (clients s c) = Some w" "worker_ready s w" and r: "request_ok CMD_BYTE_NFO r"
    and key: "unread s c = r @ rev key @ rest" "length key = unat (req_n_klen r)" "key \<noteq> []" and absent: "cache s key = None"
    and will: "willing (accepting (sock (clients s c))) (24 + n)"
  shows "\<exists>s'. process_request c sv = Some (sv\<lparr>st := s'\<rparr>) \<and> sys_inv s' \<and> cache s' = cache s \<and>
    talked c (MAKE_FAILURE_RESPONSE STATUS_NOT_FOUND @ load_bytes (payload_data (payload_buffer (workers s w))) 0 16) rest s s'"
proof -
  let ?body = "load_bytes (payload_data (payload_buffer (workers s w))) 0 16"
  have R: "length r = sizeof_Request" "req_cik r = [CONTROL_BYTE_1, CONTROL_BYTE_2, CONTROL_BYTE_3]" "req_op r = CMD_BYTE_NFO"
    using r by (simp_all add: request_ok_def)
  obtain s1 start where s1: "arrived c (rev key @ rest) s s1" "current_client s1 = Some c"
    "process_request c sv = Option.bind (dispatch w c start r s1) (conclude c sv)"
    using request_received [of sv c r "rev key @ rest" w] key(1) R(1,2) w(1) unfolding s_def by metis
  note A = arrivedD [OF s1(1)]
  have inv1: "sys_inv s1" and c1: "cache s1 = cache s" using same_core_inv [OF A(1)] same_core_cache [OF A(1)] inv by simp_all
  have w1: "worker (clients s1 c) = Some w" using A(6) w(1) by simp
  obtain s2 where h: "handle_nfo_request s1 c r = Some (STATUS_NOT_FOUND, WorkerPayload, s2)" "same_core s1 s2" "served c s1 s2"
    "bufs_kept s1 s2" "unread s2 c = rest" "payload_bytes s2 w WorkerPayload = ?body"
    using nfo_miss [OF inv1 w1 A(5) key(2,3)] absent c1 A(2) by auto
  define x where "x = account w start t_nfo_update n_nfo_update s2"
  have other: "CMD_BYTE_NFO \<noteq> CMD_BYTE_GET" "CMD_BYTE_NFO \<noteq> CMD_BYTE_SET" "CMD_BYTE_NFO \<noteq> CMD_BYTE_DEL"
    "CMD_BYTE_NFO \<noteq> CMD_BYTE_CLR" "CMD_BYTE_NFO \<noteq> CMD_BYTE_LST" by (simp_all add: command_byte_defs)
  have run: "dispatch w c start r s1 = Some (STATUS_NOT_FOUND, WorkerPayload, x)"
    using other h(1) by (simp add: dispatch_def R(3) x_def)
  have pb: "payload_bytes x w WorkerPayload = ?body" by (simp add: x_def h(6))
  have rep: "reply STATUS_NOT_FOUND ?body = MAKE_FAILURE_RESPONSE STATUS_NOT_FOUND @ ?body" by (simp add: reply_def sends_failure_iff)
  have "\<exists>s3. conclude c sv (STATUS_NOT_FOUND, WorkerPayload, x) = Some (sv\<lparr>st := s3\<rparr>) \<and> same_core x s3 \<and> workers s3 = workers x \<and>
    clock s3 = clock x \<and> clock_calls s3 = clock_calls x \<and>
    talked c (reply STATUS_NOT_FOUND (payload_bytes x w WorkerPayload)) (unread x c) (st sv) s3 \<and>
    willing (accepting (sock (clients s3 c))) n"
  proof (rule conclude_ok)
    show "arrived c (rev key @ rest) (st sv) s1" "worker (clients (st sv) c) = Some w" using s1(1) w(1) by (simp_all add: s_def)
    show "served c s1 x" by (rule served_trans [OF h(3) served_eq]) (simp add: x_def)
    show "payload_base (payload_buffer (workers x w)) \<noteq> None"
      using h(4) A(2) w(2) by (simp add: x_def bufs_kept_def worker_ready_def)
    show "willing (accepting (sock (clients (st sv) c))) (length (reply STATUS_NOT_FOUND (payload_bytes x w WorkerPayload)) + n)"
      using will unfolding s_def [symmetric] by (simp only: pb rep) simp
  qed (simp_all add: closes_connection_iff)
  then obtain s3 where s3: "conclude c sv (STATUS_NOT_FOUND, WorkerPayload, x) = Some (sv\<lparr>st := s3\<rparr>)" "same_core x s3"
    "talked c (reply STATUS_NOT_FOUND (payload_bytes x w WorkerPayload)) (unread x c) (st sv) s3" by blast
  have "same_core s s3" using A(1) h(2) s3(2) same_core_trans account_simps(1) unfolding x_def by meson
  then have "sys_inv s3" "cache s3 = cache s" using same_core_inv same_core_cache inv by blast+
  then show ?thesis using s1(3) run s3 pb rep h(5) by (intro exI [of _ s3]) (simp add: s_def x_def)
qed

section \<open>A value that does not arrive\<close>

lemma set_aborted_served:
  fixes sv c w r key tags val part
  defines "s \<equiv> st sv"
  assumes inv: "sys_inv s" and w: "worker (clients s c) = Some w" "worker_ready s w" and r: "set_wire r key tags val"
    and str: "unread s c = r @ rev key @ tag_stream tags @ part" and short: "length part < length val"
    and eof: "at_eof (sock (clients s c))" and rm: "room (mem s) BIG" and opened: "0 \<le> fd (clients s c)"
  shows "\<exists>sv'. process_request c sv = Some sv' \<and> sys_inv (st sv') \<and> cache (st sv') = cache s \<and> loose (st sv') = loose s \<and>
    tag_tree (st sv') = tag_tree s \<and> fd (clients (st sv') c) = -1 \<and> sent (sock (clients (st sv') c)) = sent (sock (clients s c)) \<and>
    (\<forall>d. d \<noteq> c \<longrightarrow> clients (st sv') d = clients s d)"
proof -
  have R: "length r = sizeof_Request" "req_cik r = [CONTROL_BYTE_1, CONTROL_BYTE_2, CONTROL_BYTE_3]" "req_op r = CMD_BYTE_SET"
    using r by (simp_all add: set_wire_def request_ok_def)
  have vlen: "length val = unat (ntohl (req_s_vlen r))" and small: "sizeof_CacheEntry + set_total tags key (length val) \<le> MAX_BUCKET_SIZE"
    using r unfolding set_wire_def by blast+
  obtain s1 start where s1: "arrived c (rev key @ tag_stream tags @ part) s s1"
    "process_request c sv = Option.bind (dispatch w c start r s1) (conclude c sv)"
    using request_received [of sv c r "rev key @ tag_stream tags @ part" w] str R(1,2) w(1) unfolding s_def by metis
  note A = arrivedD [OF s1(1)]
  have inv1: "sys_inv s1" and c1: "cache s1 = cache s" using same_core_inv [OF A(1)] same_core_cache [OF A(1)] inv by simp_all
  have core: "mem s1 = mem s" "tag_tree s1 = tag_tree s" "loose s1 = loose s" using A(1) by (simp_all add: same_core_def loose_def)
  have ok: "set_request_ok s1 c w r key tags part"
    by (rule set_wire_ok [OF r _ _ A(5)]) (use w A(2,6) in \<open>simp_all add: worker_ready_def\<close>)
  obtain status s2 where h: "handle_set_request s1 c r = Some (status, s2)"
    "status \<in> {STATUS_NETWORK_ERROR, STATUS_CONNECTION_CLOSED}" "sys_inv s2" "cache s2 = cache s1" "loose s2 = loose s1"
    "tag_tree s2 = tag_tree s1" "served c s1 s2"
    using set_aborted [OF inv1 ok] rm small short eof A(10) core(1) vlen by auto
  have other: "CMD_BYTE_SET \<noteq> CMD_BYTE_GET" by (simp add: command_byte_defs)
  define x where "x = account w start t_set_update n_set_update s2"
  have closes: "closes_connection status" using h(2) by (auto simp: closes_connection_iff)
  have run: "process_request c sv = Some (close_client c (sv\<lparr>st := x\<rparr>))"
    using s1(2) h(1) other closes by (simp add: dispatch_def R(3) conclude_def x_def)
  note S = servedD [OF h(7)]
  have T: "talked c [] (rev key @ tag_stream tags @ part) s s1" by (rule A(7))
  have fdx: "0 \<le> fd (clients (st (sv\<lparr>st := x\<rparr>)) c)" using opened S(2) T by (simp add: x_def talked_def)
  note C = close_client_simps [OF fdx]
  have cl: "clients (st (close_client c (sv\<lparr>st := x\<rparr>))) d =
      (if d = c then (clients s2 c)\<lparr>fd := -1, worker := None\<rparr> else clients s2 d)" for d
    unfolding C(1) by (simp add: upd_client_def x_def)
  have sc: "same_core s2 (st (close_client c (sv\<lparr>st := x\<rparr>)))"
    unfolding C(1) by (simp add: x_def same_core_def account_def get_performance_counter_def Let_def)
  show ?thesis
  proof (intro exI conjI)
    show "process_request c sv = Some (close_client c (sv\<lparr>st := x\<rparr>))" by (rule run)
    show "sys_inv (st (close_client c (sv\<lparr>st := x\<rparr>)))" using same_core_inv [OF sc] h(3) by simp
    show "cache (st (close_client c (sv\<lparr>st := x\<rparr>))) = cache s" using same_core_cache [OF sc] h(4) c1 by simp
    show "loose (st (close_client c (sv\<lparr>st := x\<rparr>))) = loose s" using sc h(5) core(3) by (simp add: same_core_def loose_def)
    show "tag_tree (st (close_client c (sv\<lparr>st := x\<rparr>))) = tag_tree s" using sc h(6) core(2) by (simp add: same_core_def)
    show "fd (clients (st (close_client c (sv\<lparr>st := x\<rparr>))) c) = -1" by (simp add: cl)
    show "sent (sock (clients (st (close_client c (sv\<lparr>st := x\<rparr>))) c)) = sent (sock (clients s c))"
      using S(4) [of c] A(8) by (simp add: cl)
    show "\<forall>d. d \<noteq> c \<longrightarrow> clients (st (close_client c (sv\<lparr>st := x\<rparr>))) d = clients s d"
      using S(6) A(9) by (simp add: cl)
  qed
qed

section \<open>Properties\<close>

text \<open>Requests on key \<open>7\<close>; \<open>SET\<close> has one tag, two bytes of value and no time of expiry.\<close>

definition sample_get :: Request where
  "sample_get = [0x43, 0x69, 0x4B, 0x67, 1, 0, 0, 0, 0, 0, 0, 0, 0, 0, 0, 0]"

definition sample_set :: Request where
  "sample_set = [0x43, 0x69, 0x4B, 0x73, 1, 1, 0, 0, 0, 0, 0, 2, 255, 255, 255, 255]"

definition sample_del :: Request where
  "sample_del = [0x43, 0x69, 0x4B, 0x64, 1, 0, 0, 0, 0, 0, 0, 0, 0, 0, 0, 0]"

definition sample_nfo :: Request where
  "sample_nfo = [0x43, 0x69, 0x4B, 0x6E, 1, 0, 0, 0, 0, 0, 0, 0, 0, 0, 0, 0]"

lemmas sample_request_defs = sample_get_def sample_set_def sample_del_def sample_nfo_def request_field_defs
  control_byte_defs command_byte_defs sizeof_Request_def

lemma sample_requests:
  "request_ok CMD_BYTE_GET sample_get" "request_ok CMD_BYTE_DEL sample_del" "request_ok CMD_BYTE_NFO sample_nfo"
  "set_wire sample_set [7] [[9]] [1, 2]" "ntohl (req_s_ttl sample_set) = -1"
  "length [7 :: u8] = unat (req_g_klen sample_get)" "length [7 :: u8] = unat (req_d_klen sample_del)"
  "length [7 :: u8] = unat (req_n_klen sample_nfo)" "req_g_flags sample_get = 0"
proof -
  have v: "ntohl (req_s_vlen sample_set) = 2" "ntohl (req_s_ttl sample_set) = -1" by code_simp+
  then show "ntohl (req_s_ttl sample_set) = -1" by simp
  show "set_wire sample_set [7] [[9]] [1, 2]"
    unfolding set_wire_def v by (simp add: request_ok_def sample_request_defs SET_FLAG_ONLY_TTL_def tags_ok_def set_total_def
        sizeof_CacheEntry_def sizeof_CacheTag_def MAX_BUCKET_SIZE_def)
qed (simp_all add: request_ok_def sample_request_defs)

text \<open>C4. \<open>GET\<close>, from the client's bytes to the server's: a key that is absent or whose entry has expired
  is answered with the failure that says so, and otherwise with the value's length and the value, whatever it
  is. The cache stays what it was but for the hit that is counted; the invariant, the worker's buffer and every
  other client are untouched, and the stream goes on behind the request.\<close>

theorem get_request_correct:
  assumes "sys_inv (st sv)" and "worker (clients (st sv) c) = Some w" and "request_ok CMD_BYTE_GET r"
    and "unread (st sv) c = r @ rev key @ rest" and "length key = unat (req_g_klen r)" and "key \<noteq> []"
    and "payload_base (payload_buffer (workers (st sv) w)) \<noteq> None"
    and "\<forall>e. cache (st sv) key = Some e \<longrightarrow> length (e_value e) \<le> unat (payload_cap (payload_buffer (workers (st sv) w)))"
    and "willing (accepting (sock (clients (st sv) c)))
      (length (get_reply (req_g_flags r) (clock (st sv) (clock_calls (st sv))) (cache (st sv) key)) + n)"
  shows "\<exists>s'. process_request c sv = Some (sv\<lparr>st := s'\<rparr>) \<and> sys_inv s' \<and>
    cache s' = get_counted (req_g_flags r) (clock (st sv) (clock_calls (st sv))) key (cache (st sv)) \<and> bufs_kept (st sv) s' \<and>
    talked c (get_reply (req_g_flags r) (clock (st sv) (clock_calls (st sv))) (cache (st sv) key)) rest (st sv) s' \<and>
    willing (accepting (sock (clients s' c))) n"
  by (rule get_served [OF assms])

theorem get_request_correct_witness:
  "\<exists>sv s'. sample_server (sample_get @ [7]) = Some sv \<and> process_request 0 sv = Some (sv\<lparr>st := s'\<rparr>) \<and>
     sent (sock (clients s' 0)) = MAKE_FAILURE_RESPONSE STATUS_NOT_FOUND"
proof -
  obtain sv where sv: "sample_server (sample_get @ [7]) = Some sv" "sys_inv (st sv)" "cache (st sv) = Map.empty"
    "worker (clients (st sv) 0) = Some 0" "worker_ready (st sv) 0" "unread (st sv) 0 = sample_get @ [7]"
    "willing (accepting (sock (clients (st sv) 0))) 20" "sent (sock (clients (st sv) 0)) = []"
    by (rule sample_server_ok [of "sample_get @ [7]" 20]) simp
  have r: "get_reply f now (cache (st sv) [7]) = MAKE_FAILURE_RESPONSE STATUS_NOT_FOUND" for f now
    by (simp add: get_reply_def sv(3) reply_def sends_failure_iff)
  have will: "willing (accepting (sock (clients (st sv) 0)))
      (length (get_reply (req_g_flags sample_get) (clock (st sv) (clock_calls (st sv))) (cache (st sv) [7])) + 0)"
    using sv(7) by (intro willing_mono [OF sv(7)]) (simp add: r)
  have key: "unread (st sv) 0 = sample_get @ rev [7] @ []" using sv(6) by simp
  have base: "payload_base (payload_buffer (workers (st sv) 0)) \<noteq> None" using sv(5) by (simp add: worker_ready_def)
  obtain s' where "process_request 0 sv = Some (sv\<lparr>st := s'\<rparr>)" and
    t: "talked 0 (get_reply (req_g_flags sample_get) (clock (st sv) (clock_calls (st sv))) (cache (st sv) [7])) [] (st sv) s'"
    using get_request_correct [OF sv(2,4) sample_requests(1) key sample_requests(6) _ base _ will] sv(3) by auto
  moreover have "sent (sock (clients s' 0)) = MAKE_FAILURE_RESPONSE STATUS_NOT_FOUND"
    using t sv(8) unfolding r talked_def by simp
  ultimately show ?thesis using sv(1) by blast
qed

text \<open>C1. What \<open>SET\<close> stored, a later \<open>GET\<close> returns, byte for byte, on the wire: the two
  requests on one connection are answered with success and with the value; the entry is the one the request
  describes, with one hit, and everything else in the cache is as before. This is for an entry that lives for ever
  or a \<open>GET\<close> that ignores expiry (C3 and C4 have the entries that expire), a value that fits, and an allocator
  that has the blocks for the entry and its tags.\<close>

theorem set_then_get_on_the_wire:
  assumes "sys_inv (st sv)" and "worker (clients (st sv) c) = Some w" and "worker_ready (st sv) w" and "set_wire r key tags val"
    and "request_ok CMD_BYTE_GET r'" and "length key = unat (req_g_klen r')"
    and "unread (st sv) c = r @ rev key @ tag_stream tags @ val @ r' @ rev key @ rest"
    and "room (mem (st sv)) (2 * length tags + BIG)" and "cache (st sv) key \<noteq> None \<or> \<not> map_full (st sv) key"
    and "NOT (req_g_flags r') AND GET_FLAG_IGNORE_EXPIRES = 0 \<or> ntohl (req_s_ttl r) = -1"
    and "willing (accepting (sock (clients (st sv) c))) (16 + length val + n)"
  shows "\<exists>s' s''. process_request c sv = Some (sv\<lparr>st := s'\<rparr>) \<and> process_request c (sv\<lparr>st := s'\<rparr>) = Some (sv\<lparr>st := s''\<rparr>) \<and>
    sys_inv s'' \<and> sent (sock (clients s'' c)) = sent (sock (clients (st sv) c)) @ MAKE_SUCCESS_RESPONSE 0 @
      MAKE_SUCCESS_RESPONSE (of_nat (length val)) @ val \<and> unread s'' c = rest \<and>
    cache s'' = (cache (st sv))(key \<mapsto> (set_entry r key tags val (clock (st sv) (clock_calls (st sv) + 1)))\<lparr>nhits := 1\<rparr>)"
  by (rule set_get_served [OF assms])

theorem set_then_get_on_the_wire_witness:
  "\<exists>sv s' s''. sample_server (sample_set @ [7] @ [1, 9] @ [1, 2] @ sample_get @ [7]) = Some sv \<and>
     process_request 0 sv = Some (sv\<lparr>st := s'\<rparr>) \<and> process_request 0 (sv\<lparr>st := s'\<rparr>) = Some (sv\<lparr>st := s''\<rparr>) \<and>
     sent (sock (clients s'' 0)) = MAKE_SUCCESS_RESPONSE 0 @ MAKE_SUCCESS_RESPONSE 2 @ [1, 2]"
proof -
  let ?bs = "sample_set @ [7] @ [1, 9] @ [1, 2] @ sample_get @ [7]"
  obtain sv where sv: "sample_server ?bs = Some sv" "sys_inv (st sv)" "room (mem (st sv)) 6000000"
    "worker (clients (st sv) 0) = Some 0" "worker_ready (st sv) 0" "unread (st sv) 0 = ?bs"
    "willing (accepting (sock (clients (st sv) 0))) (16 + length [1 :: u8, 2] + 0)" "sent (sock (clients (st sv) 0)) = []"
    "\<not> map_full (st sv) [7]"
    by (rule sample_server_ok [of ?bs "16 + length [1 :: u8, 2] + 0" "[7]"]) simp
  have rm: "room (mem (st sv)) (2 * length [[9 :: u8]] + BIG)"
    by (rule bmem.room_mono [OF sv(3)]) (simp add: BIG_def)
  have str: "unread (st sv) 0 = sample_set @ rev [7] @ tag_stream [[9]] @ [1, 2] @ sample_get @ rev [7] @ []"
    using sv(6) by (simp add: tag_stream_def)
  obtain s' s'' where "process_request 0 sv = Some (sv\<lparr>st := s'\<rparr>)" "process_request 0 (sv\<lparr>st := s'\<rparr>) = Some (sv\<lparr>st := s''\<rparr>)"
    "sent (sock (clients s'' 0)) = sent (sock (clients (st sv) 0)) @ MAKE_SUCCESS_RESPONSE 0 @
      MAKE_SUCCESS_RESPONSE (of_nat (length [1 :: u8, 2])) @ [1, 2]"
    using set_then_get_on_the_wire [OF sv(2,4,5) sample_requests(4) sample_requests(1,6) str rm disjI2 [OF sv(9)]
        disjI2 [OF sample_requests(5)] sv(7)] by blast
  then show ?thesis using sv(1,8) by auto
qed

text \<open>C3. \<open>SET\<close> on the wire: a well-formed request that fits is answered with a bare success, and the
  key then has exactly the entry the request describes (value, tags, times), every other key what it had; or
  with the failure \<open>OUT_OF_MEMORY\<close>, only when the key is new and its map's probing window is full, and then
  the cache is untouched. In both cases the whole request is consumed, the tag index goes on describing the
  cache, and no entry is left outside the maps.\<close>

theorem set_request_correct:
  assumes "sys_inv (st sv)" and "worker (clients (st sv) c) = Some w" and "worker_ready (st sv) w" and "set_wire r key tags val"
    and "unread (st sv) c = r @ rev key @ tag_stream tags @ val @ rest"
    and "room (mem (st sv)) (2 * length tags + BIG)" and "willing (accepting (sock (clients (st sv) c))) (8 + n)"
  shows "\<exists>status s'. process_request c sv = Some (sv\<lparr>st := s'\<rparr>) \<and> sys_inv s' \<and> (indexed (st sv) \<longrightarrow> indexed s') \<and>
    loose s' = loose (st sv) \<and> bufs_kept (st sv) s' \<and> talked c (reply status []) rest (st sv) s' \<and>
    willing (accepting (sock (clients s' c))) n \<and>
    (status = STATUS_OK \<and> cache s' = (cache (st sv))(key \<mapsto>
        set_entry r key tags val (clock (st sv) (clock_calls (st sv) + 1))) \<or>
     status = STATUS_OUT_OF_MEMORY \<and> cache s' = cache (st sv) \<and> cache (st sv) key = None \<and> map_full (st sv) key)"
  by (rule set_served [OF assms])

theorem set_request_correct_witness:
  "\<exists>sv s'. sample_server (sample_set @ [7] @ [1, 9] @ [1, 2]) = Some sv \<and> process_request 0 sv = Some (sv\<lparr>st := s'\<rparr>) \<and>
     sys_inv s' \<and> indexed s' \<and> sent (sock (clients s' 0)) = MAKE_SUCCESS_RESPONSE 0 \<and> dom (cache s') = {[7]}"
proof -
  let ?bs = "sample_set @ [7] @ [1, 9] @ [1, 2]"
  obtain sv where sv: "sample_server ?bs = Some sv" "sys_inv (st sv)" "cache (st sv) = Map.empty" "indexed (st sv)"
    "room (mem (st sv)) 6000000" "worker (clients (st sv) 0) = Some 0" "worker_ready (st sv) 0" "unread (st sv) 0 = ?bs"
    "willing (accepting (sock (clients (st sv) 0))) (8 + 0)" "sent (sock (clients (st sv) 0)) = []" "\<not> map_full (st sv) [7]"
    by (rule sample_server_ok [of ?bs "8 + 0" "[7]"]) simp
  have rm: "room (mem (st sv)) (2 * length [[9 :: u8]] + BIG)"
    by (rule bmem.room_mono [OF sv(5)]) (simp add: BIG_def)
  have str: "unread (st sv) 0 = sample_set @ rev [7] @ tag_stream [[9]] @ [1, 2] @ []" using sv(8) by simp
  obtain s' e where s': "process_request 0 sv = Some (sv\<lparr>st := s'\<rparr>)" "sys_inv s'" "indexed (st sv) \<longrightarrow> indexed s'"
    "talked 0 (reply STATUS_OK []) [] (st sv) s'" "cache s' = (cache (st sv))([7] \<mapsto> e)"
    using set_request_correct [OF sv(2,6,7) sample_requests(4) str rm sv(9)] sv(11) by blast
  moreover have "sent (sock (clients s' 0)) = MAKE_SUCCESS_RESPONSE 0"
    using s'(4) sv(10) by (simp add: talked_def reply_def sends_failure_iff)
  moreover have "dom (cache s') = {[7]}" unfolding s'(5) sv(3) by simp
  ultimately show ?thesis using sv(1,4) by blast
qed

text \<open>C6. \<open>DEL\<close> on the wire: the answer says whether the key was there, the cache loses that key and
  nothing else, the tag index follows, and no memory of entries leaks.\<close>

theorem del_request_correct:
  assumes "sys_inv (st sv)" and "worker (clients (st sv) c) = Some w" and "request_ok CMD_BYTE_DEL r"
    and "unread (st sv) c = r @ rev key @ rest" and "length key = unat (req_d_klen r)" and "key \<noteq> []"
    and "willing (accepting (sock (clients (st sv) c))) (8 + n)"
  shows "\<exists>s'. process_request c sv = Some (sv\<lparr>st := s'\<rparr>) \<and> sys_inv s' \<and> cache s' = (cache (st sv))(key := None) \<and>
    (indexed (st sv) \<longrightarrow> indexed s') \<and> loose s' = loose (st sv) \<and> bufs_kept (st sv) s' \<and>
    talked c (reply (if cache (st sv) key = None then STATUS_NOT_FOUND else STATUS_OK) []) rest (st sv) s' \<and>
    willing (accepting (sock (clients s' c))) n"
  by (rule del_served [OF assms])

theorem del_request_correct_witness:
  "\<exists>sv s'. sample_server (sample_del @ [7]) = Some sv \<and> process_request 0 sv = Some (sv\<lparr>st := s'\<rparr>) \<and>
     sent (sock (clients s' 0)) = MAKE_FAILURE_RESPONSE STATUS_NOT_FOUND \<and> cache s' = Map.empty"
proof -
  let ?bs = "sample_del @ [7]"
  obtain sv where sv: "sample_server ?bs = Some sv" "sys_inv (st sv)" "cache (st sv) = Map.empty"
    "worker (clients (st sv) 0) = Some 0" "unread (st sv) 0 = ?bs"
    "willing (accepting (sock (clients (st sv) 0))) (8 + 0)" "sent (sock (clients (st sv) 0)) = []"
    by (rule sample_server_ok [of ?bs "8 + 0"]) simp
  have str: "unread (st sv) 0 = sample_del @ rev [7] @ []" using sv(5) by simp
  obtain s' where s': "process_request 0 sv = Some (sv\<lparr>st := s'\<rparr>)" "cache s' = (cache (st sv))([7] := None)"
    "talked 0 (reply (if cache (st sv) [7] = None then STATUS_NOT_FOUND else STATUS_OK) []) [] (st sv) s'"
    using del_request_correct [OF sv(2,4) sample_requests(2) str sample_requests(7) _ sv(6)] by blast
  moreover have "sent (sock (clients s' 0)) = MAKE_FAILURE_RESPONSE STATUS_NOT_FOUND"
    using s'(3) sv(3,7) by (simp add: talked_def reply_def sends_failure_iff)
  moreover have "cache s' = Map.empty" unfolding s'(2) sv(3) by auto
  ultimately show ?thesis using sv(1) by blast
qed

text \<open>C11. A client that announces a value and goes away before all of it is there changes nothing: the
  connection is closed, the reserved entry is given back, the old value of the key (if any), the tag index and
  the other clients are untouched. The allocator has a block for the entry.\<close>

theorem aborted_set_changes_nothing:
  assumes "sys_inv (st sv)" and "worker (clients (st sv) c) = Some w" and "worker_ready (st sv) w" and "set_wire r key tags val"
    and "unread (st sv) c = r @ rev key @ tag_stream tags @ part" and "length part < length val"
    and "at_eof (sock (clients (st sv) c))" and "room (mem (st sv)) BIG" and "0 \<le> fd (clients (st sv) c)"
  shows "\<exists>sv'. process_request c sv = Some sv' \<and> sys_inv (st sv') \<and> cache (st sv') = cache (st sv) \<and>
    loose (st sv') = loose (st sv) \<and> tag_tree (st sv') = tag_tree (st sv) \<and> fd (clients (st sv') c) = -1 \<and>
    sent (sock (clients (st sv') c)) = sent (sock (clients (st sv) c)) \<and>
    (\<forall>d. d \<noteq> c \<longrightarrow> clients (st sv') d = clients (st sv) d)"
  by (rule set_aborted_served [OF assms])

theorem aborted_set_changes_nothing_witness:
  "\<exists>sv sv'. sample_server (sample_set @ [7] @ [1, 9] @ [1]) = Some sv \<and> process_request 0 sv = Some sv' \<and>
     cache (st sv') = Map.empty \<and> fd (clients (st sv') 0) = -1"
proof -
  let ?bs = "sample_set @ [7] @ [1, 9] @ [1]"
  obtain sv where sv: "sample_server ?bs = Some sv" "sys_inv (st sv)" "cache (st sv) = Map.empty"
    "room (mem (st sv)) 6000000" "worker (clients (st sv) 0) = Some 0" "worker_ready (st sv) 0" "unread (st sv) 0 = ?bs"
    "at_eof (sock (clients (st sv) 0))" "conn_inv sv"
    by (rule sample_server_ok [of ?bs]) blast
  have rm: "room (mem (st sv)) BIG" by (rule bmem.room_mono [OF sv(4)]) (simp add: BIG_def)
  have str: "unread (st sv) 0 = sample_set @ rev [7] @ tag_stream [[9]] @ [1]" using sv(7) by simp
  have "in_use sv 0" using conn_invD(2) [OF sv(9), of 0] sv(5) by (auto simp: MAX_NUM_CLIENTS_def)
  then have "0 \<le> fd (clients (st sv) 0)" using conn_invD(3) [OF sv(9)] by blast
  then show ?thesis
    using aborted_set_changes_nothing [OF sv(2,5,6) sample_requests(4) str _ sv(8) rm] sv(1,3) by auto
qed

text \<open>C35. What a client reads after the failure that answers an information request for an unknown key: sixteen
  bytes of the worker's buffer, left from whatever request the worker served before; the failure response does
  not announce them, so that the next response is not where the client looks for it.\<close>

theorem information_miss_sends_stale_bytes:
  assumes "sys_inv (st sv)" and "worker (clients (st sv) c) = Some w" and "worker_ready (st sv) w" and "request_ok CMD_BYTE_NFO r"
    and "unread (st sv) c = r @ rev key @ rest" and "length key = unat (req_n_klen r)" and "key \<noteq> []"
    and "cache (st sv) key = None" and "willing (accepting (sock (clients (st sv) c))) (24 + n)"
  shows "\<exists>s'. process_request c sv = Some (sv\<lparr>st := s'\<rparr>) \<and> sys_inv s' \<and> cache s' = cache (st sv) \<and>
    talked c (MAKE_FAILURE_RESPONSE STATUS_NOT_FOUND @ load_bytes (payload_data (payload_buffer (workers (st sv) w))) 0 16)
      rest (st sv) s'"
  by (rule nfo_miss_served [OF assms])

theorem information_miss_sends_stale_bytes_witness:
  "\<exists>sv s'. sample_server (sample_nfo @ [7]) = Some sv \<and> process_request 0 sv = Some (sv\<lparr>st := s'\<rparr>) \<and>
     length (sent (sock (clients s' 0))) = 24"
proof -
  let ?bs = "sample_nfo @ [7]"
  obtain sv where sv: "sample_server ?bs = Some sv" "sys_inv (st sv)" "cache (st sv) = Map.empty"
    "worker (clients (st sv) 0) = Some 0" "worker_ready (st sv) 0" "unread (st sv) 0 = ?bs"
    "willing (accepting (sock (clients (st sv) 0))) (24 + 0)" "sent (sock (clients (st sv) 0)) = []"
    by (rule sample_server_ok [of ?bs "24 + 0"]) simp
  have str: "unread (st sv) 0 = sample_nfo @ rev [7] @ []" using sv(6) by simp
  have absent: "cache (st sv) [7] = None" using sv(3) by simp
  obtain s' where "process_request 0 sv = Some (sv\<lparr>st := s'\<rparr>)"
    "talked 0 (MAKE_FAILURE_RESPONSE STATUS_NOT_FOUND @ load_bytes (payload_data (payload_buffer (workers (st sv) 0))) 0 16)
      [] (st sv) s'"
    using information_miss_sends_stale_bytes [OF sv(2,4,5) sample_requests(3) str sample_requests(8) _ absent sv(7)] by blast
  moreover from this have "length (sent (sock (clients s' 0))) = 24" using sv(8) by (simp add: talked_def)
  ultimately show ?thesis using sv(1) by blast
qed

end
