(* ===== verification/Cik_Race.thy ===== *)
theory Cik_Race
  imports Cik_Connections
begin

text \<open>
  A worker closes a connection while the accept thread takes a new one: \<open>close_client\<close> and
  \<open>wait_for_new_connection\<close> statement by statement, in any interleaving. Each thread alone does what
  the function it runs does; together they may give a client away without a worker, or run into its null
  pointer.
\<close>

section \<open>The two threads\<close>

datatype closer = CClose | CPublish | CForget | CReturn

datatype accepter = AFind | AAccept nat | AAssign nat | AWatch nat | AReturn | AFault

text \<open>The closer works on client \<open>c\<close>.\<close>

inductive closer_step :: "nat \<Rightarrow> closer \<times> server \<Rightarrow> closer \<times> server \<Rightarrow> bool" for c where
  CloseS: "0 \<le> fd (clients (st sv) c) \<Longrightarrow>
    closer_step c (CClose, sv) (CPublish, close_fd (fd (clients (st sv) c)) (sv\<lparr>watched := filter (\<lambda>(w, d). d \<noteq> c) (watched sv)\<rparr>))"
| NothingS: "fd (clients (st sv) c) < 0 \<Longrightarrow> closer_step c (CClose, sv) (CReturn, sv)"
| PublishS: "closer_step c (CPublish, sv) (CForget, upd_st (upd_client c (fd_update (\<lambda>_. -1))) sv)"
| ForgetS: "closer_step c (CForget, sv) (CReturn, upd_st (upd_client c (worker_update (\<lambda>_. None))) sv)"

text \<open>The accepter, once \<open>epoll_wait\<close> has announced a connection, with the answers \<open>k\<close>.
  \<open>AFault\<close>: the worker of the new client is a null pointer when its \<open>epfd\<close> is read.\<close>

inductive accepter_step :: "accept_calls \<Rightarrow> accepter \<times> server \<Rightarrow> accepter \<times> server \<Rightarrow> bool" for k where
  FindS: "find_free_client (st sv) = Some d \<Longrightarrow> accepter_step k (AFind, sv) (AAccept d, sv)"
| FullS: "find_free_client (st sv) = None \<Longrightarrow> accepter_step k (AFind, sv) (AReturn, sv)"
| AcceptS: "0 \<le> accept_result k \<Longrightarrow>
    accepter_step k (AAccept d, sv) (AAssign d, upd_st (upd_client d (\<lambda>cl. cl\<lparr>fd := accept_result k,
      sin_addr := peer_addr k, sin_port := peer_port k, sock := peer k\<rparr>)) (sv\<lparr>open_fds := accept_result k # open_fds sv\<rparr>))"
| RefuseS: "accept_result k < 0 \<Longrightarrow>
    accepter_step k (AAccept d, sv) (AReturn, upd_st (upd_client d (fd_update (\<lambda>_. accept_result k))) sv)"
| AssignS: "accepter_step k (AAssign d, sv) (AWatch d, upd_st (upd_client d (\<lambda>cl. cl\<lparr>c_counters := no_counters,
    worker := Some (unat (next_worker sv))\<rparr>)) sv)"
| WatchS: "worker (clients (st sv) d) = Some w \<Longrightarrow> 0 \<le> ctl_result k \<Longrightarrow>
    accepter_step k (AWatch d, sv) (AReturn, sv\<lparr>watched := (w, d) # watched sv,
      next_worker := (next_worker sv + 1) mod of_nat NUM_WORKERS\<rparr>)"
| UnwatchedS: "worker (clients (st sv) d) = Some w \<Longrightarrow> ctl_result k < 0 \<Longrightarrow>
    accepter_step k (AWatch d, sv) (AReturn, close_client d sv)"
| FaultS: "worker (clients (st sv) d) = None \<Longrightarrow> accepter_step k (AWatch d, sv) (AFault, sv)"

text \<open>Both on one server: a step is a step of one of them.\<close>

type_synonym threads = "closer \<times> accepter \<times> server"

inductive race_step :: "accept_calls \<Rightarrow> nat \<Rightarrow> threads \<Rightarrow> threads \<Rightarrow> bool" for k c where
  Closer: "closer_step c (p, sv) (p', sv') \<Longrightarrow> race_step k c (p, a, sv) (p', a, sv')"
| Accepter: "accepter_step k (a, sv) (a', sv') \<Longrightarrow> race_step k c (p, a, sv) (p, a', sv')"

lemmas Close = Closer [OF CloseS] and Publish = Closer [OF PublishS] and Forget = Closer [OF ForgetS]
lemmas Find = Accepter [OF FindS] and Full = Accepter [OF FullS] and Accept = Accepter [OF AcceptS] and Refuse = Accepter [OF RefuseS]
  and Assign = Accepter [OF AssignS] and Watch = Accepter [OF WatchS] and Unwatched = Accepter [OF UnwatchedS] and Fault = Accepter [OF FaultS]

abbreviation race :: "accept_calls \<Rightarrow> nat \<Rightarrow> threads \<Rightarrow> threads \<Rightarrow> bool" where
  "race k c \<equiv> (race_step k c)\<^sup>*\<^sup>*"

section \<open>Each thread alone\<close>

lemma chain3: "r x y \<Longrightarrow> r y z \<Longrightarrow> r z u \<Longrightarrow> r\<^sup>*\<^sup>* x u"
  by (meson converse_rtranclp_into_rtranclp r_into_rtranclp)

lemma chain4: "r x y \<Longrightarrow> r y z \<Longrightarrow> r z u \<Longrightarrow> r u v \<Longrightarrow> r\<^sup>*\<^sup>* x v"
  by (rule converse_rtranclp_into_rtranclp, assumption, rule chain3)

lemma closer_run: "(closer_step c)\<^sup>*\<^sup>* (CClose, sv) (CReturn, close_client c sv)"
proof (cases "0 \<le> fd (clients (st sv) c)")
  case True
  let ?sv1 = "close_fd (fd (clients (st sv) c)) (sv\<lparr>watched := filter (\<lambda>(w, d). d \<noteq> c) (watched sv)\<rparr>)"
  let ?sv2 = "upd_st (upd_client c (fd_update (\<lambda>_. -1))) ?sv1"
  have "close_client c sv = upd_st (upd_client c (worker_update (\<lambda>_. None))) ?sv2"
    using True by (simp add: close_client_def upd_st_def upd_client_def close_fd_def)
  then show ?thesis using chain3 [where r = "closer_step c", OF CloseS [OF True] PublishS ForgetS] by simp
next
  case False
  then show ?thesis using NothingS [of sv c] by (simp add: close_client_def r_into_rtranclp)
qed

lemma accepter_run:
  assumes "NOT events AND EPOLLIN = 0"
  shows "(accepter_step k)\<^sup>*\<^sup>* (AFind, sv) (AReturn, snd (wait_for_new_connection (PollEvent events) k sv))"
proof (cases "find_free_client (st sv)")
  case None
  then show ?thesis using assms r_into_rtranclp [where r = "accepter_step k", OF FullS [OF None]] by (simp add: wait_eq)
next
  case (Some d)
  let ?sv1 = "upd_st (upd_client d (\<lambda>cl. cl\<lparr>fd := accept_result k, sin_addr := peer_addr k, sin_port := peer_port k,
    sock := peer k\<rparr>)) (sv\<lparr>open_fds := accept_result k # open_fds sv\<rparr>)"
  let ?sv2 = "upd_st (upd_client d (\<lambda>cl. cl\<lparr>c_counters := no_counters, worker := Some (unat (next_worker ?sv1))\<rparr>)) ?sv1"
  have acc: "?sv2 = accepted d k sv" by (simp add: accepted_def upd_st_def upd_client_def)
  have w: "worker (clients (st (accepted d k sv)) d) = Some (unat (next_worker sv))" by (simp add: clients_accepted)
  have fields: "watched (accepted d k sv) = watched sv" "next_worker (accepted d k sv) = next_worker sv"
    by (simp_all add: accepted_def upd_st_def)
  consider "accept_result k < 0" | "0 \<le> accept_result k" "0 \<le> ctl_result k" | "0 \<le> accept_result k" "ctl_result k < 0" by linarith
  then show ?thesis
  proof cases
    case 1
    then have "(accepter_step k)\<^sup>*\<^sup>* (AFind, sv) (AReturn, upd_st (upd_client d (fd_update (\<lambda>_. accept_result k))) sv)"
      using FindS [OF Some] RefuseS by (meson converse_rtranclp_into_rtranclp r_into_rtranclp)
    then show ?thesis using assms Some 1 by (simp add: wait_eq)
  next
    case 2
    have "snd (wait_for_new_connection (PollEvent events) k sv) = (accepted d k sv)\<lparr>watched := (unat (next_worker sv), d) #
        watched (accepted d k sv), next_worker := (next_worker (accepted d k sv) + 1) mod of_nat NUM_WORKERS\<rparr>"
      using assms Some 2 by (simp add: wait_eq admitted_def fields)
    then show ?thesis
      using chain4 [where r = "accepter_step k", OF FindS [OF Some] AcceptS [OF 2(1)] AssignS WatchS [OF w [folded acc] 2(2)]] by (simp add: acc)
  next
    case 3
    have "snd (wait_for_new_connection (PollEvent events) k sv) = close_client d (accepted d k sv)"
      using assms Some 3 by (simp add: wait_eq)
    then show ?thesis
      using chain4 [where r = "accepter_step k", OF FindS [OF Some] AcceptS [OF 3(1)] AssignS UnwatchedS [OF w [folded acc] 3(2)]] by (simp add: acc)
  qed
qed

text \<open>One of them runs while the other waits.\<close>

lemma race_closer:
  assumes "(closer_step c)\<^sup>*\<^sup>* x y"
  shows "race k c (fst x, a, snd x) (fst y, a, snd y)"
  using assms
proof (induction rule: rtranclp_induct)
  case (step y z)
  from step.hyps(2) have "race_step k c (fst y, a, snd y) (fst z, a, snd z)" by (cases y; cases z) (simp add: Closer)
  with step.IH show ?case by simp
qed simp

lemma race_accepter:
  assumes "(accepter_step k)\<^sup>*\<^sup>* x y"
  shows "race k c (p, fst x, snd x) (p, fst y, snd y)"
  using assms
proof (induction rule: rtranclp_induct)
  case (step y z)
  from step.hyps(2) have "race_step k c (p, fst y, snd y) (p, fst z, snd z)" by (cases y; cases z) (simp add: Accepter)
  with step.IH show ?case by simp
qed simp

lemma closer_alone: "race k c (CClose, a, sv) (CReturn, a, close_client c sv)"
  using race_closer [OF closer_run, where k = k and a = a] by simp

lemma accepter_alone:
  assumes "NOT events AND EPOLLIN = 0"
  shows "race k c (p, AFind, sv) (p, AReturn, snd (wait_for_new_connection (PollEvent events) k sv))"
  using race_accepter [OF accepter_run [OF assms], where c = c and p = p] by simp

section \<open>Together\<close>

lemma find_free_clientI:
  assumes "c < MAX_NUM_CLIENTS" and "fd (clients s c) = -1" and "\<forall>d < c. fd (clients s d) \<noteq> -1"
  shows "find_free_client s = Some c"
  unfolding find_free_client_def using assms by (auto simp: find_Some_iff intro!: exI [of _ c])

text \<open>Whatever the interleaving, the clients that are in use stay as they are, but for the one being closed.\<close>

lemma race_frame:
  assumes "race k c (CClose, AFind, sv) x"
  shows "case x of (p, a, sv') \<Rightarrow> (\<forall>d. d \<noteq> c \<longrightarrow> in_use sv d \<longrightarrow> clients (st sv') d = clients (st sv) d) \<and>
    (\<forall>d. a \<in> {AAccept d, AAssign d, AWatch d} \<longrightarrow> d = c \<or> \<not> in_use sv d)"
  using assms
proof (induction rule: rtranclp_induct)
  case (step y z)
  from step.hyps(2) show ?case
  proof (cases rule: race_step.cases)
    case (Closer p sv1 p' sv2 a)
    from Closer(3) step.IH show ?thesis unfolding Closer(1,2)
      by (cases rule: closer_step.cases) (auto simp: upd_st_def upd_client_def close_fd_def)
  next
    case (Accepter a sv1 a' sv2 p)
    from Accepter(3) show ?thesis
    proof (cases rule: accepter_step.cases)
      case (FindS d)
      then show ?thesis using step.IH find_free_client_Some [OF FindS(4)] unfolding Accepter(1,2) by (auto simp: in_use_def)
    qed (use step.IH in \<open>auto simp: Accepter(1,2) upd_st_def upd_client_def close_fd_def close_client_def\<close>)
  qed
qed simp

lemma race_meets:
  assumes c: "c < MAX_NUM_CLIENTS" "0 \<le> fd (clients (st sv) c)" "\<forall>d < c. fd (clients (st sv) d) \<noteq> -1"
    and k: "0 \<le> accept_result k"
  obtains v where "race k c (CClose, AFind, sv) (CForget, AWatch c, v)" "fd (clients (st v) c) = accept_result k"
    "worker (clients (st v) c) = Some (unat (next_worker sv))" "sock (clients (st v) c) = peer k" "next_worker v = next_worker sv"
proof -
  let ?sv1 = "close_fd (fd (clients (st sv) c)) (sv\<lparr>watched := filter (\<lambda>(w, d). d \<noteq> c) (watched sv)\<rparr>)"
  let ?sv2 = "upd_st (upd_client c (fd_update (\<lambda>_. -1))) ?sv1"
  let ?sv3 = "upd_st (upd_client c (\<lambda>cl. cl\<lparr>fd := accept_result k, sin_addr := peer_addr k, sin_port := peer_port k,
    sock := peer k\<rparr>)) (?sv2\<lparr>open_fds := accept_result k # open_fds ?sv2\<rparr>)"
  let ?v = "upd_st (upd_client c (\<lambda>cl. cl\<lparr>c_counters := no_counters, worker := Some (unat (next_worker ?sv3))\<rparr>)) ?sv3"
  have free: "find_free_client (st ?sv2) = Some c"
    using c by (intro find_free_clientI) (simp_all add: upd_st_def upd_client_def close_fd_def)
  have "race k c (CClose, AFind, sv) (CForget, AAccept c, ?sv2)" by (rule chain3 [where r = "race_step k c", OF Close [OF c(2)] Publish Find [OF free]])
  moreover have "race k c (CForget, AAccept c, ?sv2) (CForget, AWatch c, ?v)"
    using Accept [OF k] Assign by (meson converse_rtranclp_into_rtranclp r_into_rtranclp)
  ultimately have "race k c (CClose, AFind, sv) (CForget, AWatch c, ?v)" by (rule rtranclp_trans)
  then show thesis
    by (rule that) (simp_all add: upd_st_def upd_client_def close_fd_def)
qed

text \<open>A client without a worker: its first request closes the connection.\<close>

lemma workerless_request:
  assumes "worker (clients (st sv) c) = None" and "unread (st sv) c = r @ rest" and "length r = sizeof_Request"
  shows "\<exists>s. process_request c sv = Some (close_client c (sv\<lparr>st := s\<rparr>)) \<and> sent (sock (clients s c)) = sent (sock (clients (st sv) c))"
proof -
  let ?s = "st sv"
  let ?begun = "upd_client c (last_request_start_tick_update (\<lambda>_. ticks ?s (tick_calls ?s))) (?s\<lparr>tick_calls := tick_calls ?s + 1\<rparr>)"
  have "unread ?begun c = r @ rest" using assms(2) by (simp add: unread_def upd_client_def)
  then obtain ds where ds: "read_request (sock (clients ?begun c)) = Some (STATUS_OK, r, sock (clients ?begun c)\<lparr>incoming := ds\<rparr>)"
    by (rule read_request_ok [OF _ assms(3)])
  let ?s2 = "upd_client c (sock_update (\<lambda>_. sock (clients ?begun c)\<lparr>incoming := ds\<rparr>)) ?begun"
  have "worker (clients ?s2 c) = None" using assms(1) by (simp add: upd_client_def)
  then have "handle_request ?s2 c r = Some (STATUS_BUG, NullPayload, ?s2)" by (simp add: handle_request_def)
  then have "process_request c sv = Some (close_client c (sv\<lparr>st := ?s2\<rparr>))"
    using ds by (simp add: process_request_def get_performance_counter_def closes_connection_iff Let_def)
  then show ?thesis by (intro exI [of _ ?s2]) (simp add: upd_client_def)
qed

section \<open>Properties\<close>

text \<open>C13. What can happen to a client that is accepted while a worker closes the connection that had the same
  slot. The order in \<open>close_client\<close> (first the descriptor that frees the slot, then the worker) lets the
  accept thread take the slot in between: then either the new client has a descriptor and no worker, or the
  accept thread reads \<open>epfd\<close> of a null pointer; and sometimes nothing goes wrong. A client without a worker
  is turned away at its first request without an answer. In every interleaving all other clients stay as they
  were.\<close>

theorem accept_races_with_close:
  assumes "c < MAX_NUM_CLIENTS" and "0 \<le> fd (clients (st sv) c)" and "\<forall>d < c. fd (clients (st sv) d) \<noteq> -1"
    and "0 \<le> accept_result k" and "0 \<le> ctl_result k" and "NOT events AND EPOLLIN = 0"
  shows "race k c (CClose, AFind, sv) (CReturn, AReturn, snd (wait_for_new_connection (PollEvent events) k (close_client c sv))) \<and>
    (\<exists>sv'. race k c (CClose, AFind, sv) (CReturn, AReturn, sv') \<and> fd (clients (st sv') c) = accept_result k \<and>
      worker (clients (st sv') c) = None \<and> sock (clients (st sv') c) = peer k \<and>
      (\<forall>r rest. unread (st sv') c = r @ rest \<longrightarrow> length r = sizeof_Request \<longrightarrow>
        (\<exists>s. process_request c sv' = Some (close_client c (sv'\<lparr>st := s\<rparr>)) \<and> sent (sock (clients s c)) = sent (peer k)))) \<and>
    (\<exists>sv'. race k c (CClose, AFind, sv) (CReturn, AFault, sv')) \<and>
    (\<forall>p a sv' d. race k c (CClose, AFind, sv) (p, a, sv') \<longrightarrow> d \<noteq> c \<longrightarrow> in_use sv d \<longrightarrow> clients (st sv') d = clients (st sv) d)"
proof (intro conjI allI impI)
  show "race k c (CClose, AFind, sv) (CReturn, AReturn, snd (wait_for_new_connection (PollEvent events) k (close_client c sv)))"
    by (rule rtranclp_trans [OF closer_alone accepter_alone [OF assms(6)]])
  obtain v where v: "race k c (CClose, AFind, sv) (CForget, AWatch c, v)" "fd (clients (st v) c) = accept_result k"
    "worker (clients (st v) c) = Some (unat (next_worker sv))" "sock (clients (st v) c) = peer k"
    by (rule race_meets [OF assms(1-4)])
  let ?v1 = "v\<lparr>watched := (unat (next_worker sv), c) # watched v, next_worker := (next_worker v + 1) mod of_nat NUM_WORKERS\<rparr>"
  let ?forget = "\<lambda>sv. upd_st (upd_client c (worker_update (\<lambda>_. None))) sv"
  have "race k c (CClose, AFind, sv) (CReturn, AReturn, ?forget ?v1)"
    by (rule rtranclp.rtrancl_into_rtrancl [OF rtranclp.rtrancl_into_rtrancl [OF v(1) Watch [OF v(3) assms(5)]] Forget])
  moreover have lost: "fd (clients (st (?forget ?v1)) c) = accept_result k" "worker (clients (st (?forget ?v1)) c) = None"
    "sock (clients (st (?forget ?v1)) c) = peer k" using v(2,4) by (simp_all add: upd_st_def upd_client_def)
  moreover have "\<forall>r rest. unread (st (?forget ?v1)) c = r @ rest \<longrightarrow> length r = sizeof_Request \<longrightarrow>
      (\<exists>s. process_request c (?forget ?v1) = Some (close_client c ((?forget ?v1)\<lparr>st := s\<rparr>)) \<and> sent (sock (clients s c)) = sent (peer k))"
    using workerless_request [OF lost(2)] by (simp only: lost(3)) blast
  ultimately show "\<exists>sv'. race k c (CClose, AFind, sv) (CReturn, AReturn, sv') \<and> fd (clients (st sv') c) = accept_result k \<and>
      worker (clients (st sv') c) = None \<and> sock (clients (st sv') c) = peer k \<and>
      (\<forall>r rest. unread (st sv') c = r @ rest \<longrightarrow> length r = sizeof_Request \<longrightarrow>
        (\<exists>s. process_request c sv' = Some (close_client c (sv'\<lparr>st := s\<rparr>)) \<and> sent (sock (clients s c)) = sent (peer k)))"
    by (intro exI [of _ "?forget ?v1"] conjI)
  have "worker (clients (st (?forget v)) c) = None" by (simp add: upd_st_def upd_client_def)
  then have "race k c (CClose, AFind, sv) (CReturn, AFault, ?forget v)"
    by (rule rtranclp.rtrancl_into_rtrancl [OF rtranclp.rtrancl_into_rtrancl [OF v(1) Forget] Fault])
  then show "\<exists>sv'. race k c (CClose, AFind, sv) (CReturn, AFault, sv')" by blast
  show "clients (st sv') d = clients (st sv) d"
    if "race k c (CClose, AFind, sv) (p, a, sv')" "d \<noteq> c" "in_use sv d" for p a sv' d
    using race_frame [OF that(1)] that(2,3) by simp
qed

theorem accept_races_with_close_witness:
  "\<exists>sv sv'. sample_server [] = Some sv \<and> race (sample_accept [1]) 0 (CClose, AFind, sv) (CReturn, AReturn, sv') \<and>
     0 \<le> fd (clients (st sv') 0) \<and> worker (clients (st sv') 0) = None"
proof -
  obtain sv where sv: "sample_server [] = Some sv" "conn_inv sv" "worker (clients (st sv) 0) = Some 0" by (rule sample_server_ok)
  have "in_use sv 0" using conn_invD(2) [OF sv(2), of 0] sv(3) by (auto simp: MAX_NUM_CLIENTS_def)
  then have f: "0 \<le> fd (clients (st sv) 0)" using conn_invD(3) [OF sv(2)] by blast
  have k: "0 \<le> accept_result (sample_accept [1])" "0 \<le> ctl_result (sample_accept [1])" "NOT EPOLLIN AND EPOLLIN = 0"
    by (simp_all add: sample_accept_def EPOLLIN_def)
  have c: "0 < MAX_NUM_CLIENTS" by (simp add: MAX_NUM_CLIENTS_def)
  show ?thesis using accept_races_with_close [OF c f _ k] sv(1) k(1) by (metis not_less_zero)
qed

end
