(* ===== verification/Cik_Safe_Reading.thy ===== *)
theory Cik_Safe_Reading
  imports Cik_Set
begin

text \<open>
  Reading, whatever arrives: bytes of any kind, in any pieces, breaking off anywhere. A read that returns has
  touched nothing but the connection and the worker's buffer, and one that succeeds has delivered the bytes
  that were next.
\<close>

section \<open>What reading leaves alone\<close>

definition quiet :: "nat \<Rightarrow> state \<Rightarrow> state \<Rightarrow> bool" where
  "quiet c s s' \<longleftrightarrow> same_core s s' \<and> served c s s' \<and> bufs_kept s s' \<and> current_client s' = current_client s"

lemma quiet_refl [simp]: "quiet c s s"
  by (simp add: quiet_def served_eq bufs_kept_eq)

lemma quiet_trans: "quiet c s t \<Longrightarrow> quiet c t u \<Longrightarrow> quiet c s u"
  unfolding quiet_def using same_core_trans served_trans bufs_kept_trans by metis

lemma quietD:
  assumes "quiet c s s'"
  shows "same_core s s'" "served c s s'" "bufs_kept s s'" "current_client s' = current_client s"
    "sys_inv s' = sys_inv s" "cache s' = cache s" "worker (clients s' d) = worker (clients s d)" "loose s' = loose s"
  using assms same_core_inv [of s s' "{}" "{}"] same_core_cache [of s s'] servedD(1) [of c s s' d]
  by (simp_all add: quiet_def) (simp add: loose_def same_core_def)

lemma quiet_counters [simp]: "quiet c s (upd_counters c f s)"
  by (simp add: quiet_def bufs_kept_def)

lemma quiet_payload [simp]: "quiet c s (set_payload_data w d s)" "quiet c s (set_payload_nmemb w n s)"
  by (simp_all add: quiet_def served_eq bufs_kept_def)

lemma quiet_clock [simp]: "quiet c s (s\<lparr>clock_calls := n\<rparr>)"
  by (simp add: quiet_def served_eq bufs_kept_def)

lemma quiet_io: "same_core s s' \<Longrightarrow> io_kept s s' \<Longrightarrow> quiet c s s'"
  by (simp add: quiet_def served_eq bufs_kept_io io_keptD)

section \<open>The connection\<close>

lemma sys_read_stream_inv:
  "sys_read ds closing n = Some (Got bs, ds') \<Longrightarrow> stream ds = bs @ stream ds'"
  by (induction ds closing n rule: sys_read.induct) (auto split: if_splits)

lemma read_loop_inv:
  assumes "read_loop ds closing n = Some (st, bs, ds')"
  shows "st = STATUS_OK \<longrightarrow> stream ds = bs @ stream ds' \<and> length bs = n"
  using assms
proof (induction ds closing n arbitrary: st bs ds' rule: read_loop.induct)
  case (1 ds closing n)
  from 1(2) obtain r ds1 where n: "n \<noteq> 0" and r: "sys_read ds closing n = Some (r, ds1)"
    by (subst (asm) read_loop.simps) (auto split: if_splits elim!: bind_SomeE)
  show ?case
  proof (cases r)
    case (Got xs)
    note G = sys_read_Got [OF r [unfolded Got]] sys_read_stream_inv [OF r [unfolded Got]]
    show ?thesis
    proof (cases "n - length xs > 0")
      case True
      then obtain bs1 where b: "read_loop ds1 closing (n - length xs) = Some (st, bs1, ds')" "bs = xs @ bs1"
        using 1(2) n r Got by (subst (asm) read_loop.simps) (auto elim!: bind_SomeE)
      show ?thesis using 1(1) [OF n r refl Got True b(1)] G True b(2) by auto
    next
      case False
      then have "st = STATUS_OK" "bs = xs" "ds' = ds1"
        using 1(2) n r Got by (subst (asm) read_loop.simps; auto)+
      then show ?thesis using G n False by simp
    qed
  qed (use 1(2) n r in \<open>subst (asm) read_loop.simps; auto\<close>)+
qed

lemma client_read_any:
  assumes "client_read s c cap n = Some (st, bs, s')"
  shows "quiet c s s'" and "st = STATUS_OK \<Longrightarrow> unread s c = bs @ unread s' c \<and> length bs = unat n" and "length bs \<le> cap"
proof -
  obtain sk where sk: "read_request_payload (sock (clients s c)) cap n = Some (st, bs, sk)"
    "s' = upd_client c (sock_update (\<lambda>_. sk)) s"
    using assms by (auto simp: client_read_def elim!: bind_SomeE)
  obtain ds where ds: "sk = sock (clients s c)\<lparr>incoming := ds\<rparr>" "whole (incoming (sock (clients s c))) \<longrightarrow> whole ds"
    using read_request_payload_sock [OF sk(1)] by blast
  have "read_to c (stream ds) s s'" unfolding sk(2) by (rule read_to_sock [OF ds])
  note R = read_toD [OF this]
  show "quiet c s s'" using R by (simp add: quiet_def bufs_kept_eq)
  show "length bs \<le> cap" using sk(1) by (auto simp: read_request_payload_def split: if_splits elim!: bind_SomeE)
  assume ok: "st = STATUS_OK"
  show "unread s c = bs @ unread s' c \<and> length bs = unat n"
  proof (cases "n = 0")
    case True
    then have "bs = []" "sk = sock (clients s c)" using sk(1) by (simp_all add: read_request_payload_def)
    then show ?thesis using True R(4) ds(1) by (simp add: unread_def) (metis socket.select_convs(1) socket.surjective socket.update_convs(1))
  next
    case False
    then have "read_loop (incoming (sock (clients s c))) (at_eof (sock (clients s c))) (unat n) = Some (st, bs, ds)"
      using sk(1) ds(1) by (auto simp: read_request_payload_def split: if_splits elim!: bind_SomeE)
        (metis socket.select_convs(1) socket.surjective socket.update_convs(1))
    from read_loop_inv [OF this] ok R(4) show ?thesis by (simp add: unread_def)
  qed
qed

section \<open>Keys and tags\<close>

lemma read_request_key_any:
  assumes "read_request_key s c klen = Some (st, key, s')"
  shows "quiet c s s'"
    and "st = STATUS_OK \<Longrightarrow> unread s c = rev key @ unread s' c \<and> length key = unat klen \<and> key \<noteq> []"
proof -
  obtain bs where bs: "client_read s c sizeof_tmp_key_data (ucast klen) = Some (st, bs, s')"
    using assms by (auto simp: read_request_key_def split: if_splits elim!: bind_SomeE)
  note R = client_read_any [OF this]
  show "quiet c s s'" by (rule R(1))
  assume ok: "st = STATUS_OK"
  have k: "unat (ucast klen :: u32) = unat klen" by (rule unat_ucast_u8)
  from R(2) [OF ok] have u: "unread s c = bs @ unread s' c" "length bs = unat klen" by (simp_all add: k)
  obtain buf where buf: "reverse_bytes sizeof_tmp_key_data (store_bytes (\<lambda>_. 0) 0 bs) 0 (ucast klen) = Some buf"
    "key = load_bytes buf 0 (unat klen)"
    using assms bs ok by (auto simp: read_request_key_def elim!: bind_SomeE)
  have "(ucast klen :: u32) \<noteq> 0" using buf(1) reverse_bytes_zero [of sizeof_tmp_key_data] by (auto simp: sizeof_tmp_key_data_def)
  then have pos: "0 < (ucast klen :: u32)" by (simp add: word_gt_0)
  have "reverse_bytes sizeof_tmp_key_data (store_bytes (\<lambda>_. 0) 0 bs) 0 (ucast klen) =
      Some (store_bytes (store_bytes (\<lambda>_. 0) 0 bs) 0 (rev bs))"
    using reverse_bytes_eq [OF pos, of 0 sizeof_tmp_key_data "store_bytes (\<lambda>_. 0) 0 bs"] unat_u8_le [of klen] k u(2)
      load_store_same [OF u(2)] by (simp add: sizeof_tmp_key_data_def)
  then have "key = rev bs" using buf u(2) load_store_same [of "rev bs" "unat klen"] by auto
  moreover have "bs \<noteq> []" using pos k u(2) by (auto simp: word_gt_0 unat_eq_0)
  ultimately show "unread s c = rev key @ unread s' c \<and> length key = unat klen \<and> key \<noteq> []" using u by simp
qed

lemma read_tags_loop_any:
  assumes "read_tags_loop s c w off cap k = Some (st, refs, cap', s')"
  shows "quiet c s s' \<and> (st = STATUS_OK \<longrightarrow> length refs = k \<and> (\<forall>(off, n) \<in> set refs. n \<noteq> 0))"
  using assms
proof (induction k arbitrary: s off cap st refs cap' s')
  case (Suc k)
  obtain st1 bs s1 where r1: "client_read s c 1 1 = Some (st1, bs, s1)" using Suc.prems by (auto elim!: bind_SomeE)
  note q1 = client_read_any(1) [OF r1]
  show ?case
  proof (cases "st1 = STATUS_OK \<and> \<not> ucast (hd bs) > cap")
    case False
    then have "s' = s1 \<and> st \<noteq> STATUS_OK" using Suc.prems r1 by (auto split: if_splits)
    then show ?thesis using q1 by simp
  next
    case True
    obtain st2 bs2 s2 where r2: "client_read s1 c (unat cap) (ucast (hd bs)) = Some (st2, bs2, s2)"
      using Suc.prems r1 True by (auto simp: Let_def elim!: bind_SomeE)
    note q2 = quiet_trans [OF q1 client_read_any(1) [OF r2]]
    show ?thesis
    proof (cases "st2 = STATUS_OK")
      case False
      then have "st = st2" "\<exists>d. s' = set_payload_data w d s2" using Suc.prems r1 r2 True by (auto simp: Let_def elim!: bind_SomeE)
      then show ?thesis using quiet_trans [OF q2 quiet_payload(1)] False by auto
    next
      case ok: True
      let ?pl = "payload_buffer (workers s2 w)"
      let ?d = "store_bytes (payload_data ?pl) off bs2"
      obtain d' refs' where d: "reverse_bytes (unat (payload_cap ?pl)) ?d off (ucast (hd bs)) = Some d'"
        "read_tags_loop (set_payload_data w d' s2) c w (off + unat (hd bs)) (cap - ucast (hd bs)) k = Some (st, refs', cap', s')"
        "refs = (off, hd bs) # refs'"
        using Suc.prems r1 r2 True ok by (auto simp: Let_def elim!: bind_SomeE)
      have "ucast (hd bs) \<noteq> (0 :: u32)" using d(1) reverse_bytes_zero [OF unat_u32_less, of "payload_cap ?pl" ?d off] by auto
      then have nz: "hd bs \<noteq> 0" by auto
      show ?thesis using Suc.IH [OF d(2)] quiet_trans [OF q2 quiet_trans [OF quiet_payload(1)]] nz d(3) by auto
    qed
  qed
qed simp

lemma tag_bytes_fine:
  assumes "\<forall>(off, n) \<in> set refs. n \<noteq> 0" and "tag \<in> set (tag_bytes d refs)"
  shows "length tag \<in> {1..255}"
proof -
  obtain off n where "(off, n) \<in> set refs" "tag = load_bytes d off (unat n)" using assms(2) by (auto simp: tag_bytes_def)
  moreover from this assms(1) have "0 < unat n" by (auto simp: unat_gt_0)
  ultimately show ?thesis using unat_u8_le [of n] by simp
qed

lemma read_tags_any:
  assumes "read_tags_using_payload_buffer s c ntags = Some (st, refs, s')"
  shows "quiet c s s'" and "st = STATUS_OK \<Longrightarrow> tag \<in> set (tag_bytes d refs) \<Longrightarrow> length tag \<in> {1..255}"
    and "st = STATUS_OK \<Longrightarrow> length refs = unat ntags"
proof -
  obtain w cap' s1 where w: "worker (clients s c) = Some w"
    "read_tags_loop s c w 0 (payload_cap (payload_buffer (workers s w))) (unat ntags) = Some (st, refs, cap', s1)"
    "s' = (if st \<noteq> STATUS_OK then s1 else set_payload_nmemb w (payload_cap (payload_buffer (workers s w)) - cap') s1)"
    using assms by (auto simp: read_tags_using_payload_buffer_def Let_def split: if_splits elim!: bind_SomeE)
  note R = read_tags_loop_any [OF w(2)]
  show "quiet c s s'" using R quiet_trans [OF _ quiet_payload(2)] unfolding w(3) by auto
  show "st = STATUS_OK \<Longrightarrow> length refs = unat ntags" using R by simp
  show "st = STATUS_OK \<Longrightarrow> tag \<in> set (tag_bytes d refs) \<Longrightarrow> length tag \<in> {1..255}"
    using R tag_bytes_fine by blast
qed

lemma log_with_any:
  assumes "log_with s c f = Some s'"
  shows "quiet c s s'"
proof -
  obtain w q where "s' = upd_worker w (log_queue_update (\<lambda>_. q)) s" using assms by (auto simp: log_with_def elim!: bind_SomeE)
  then show ?thesis by (simp add: quiet_def same_core_def served_eq bufs_kept_def upd_worker_def)
qed

section \<open>Safe steps\<close>

text \<open>What every request keeps: the invariant, the memory that belongs to nobody in particular (so that nothing
  leaks), the workers' buffers, and all clients but the one it serves, which keeps its slot. On the way some
  entries are outside the maps (\<open>X\<close>) and some locked (\<open>K\<close>).\<close>

definition held :: "addr set \<Rightarrow> addr set \<Rightarrow> nat \<Rightarrow> state \<Rightarrow> state \<Rightarrow> bool" where
  "held X K c s0 s \<longleftrightarrow> core_inv X K s \<and> loose s = loose s0 \<and> served c s0 s \<and> bufs_kept s0 s \<and>
     current_client s = current_client s0"

abbreviation safe :: "nat \<Rightarrow> state \<Rightarrow> state \<Rightarrow> bool" where
  "safe \<equiv> held {} {}"

lemma heldD:
  assumes "held X K c s0 s"
  shows "core_inv X K s" "loose s = loose s0" "served c s0 s" "bufs_kept s0 s" "current_client s = current_client s0"
    "worker (clients s d) = worker (clients s0 d)"
  using assms servedD(1) [of c s0 s d] by (simp_all add: held_def)

lemma held_refl: "core_inv X K s \<Longrightarrow> held X K c s s"
  by (simp add: held_def served_eq bufs_kept_eq)

lemma held_step:
  assumes "held X K c s0 s" and "core_inv X' K' s'" "loose s' = loose s" "served c s s'" "bufs_kept s s'"
    "current_client s' = current_client s"
  shows "held X' K' c s0 s'"
  using assms served_trans [of c s0 s s'] bufs_kept_trans [of s0 s s'] by (simp add: held_def)

lemma held_trans: "held X K c s0 s \<Longrightarrow> held X' K' c s s' \<Longrightarrow> held X' K' c s0 s'"
  using held_step [of X K c s0 s X' K' s'] heldD [of X' K' c s s'] by blast

lemma held_quiet:
  assumes "held X K c s0 s" and "quiet c s s'"
  shows "held X K c s0 s'"
  using held_step [OF assms(1)] heldD(1) [OF assms(1)] same_core_inv [of s s' X K] quietD [OF assms(2)] by simp

lemma held_io:
  assumes "held X K c s0 s" and "core_inv X' K' s'" "loose s' = loose s" "io_kept s s'"
  shows "held X' K' c s0 s'"
  using held_step [OF assms(1-3)] served_eq [of s' s c] bufs_kept_io [of s s'] io_keptD [OF assms(4)] assms(4) by simp

end
