(* ===== verification/Cik_Safe_Steps.thy ===== *)
theory Cik_Safe_Steps
  imports Cik_Safe_Reading
begin

text \<open>
  The steps that the handlers consist of, each under the invariant and whatever its outcome: looking an entry
  up, unlocking and changing it, reserving and releasing, publishing, deleting, walking the maps, and the lists
  of keys that a query reserves.
\<close>

section \<open>One entry\<close>

lemma held_get:
  assumes h: "safe c s0 s" and r: "map_get s key = Some (r, s')"
  shows "r = None \<Longrightarrow> s' = s" and "r = Some a \<Longrightarrow> held {} {a} c s0 s'" and "r = Some a \<Longrightarrow> \<exists>e. heap s' a = Some e"
proof -
  note inv = heldD(1) [OF h]
  have eq: "map_get s key = (case entry_of s key of None \<Rightarrow> Some (None, s)
      | Some a \<Rightarrow> Some (Some a, s\<lparr>heap := set_guard True a (heap s)\<rparr>))" by (rule map_get_eq [OF inv]) simp
  show "r = None \<Longrightarrow> s' = s" using eq r by (simp split: option.splits)
  assume a: "r = Some a"
  then have s': "s' = s\<lparr>heap := set_guard True a (heap s)\<rparr>" "entry_of s key = Some a" using eq r by (auto split: option.splits)
  have "core_inv {} {a} s'" using core_inv_lock(1) [OF inv, of a] by (simp add: s'(1))
  then show "held {} {a} c s0 s'"
    by (rule held_io [OF h _ _ same_io_kept]) (simp_all add: s'(1) loose_def)
  obtain e where "heap s a = Some e" by (rule entry_of_Some [OF s'(2)])
  then show "\<exists>e. heap s' a = Some e" by (simp add: s'(1) set_guard_same)
qed

lemma held_unlock:
  assumes h: "held X K c s0 s" and u: "unlock_entry s a = Some s'"
  shows "held X (K - {a}) c s0 s'"
proof -
  obtain e where e: "heap s a = Some e" using u by (cases "heap s a") (simp_all add: unlock_entry_def UNLOCK_ENTRY_def)
  note U = unlock_entry_eq [OF heldD(1) [OF h] e]
  then have s': "s' = s\<lparr>heap := set_guard False a (heap s)\<rparr>" using u by simp
  then show ?thesis using U(2) by (intro held_io [OF h _ _ same_io_kept]) (simp_all add: loose_def)
qed

lemma held_upd:
  assumes h: "held X K c s0 s"
    and f: "\<And>e. heap s a = Some e \<Longrightarrow> e_key (f e) = e_key e \<and> (entry_fine e \<longrightarrow> entry_fine (f e)) \<and> guard (f e) = guard e"
  shows "held X K c s0 (upd_entry a f s)"
proof -
  note D = core_invD [OF heldD(1) [OF h]]
  have hp: "\<exists>g'. heap (upd_entry a f s) b = Some g' \<and> e_key g' = e_key g \<and> entry_fine g' \<and> (b \<notin> K \<longrightarrow> \<not> guard g')"
    if "heap s b = Some g" for b g
    using D(7,8) [OF that] that f by (cases "b = a") (auto simp: upd_entry_def)
  have d: "dom (heap (upd_entry a f s)) = dom (heap s)" by (auto simp: upd_entry_def)
  have "core_inv X K (upd_entry a f s)" by (rule core_inv_heap(1) [OF heldD(1) [OF h]]) (use hp d in simp_all)
  then show ?thesis by (rule held_io [OF h _ _ same_io_kept]) (use d in \<open>simp_all add: loose_def\<close>)
qed

lemma held_release:
  assumes h: "held X K c s0 s" and a: "a \<in> X" and r: "unlock_and_release s a = Some s'"
  shows "held (X - {a}) (K - {a}) c s0 s'"
proof -
  obtain t where t: "unlock_and_release s a = Some t" "core_inv (X - {a}) (K - {a}) t" "same_io s t" "loose t = loose s"
    by (rule release_entry [OF heldD(1) [OF h] a])
  then show ?thesis using held_io [OF h t(2,4) same_io_kept [OF t(3)]] r by simp
qed

text \<open>A reservation that fails leaves the region as it was but for its cursor.\<close>

lemma held_refused:
  assumes h: "held X K c s0 s" and r: "reserve_memory (mem s) n = (None, m)"
  shows "held X K c s0 (s\<lparr>mem := m\<rparr>)"
proof -
  note inv = heldD(1) [OF h]
  note D = core_invD [OF inv]
  have m: "mem_inv m" "live m = live (mem s)" using mem.reserve_inv [OF D(1) r] mem.reserve_None [OF D(1) r] by simp_all
  have "tag_inv m (tag_tree s)" using D(2) m(2) tag_inv_memory by blast
  moreover have "heap_inv X K (s\<lparr>mem := m\<rparr>) = heap_inv X K s" by (simp add: heap_inv_def occupied_def m(2))
  ultimately have "core_inv X K (s\<lparr>mem := m\<rparr>)" using inv m(1) by (simp add: core_inv_def maps_inv_def)
  then show ?thesis by (rule held_io [OF h _ _ same_io_kept]) (simp_all add: loose_def m(2))
qed

lemma held_new_entry:
  assumes h: "safe c s0 s" and r: "reserve_memory (mem s) n = (Some a, m)" and e: "entry_fine e"
  shows "held {a} {a} c s0 (s\<lparr>mem := m, heap := (heap s)(a \<mapsto> e)\<rparr>)"
  using new_entry_inv [OF heldD(1) [OF h] r e] by (intro held_io [OF h _ _ same_io_kept]) (simp_all add: same_io_def)

section \<open>The tag index\<close>

lemma held_tags:
  assumes h: "held X K c s0 s" and m: "mem_inv m" "tag_inv m t" "tag_frame (mem s) (tag_tree s) m t"
  shows "held X K c s0 (s\<lparr>tag_tree := t, mem := m\<rparr>)"
  using core_inv_tags [OF heldD(1) [OF h] m] by (intro held_io [OF h _ _ same_io_kept]) simp_all

lemma held_remove_tags:
  assumes h: "held X K c s0 s" and r: "remove_key_from_tags s tags key = Some s'"
  shows "held X K c s0 s'"
proof -
  obtain t where t: "remove_key_from_tags s tags key = Some t" "core_inv X K t" "same_io s t" "loose t = loose s"
    by (rule remove_key_from_tags_ok [OF heldD(1) [OF h], of tags key])
  then show ?thesis using held_io [OF h t(2,4) same_io_kept [OF t(3)]] r by simp
qed

lemma add_all_safe:
  assumes "mem_inv m" "tag_inv m t" "name_fine key" "\<forall>tag \<in> set tags. name_fine tag"
    and "fold_opt (\<lambda>tag (t, m). add_key_to_tag m t tag key) tags (t, m) = Some (t', m')"
  shows "mem_inv m' \<and> tag_inv m' t' \<and> tag_frame m t m' t'"
  using assms
proof (induction tags arbitrary: m t)
  case (Cons tag tags)
  obtain t1 m1 where a: "add_key_to_tag m t tag key = Some (t1, m1)"
    "fold_opt (\<lambda>tag (t, m). add_key_to_tag m t tag key) tags (t1, m1) = Some (t', m')"
    using Cons.prems(5) by (auto elim!: bind_SomeE)
  from tags.add_safe [of m t key tag t1 m1] Cons.prems a(1) have "mem_inv m1 \<and> tag_inv m1 t1 \<and> tag_frame m t m1 t1" by simp
  with Cons.IH [OF _ _ Cons.prems(3) _ a(2)] Cons.prems(4) tag_frame_trans show ?case by (metis list.set_intros(2))
qed simp

lemma held_add_tags:
  assumes h: "held X K c s0 s" and len: "name_fine key" "\<forall>tag \<in> set tags. name_fine tag"
    and r: "add_key_to_tags s tags key = Some s'"
  shows "held X K c s0 s'"
proof -
  obtain t m where t: "fold_opt (\<lambda>tag (t, m). add_key_to_tag m t tag key) tags (tag_tree s, mem s) = Some (t, m)"
    "s' = s\<lparr>tag_tree := t, mem := m\<rparr>" using r by (auto simp: add_key_to_tags_def elim!: bind_SomeE)
  note D = core_invD [OF heldD(1) [OF h]]
  from add_all_safe [OF D(1,2) len t(1)] held_tags [OF h] show ?thesis by (simp add: t(2))
qed

section \<open>Publishing\<close>

lemma held_index_unlock:
  assumes h: "held {} {a} c s0 s" and e: "entry_fine e"
    and r: "Option.bind (add_key_to_tags s (e_tags e) (e_key e)) (\<lambda>s3. Option.bind (unlock_entry s3 a) (\<lambda>s4. Some (STATUS_OK, s4))) = Some (st, s')"
  shows "safe c s0 s'"
proof -
  have len: "name_fine (e_key e)" "\<forall>tag \<in> set (e_tags e). name_fine tag" using fine_names [OF e] by blast+
  obtain s3 where s3: "add_key_to_tags s (e_tags e) (e_key e) = Some s3" "unlock_entry s3 a = Some s'"
    using r by (auto elim!: bind_SomeE)
  have "held {} ({a} - {a}) c s0 s'" by (rule held_unlock [OF held_add_tags [OF h len s3(1)] s3(2)])
  then show ?thesis by simp
qed

lemma held_publish:
  assumes h: "held {a} {a} c s0 s" and r: "publish_entry s a = Some (st, s')"
  shows "safe c s0 s'"
proof -
  note inv = heldD(1) [OF h]
  note D = core_invD [OF inv]
  have K: "{a} \<inter> occupied s = {}" using D(5) by blast
  obtain e where a: "heap s a = Some e" using D(4) by blast
  note fine = D(7) [OF a]
  show ?thesis
  proof (cases rule: map_set_cases [OF inv K _ a])
    case 2
    then have "unlock_and_release s a = Some s'" using r a by (auto simp: publish_entry_def elim!: bind_SomeE)
    from held_release [OF h _ this] show ?thesis by simp
  next
    case (3 s2)
    have "held {} {a} c s0 s2"
      by (rule held_io [OF h _ _ same_io_kept]) (use 3 in \<open>simp_all add: loose_def\<close>)
    from held_index_unlock [OF this fine] r 3(1) a show ?thesis by (simp add: publish_entry_def)
  next
    case (4 b old s1)
    have bt: "heap s1 b = Some (old\<lparr>guard := True\<rparr>)" using 4(3,7) by (simp add: set_guard_same)
    have h1: "held {b} {b, a} c s0 s1"
      by (rule held_io [OF h _ _ same_io_kept]) (use 4 in \<open>simp_all add: loose_def\<close>)
    obtain t s2 where t: "remove_key_from_tags s1 (e_tags old) (e_key old) = Some t" "unlock_and_release t b = Some s2"
      "Option.bind (add_key_to_tags s2 (e_tags e) (e_key e)) (\<lambda>s3. Option.bind (unlock_entry s3 a) (\<lambda>s4. Some (STATUS_OK, s4))) = Some (st, s')"
      using r a 4(1) bt by (auto simp: publish_entry_def elim!: bind_SomeE)
    have "held ({b} - {b}) ({b, a} - {b}) c s0 s2" by (rule held_release [OF held_remove_tags [OF h1 t(1)] _ t(2)]) simp
    moreover have "{b, a} - {b} = {a}" using 4(12) by auto
    ultimately have "held {} {a} c s0 s2" by simp
    from held_index_unlock [OF this fine t(3)] show ?thesis .
  qed simp
qed

section \<open>Deleting\<close>

lemma log_key_undefined:
  assumes "log_request_with_key q ty who key \<noteq> None"
  shows "length key \<le> 255"
  using assms by (simp add: log_request_with_key_def sizeof_log_data_def split: if_splits)

lemma held_delete:
  assumes h: "safe c s0 s" and r: "delete_entry_by_key s key = Some (st, s')"
  shows "safe c s0 s'"
proof -
  obtain d s1 where d: "current_client s = Some d" "log_with s d (\<lambda>q who. log_request_del q who key) = Some s1"
    using r by (auto simp: delete_entry_by_key_def elim!: bind_SomeE)
  then obtain w where w: "worker (clients s d) = Some w"
    "log_request_del (log_queue (workers s w)) (w_id (workers s w), sin_addr (clients s d), sin_port (clients s d)) key \<noteq> None"
    by (auto simp: log_with_def elim!: bind_SomeE)
  have key: "length key \<le> 255" by (rule log_key_undefined [OF w(2) [unfolded log_request_del_def]])
  obtain t where t: "delete_entry_by_key s key = Some (if cache s key = None then STATUS_NOT_FOUND else STATUS_OK, t)"
    "sys_inv t" "io_kept s t" "loose t = loose s"
    by (rule delete_entry_ok [OF heldD(1) [OF h] d(1) w(1) key])
  then show ?thesis using held_io [OF h t(2,4,3)] r by simp
qed

lemma held_delete_keys:
  assumes "safe c s0 s" and "delete_keys s es = Some s'"
  shows "safe c s0 s'"
  using assms
proof (induction es arbitrary: s)
  case (Cons e es)
  then obtain st t where "delete_entry_by_key s (snd e) = Some (st, t)" "delete_keys t es = Some s'"
    by (auto elim!: bind_SomeE)
  with Cons.IH held_delete [OF Cons.prems(1)] show ?case by blast
qed simp

lemma held_clear:
  assumes h: "safe c s0 s" and cb: "clears P cb d" and w: "current_client s = Some v" "worker (clients s v) = Some w"
    and r: "walk_all_entries cb (s, d) = Some (s', d')"
  shows "safe c s0 s'"
proof -
  obtain t where t: "walk_all_entries cb (s, d) = Some (t, d)" "cleared P s t"
    by (rule walk_all_clears [OF cb heldD(1) [OF h] w])
  note C = clearedD [OF t(2)]
  show ?thesis using held_io [OF h C(1,3,2)] r t(1) by simp
qed

end
