(* ===== verification/Cik_Safe_Lists.thy ===== *)
theory Cik_Safe_Lists
  imports Cik_Safe_Steps
begin

text \<open>
  Steps with lists: walks of the maps and of the tag index that only read, whatever they write into the
  worker's buffer, and the key lists that a query by tags reserves and the handler gives back.
\<close>

section \<open>Walks that only read\<close>

lemma walk_loop_partial:
  assumes "\<And>p u u'. p < pos + n \<Longrightarrow> I u \<Longrightarrow> walk_step callback p u = Some u' \<Longrightarrow> I u'"
    and "I u" and "walk_loop callback pos n u = Some u'"
  shows "I u'"
  using assms
proof (induction n arbitrary: pos u)
  case (Suc n)
  then obtain u1 where u1: "walk_step callback pos u = Some u1" "walk_loop callback (pos + 1) n u1 = Some u'"
    by (auto elim!: bind_SomeE)
  have "I u1" by (rule Suc.prems(1) [OF _ Suc.prems(2) u1(1)]) simp
  from Suc.IH [OF _ this u1(2)] Suc.prems(1) show ?case by simp
qed simp

definition reads :: "(addr \<Rightarrow> state \<times> 'd \<Rightarrow> (bool \<times> state \<times> 'd) option) \<Rightarrow> bool" where
  "reads cb \<longleftrightarrow> (\<forall>a s d b s' d'. cb a (s, d) = Some (b, s', d') \<longrightarrow> \<not> b \<and> s' = s)"

lemma walk_map_reads:
  fixes cb :: "addr \<Rightarrow> state \<times> 'd \<Rightarrow> (bool \<times> state \<times> 'd) option"
  assumes cb: "reads cb" and inv: "sys_inv s" and i: "i < NUM_CACHE_ENTRY_MAPS"
    and r: "walk_map cb i (s, d) = Some (s', d')"
  shows "s' = s"
proof -
  define wcb where "wcb = (\<lambda>a st (s, d). do { (b, s', d') \<leftarrow> cb a (s\<lparr>heap := st\<rparr>, d); Some (b, heap s', s', d') })"
  let ?m = "entry_maps s i"
  define I :: "CacheEntryHashMap \<times> store \<times> state \<times> 'd \<Rightarrow> bool" where
    "I = (\<lambda>(m, st, sx, d'). m = ?m \<and> st = heap s \<and> sx\<lparr>heap := heap s\<rparr> = s)"
  have mok: "map_ok ?m (heap s)" using core_invD(3) [OF inv] i by (simp add: maps_inv_def)
  have step: "I u'" if p: "p < CACHE_ENTRY_MAP_SIZE" and u: "I u" and w: "walk_step wcb p u = Some u'" for p u u'
  proof -
    obtain sx d where u0: "u = (?m, heap s, sx, d)" "sx\<lparr>heap := heap s\<rparr> = s" using u by (cases u) (auto simp: I_def)
    show ?thesis
    proof (cases "mask ?m p")
      case False
      then show ?thesis using slot_relock' [OF mok p] u w u0(1) by (simp add: walk_step_def)
    next
      case True
      then obtain a e where ae: "entries ?m p = Some a" "heap s a = Some e" using map_okD(2) [OF mok p] by auto
      have ng: "\<not> guard e" using core_invD(8) [OF inv ae(2)] by simp
      let ?st = "set_guard True a (heap s)"
      have st1: "?st a = Some (e\<lparr>guard := True\<rparr>)" using ae(2) by (simp add: set_guard_same)
      obtain b s2 d2 where cbe: "cb a (sx\<lparr>heap := ?st\<rparr>, d) = Some (b, s2, d2)"
        using w slot_relock' [OF mok p] u0(1) True ae ng
        by (auto simp: walk_step_def wcb_def LOCK_ENTRY_eq elim!: bind_SomeE)
      then have b: "\<not> b" "s2 = sx\<lparr>heap := ?st\<rparr>" using cb unfolding reads_def by blast+
      have "u' = (?m, heap s, s2, d2)"
        using w slot_relock' [OF mok p] u0(1) True ae ng cbe b UNLOCK_ENTRY_eq [where st = ?st, OF st1]
        by (simp add: walk_step_def wcb_def LOCK_ENTRY_eq set_guard_idem)
      then show ?thesis using b(2) u0(2) by (simp add: I_def)
    qed
  qed
  obtain m st sx d2 where w: "walk_entries wcb (?m, heap s, s, d) = Some (m, st, sx, d2)"
    "s' = sx\<lparr>entry_maps := (entry_maps sx)(i := m), heap := st\<rparr>"
    using r by (auto simp: walk_map_def wcb_def elim!: bind_SomeE)
  have "I (m, st, sx, d2)"
    by (rule walk_loop_partial [OF _ _ w(1) [unfolded walk_entries_def]]) (use step in \<open>auto simp: I_def\<close>)
  then have e: "m = ?m" "st = heap s" "sx\<lparr>heap := heap s\<rparr> = s" by (auto simp: I_def)
  have "entry_maps sx = entry_maps s" using arg_cong [OF e(3), of entry_maps] by simp
  then have "s' = (sx\<lparr>heap := heap s\<rparr>)\<lparr>entry_maps := entry_maps s\<rparr>" using w(2) e(1,2) by simp
  then show ?thesis unfolding e(3) by simp
qed

lemma walk_all_reads:
  assumes cb: "reads cb" and inv: "sys_inv s" and r: "walk_all_entries cb (s, d) = Some (s', d')"
  shows "s' = s"
proof -
  have *: "s' = s" if "fold_opt (walk_map cb) js (s, d) = Some (s', d')" "set js \<subseteq> {..<NUM_CACHE_ENTRY_MAPS}" for js d
    using that
  proof (induction js arbitrary: d)
    case (Cons i js)
    then obtain s1 d1 where s1: "walk_map cb i (s, d) = Some (s1, d1)" "fold_opt (walk_map cb) js (s1, d1) = Some (s', d')"
      by (auto elim!: bind_SomeE)
    have "s1 = s" by (rule walk_map_reads [OF cb inv _ s1(1)]) (use Cons.prems(2) in simp)
    then show ?case using Cons.IH s1(2) Cons.prems(2) by simp
  qed simp
  show ?thesis by (rule * [OF r [unfolded walk_all_entries_def]]) auto
qed

lemma list_all_reads: "list_all_keys_callback a (s, d) = Some (b, s', d') \<Longrightarrow> \<not> b \<and> s' = s"
  by (auto simp: list_all_keys_callback_def split: if_splits elim!: bind_SomeE)

lemma reads_list_all [simp]: "reads list_all_keys_callback"
  by (simp add: reads_def list_all_reads) (blast dest: list_all_reads)

lemma reads_list_non_matching [simp]: "reads list_non_matching_callback"
  by (auto simp: reads_def list_non_matching_callback_def split: if_splits elim!: bind_SomeE dest: list_all_reads)

section \<open>The walk of the tag index\<close>

lemma push_left_partial:
  assumes "stack_ok m0 s m" and "push_left m t s = Some (s', m')"
  shows "stack_ok m0 s' m'"
  using assms
proof (induction t arbitrary: m s)
  case (Node l n r)
  then obtain a m1 where a: "reserve_memory m (of_nat sizeof_TagElem) = (Some a, m1)"
    "push_left m1 l ((a, Node l n r) # s) = Some (s', m')" by (auto split: prod.splits option.splits)
  have "stack_ok m0 ((a, Node l n r) # s) m1" using stack_ok_push [OF Node.prems(1) a(1)] by simp
  from Node.IH(1) [OF this a(2)] show ?case .
qed simp

lemma walk_tags_partial:
  assumes "stack_ok m0 s m" and "walk_tags_loop callback m t s u = Some (m', u')"
  shows "stack_ok m0 [] m'"
  using assms
proof (induction callback m t s u rule: walk_tags_loop.induct)
  case (1 callback m t s u)
  show ?case
  proof (cases "t = Leaf \<and> s = []")
    case True
    then show ?thesis using 1(2,3) by (simp add: walk_tags_loop.simps)
  next
    case False
    obtain s1 m1 where p: "push_left m t s = Some (s1, m1)"
      using 1(3) by (subst (asm) walk_tags_loop.simps, subst (asm) if_not_P [OF False]) (auto elim!: bind_SomeE)
    note ok = push_left_partial [OF 1(2) p]
    obtain a l n r rest where s1: "s1 = (a, Node l n r) # rest"
      using 1(3) p by (subst (asm) walk_tags_loop.simps, subst (asm) if_not_P [OF False])
        (auto split: list.splits tree.splits)
    obtain m2 where m2: "release_memory m1 a = Some m2" "stack_ok m0 rest m2"
      by (rule stack_ok_pop [OF ok [unfolded s1]])
    obtain u1 where u1: "\<not> keys_lock n" "(if t_keys n \<noteq> [] then callback (t_tag n) u else Some u) = Some u1"
      "walk_tags_loop callback m2 r rest u1 = Some (m', u')"
      using 1(3) p s1 m2(1) by (subst (asm) walk_tags_loop.simps, subst (asm) if_not_P [OF False])
        (auto split: if_splits elim!: bind_SomeE)
    show ?thesis by (rule 1(1) [OF False p refl s1 refl refl m2(1) u1(1,2) m2(2) u1(3)])
  qed
qed

lemma held_walk_tags:
  assumes h: "safe c s0 s" and w: "walk_all_tags callback (mem s) (tag_tree s) u = Some (m, u')"
  shows "safe c s0 (s\<lparr>mem := m\<rparr>)"
proof -
  note D = core_invD [OF heldD(1) [OF h]]
  have "stack_ok (mem s) [] (mem s)" using D(1) by (simp add: stack_ok_def fresh_list_def)
  from walk_tags_partial [OF this w [unfolded walk_all_tags_def]] have m: "mem_inv m" "live m = live (mem s)"
    "sizes_kept (mem s) m" by (auto simp: stack_ok_def fresh_list_def)
  then have "tag_inv m (tag_tree s)" using D(2) tag_inv_memory by blast
  from held_tags [OF h m(1) this] m(2,3) show ?thesis by (simp add: tag_frame_def sizes_kept_def)
qed

section \<open>Lists of keys on loan\<close>

text \<open>While a handler holds a list of keys, the blocks \<open>A\<close> of its elements are reserved and are nobody
  else's.\<close>

definition lent :: "addr set \<Rightarrow> nat \<Rightarrow> state \<Rightarrow> state \<Rightarrow> bool" where
  "lent A c s0 s \<longleftrightarrow> sys_inv s \<and> loose s = loose s0 \<union> A \<and> A \<inter> loose s0 = {} \<and> served c s0 s \<and> bufs_kept s0 s \<and>
     current_client s = current_client s0"

lemma lent_safe:
  assumes "lent A c s0 s" and "safe c s s'"
  shows "lent A c s0 s'"
proof -
  note D = heldD [OF assms(2)]
  show ?thesis using assms(1) D served_trans [OF _ D(3), of s0] bufs_kept_trans [OF _ D(4), of s0] by (simp add: lent_def)
qed

lemma lent_query:
  assumes h: "safe c s0 s" and q: "keys_matching b s tags = Some (keys, s')"
  shows "lent (set (map fst keys)) c s0 s'" and "distinct (map fst keys)"
proof -
  note D = core_invD [OF heldD(1) [OF h]]
  obtain t m where q': "(if b then get_keys_matching_all_tags (mem s) (tag_tree s) tags
      else get_keys_matching_any_tag (mem s) (tag_tree s) tags) = Some (keys, t, m)" "s' = s\<lparr>tag_tree := t, mem := m\<rparr>"
    using q by (auto simp: keys_matching_def split del: if_split elim!: bind_SomeE)
  have f: "t = tag_tree s" "fresh_list (mem s) keys m"
    using q'(1) matching_all_spec [OF D(1,2)] matching_any_spec [OF D(1,2)] by (auto split: if_splits)
  then have m: "mem_inv m" "live m = live (mem s) \<union> set (map fst keys)" "set (map fst keys) \<inter> live (mem s) = {}"
    "distinct (map fst keys)" by (simp_all add: fresh_list_def)
  have s': "s' = s\<lparr>mem := m\<rparr>" using q'(2) f(1) by simp
  have t: "tag_inv m (tag_tree s)" using D(2) m(2) tag_inv_memory by blast
  have "dom (heap s) \<subseteq> live m - tag_blocks (tag_tree s)" using D(6) m(2) by blast
  then have "heap_inv {} {} s'" using D(4,5,7,8) unfolding heap_inv_def occupied_def by (simp add: s')
  then have "sys_inv s'" using D(3) m(1) t by (simp add: core_inv_def maps_inv_def s')
  moreover have "tag_blocks (tag_tree s) \<subseteq> live (mem s)" using D(2) by (simp add: tag_inv_def)
  then have "loose s' = loose s \<union> set (map fst keys)" using m(2,3) D(6) unfolding loose_def s' by (simp, blast)
  moreover have "set (map fst keys) \<inter> loose s = {}" using m(3) by (auto simp: loose_def)
  ultimately show "lent (set (map fst keys)) c s0 s'"
    using heldD [OF h] served_trans [of c s0 s s'] by (simp add: lent_def s' served_eq bufs_kept_def)
  show "distinct (map fst keys)" by (rule m(4))
qed

lemma lent_release:
  assumes l: "lent (set (map fst keys)) c s0 s" and d: "distinct (map fst keys)"
  obtains m where "free_key_list s keys = Some (s\<lparr>mem := m\<rparr>)" "mem_inv m" "live m = live (mem s) - set (map fst keys)"
    "set (map fst keys) \<subseteq> live (mem s) - tag_blocks (tag_tree s) - dom (heap s)"
proof -
  have inv: "sys_inv s" and "loose s = loose s0 \<union> set (map fst keys)" using l by (simp_all add: lent_def)
  then have sub: "set (map fst keys) \<subseteq> live (mem s) - tag_blocks (tag_tree s) - dom (heap s)" by (auto simp: loose_def)
  then have "owned (mem s) keys" using d unfolding owned_def by blast
  from release_key_list_spec [OF core_invD(1) [OF inv] this] obtain m where "release_key_list (mem s) keys = Some m" "mem_inv m"
    "live m = live (mem s) - set (map fst keys)" by blast
  then show thesis using that [of m] sub by (simp add: free_key_list_def)
qed

lemma lent_return:
  assumes l: "lent (set (map fst keys)) c s0 s" and d: "distinct (map fst keys)" and f: "free_key_list s keys = Some s'"
  shows "safe c s0 s'"
proof -
  have inv: "sys_inv s" and lo: "loose s = loose s0 \<union> set (map fst keys)" "set (map fst keys) \<inter> loose s0 = {}"
    using l by (simp_all add: lent_def)
  note D = core_invD [OF inv]
  obtain m where m: "free_key_list s keys = Some (s\<lparr>mem := m\<rparr>)" "mem_inv m" "live m = live (mem s) - set (map fst keys)"
    and sub: "set (map fst keys) \<subseteq> live (mem s) - tag_blocks (tag_tree s) - dom (heap s)" by (rule lent_release [OF l d])
  have s': "s' = s\<lparr>mem := m\<rparr>" using f m(1) by simp
  have t: "tag_inv m (tag_tree s)" using D(2) sub m(3) unfolding tag_inv_def by blast
  have "dom (heap s) \<subseteq> live m - tag_blocks (tag_tree s)" using D(6) m(3) sub by blast
  then have "heap_inv {} {} s'" using D(4,5,7,8) unfolding heap_inv_def occupied_def by (simp add: s')
  then have "sys_inv s'" using D(3) m(2) t by (simp add: core_inv_def maps_inv_def s')
  moreover have "loose s' = loose s - set (map fst keys)" unfolding loose_def s' using m(3) by (simp, blast)
  then have "loose s' = loose s0" using lo by blast
  ultimately show ?thesis
    using l served_trans [of c s0 s s'] by (simp add: lent_def held_def s' served_eq bufs_kept_def)
qed

end
