(* ===== verification/Cik_Safe.thy ===== *)
theory Cik_Safe
  imports Cik_Safe_Lists Cik_Connections
begin

text \<open>
  Safety of the server against arbitrary input: every handler keeps the invariant and leaks nothing, whatever
  bytes its client sends, whatever the memory that is left, and whatever status it ends with.
\<close>

section \<open>GET\<close>

lemma quiet_expires: "check_expires s flags e = (b, s') \<Longrightarrow> quiet c s s'"
  by (auto simp: check_expires_def time_now_def Let_def split: if_splits)

lemma held_touch:
  assumes "held X K c s0 s" and "\<And>e. e_key (f e) = e_key e \<and> e_tags (f e) = e_tags e \<and> e_value (f e) = e_value e \<and> guard (f e) = guard e"
  shows "held X K c s0 (upd_entry a f s)"
  by (rule held_upd [OF assms(1)]) (simp add: assms(2) entry_fine_def entry_size_def)

text \<open>A locked entry is used and then unlocked.\<close>

lemma held_use:
  assumes "held {} {a} c s0 s" and "quiet c s t" and "unlock_entry t a = Some s'"
  shows "safe c s0 s'"
  using held_unlock [OF held_quiet [OF assms(1,2)] assms(3)] by simp

lemma get_safe:
  assumes h: "safe c s0 s" and r: "handle_get_request s c rq = Some (status, p, s')"
  shows "safe c s0 s'"
proof -
  obtain w st1 key s1 where k: "worker (clients s c) = Some w" "read_request_key s c (req_g_klen rq) = Some (st1, key, s1)"
    using r by (auto simp: handle_get_request_def Let_def elim!: bind_SomeE)
  note h1 = held_quiet [OF h read_request_key_any(1) [OF k(2)]]
  show ?thesis
  proof (cases "st1 = STATUS_OK")
    case False
    then show ?thesis using r k h1 by (simp add: handle_get_request_def Let_def)
  next
    case True
    obtain q s2 where g: "map_get s1 key = Some (q, s2)"
      using r k True by (auto simp: handle_get_request_def Let_def elim!: bind_SomeE)
    show ?thesis
    proof (cases q)
      case None
      then obtain s3 f g' where s3: "log_with s2 c f = Some s3" "s' = upd_counters c g' s3"
        using r k True g by (auto simp: handle_get_request_def Let_def elim!: bind_SomeE)
      have "quiet c s1 s'" using held_get(1) [OF h1 g None] quiet_trans [OF log_with_any [OF s3(1)] quiet_counters] s3(2) by simp
      from held_quiet [OF h1 this] show ?thesis .
    next
      case (Some a)
      note h2 = held_get(2) [OF h1 g Some]
      obtain e b s3 where e: "heap s2 a = Some e" "check_expires s2 (req_g_flags rq) e = (b, s3)"
        using held_get(3) [OF h1 g Some] by (metis surj_pair)
      note h3 = held_quiet [OF h2 quiet_expires [OF e(2)]]
      show ?thesis
      proof (cases b)
        case True
        then obtain s4 s5 f g' where s4: "unlock_entry s3 a = Some s4" "log_with s4 c f = Some s5" "s' = upd_counters c g' s5"
          using r k \<open>st1 = STATUS_OK\<close> g Some e by (auto simp: handle_get_request_def Let_def elim!: bind_SomeE)
        have "safe c s0 s4" by (rule held_use [OF h3 quiet_refl s4(1)])
        from held_quiet [OF this quiet_trans [OF log_with_any [OF s4(2)] quiet_counters]] show ?thesis by (simp add: s4(3))
      next
        case False
        then obtain s4 where s4: "log_with s3 c (\<lambda>q who. log_request_get_hit q who key) = Some s4"
          using r k \<open>st1 = STATUS_OK\<close> g Some e by (auto simp: handle_get_request_def Let_def elim!: bind_SomeE)
        define s6 where "s6 = upd_counters c (get_hit_update (\<lambda>n. n + 1)) (upd_entry a (nhits_update (\<lambda>n. n + 1)) s4)"
        have "held {} {a} c s0 (upd_entry a (nhits_update (\<lambda>n. n + 1)) s4)"
          by (rule held_touch [OF held_quiet [OF h3 log_with_any [OF s4]]]) simp
        from held_quiet [OF this quiet_counters] have h6: "held {} {a} c s0 s6" by (simp add: s6_def)
        have "\<exists>t. quiet c s6 t \<and> unlock_entry t a = Some s'"
          using r k \<open>st1 = STATUS_OK\<close> g Some e False s4
          by (auto simp: handle_get_request_def Let_def s6_def [symmetric] split: if_splits elim!: bind_SomeE
              intro: quiet_refl quiet_trans [OF quiet_payload(2) quiet_payload(1)])
        then show ?thesis using held_use [OF h6] by blast
      qed
    qed
  qed
qed

section \<open>SET\<close>

lemma ttl_safe:
  assumes h: "safe c s0 s" and r: "set_only_ttl s key ttl = Some (status, s')"
  shows "safe c s0 s'"
proof -
  obtain q s1 where g: "map_get s key = Some (q, s1)" using r by (auto simp: set_only_ttl_def elim!: bind_SomeE)
  show ?thesis
  proof (cases q)
    case None
    then show ?thesis using r g held_get(1) [OF h g] h by (simp add: set_only_ttl_def)
  next
    case (Some a)
    obtain t s2 where t: "quiet c s1 s2" "unlock_entry (upd_entry a (expires_update (\<lambda>_. t)) s2) a = Some s'"
      using r g Some by (auto simp: set_only_ttl_def time_now_def Let_def split: if_splits elim!: bind_SomeE intro: quiet_clock quiet_refl)
    have "held {} {a} c s0 (upd_entry a (expires_update (\<lambda>_. t)) s2)"
      by (rule held_touch [OF held_quiet [OF held_get(2) [OF h g Some] t(1)]]) simp
    from held_use [OF this quiet_refl t(2)] show ?thesis .
  qed
qed

text \<open>A new block becomes an entry with the tags and the key that were read.\<close>

lemma reserve_safe:
  assumes h: "safe c s0 s" and r: "reserve_and_lock_entry s n = Some (q, s')"
  shows "q = None \<Longrightarrow> safe c s0 s'"
    and "q = Some a \<Longrightarrow> bucket_size (mem s') a \<le> MAX_BUCKET_SIZE"
    and "q = Some a \<Longrightarrow> (\<And>e. e_value e = [] \<Longrightarrow> entry_fine (e\<lparr>e_tags := tags, e_key := key\<rparr>)) \<Longrightarrow>
      held {a} {a} c s0 (upd_entry a (\<lambda>e. e\<lparr>e_tags := tags, e_key := key\<rparr>) s') \<and>
      (\<exists>e. heap s' a = Some e \<and> e_value e = [])"
proof -
  obtain q' m where m: "reserve_memory (mem s) (of_nat (sizeof_CacheEntry + n)) = (q', m)" by fastforce
  show "safe c s0 s'" if "q = None"
    using r m that held_refused [OF h] by (auto simp: reserve_and_lock_entry_def Let_def simp del: of_nat_add
        split: option.splits prod.splits elim!: bind_SomeE)
  show "bucket_size (mem s') a \<le> MAX_BUCKET_SIZE" if a: "q = Some a"
  proof -
    have "q' = Some a" "mem s' = m" using r m a by (auto simp: reserve_and_lock_entry_def lock_entry_def Let_def simp del: of_nat_add
        split: option.splits prod.splits elim!: bind_SomeE)
    note D = core_invD(1) [OF heldD(1) [OF h]]
    note M = mem.reserve_inv [OF D m] mem.reserve_Some [OF D m [unfolded \<open>q' = Some a\<close>]]
    have "a \<in> live m" using M(2) by simp
    from bucket_size_eq [OF M(1) this] live_block_size [OF M(1) this] show ?thesis by (simp add: \<open>mem s' = m\<close>)
  qed
  assume a: "q = Some a" and fine: "\<And>e. e_value e = [] \<Longrightarrow> entry_fine (e\<lparr>e_tags := tags, e_key := key\<rparr>)"
  then have q': "q' = Some a" using r m by (auto simp: reserve_and_lock_entry_def Let_def simp del: of_nat_add
        split: option.splits prod.splits elim!: bind_SomeE)
  let ?e = "(CACHE_ENTRY_INIT (clock s (clock_calls s)))\<lparr>guard := True\<rparr>"
  have s': "s' = s\<lparr>mem := m, heap := (heap s)(a \<mapsto> ?e), clock_calls := clock_calls s + 1\<rparr>"
    using r m q' by (simp add: reserve_and_lock_entry_def lock_entry_def LOCK_ENTRY_def CACHE_ENTRY_INIT_def time_now_def del: of_nat_add)
      (cases s; simp)
  let ?t = "s\<lparr>mem := m, heap := (heap s)(a \<mapsto> ?e\<lparr>e_tags := tags, e_key := key\<rparr>)\<rparr>"
  have v: "e_value ?e = []" by (simp add: CACHE_ENTRY_INIT_def)
  have "held {a} {a} c s0 ?t" by (rule held_new_entry [OF h m [unfolded q'] fine [OF v]])
  from held_quiet [OF this quiet_clock [where n = "clock_calls s + 1"]]
  have "held {a} {a} c s0 (upd_entry a (\<lambda>e. e\<lparr>e_tags := tags, e_key := key\<rparr>) s')" by (cases s) (simp add: s' upd_entry_def)
  then show "held {a} {a} c s0 (upd_entry a (\<lambda>e. e\<lparr>e_tags := tags, e_key := key\<rparr>) s') \<and> (\<exists>e. heap s' a = Some e \<and> e_value e = [])"
    using v by (simp add: s')
qed

lemma value_safe:
  assumes h: "held {a} {a} c s0 s" and r: "Option.bind (client_read s c cap n) (set_rest rq a) = Some (status, s')"
    and e: "heap s a = Some e" "e_value e = []" "entry_size e + cap \<le> MAX_BUCKET_SIZE"
  shows "safe c s0 s'"
proof -
  obtain st1 val s1 where v: "client_read s c cap n = Some (st1, val, s1)" "set_rest rq a (st1, val, s1) = Some (status, s')"
    using r by (auto elim!: bind_SomeE)
  note h1 = held_quiet [OF h client_read_any(1) [OF v(1)]]
  show ?thesis
  proof (cases "st1 = STATUS_OK")
    case False
    then have "unlock_and_release s1 a = Some s'" using v(2) by (auto simp: set_rest_def elim!: bind_SomeE)
    from held_release [OF h1 _ this] show ?thesis by simp
  next
    case True
    then obtain s2 f where f: "publish_entry (upd_entry a f s2) a = Some (status, s')" "quiet c s1 s2"
      "\<And>e. e_key (f e) = e_key e \<and> e_tags (f e) = e_tags e \<and> e_value (f e) = val \<and> guard (f e) = guard e"
      using v(2) by (simp add: set_rest_def time_now_def Let_def)
    have "heap s2 a = Some e" using e(1) quietD(1) [OF client_read_any(1) [OF v(1)]] quietD(1) [OF f(2)] by (simp add: same_core_def)
    moreover have "entry_size (f e) \<le> MAX_BUCKET_SIZE" using client_read_any(3) [OF v(1)] e(2,3) f(3) [of e] by (simp add: entry_size_def)
    ultimately have "held {a} {a} c s0 (upd_entry a f s2)"
      using f(3) by (intro held_upd [OF held_quiet [OF h1 f(2)]]) (auto simp: entry_fine_def)
    from held_publish [OF this f(1)] show ?thesis .
  qed
qed

lemma set_safe:
  assumes h: "safe c s0 s" and r: "handle_set_request s c rq = Some (status, s')"
  shows "safe c s0 s'"
proof -
  obtain w st1 key s1 where k: "worker (clients s c) = Some w" "read_request_key s c (req_s_klen rq) = Some (st1, key, s1)"
    using r by (auto simp: handle_set_request_def Let_def elim!: bind_SomeE)
  note h1 = held_quiet [OF h read_request_key_any(1) [OF k(2)]]
  show ?thesis
  proof (cases "st1 = STATUS_OK")
    case False
    then show ?thesis using r k h1 by (simp add: handle_set_request_def Let_def)
  next
    case ok1: True
    have key: "length key \<in> {1..255}"
      using read_request_key_any(2) [OF k(2) ok1] unat_u8_le [of "req_s_klen rq"] by (cases key) auto
    obtain s2 where l: "log_with (upd_counters c (c_set_update (\<lambda>n. n + 1)) s1) c (\<lambda>q who. log_request_set q who key) = Some s2"
      using r k ok1 by (auto simp: handle_set_request_def Let_def elim!: bind_SomeE)
    have h2: "safe c s0 s2" by (rule held_quiet [OF held_quiet [OF h1 quiet_counters] log_with_any [OF l]])
    show ?thesis
    proof (cases "req_s_flags rq AND SET_FLAG_ONLY_TTL = 0")
      case False
      then have "set_only_ttl s2 key (ntohl (req_s_ttl rq)) = Some (status, s')"
        using r k ok1 l by (simp add: handle_set_request_def Let_def)
      from ttl_safe [OF h2 this] show ?thesis .
    next
      case fl: True
      obtain st3 refs s3 where t: "read_tags_using_payload_buffer s2 c (req_s_ntags rq) = Some (st3, refs, s3)"
        using r k ok1 l fl by (auto simp: handle_set_request_def Let_def elim!: bind_SomeE)
      note h3 = held_quiet [OF h2 read_tags_any(1) [OF t]]
      show ?thesis
      proof (cases "st3 = STATUS_OK")
        case False
        then show ?thesis using r k ok1 l fl t h3 by (simp add: handle_set_request_def Let_def)
      next
        case ok3: True
        let ?tags = "tag_bytes (payload_data (payload_buffer (workers s3 w))) refs"
        let ?total = "unat (fold (\<lambda>(_, n) t. t + ucast n) refs (of_nat (sizeof_CacheTag * unat (req_s_ntags rq)) :: u32)
          + ucast (req_s_klen rq) + ntohl (req_s_vlen rq))"
        let ?used = "sizeof_CacheEntry + sizeof_CacheTag * length ?tags + sum_list (map length ?tags) + length key"
        obtain q s4 where q: "reserve_and_lock_entry s3 ?total = Some (q, s4)"
          using r k ok1 l fl t ok3 by (auto simp: handle_set_request_def Let_def elim!: bind_SomeE)
        note R = reserve_safe [OF h3 q]
        show ?thesis
        proof (cases q)
          case None
          then show ?thesis using r k ok1 l fl t ok3 q R(1) by (simp add: handle_set_request_def Let_def)
        next
          case (Some a)
          let ?s5 = "upd_entry a (\<lambda>e. e\<lparr>e_tags := ?tags, e_key := key\<rparr>) s4"
          have v: "Option.bind (client_read ?s5 c (bucket_size (mem s4) a - ?used) (ntohl (req_s_vlen rq))) (set_rest rq a) = Some (status, s')"
            "?used \<le> bucket_size (mem s4) a"
            using r k ok1 l fl t ok3 q Some by (simp_all add: handle_set_request_def Let_def set_rest_def split: if_splits cong: if_cong)
          have nt: "length ?tags \<le> 255" using read_tags_any(3) [OF t ok3] unat_u8_le [of "req_s_ntags rq"] by (simp add: tag_bytes_def)
          have fine: "entry_fine (e\<lparr>e_tags := ?tags, e_key := key\<rparr>)" if "e_value e = []" for e
            using key read_tags_any(2) [OF t ok3] nt v(2) R(2) [OF Some] that by (auto simp: entry_fine_def entry_size_def)
          obtain e where e: "held {a} {a} c s0 ?s5" "heap s4 a = Some e" "e_value e = []" using R(3) [OF Some fine] by blast
          have e5: "heap ?s5 a = Some (e\<lparr>e_tags := ?tags, e_key := key\<rparr>)" using e(2) by (simp add: upd_entry_def)
          show ?thesis
            by (rule value_safe [OF e(1) v(1) e5]) (use e(3) v(2) R(2) [OF Some] in \<open>simp_all add: entry_size_def\<close>)
        qed
      qed
    qed
  qed
qed

section \<open>DEL and CLR\<close>

lemma del_safe:
  assumes h: "safe c s0 s" and r: "handle_del_request s c rq = Some (status, s')"
  shows "safe c s0 s'"
proof -
  obtain st1 key s1 where k: "read_request_key s c (req_d_klen rq) = Some (st1, key, s1)"
    "if st1 \<noteq> STATUS_OK then s' = s1
     else delete_entry_by_key (upd_counters c (c_del_update (\<lambda>n. n + 1)) s1) key = Some (status, s')"
    using r by (auto simp: handle_del_request_def split: if_splits elim!: bind_SomeE)
  note h1 = held_quiet [OF h read_request_key_any(1) [OF k(1)]]
  show ?thesis using k(2) h1 held_delete [OF held_quiet [OF h1 quiet_counters]] by (auto split: if_splits)
qed

lemma clears_callbacks:
  "clears (\<lambda>_. True) clear_all_callback d"
  "clears (\<lambda>e. expires e \<noteq> CACHE_EXPIRES_INIT \<and> sint (expires e) < sint now) clear_old_callback now"
  "clears (\<lambda>e. \<not> tags_match tags (e_tags e)) clear_non_matching_callback tags"
  by (auto simp: clears_def clear_old_callback_def clear_non_matching_callback_def unlocked_entry_def)

lemma held_clear_walk:
  assumes h: "safe c s0 s" and cb: "clears P cb d" and w: "current_client s0 = Some c" "worker (clients s0 c) \<noteq> None"
    and r: "walk_all_entries cb (s, d) = Some (s', d')"
  shows "safe c s0 s'"
proof -
  obtain v where "worker (clients s c) = Some v" "current_client s = Some c" using heldD(5,6) [OF h] w by (metis not_None_eq)
  then show ?thesis using held_clear [OF h cb _ _ r] by blast
qed

text \<open>A query, the work on its keys, and the list given back.\<close>

lemma query_safe:
  assumes h: "safe c s0 s" and q: "keys_matching b s tags = Some (keys, s1)"
    and t: "sys_inv s1 \<Longrightarrow> safe c s1 s2" and f: "free_key_list s2 keys = Some s'"
  shows "safe c s0 s'"
proof -
  note L = lent_query [OF h q]
  have "sys_inv s1" using L(1) by (simp add: lent_def)
  from lent_return [OF lent_safe [OF L(1) t [OF this]] L(2) f] show ?thesis .
qed

lemma clr_safe:
  assumes h: "safe c s0 s" and cc: "current_client s0 = Some c" and r: "handle_clr_request s c rq = Some (status, s')"
  shows "safe c s0 s'"
proof -
  obtain w st1 refs s1 where k: "worker (clients s c) = Some w"
    "read_tags_using_payload_buffer s c (req_c_ntags rq) = Some (st1, refs, s1)"
    using r by (auto simp: handle_clr_request_def Let_def elim!: bind_SomeE)
  define s2 where "s2 = upd_counters c (c_clr_update (\<lambda>n. n + 1)) s1"
  note h1 = held_quiet [OF h read_tags_any(1) [OF k(2)]]
  have h2: "safe c s0 s2" unfolding s2_def by (rule held_quiet [OF h1 quiet_counters])
  have w0: "worker (clients s0 c) \<noteq> None" using heldD(6) [OF h, of c] k(1) by (metis option.distinct(1))
  let ?tags = "tag_bytes (payload_data (payload_buffer (workers s2 w))) refs"
  have walk: "safe c s0 s4" if "log_with t c f = Some s3" "quiet c s2 t" "clears P cb d" "walk_all_entries cb (s3, d) = Some (s4, d')"
    for t f s3 P and cb :: "addr \<Rightarrow> state \<times> 'd \<Rightarrow> (bool \<times> state \<times> 'd) option" and d s4 d'
    by (rule held_clear_walk [OF held_quiet [OF held_quiet [OF h2 that(2)] log_with_any [OF that(1)]] that(3) cc w0 that(4)])
  have query: "safe c s0 s6" if "log_with s2 c f = Some s3" "keys_matching b s3 ?tags = Some (keys, s4)"
    "delete_keys s4 keys = Some s5" "free_key_list s5 keys = Some s6" for f s3 b keys s4 s5 s6
    by (rule query_safe [OF held_quiet [OF h2 log_with_any [OF that(1)]] that(2) held_delete_keys [OF held_refl that(3)] that(4)])
  show ?thesis
  proof (cases "st1 = STATUS_OK")
    case False
    then show ?thesis using r k h1 by (simp add: handle_clr_request_def Let_def)
  next
    case ok: True
    note run = r [unfolded handle_clr_request_def Let_def k bind.bind_lunit prod.case, folded s2_def] ok
    show ?thesis
    proof (cases "to_ClearMode (req_c_mode rq)")
      case None
      then show ?thesis using run h2 by simp
    next
      case (Some m)
      show ?thesis
      proof (cases m)
        case CLEAR_MODE_ALL
        then show ?thesis using run Some walk [OF _ quiet_refl clears_callbacks(1)] by (auto elim!: bind_SomeE)
      next
        case CLEAR_MODE_MATCH_NONE
        then show ?thesis using run Some walk [OF _ quiet_refl clears_callbacks(3)] by (auto elim!: bind_SomeE)
      next
        case CLEAR_MODE_MATCH_ALL
        then show ?thesis using run Some query by (auto elim!: bind_SomeE)
      next
        case CLEAR_MODE_MATCH_ANY
        then show ?thesis using run Some query by (auto elim!: bind_SomeE)
      next
        case CLEAR_MODE_OLD
        then show ?thesis using run Some walk [OF _ quiet_clock clears_callbacks(2)]
          by (auto simp: time_now_def elim!: bind_SomeE)
      qed
    qed
  qed
qed

section \<open>LST and NFO\<close>

lemma quiet_close_list: "quiet c s (close_list s w d)"
  by (simp add: close_list_def quiet_trans [OF quiet_payload(1) quiet_payload(2)])

lemma lst_safe:
  assumes h: "safe c s0 s" and r: "handle_lst_request s c rq = Some (status, p, s')"
  shows "safe c s0 s'"
proof -
  obtain w st1 refs s1 where k: "worker (clients s c) = Some w"
    "read_tags_using_payload_buffer s c (req_c_ntags rq) = Some (st1, refs, s1)"
    using r by (auto simp: handle_lst_request_def Let_def elim!: bind_SomeE)
  define s2 where "s2 = upd_counters c (c_lst_update (\<lambda>n. n + 1)) s1"
  note h1 = held_quiet [OF h read_tags_any(1) [OF k(2)]]
  have h2: "safe c s0 s2" unfolding s2_def by (rule held_quiet [OF h1 quiet_counters])
  let ?tags = "tag_bytes (payload_data (payload_buffer (workers s2 w))) refs"
  have walk: "safe c s0 t" if "log_with s2 c f = Some s3" "reads cb" "walk_all_entries cb (s3, d) = Some (s4, d')" "quiet c s4 t"
    for f s3 and cb :: "addr \<Rightarrow> state \<times> 'd \<Rightarrow> (bool \<times> state \<times> 'd) option" and d s4 d' t
  proof -
    note h3 = held_quiet [OF h2 log_with_any [OF that(1)]]
    have "s4 = s3" by (rule walk_all_reads [OF that(2) heldD(1) [OF h3] that(3)])
    then show ?thesis using held_quiet [OF h3] that(4) by simp
  qed
  have query: "safe c s0 s6" if "log_with s2 c f = Some s3" "keys_matching b s3 ?tags = Some (keys, s4)"
    "free_key_list (close_list s4 w d) keys = Some s6" for f s3 b keys s4 d s6
    by (rule query_safe [OF held_quiet [OF h2 log_with_any [OF that(1)]] that(2) held_quiet [OF held_refl quiet_close_list] that(3)])
  show ?thesis
  proof (cases "st1 = STATUS_OK")
    case False
    then show ?thesis using r k h1 by (simp add: handle_lst_request_def Let_def)
  next
    case ok: True
    note run = r [unfolded handle_lst_request_def Let_def k bind.bind_lunit prod.case, folded s2_def] ok
    show ?thesis
    proof (cases "to_ListMode (req_c_mode rq)")
      case None
      then show ?thesis using run h2 by simp
    next
      case (Some m)
      show ?thesis
      proof (cases m)
        case LIST_MODE_ALL_KEYS
        then show ?thesis using run Some walk [OF _ reads_list_all _ quiet_close_list] by (auto elim!: bind_SomeE)
      next
        case LIST_MODE_ALL_TAGS
        then obtain f s3 m d d' where t: "log_with s2 c f = Some s3"
          "walk_all_tags list_all_tags_callback (mem s3) (tag_tree s3) d = Some (m, d')" "s' = close_list (s3\<lparr>mem := m\<rparr>) w d'"
          using run Some by (auto elim!: bind_SomeE)
        show ?thesis unfolding t(3)
          by (rule held_quiet [OF held_walk_tags [OF held_quiet [OF h2 log_with_any [OF t(1)]] t(2)] quiet_close_list])
      next
        case LIST_MODE_MATCH_NONE
        then show ?thesis using run Some walk [OF _ reads_list_non_matching _ quiet_payload(1)] by (auto elim!: bind_SomeE)
      next
        case LIST_MODE_MATCH_ALL
        then show ?thesis using run Some query by (auto elim!: bind_SomeE)
      next
        case LIST_MODE_MATCH_ANY
        then show ?thesis using run Some query by (auto elim!: bind_SomeE)
      qed
    qed
  qed
qed

lemma nfo_safe:
  assumes h: "safe c s0 s" and r: "handle_nfo_request s c rq = Some (status, p, s')"
  shows "safe c s0 s'"
proof -
  obtain w where w: "worker (clients s c) = Some w" using r by (auto simp: handle_nfo_request_def elim!: bind_SomeE)
  define s1 where "s1 = upd_counters c (c_nfo_update (\<lambda>n. n + 1)) (set_payload_nmemb w (of_nat sizeof_NFOResponsePayload) s)"
  have h1: "safe c s0 s1" unfolding s1_def by (rule held_quiet [OF held_quiet [OF h quiet_payload(2)] quiet_counters])
  note run = r [unfolded handle_nfo_request_def Let_def w bind.bind_lunit, folded s1_def]
  show ?thesis
  proof (cases "req_n_klen rq > 0")
    case False
    then obtain f s2 d where "log_with s1 c f = Some s2" "s' = set_payload_data w d s2" using run by (auto elim!: bind_SomeE)
    then show ?thesis using held_quiet [OF h1 quiet_trans [OF log_with_any quiet_payload(1)]] by blast
  next
    case True
    obtain st2 key s2 where k: "read_request_key s1 c (req_n_klen rq) = Some (st2, key, s2)"
      using run True by (auto elim!: bind_SomeE)
    note h2 = held_quiet [OF h1 read_request_key_any(1) [OF k]]
    show ?thesis
    proof (cases "st2 = STATUS_OK")
      case False
      then show ?thesis using run True k h2 by simp
    next
      case ok: True
      obtain s3 q s4 where g: "log_with s2 c (\<lambda>q who. log_request_nfo_key q who key) = Some s3" "map_get s3 key = Some (q, s4)"
        using run True k ok by (auto elim!: bind_SomeE)
      note h3 = held_quiet [OF h2 log_with_any [OF g(1)]]
      show ?thesis
      proof (cases q)
        case None
        then show ?thesis using run True k ok g held_get(1) [OF h3 g(2)] h3 by simp
      next
        case (Some a)
        then obtain n b where "unlock_entry (set_payload_nmemb w n (set_payload_data w b s4)) a = Some s'"
          using run True k ok g by (auto elim!: bind_SomeE)
        from held_use [OF held_get(2) [OF h3 g(2) Some] quiet_trans [OF quiet_payload(1) quiet_payload(2)] this]
        show ?thesis .
      qed
    qed
  qed
qed

section \<open>Any request\<close>

lemma quiet_account: "quiet c s (account w t f g s)"
  by (simp add: quiet_def account_def get_performance_counter_def same_core_def served_eq bufs_kept_def upd_worker_def)

lemma handle_safe:
  assumes inv: "sys_inv s" and r: "handle_request s c rq = Some (status, p, s')"
  shows "sys_inv s'" and "loose s' = loose s" and "served c s s'" and "bufs_kept s s'"
proof -
  define s1 where "s1 w = snd (get_performance_counter (s\<lparr>current_client := Some c, current_log_queue := Some w\<rparr>))" for w :: nat
  have s1: "same_core s (s1 w)" "clients (s1 w) = clients s" "workers (s1 w) = workers s" "current_client (s1 w) = Some c" for w
    by (simp_all add: s1_def get_performance_counter_def same_core_def)
  have inv1: "sys_inv (s1 w)" for w using same_core_inv [OF s1(1)] inv by blast
  have acc: "safe c (s1 w) (account w t f g u)" if "safe c (s1 w) u" for w t f g u
    by (rule held_quiet [OF that quiet_account])
  have "s' = s \<or> (\<exists>w. safe c (s1 w) s')"
  proof (cases "worker (clients s c)")
    case None
    then show ?thesis using r by (simp add: handle_request_def)
  next
    case (Some w)
    note ref = held_refl [OF inv1 [of w], where c = c]
    note safe_handlers = get_safe [OF ref] set_safe [OF ref] del_safe [OF ref] clr_safe [OF ref s1(4)] lst_safe [OF ref] nfo_safe [OF ref]
    have gp: "get_performance_counter (s\<lparr>current_client := Some c, current_log_queue := Some w\<rparr>) = (ticks s (tick_calls s), s1 w)"
      by (simp add: s1_def get_performance_counter_def)
    show ?thesis
    proof (cases "req_cik rq = [CONTROL_BYTE_1, CONTROL_BYTE_2, CONTROL_BYTE_3]")
      case True
      have "safe c (s1 w) s'"
        using r Some True by (auto simp: handle_request_def gp split: if_splits elim!: bind_SomeE intro: acc ref dest: safe_handlers)
      then show ?thesis by blast
    qed (use r Some in \<open>simp add: handle_request_def\<close>)
  qed
  then have "sys_inv s' \<and> loose s' = loose s \<and> served c s s' \<and> bufs_kept s s'"
  proof
    assume "\<exists>w. safe c (s1 w) s'"
    then obtain w where w: "safe c (s1 w) s'" ..
    have "served c s (s1 w)" "bufs_kept s (s1 w)" "loose (s1 w) = loose s"
      using s1 [of w] by (simp_all add: served_eq bufs_kept_def loose_def same_core_def)
    then show ?thesis using heldD [OF w] served_trans bufs_kept_trans by metis
  qed (use inv in \<open>simp add: served_eq bufs_kept_def\<close>)
  then show "sys_inv s'" "loose s' = loose s" "served c s s'" "bufs_kept s s'" by blast+
qed

end
