(* ===== verification/Cik_Startup.thy ===== *)
theory Cik_Startup
  imports Cik_Connections
begin

text \<open>
  How \<open>main\<close> brings the server up: what a start that succeeds leaves behind, and every way in which
  one fails.
\<close>

section \<open>Failures of the server's own start\<close>

text \<open>The descriptors the environment hands out are distinct, and it reports errors as C libraries do.\<close>

definition calls_sane :: "main_calls \<Rightarrow> bool" where
  "calls_sane k \<longleftrightarrow> distinct [pid_open k, socket_result (boot k), epoll_create_result (boot k), persistence_open k] \<and>
     0 < memory_errno k \<and> boot_errno (boot k) \<noteq> 0 \<and> (\<forall>b. mmap_result k = Some b \<longrightarrow> b mod alignof_max_align_t = 0)"

lemma start_server_outcome:
  assumes "boot_errno k \<noteq> 0" and "distinct [socket_result k, epoll_create_result k]"
    and "socket_result k \<notin> set (open_fds sv)" "epoll_create_result k \<notin> set (open_fds sv)" and "\<not> is_running sv"
    and "sys_inv (st sv)" "cache (st sv) = Map.empty" "indexed (st sv)" "room (mem (st sv)) (n + Suc (NUM_WORKERS * Suc BIG))"
  obtains (up) sv' where "start_server a p k sv = Some (0, sv')" "boot_ok k" "started sv' n"
      "open_fds sv' = epoll_create_result k # socket_result k # open_fds sv"
  | (down) err sv' where "start_server a p k sv = Some (err, sv')" "\<not> boot_ok k" "err \<noteq> 0" "\<not> is_running sv'" "open_fds sv' = open_fds sv"
proof (cases "boot_ok k")
  case True
  then show thesis using start_server_ok [OF True assms(6-9)] up by metis
next
  case False
  then show thesis using assms(1-5)
    by (intro down [of "fst (the (start_server a p k sv))" "snd (the (start_server a p k sv))"])
      (auto simp: start_server_def boot_ok_def Let_def upd_st_def close_fd_def)
qed

section \<open>Every outcome of the start\<close>

lemmas tls_defs = init_util_def init_log_def init_controller_def tss_create_def thrd_success_def thrd_error_def


definition memory_there :: "main_calls \<Rightarrow> bool" where
  "memory_there k \<longleftrightarrow> mmap_result k \<noteq> None \<and> mprotect_ok k"

lemma start_up_server_outcome:
  assumes k: "calls_sane k" and sv: "open_fds sv = [pid_open k]" "\<not> is_running sv"
    and before: "pid_open k \<ge> 0" "pid_lock k \<ge> 0" "memory_there k"
    and mem: "let s = st (upd_st init_maps sv) in
      sys_inv s \<and> cache s = Map.empty \<and> indexed s \<and> room (mem s) (6000001 + Suc (NUM_WORKERS * Suc BIG))"
  shows "case start_up_server k config (Some memory) sv of
     None \<Rightarrow> False
   | Some (EXIT_FAILURE sv') \<Rightarrow> \<not> calls_ok k \<and> open_fds sv' = (if is_running sv' then [epoll_create_result (boot k), socket_result (boot k)] else [])
   | Some (Running sv') \<Rightarrow> calls_ok k \<and> is_running sv' \<and>
       open_fds sv' = [persistence_open k, epoll_create_result (boot k), socket_result (boot k), pid_open k]"
proof (cases memory)
  case (Pair maps m)
  have d: "distinct [socket_result (boot k), epoll_create_result (boot k)]" "boot_errno (boot k) \<noteq> 0"
    "pid_open k \<noteq> socket_result (boot k)" "pid_open k \<noteq> epoll_create_result (boot k)" "pid_open k \<noteq> persistence_open k"
    "persistence_open k \<noteq> socket_result (boot k)" "persistence_open k \<noteq> epoll_create_result (boot k)"
    using k by (auto simp: calls_sane_def)
  let ?ok = "init_util (fst (util_tss k)) (snd (util_tss k)) = 0 \<and> init_log (log_tss k) = 0 \<and> init_controller (controller_tss k) = 0"
  have ok: "?ok \<longleftrightarrow> util_tss k = (0, 0) \<and> log_tss k = 0 \<and> controller_tss k = 0"
    by (cases "util_tss k") (auto simp: init_util_def init_log_def init_controller_def tss_create_def thrd_success_def thrd_error_def)
  have mm: "\<exists>b. mmap_result k = Some b \<and> b mod alignof_max_align_t = 0" "mprotect_ok k"
    using k before(3) by (auto simp: calls_sane_def memory_there_def)
  have calls: "calls_ok k \<longleftrightarrow> ?ok \<and> boot_ok (boot k) \<and> persistence_open k \<ge> 0 \<and> persistence_lock k \<ge> 0"
    unfolding calls_ok_def ok using before mm by blast
  have leave: "open_fds (leave_main a b x) = removeAll a (removeAll b (open_fds x))" if "0 \<le> a" "0 \<le> b" for a b x
    using that by (simp add: leave_main_def unlock_and_close_fd_ptr_def close_fd_def)
  have leave1: "open_fds (leave_main a b x) = removeAll a (open_fds x)" if "0 \<le> a" "b < 0" for a b x
    using that by (simp add: leave_main_def unlock_and_close_fd_ptr_def close_fd_def)
  have run: "is_running (leave_main a b x) = is_running x" for a b x
    by (simp add: leave_main_def unlock_and_close_fd_ptr_def close_fd_def)
  show ?thesis
  proof (cases ?ok)
    case False
    then have "start_up_server k config (Some memory) sv = Some (EXIT_FAILURE (leave_main (pid_open k) (-1) sv))" by (auto simp: start_up_server_def)
    moreover have "\<not> calls_ok k" using False calls by blast
    ultimately show ?thesis using sv before(1) by (simp add: leave1 run)
  next
    case True
    have o: "open_fds (upd_st init_maps sv) = [pid_open k]" "\<not> is_running (upd_st init_maps sv)" using sv by (simp_all add: upd_st_def)
    have n: "socket_result (boot k) \<notin> set (open_fds (upd_st init_maps sv))" "epoll_create_result (boot k) \<notin> set (open_fds (upd_st init_maps sv))"
      using d o by auto
    have m: "sys_inv (st (upd_st init_maps sv))" "cache (st (upd_st init_maps sv)) = Map.empty" "indexed (st (upd_st init_maps sv))"
      "room (mem (st (upd_st init_maps sv))) (6000001 + Suc (NUM_WORKERS * Suc BIG))" using mem by (simp_all only: Let_def)
    show ?thesis
    proof (cases rule: start_server_outcome [OF d(2,1) n o(2) m, of "listen_address config" "listen_port config"])
      case (1 sv1)
      let ?sv2 = "open_file (persistence_open k) sv1"
      have s2: "sys_inv (st ?sv2)" "room (mem (st ?sv2)) (Suc 6000000)" and run1: "is_running sv1"
        using 1(3) by (simp_all add: open_file_def started_def)
      obtain sv3 where sv3: "start_thread (boot k) run_logging_thread_thread ?sv2 = Some sv3" "threads_only ?sv2 sv3"
        by (rule start_thread_ok [OF s2])
      consider "persistence_open k < 0" | "persistence_open k \<ge> 0" "persistence_lock k < 0" | "persistence_open k \<ge> 0" "persistence_lock k \<ge> 0"
        by linarith
      then show ?thesis
        using True calls 1(1,2,4) run1 o(1) before(1) d sv3(1) threads_onlyD(6,7) [OF sv3(2)]
        by cases (simp_all add: start_up_server_def Let_def leave leave1 run open_file_def)
    next
      case (2 err sv1)
      then show ?thesis using True calls o(1) before(1) by (simp add: start_up_server_def Let_def leave1 run)
    qed
  qed
qed

section \<open>Properties\<close>

text \<open>The start that ends in a fault: everything in front of the entry maps succeeds but the memory.\<close>

definition faults :: "main_calls \<Rightarrow> bool" where
  "faults k \<longleftrightarrow> the_config k \<noteq> None \<and> pid_open k \<ge> 0 \<and> pid_lock k \<ge> 0 \<and> \<not> memory_there k \<and>
     util_tss k = (0, 0) \<and> log_tss k = 0 \<and> controller_tss k = 0"

text \<open>What a start leaves behind.\<close>

definition start_post :: "main_calls \<Rightarrow> startup option \<Rightarrow> bool" where
  "start_post k r \<longleftrightarrow> (case r of
     None \<Rightarrow> faults k
   | Some (EXIT_FAILURE sv) \<Rightarrow> (the_config k = None \<or> \<not> calls_ok k) \<and> \<not> faults k \<and>
       open_fds sv = (if is_running sv then [epoll_create_result (boot k), socket_result (boot k)] else [])
   | Some (Running sv) \<Rightarrow> the_config k \<noteq> None \<and> calls_ok k \<and> is_running sv \<and>
       open_fds sv = [persistence_open k, epoll_create_result (boot k), socket_result (boot k), pid_open k])"

text \<open>C16. Every outcome of the start, whatever the system calls return. The server runs exactly when all of
  them succeed; when one fails, the start ends with an error and closes the descriptors it opened, but for the
  listening socket and its epoll instance once the threads run. The exception is memory: when the region
  cannot be had, the check of \<open>init_memory\<close> does not see it, the start goes on, and either one of the
  thread-specific keys cannot be had, which ends it with an error as before, or the entry maps are touched through
  null pointers.\<close>

theorem start_up_outcomes:
  assumes "calls_sane k" and "pristine sv" and "\<not> is_running sv"
  shows "start_post k (start_up k sv)"
proof (cases "the_config k")
  case None
  then show ?thesis using assms(2,3) by (simp add: start_up_def start_post_def faults_def pristine_def)
next
  case (Some config)
  let ?sv1 = "open_file (pid_open k) sv"
  have o: "open_fds ?sv1 = [pid_open k]" "\<not> is_running ?sv1" using assms(2,3) by (simp_all add: open_file_def pristine_def)
  have leave: "open_fds (leave_main (pid_open k) (-1) ?sv1) = []" "\<not> is_running (leave_main (pid_open k) (-1) ?sv1)" if "pid_open k \<ge> 0"
    using that o by (simp_all add: leave_main_def unlock_and_close_fd_ptr_def close_fd_def)
  consider "pid_open k < 0" | "pid_open k \<ge> 0" "pid_lock k < 0"
    | "pid_open k \<ge> 0" "pid_lock k \<ge> 0" "\<not> memory_there k" | "pid_open k \<ge> 0" "pid_lock k \<ge> 0" "memory_there k" by linarith
  then show ?thesis
  proof cases
    case 1
    then show ?thesis using Some assms(2,3) by (simp add: start_up_def start_post_def faults_def calls_ok_def pristine_def)
  next
    case 2
    then show ?thesis using Some leave by (simp add: start_up_def start_post_def faults_def calls_ok_def Let_def)
  next
    case 3
    have "init_memory (mmap_result k) (mprotect_ok k) (memory_errno k) = Some (memory_errno k, None)"
      using 3(3) by (cases "mmap_result k") (auto simp: init_memory_def memory_there_def)
    then have "start_up k sv = start_up_server k config None ?sv1"
      using Some 3(1,2) structs_valid assms(1) by (simp add: start_up_def calls_sane_def Let_def)
    moreover have "\<not> calls_ok k" using 3(3) by (auto simp: calls_ok_def memory_there_def)
    ultimately show ?thesis
      using Some 3 leave by (cases "util_tss k") (auto simp: start_up_server_def start_post_def faults_def tls_defs)
  next
    case 4
    obtain b where b: "mmap_result k = Some b" "b mod 16 = 0" "mprotect_ok k"
      using 4(3) assms(1) by (auto simp: memory_there_def calls_sane_def alignof_max_align_t_def)
    obtain maps where mem: "init_memory (mmap_result k) (mprotect_ok k) (memory_errno k) = Some (0, Some (maps, init_state b))"
      using init_memory_eq [OF b(2)] b by auto
    let ?sv2 = "upd_st (\<lambda>s. s\<lparr>mem := init_state b\<rparr>) ?sv1"
    have "start_up k sv = start_up_server k config (Some (maps, init_state b)) ?sv2"
      using Some 4 structs_valid mem by (simp add: start_up_def Let_def)
    moreover have "open_fds ?sv2 = [pid_open k]" "\<not> is_running ?sv2" using o by (simp_all add: upd_st_def)
    moreover have "let s = st (upd_st init_maps ?sv2) in
        sys_inv s \<and> cache s = Map.empty \<and> indexed s \<and> room (mem s) (6000001 + Suc (NUM_WORKERS * Suc BIG))"
      using memory_ready [OF assms(2), where b = b and n = "pid_open k"] unfolding Let_def by blast
    moreover have "\<not> faults k" using 4(3) by (simp add: faults_def)
    ultimately show ?thesis
      using start_up_server_outcome [OF assms(1) _ _ 4, where sv = ?sv2 and config = config and memory = "(maps, init_state b)"] Some
      by (simp add: start_post_def split: startup.splits option.splits)
  qed
qed

theorem start_up_outcomes_witness:
  "start_post (sample_calls\<lparr>boot := (boot sample_calls)\<lparr>listen_result := -1, boot_errno := 98\<rparr>, memory_errno := 12\<rparr>)
     (start_up (sample_calls\<lparr>boot := (boot sample_calls)\<lparr>listen_result := -1, boot_errno := 98\<rparr>, memory_errno := 12\<rparr>)
       (statics (\<lambda>_. 1000) (\<lambda>_. 0)))"
proof -
  let ?k = "sample_calls\<lparr>boot := (boot sample_calls)\<lparr>listen_result := -1, boot_errno := 98\<rparr>, memory_errno := 12\<rparr>"
  have "calls_sane ?k" by (simp add: calls_sane_def sample_calls_def alignof_max_align_t_def)
  moreover have "\<not> is_running (statics (\<lambda>_. 1000) (\<lambda>_. 0))" by (simp add: statics_def)
  ultimately show ?thesis using start_up_outcomes [of ?k "statics (\<lambda>_. 1000) (\<lambda>_. 0)"] statics_pristine by blast
qed

text \<open>The threads there are: the accept thread, the workers and the logging thread, as far as they could be
  created.\<close>

definition threads_running :: "boot_calls \<Rightarrow> server \<Rightarrow> bool" where
  "threads_running b sv \<longleftrightarrow> dom (threads sv) =
     {thr \<in> insert run_logging_thread_thread (insert run_accept_thread_thread {run_worker_thread w | w. w < NUM_WORKERS}).
       create_result b thr = 0}"

text \<open>C12. The server that starts is ready to serve: the invariant of allocator, maps and tag index holds, the
  cache is empty, every worker has its number, its buffer and an empty log queue, no client slot is taken,
  the table of connections is consistent, and exactly those threads run that \<open>pthread_create\<close> did not
  refuse (a refusal does not stop the start).\<close>

theorem start_up_correct:
  assumes "the_config k = Some config" and "calls_ok k" and "pristine sv"
  shows "\<exists>sv'. start_up k sv = Some (Running sv') \<and> started sv' 6000000 \<and> conn_inv sv' \<and> threads_running (boot k) sv'"
proof -
  obtain sv' where sv': "start_up k sv = Some (Running sv')" "started sv' 6000000" "next_worker sv' = 0" "watched sv' = []"
    "\<forall>c. worker (clients (st sv') c) = None"
    "dom (threads sv') = {thr \<in> insert run_logging_thread_thread (insert run_accept_thread_thread {run_worker_thread w | w. w < NUM_WORKERS}).
       create_result (boot k) thr = 0}" by (rule start_up_ok [OF assms])
  have "threads_running (boot k) sv'" using sv'(6) unfolding threads_running_def .
  with sv' started_conn [OF sv'(2,4,3,5)] show ?thesis by blast
qed

theorem start_up_correct_witness:
  "\<exists>sv'. start_up sample_calls (statics (\<lambda>_. 1000) (\<lambda>_. 0)) = Some (Running sv') \<and> started sv' 6000000 \<and> conn_inv sv' \<and>
     threads_running (boot sample_calls) sv'"
proof -
  have "the_config sample_calls = Some runtime_config" by (simp add: sample_calls_def)
  then show ?thesis using start_up_correct sample_calls_ok statics_pristine by blast
qed

end
