(* ===== verification/Cik_Main_Laws.thy ===== *)
theory Cik_Main_Laws
  imports Cik_Main Cik_Log_Laws
begin

text \<open>
  The threads that serve nobody: the main thread, which signals steer, and the one that prints the log.
\<close>

section \<open>Signals\<close>

definition dist :: "phase \<Rightarrow> nat" where
  "dist p = (case p of AtBody \<Rightarrow> 4 | AtReport \<Rightarrow> 3 | AtSleep \<Rightarrow> 2 | AtTest \<Rightarrow> 1 | Left \<Rightarrow> 0)"

lemma deliver_quit: "quit s \<Longrightarrow> quit (deliver sig s)"
  by (simp add: deliver_def run_sigint_handler_def run_sigterm_handler_def run_sigusr1_handler_def split: disposition.split)

lemma happen_quit:
  assumes "quit (signals m)"
  shows "quit (signals (happen ev m))" "killed (signals m) \<Longrightarrow> killed (signals (happen ev m))"
    "\<not> killed (signals m) \<Longrightarrow> dist (phase (happen Step m)) \<le> dist (phase m) - 1"
    "phase (happen (Signal sig) m) = phase m"
  using assms
  by (auto simp: happen_def main_step_def dist_def deliver_quit split: event.split phase.split)

lemma quit_leaves:
  assumes "quit (signals m)" and "dist (phase m) \<le> count_list evs Step"
  shows "phase (fold happen evs m) = Left \<or> killed (signals (fold happen evs m))"
  using assms
proof (induction evs arbitrary: m)
  case Nil
  then show ?case by (cases "phase m") (simp_all add: dist_def)
next
  case (Cons ev evs)
  note H = happen_quit [OF Cons.prems(1)]
  show ?case
  proof (cases "killed (signals m)")
    case True
    have "fold happen es m = m" for es using True by (induction es) (simp_all add: happen_def)
    then show ?thesis using True by metis
  next
    case False
    have "dist (phase (happen ev m)) \<le> count_list evs Step"
      using Cons.prems(2) H(3) [OF False] H(4) by (cases ev) auto
    then show ?thesis using Cons.IH [OF H(1)] by simp
  qed
qed

text \<open>Events that leave the thread alive: its steps, and the signals it ignores or only notes.\<close>

definition harmless :: "event \<Rightarrow> bool" where
  "harmless ev \<longleftrightarrow> ev \<in> {Step, Signal SIGPIPE, Signal SIGUSR1, Signal SIGUSR2}"

definition calm :: "signals \<Rightarrow> bool" where
  "calm s \<longleftrightarrow> \<not> killed s \<and> disposition_of s SIGPIPE = SIG_IGN \<and> disposition_of s SIGUSR1 = sigusr1_handler \<and>
     disposition_of s SIGUSR2 = SIG_IGN"

lemma happen_calm:
  assumes "calm (signals m)" and "harmless ev"
  shows "calm (signals (happen ev m))" and "quit (signals (happen ev m)) = quit (signals m)"
    and "ev \<noteq> Step \<Longrightarrow> phase (happen ev m) = phase m \<and> reports (happen ev m) = reports m \<and>
      (do_write_stats (signals m) \<longrightarrow> do_write_stats (signals (happen ev m)))"
  using assms
  by (auto simp: calm_def harmless_def happen_def main_step_def deliver_def run_sigusr1_handler_def split: phase.splits if_splits)

lemma fold_calm:
  assumes "calm (signals m)" and "\<forall>ev \<in> set evs. harmless ev"
  shows "calm (signals (fold happen evs m))"
  using assms by (induction evs arbitrary: m) (auto intro: happen_calm(1))

text \<open>How far a pending report is: every step comes closer to it, or writes it.\<close>

definition report_dist :: "phase \<Rightarrow> nat" where
  "report_dist p = (case p of AtReport \<Rightarrow> 5 | AtSleep \<Rightarrow> 4 | AtTest \<Rightarrow> 3 | AtBody \<Rightarrow> 2 | Left \<Rightarrow> 6)"

lemma reports_mono: "reports m \<le> reports (happen ev m)"
  by (simp add: happen_def main_step_def split: event.split phase.split)

lemma fold_reports_mono: "reports m \<le> reports (fold happen evs m)"
proof (induction evs arbitrary: m)
  case (Cons ev evs)
  then show ?case using reports_mono [of m ev] order_trans by fastforce
qed simp

lemma written_soon:
  assumes "phase m = AtReport" and "calm (signals m)" and "\<forall>ev \<in> set evs. harmless ev" and "1 \<le> count_list evs Step"
  shows "reports m + 1 \<le> reports (fold happen evs m)"
  using assms
proof (induction evs arbitrary: m)
  case (Cons ev evs)
  show ?case
  proof (cases "ev = Step")
    case True
    have "reports (happen Step m) = reports m + 1" using Cons.prems(1,2) by (simp add: happen_def main_step_def calm_def)
    then show ?thesis using True fold_reports_mono [of "happen Step m" evs] by simp
  next
    case False
    have h: "harmless ev" using Cons.prems(3) by simp
    have "reports (happen ev m) + 1 \<le> reports (fold happen evs (happen ev m))"
      using happen_calm [OF Cons.prems(2) h] False Cons.prems by (intro Cons.IH) auto
    then show ?thesis using happen_calm(3) [OF Cons.prems(2) h False] by simp
  qed
qed simp

lemma reported:
  assumes "calm (signals m)" and "\<not> quit (signals m)" and "phase m \<noteq> Left" and "do_write_stats (signals m)"
    and "\<forall>ev \<in> set evs. harmless ev" and "report_dist (phase m) \<le> count_list evs Step"
  shows "reports m + (if phase m = AtReport then 2 else 1) \<le> reports (fold happen evs m)"
  using assms
proof (induction evs arbitrary: m)
  case Nil
  then show ?case by (simp add: report_dist_def split: phase.splits)
next
  case (Cons ev evs)
  have h: "harmless ev" "\<forall>ev \<in> set evs. harmless ev" using Cons.prems(5) by simp_all
  note H = happen_calm [OF Cons.prems(1) h(1)]
  show ?case
  proof (cases "ev = Step")
    case False
    then have "reports (happen ev m) + (if phase (happen ev m) = AtReport then 2 else 1) \<le> reports (fold happen evs (happen ev m))"
      using H Cons.prems by (intro Cons.IH) auto
    then show ?thesis using H(3) [OF False] by simp
  next
    case True
    have nk: "happen Step m = main_step m" using Cons.prems(1) by (simp add: happen_def calm_def)
    have steps: "report_dist (phase m) \<le> Suc (count_list evs Step)" using Cons.prems(6) True by simp
    show ?thesis
    proof (cases "phase m = AtBody")
      case body: True
      have ph: "phase (happen Step m) = AtReport" "reports (happen Step m) = reports m"
        using body Cons.prems(4) by (simp_all add: nk main_step_def)
      have "reports (happen Step m) + 1 \<le> reports (fold happen evs (happen Step m))"
        using H(1) True h(2) steps body by (intro written_soon [OF ph(1)]) (simp_all add: report_dist_def)
      then show ?thesis using ph body True by simp
    next
      case False
      have m1: "phase (happen Step m) \<noteq> AtReport" "phase (happen Step m) \<noteq> Left" "do_write_stats (signals (happen Step m))"
        "report_dist (phase (happen Step m)) = report_dist (phase m) - 1"
        "reports (happen Step m) = reports m + (if phase m = AtReport then 1 else 0)"
        using False Cons.prems(2-4) by (auto simp: nk main_step_def report_dist_def split: phase.splits)
      have "reports (happen Step m) + (if phase (happen Step m) = AtReport then 2 else 1) \<le> reports (fold happen evs (happen Step m))"
        using H m1 True h(2) steps Cons.prems(2) by (intro Cons.IH) simp_all
      then show ?thesis using m1(1,5) True by (simp split: if_splits)
    qed
  qed
qed

section \<open>Printing the log\<close>

text \<open>The lines of a list of entries.\<close>

definition prints :: "LogEntry list \<Rightarrow> (string option \<times> printed_arg) list \<Rightarrow> bool" where
  "prints es lines \<longleftrightarrow> map print_log_entry es = map Some lines"

lemma prints_append: "prints es xs \<Longrightarrow> prints fs ys \<Longrightarrow> prints (es @ fs) (xs @ ys)"
  by (simp add: prints_def)

lemma printable: "\<forall>e \<in> set es. print_log_entry e \<noteq> None \<Longrightarrow> \<exists>lines. prints es lines"
proof (induction es)
  case (Cons e es)
  then obtain l lines where "print_log_entry e = Some l" "prints es lines" by auto
  then have "prints (e # es) (l # lines)" by (simp add: prints_def)
  then show ?case by blast
qed (auto simp: prints_def intro: exI [of _ "[]"])

lemma flush_queue_drains:
  assumes "q_ok q" and "prints (q_contents q) lines"
  shows "\<exists>q'. flush_queue q = Some (lines, q') \<and> q_ok q' \<and> q_contents q' = []"
  using assms
proof (induction "q_contents q" arbitrary: q lines)
  case Nil
  then have "dequeue_log_entry q = (None, q)" "lines = []" using lq.deq_empty [of q] by (simp_all add: prints_def)
  then show ?case using Nil by (subst flush_queue.simps) simp
next
  case (Cons e es)
  obtain q1 where q1: "dequeue_log_entry q = (Some e, q1)" "q_ok q1" "q_contents q1 = es"
    using lq.deq_ok [OF Cons.prems(1) Cons.hyps(2) [symmetric]] by blast
  obtain l ls where l: "lines = l # ls" "print_log_entry e = Some l" "prints es ls"
    using Cons.prems(2) unfolding Cons.hyps(2) [symmetric] prints_def by (cases lines) auto
  then obtain q' where "flush_queue q1 = Some (ls, q')" "q_ok q'" "q_contents q' = []"
    using Cons.hyps(1) [OF q1(3) [symmetric] q1(2)] q1(3) by auto
  then show ?case using q1(1) l by (subst flush_queue.simps) simp
qed

text \<open>The queues of the first \<open>n\<close> workers one after the other.\<close>

definition queued :: "state \<Rightarrow> nat \<Rightarrow> LogEntry list" where
  "queued s n = concat (map (\<lambda>w. q_contents (log_queue (workers s w))) [0..<n])"

definition only_queues :: "state \<Rightarrow> state \<Rightarrow> bool" where
  "only_queues s s' \<longleftrightarrow> (\<exists>ws. s' = s\<lparr>workers := ws\<rparr> \<and> (\<forall>w. \<exists>q. ws w = (workers s w)\<lparr>log_queue := q\<rparr>))"

lemma only_queues_upd:
  assumes "only_queues s t"
  shows "only_queues s (upd_worker w (log_queue_update (\<lambda>_. q)) t)"
proof -
  obtain ws where ws: "t = s\<lparr>workers := ws\<rparr>" "\<And>w. \<exists>q. ws w = (workers s w)\<lparr>log_queue := q\<rparr>"
    using assms by (auto simp: only_queues_def)
  obtain q0 where q0: "ws w = (workers s w)\<lparr>log_queue := q0\<rparr>" using ws(2) by blast
  show ?thesis unfolding only_queues_def
  proof (rule exI [of _ "ws(w := (ws w)\<lparr>log_queue := q\<rparr>)"], intro conjI allI)
    show "upd_worker w (log_queue_update (\<lambda>_. q)) t = s\<lparr>workers := ws(w := (ws w)\<lparr>log_queue := q\<rparr>)\<rparr>"
      by (simp add: ws(1) upd_worker_def)
    fix v
    show "\<exists>q'. (ws(w := (ws w)\<lparr>log_queue := q\<rparr>)) v = (workers s v)\<lparr>log_queue := q'\<rparr>"
      using ws(2) [of v] q0 by (cases "v = w") auto
  qed
qed

lemma flush_drains:
  assumes "\<forall>w < NUM_WORKERS. q_ok (log_queue (workers s w))" and "\<forall>e \<in> set (queued s NUM_WORKERS). print_log_entry e \<noteq> None"
  shows "\<exists>lines s'. flush_worker_logs s = Some (lines, s') \<and> prints (queued s NUM_WORKERS) lines \<and> only_queues s s' \<and>
    (\<forall>w < NUM_WORKERS. q_ok (log_queue (workers s' w)) \<and> q_contents (log_queue (workers s' w)) = [])"
proof -
  let ?step = "\<lambda>w (lines, s). do {
       (new, q) \<leftarrow> flush_queue (log_queue (workers s w));
       Some (lines @ new, upd_worker w (log_queue_update (\<lambda>_. q)) s)
     }"
  define I where "I n u = (prints (queued s n) (fst u) \<and> only_queues s (snd u) \<and>
    (\<forall>w < n. q_ok (log_queue (workers (snd u) w)) \<and> q_contents (log_queue (workers (snd u) w)) = []) \<and>
    (\<forall>w \<ge> n. workers (snd u) w = workers s w))" for n u
  have "\<exists>u'. fold_opt ?step [0..<NUM_WORKERS] ([], s) = Some u' \<and> I NUM_WORKERS u'"
  proof (rule fold_opt_upt)
    have "\<exists>q. x = x\<lparr>log_queue := q\<rparr>" for x :: Worker by (cases x) auto
    then have "only_queues s s" unfolding only_queues_def by (intro exI [of _ "workers s"]) simp
    then show "I 0 ([], s)" unfolding I_def by (simp add: queued_def prints_def)
    fix i u assume i: "i < NUM_WORKERS" and Iu: "I i u"
    obtain lines t where u: "u = (lines, t)" by (cases u)
    have t: "workers t i = workers s i" "\<And>w. w \<ge> Suc i \<Longrightarrow> workers t w = workers s w" using Iu u by (simp_all add: I_def)
    have "\<forall>e \<in> set (q_contents (log_queue (workers s i))). print_log_entry e \<noteq> None" using assms(2) i by (auto simp: queued_def)
    then obtain new where new: "prints (q_contents (log_queue (workers s i))) new" using printable by blast
    obtain q where q: "flush_queue (log_queue (workers s i)) = Some (new, q)" "q_ok q" "q_contents q = []"
      using flush_queue_drains [OF _ new] assms(1) i by blast
    let ?t = "upd_worker i (log_queue_update (\<lambda>_. q)) t"
    have "?step i u = Some (lines @ new, ?t)" using q(1) t(1) by (simp add: u)
    moreover have "prints (queued s (Suc i)) (lines @ new)" using Iu u new by (simp add: I_def queued_def prints_append)
    then have "I (Suc i) (lines @ new, ?t)"
      using Iu u q t(2) only_queues_upd [of s t i q] by (auto simp: I_def upd_worker_def less_Suc_eq)
    ultimately show "\<exists>u'. ?step i u = Some u' \<and> I (Suc i) u'" by blast
  qed
  then show ?thesis unfolding flush_worker_logs_def by (auto simp: I_def)
qed

section \<open>Properties\<close>

text \<open>The thread in its loop with the handlers of \<open>main\<close> in place.\<close>

definition in_loop :: "main_loop \<Rightarrow> bool" where
  "in_loop m \<longleftrightarrow> phase m \<noteq> Left \<and> \<not> quit (signals m) \<and> \<not> killed (signals m) \<and>
     disposition_of (signals m) = disposition_of (install_handlers (signals m))"

lemma in_loopD:
  assumes "in_loop m"
  shows "calm (signals m)" "disposition_of (signals m) SIGINT = sigint_handler"
    "disposition_of (signals m) SIGTERM = sigterm_handler" "\<not> quit (signals m)" "phase m \<noteq> Left"
proof -
  have "disposition_of (signals m) sig = disposition_of (install_handlers (signals m)) sig" for sig
    using assms by (simp add: in_loop_def)
  from this [of SIGINT] this [of SIGTERM] this [of SIGPIPE] this [of SIGUSR1] this [of SIGUSR2] assms
  show "calm (signals m)" "disposition_of (signals m) SIGINT = sigint_handler"
    "disposition_of (signals m) SIGTERM = sigterm_handler" "\<not> quit (signals m)" "phase m \<noteq> Left"
    by (simp_all add: in_loop_def install_handlers_def calm_def)
qed

text \<open>C14. The main thread reacts to signals. After \<open>SIGINT\<close> or \<open>SIGTERM\<close> it leaves its loop in at
  most four steps, and is alive to persist the cache; after \<open>SIGUSR1\<close> a report that was begun later
  has been written after at most five. Neither is prevented by further signals between the steps, however many
  \<open>SIGPIPE\<close>, \<open>SIGUSR1\<close> or \<open>SIGUSR2\<close> they are.\<close>

theorem signals_are_served:
  assumes "in_loop m" and "\<forall>ev \<in> set evs. harmless ev"
  shows "(sig \<in> {SIGINT, SIGTERM} \<longrightarrow> 4 \<le> count_list evs Step \<longrightarrow>
      phase (fold happen (Signal sig # evs) m) = Left \<and> \<not> killed (signals (fold happen (Signal sig # evs) m))) \<and>
    (5 \<le> count_list evs Step \<longrightarrow>
      reports m + (if phase m = AtReport then 2 else 1) \<le> reports (fold happen (Signal SIGUSR1 # evs) m))"
proof (intro conjI impI)
  assume sig: "sig \<in> {SIGINT, SIGTERM}" and n: "4 \<le> count_list evs Step"
  let ?m = "happen (Signal sig) m"
  have q: "quit (signals ?m)" "calm (signals ?m)"
    using sig in_loopD [OF assms(1)] by (auto simp: happen_def deliver_def run_sigint_handler_def run_sigterm_handler_def calm_def)
  have "dist (phase ?m) \<le> 4" by (simp add: dist_def split: phase.split)
  then have "phase (fold happen evs ?m) = Left \<or> killed (signals (fold happen evs ?m))" using quit_leaves [OF q(1)] n by simp
  then show "phase (fold happen (Signal sig # evs) m) = Left" "\<not> killed (signals (fold happen (Signal sig # evs) m))"
    using fold_calm [OF q(2) assms(2)] by (auto simp: calm_def)
next
  assume n: "5 \<le> count_list evs Step"
  let ?m = "happen (Signal SIGUSR1) m"
  have m: "calm (signals ?m)" "\<not> quit (signals ?m)" "phase ?m \<noteq> Left" "do_write_stats (signals ?m)" "phase ?m = phase m"
    "reports ?m = reports m"
    using in_loopD [OF assms(1)] by (auto simp: happen_def deliver_def run_sigusr1_handler_def calm_def)
  have "report_dist (phase ?m) \<le> 5" using m(3) by (simp add: report_dist_def split: phase.split)
  then show "reports m + (if phase m = AtReport then 2 else 1) \<le> reports (fold happen (Signal SIGUSR1 # evs) m)"
    using reported [OF m(1-4) assms(2)] n m(5,6) by simp
qed

definition sample_loop :: main_loop where
  "sample_loop = \<lparr>phase = AtSleep, signals = install_handlers \<lparr>disposition_of = (\<lambda>_. SIG_DFL), quit = False,
     do_write_stats = False, killed = False\<rparr>, reports = 0\<rparr>"

theorem signals_are_served_witness:
  "phase (fold happen [Signal SIGINT, Step, Signal SIGPIPE, Step, Step, Step] sample_loop) = Left \<and>
   1 \<le> reports (fold happen [Signal SIGUSR1, Step, Step, Step, Signal SIGUSR1, Step, Step] sample_loop)"
proof -
  have l: "in_loop sample_loop" by (simp add: in_loop_def sample_loop_def install_handlers_def)
  have h: "\<forall>ev \<in> set [Step, Signal SIGPIPE, Step, Step, Step]. harmless ev"
    "\<forall>ev \<in> set [Step, Step, Step, Signal SIGUSR1, Step, Step]. harmless ev" by (simp_all add: harmless_def)
  have n: "4 \<le> count_list [Step, Signal SIGPIPE, Step, Step, Step] Step"
    "5 \<le> count_list [Step, Step, Step, Signal SIGUSR1, Step, Step] Step" "phase sample_loop \<noteq> AtReport" "reports sample_loop = 0"
    by (simp_all add: sample_loop_def)
  show ?thesis
    using signals_are_served [OF l h(1), of SIGINT] signals_are_served [OF l h(2), of SIGINT] n by auto
qed

text \<open>C15. The logging thread does not get stuck: when the queues hold entries that the functions of
  \<open>log.c\<close> made, none of them with tags that fill its array to the last byte (C33 is what happens then), one
  round of \<open>flush_worker_logs\<close> ends, prints every entry that is queued (one that was refused by a full
  queue never was), the workers one after the other and each one's entries in the order they were logged,
  leaves all queues empty and touches nothing else.\<close>

theorem flush_worker_logs_drains:
  assumes "\<forall>w < NUM_WORKERS. q_ok (log_queue (workers s w))" and "\<forall>e \<in> set (queued s NUM_WORKERS). as_logged e"
  shows "\<exists>lines s'. flush_worker_logs s = Some (lines, s') \<and> map Some lines = map print_log_entry (queued s NUM_WORKERS) \<and>
    only_queues s s' \<and> (\<forall>w < NUM_WORKERS. q_ok (log_queue (workers s' w)) \<and> q_contents (log_queue (workers s' w)) = [])"
proof -
  have "\<forall>e \<in> set (queued s NUM_WORKERS). print_log_entry e \<noteq> None" using assms(2) logged_printable by blast
  from flush_drains [OF assms(1) this] show ?thesis by (auto simp: prints_def)
qed

definition sample_entry :: LogEntry where
  "sample_entry = new_entry LOG_TYPE_REQUEST_LST_MATCH_ALL (1, 2, 3) (pack_tags (\<lambda>_. 0) 0 [[98, 97]])"

definition sample_logged :: state where
  "sample_logged = (st (statics (\<lambda>_. 0) (\<lambda>_. 0)))\<lparr>workers := \<lambda>w. zero_worker\<lparr>log_queue :=
     (if w = 0 then snd (enqueue_log_entry (LOG_QUEUE_INIT (\<lambda>_. zero_log_entry)) sample_entry)
      else LOG_QUEUE_INIT (\<lambda>_. zero_log_entry))\<rparr>\<rparr>"

theorem flush_worker_logs_drains_witness:
  "\<exists>s'. flush_worker_logs sample_logged = Some ([(Some ''LST'', PTags ''ALL'' [[97, 98]])], s') \<and>
     q_contents (log_queue (workers s' 0)) = []"
proof -
  let ?q = "LOG_QUEUE_INIT (\<lambda>_. zero_log_entry)"
  obtain q' where q': "enqueue_log_entry ?q sample_entry = (True, q')" "q_ok q'" "q_contents q' = [sample_entry]"
    using lq.enq_ok [OF queue_init(1), of "\<lambda>_. zero_log_entry" sample_entry] queue_init(2) by auto
  have ok: "\<forall>w < NUM_WORKERS. q_ok (log_queue (workers sample_logged w))"
    using q' by (simp add: sample_logged_def queue_init)
  have "map (\<lambda>w. q_contents (log_queue (workers sample_logged w))) [0..<NUM_WORKERS] = [sample_entry] # replicate 15 []"
    using q' by (simp add: NUM_WORKERS_def upt_conv_Cons sample_logged_def queue_init eval_nat_numeral)
  then have qd: "queued sample_logged NUM_WORKERS = [sample_entry]" by (simp add: queued_def)
  have ty: "tags_log_type LOG_TYPE_REQUEST_LST_MATCH_ALL" by (simp add: tags_log_type_def)
  have fit: "fitting 0 [[98, 97]] = [[98, 97]]" "length (packed (fitting 0 [[98, 97]])) < sizeof_log_data"
    by (simp_all add: sizeof_log_data_def)
  have p: "print_log_entry sample_entry = Some (Some ''LST'', PTags ''ALL'' [[97, 98]])"
    using print_tags_entry [OF ty _ fit(2), of "(1, 2, 3)"] by (simp add: sample_entry_def fit(1) verb_def match_word_def printed_def del: fitting.simps pack_tags.simps)
  have "as_logged sample_entry"
    unfolding as_logged_def sample_entry_def
    by (rule disjI2, rule disjI2, rule exI, rule exI, rule exI [of _ "[[98, 97]]"]) (use ty fit in \<open>simp del: fitting.simps pack_tags.simps\<close>)
  then have "\<forall>e \<in> set (queued sample_logged NUM_WORKERS). as_logged e" by (simp add: qd)
  from flush_worker_logs_drains [OF ok this] obtain lines s' where "flush_worker_logs sample_logged = Some (lines, s')"
    "map Some lines = [print_log_entry sample_entry]" "\<forall>w < NUM_WORKERS. q_contents (log_queue (workers s' w)) = []"
    unfolding qd by auto
  then show ?thesis using p by (auto simp: NUM_WORKERS_def)
qed

end
