(* ===== verification/Cik_Clear_Props.thy ===== *)
theory Cik_Clear_Props
  imports Cik_Safe Cik_Serving_Props
begin

text \<open>
  What \<open>CLR\<close> does to the cache, in each of its five modes, from the client's bytes to the answer.
\<close>

section \<open>What is to go\<close>

text \<open>Whether a mode selects an entry. Tags are looked up in the entry when the request names the tags to keep,
  and in the index when it names those to clear.\<close>

definition clr_selects :: "ClearMode \<Rightarrow> tags \<Rightarrow> u8 list list \<Rightarrow> time_t \<Rightarrow> u8 list \<Rightarrow> CacheEntry \<Rightarrow> bool" where
  "clr_selects mode index tags now key e = (case mode of
     CLEAR_MODE_ALL \<Rightarrow> True
   | CLEAR_MODE_OLD \<Rightarrow> expires e \<noteq> CACHE_EXPIRES_INIT \<and> sint (expires e) < sint now
   | CLEAR_MODE_MATCH_NONE \<Rightarrow> set tags \<inter> set (e_tags e) = {}
   | CLEAR_MODE_MATCH_ALL \<Rightarrow> key \<in> all_keys index tags
   | CLEAR_MODE_MATCH_ANY \<Rightarrow> key \<in> any_keys index tags)"

text \<open>Afterwards no entry that is selected can be had any more (an older copy of its key neither), all others
  are what they were, and no key appears.\<close>

definition clr_post :: "(u8 list \<Rightarrow> CacheEntry \<Rightarrow> bool) \<Rightarrow> (u8 list \<rightharpoonup> CacheEntry) \<Rightarrow> (u8 list \<rightharpoonup> CacheEntry) \<Rightarrow> bool" where
  "clr_post sel C C' \<longleftrightarrow> (\<forall>key e. C' key = Some e \<longrightarrow> \<not> sel key e) \<and>
     (\<forall>key e. C key = Some e \<longrightarrow> \<not> sel key e \<longrightarrow> C' key = Some e) \<and> (\<forall>key. C key = None \<longrightarrow> C' key = None)"

lemma tags_match_iff: "tags_match wants haves \<longleftrightarrow> set wants \<inter> set haves \<noteq> {}"
proof -
  have "(length a = length b \<and> memcmp a b (length b) = 0) = (a = b)" for a b :: "u8 list"
    using memcmp_equal by metis
  then show ?thesis by (auto simp: tags_match_def list_ex_iff)
qed

section \<open>The walks\<close>

lemma stored_found:
  assumes inv: "sys_inv s" and a: "heap s a = Some e"
  shows "cache s (e_key e) \<noteq> None"
proof
  assume n: "cache s (e_key e) = None"
  have "a \<in> occupied s" using core_invD(4) [OF inv] a by blast
  then obtain i where i: "i < NUM_CACHE_ENTRY_MAPS" "a \<in> occupants (entry_maps s i)" by (auto simp: occupied_def)
  then have "map_for_key (e_key e) = i" using core_invD(3) [OF inv] a by (fastforce simp: maps_inv_def)
  moreover obtain p where p: "p < CACHE_ENTRY_MAP_SIZE" "mask (entry_maps s i) p" "entries (entry_maps s i) p = Some a"
    using i(2) by (auto simp: occupants_def)
  then have "slot_key (entry_maps s i) (heap s) p = Some (e_key e)" using a by (simp add: slot_key_def entry_key_def)
  ultimately have "entry_of s (e_key e) \<noteq> None" using p(1) by (auto simp: entry_of_def hm_abs_None find_key_None)
  then show False using n by (simp add: entry_of_None)
qed

lemma walk_post:
  assumes inv: "sys_inv s" and cb: "clears P cb d" and c: "current_client s = Some c" "worker (clients s c) = Some w"
  obtains s' where "walk_all_entries cb (s, d) = Some (s', d)" "sys_inv s'" "io_kept s s'" "loose s' = loose s"
    "clr_post (\<lambda>_. P) (cache s) (cache s')"
proof -
  obtain s' where s': "walk_all_entries cb (s, d) = Some (s', d)" "cleared P s s'"
    "\<And>a e. heap s' a = Some e \<Longrightarrow> heap s a = Some e \<and> \<not> P e" using walk_all_clears [OF cb inv c] by metis
  note C = clearedD [OF s'(2)]
  have Pu: "P (unlocked_entry e) = P e" for e using cb by (simp add: clears_def)
  have "\<not> P e \<and> cache s key \<noteq> None" if k: "cache s' key = Some e" for key e
  proof -
    obtain a where "entry_of s' key = Some a" using k entry_of_None [of s' key] by (cases "entry_of s' key") auto
    then obtain f where f: "heap s' a = Some f" "e_key f = key" "e = unlocked_entry f"
      using k by (auto elim!: entry_of_Some)
    then show ?thesis using s'(3) [of a f] Pu stored_found [OF inv] by auto
  qed
  then have "clr_post (\<lambda>_. P) (cache s) (cache s')" using C(6) unfolding clr_post_def by (metis not_None_eq)
  then show thesis using that s'(1) C(1-3) by blast
qed

section \<open>The keys that a query finds\<close>

lemma delete_keys_ok:
  assumes "sys_inv s" and "current_client s = Some c" "worker (clients s c) = Some w" and "\<forall>e \<in> set es. length (snd e) \<le> 255"
  shows "\<exists>s'. delete_keys s es = Some s' \<and> sys_inv s' \<and> io_kept s s' \<and> loose s' = loose s \<and> (indexed s \<longrightarrow> indexed s') \<and>
    cache s' = (\<lambda>key. if key \<in> snd ` set es then None else cache s key)"
  using assms
proof (induction es arbitrary: s)
  case (Cons e es)
  have "length (snd e) \<le> 255" using Cons.prems(4) by simp
  then obtain st1 s1 where s1: "delete_entry_by_key s (snd e) = Some (st1, s1)" "sys_inv s1" "cache s1 = (cache s)(snd e := None)"
    "io_kept s s1" "loose s1 = loose s" "indexed s \<Longrightarrow> indexed s1"
    by (rule delete_entry_ok [OF Cons.prems(1-3)]) blast
  have c1: "current_client s1 = Some c" "worker (clients s1 c) = Some w" using io_keptD [OF s1(4)] Cons.prems(2,3) by simp_all
  obtain s' where s': "delete_keys s1 es = Some s'" "sys_inv s'" "io_kept s1 s'" "loose s' = loose s1" "indexed s1 \<longrightarrow> indexed s'"
    "cache s' = (\<lambda>key. if key \<in> snd ` set es then None else cache s1 key)"
    using Cons.IH [OF s1(2) c1] Cons.prems(4) by auto
  have "cache s' = (\<lambda>key. if key \<in> snd ` set (e # es) then None else cache s key)" unfolding s'(6) s1(3) by auto
  then show ?case using s1 s' io_kept_trans [OF s1(4) s'(3)] by simp
qed simp

lemma query_ok:
  assumes inv: "sys_inv s" and rm: "room (mem s) (query_cost (tag_tree s) tags)"
  obtains keys m where "keys_matching b s tags = Some (keys, s\<lparr>mem := m\<rparr>)"
    "snd ` set keys = (if b then all_keys (tag_tree s) tags else any_keys (tag_tree s) tags)"
    "\<forall>e \<in> set keys. length (snd e) \<le> 255"
proof -
  note D = core_invD [OF inv]
  have rm: "room (mem s) (query_cost (tag_tree s) tags + 0)" using rm by simp
  obtain keys m where q: "(if b then get_keys_matching_all_tags (mem s) (tag_tree s) tags
      else get_keys_matching_any_tag (mem s) (tag_tree s) tags) = Some (keys, tag_tree s, m)"
    using matching_all_room [OF D(1,2) rm] matching_any_room [OF D(1,2) rm] by (cases b) auto
  have k: "snd ` set keys = (if b then all_keys (tag_tree s) tags else any_keys (tag_tree s) tags)"
    using q matching_all_spec [OF D(1,2), of tags keys] matching_any_room [OF D(1,2) rm] by (auto split: if_splits)
  have "length key \<le> 255" if "key \<in> all_keys (tag_tree s) tags \<union> any_keys (tag_tree s) tags" for key
    using that inv_keys_of(2) [OF D(2)] by (cases tags) (auto simp: all_keys_def any_keys_def)
  then have "\<forall>e \<in> set keys. length (snd e) \<le> 255" using k by (auto split: if_splits)
  moreover have "keys_matching b s tags = Some (keys, s\<lparr>mem := m\<rparr>)"
    using q by (simp add: keys_matching_def) 
  ultimately show thesis using that k by blast
qed

lemma query_deletes:
  assumes inv: "sys_inv s" and c: "current_client s = Some c" "worker (clients s c) = Some w"
    and rm: "room (mem s) (query_cost (tag_tree s) tags)"
  obtains keys s1 s2 s3 where "keys_matching b s tags = Some (keys, s1)" "delete_keys s1 keys = Some s2" "free_key_list s2 keys = Some s3"
    "sys_inv s3" "io_kept s s3" "loose s3 = loose s" "indexed s \<Longrightarrow> indexed s3"
    "cache s3 = (\<lambda>key. if key \<in> (if b then all_keys (tag_tree s) tags else any_keys (tag_tree s) tags) then None else cache s key)"
proof -
  obtain keys m where q: "keys_matching b s tags = Some (keys, s\<lparr>mem := m\<rparr>)"
    "snd ` set keys = (if b then all_keys (tag_tree s) tags else any_keys (tag_tree s) tags)"
    "\<forall>e \<in> set keys. length (snd e) \<le> 255" by (rule query_ok [OF inv rm])
  let ?s1 = "s\<lparr>mem := m\<rparr>"
  note L = lent_query [OF held_refl [where c = c, OF inv] q(1)]
  have inv1: "sys_inv ?s1" using L(1) by (simp add: lent_def)
  have c1: "current_client ?s1 = Some c" "worker (clients ?s1 c) = Some w" using c by simp_all
  obtain s2 where s2: "delete_keys ?s1 keys = Some s2" "io_kept ?s1 s2" "indexed ?s1 \<longrightarrow> indexed s2"
    "cache s2 = (\<lambda>key. if key \<in> snd ` set keys then None else cache ?s1 key)"
    using delete_keys_ok [OF inv1 c1 q(3)] by blast
  note L2 = lent_safe [OF L(1) held_delete_keys [OF held_refl [where c = c, OF inv1] s2(1)]]
  obtain m' where m': "free_key_list s2 keys = Some (s2\<lparr>mem := m'\<rparr>)" by (rule lent_release [OF L2 L(2)])
  note H = heldD [OF lent_return [OF L2 L(2) m']]
  have ca: "cache (x\<lparr>mem := n\<rparr>) = cache x" for x :: state and n by (rule ext) (simp add: cache_def entry_of_def)
  have ix: "indexed (x\<lparr>mem := n\<rparr>) = indexed x" for x :: state and n by (simp add: indexed_def ca)
  have io: "io_kept s (s2\<lparr>mem := m'\<rparr>)"
    using io_kept_trans [OF same_io_kept io_kept_trans [OF s2(2) same_io_kept], of s "s2\<lparr>mem := m'\<rparr>"] by (simp add: same_io_def)
  show thesis
    by (rule that [OF q(1) s2(1) m' H(1) io H(2)]) (use s2(3,4) in \<open>simp_all add: ca ix q(2) cong: if_cong\<close>)
qed

section \<open>The handler\<close>

text \<open>The tags of a \<open>CLR\<close> or \<open>LST\<close> request, as they arrive.\<close>

definition tags_arrive :: "state \<Rightarrow> nat \<Rightarrow> nat \<Rightarrow> Request \<Rightarrow> u8 list list \<Rightarrow> u8 list \<Rightarrow> bool" where
  "tags_arrive s c w r tags rest \<longleftrightarrow> worker (clients s c) = Some w \<and> worker_ready s w \<and> unread s c = tag_stream tags @ rest \<and>
     tags_ok tags \<and> length tags = unat (req_c_ntags r) \<and> sum_list (map length tags) \<le> MAX_BUCKET_SIZE"

lemma tags_arriveE:
  assumes "tags_arrive s c w r tags rest" and "sys_inv s"
  obtains refs s1 where "read_tags_using_payload_buffer s c (req_c_ntags r) = Some (STATUS_OK, refs, s1)"
    "tag_bytes (payload_data (payload_buffer (workers s1 w))) refs = tags" "quiet c s s1" "unread s1 c = rest" "clock s1 = clock s"
    "clock_calls s1 = clock_calls s"
proof -
  have t: "worker (clients s c) = Some w" "unread s c = tag_stream tags @ rest" "tags_ok tags" "length tags = unat (req_c_ntags r)"
    "sum_list (map length tags) \<le> unat (payload_cap (payload_buffer (workers s w)))"
    "tags \<noteq> [] \<longrightarrow> payload_base (payload_buffer (workers s w)) \<noteq> None"
    using assms(1) by (simp_all add: tags_arrive_def worker_ready_def MAX_BUCKET_SIZE_def)
  obtain refs d t' where r: "read_tags_using_payload_buffer s c (req_c_ntags r) = Some (STATUS_OK, refs,
      set_payload_nmemb w (of_nat (sum_list (map length tags))) (set_payload_data w d t'))"
    "read_to c rest s t'" "tag_bytes d refs = tags" by (rule read_tags_ok [OF t(2-4,1,5,6)])
  note R = read_toD [OF r(2)]
  show thesis
    by (rule that [OF r(1)]) (use r(3) read_tags_any(1) [OF r(1)] R in \<open>simp_all add: unread_def\<close>)
qed

text \<open>Once the tags have been read.\<close>

lemma clr_run:
  assumes "worker (clients s c) = Some w" and "read_tags_using_payload_buffer s c (req_c_ntags r) = Some (STATUS_OK, refs, s1)"
    and "to_ClearMode (req_c_mode r) = Some mode" and "s2 = upd_counters c (c_clr_update (\<lambda>n. n + 1)) s1"
    and "tag_bytes (payload_data (payload_buffer (workers s2 w))) refs = tags"
  shows "handle_clr_request s c r = (case mode of
        CLEAR_MODE_ALL \<Rightarrow> do {
          s3 \<leftarrow> log_with s2 c (\<lambda>q who. Some (log_request_clr_all q who));
          (s4, _) \<leftarrow> walk_all_entries clear_all_callback (s3, ());
          Some (STATUS_OK, s4)
        }
      | CLEAR_MODE_OLD \<Rightarrow> do {
          s4 \<leftarrow> log_with (snd (time_now s2)) c (\<lambda>q who. Some (log_request_clr_old q who));
          (s5, _) \<leftarrow> walk_all_entries clear_old_callback (s4, fst (time_now s2));
          Some (STATUS_OK, s5)
        }
      | CLEAR_MODE_MATCH_NONE \<Rightarrow> do {
          s3 \<leftarrow> log_with s2 c (\<lambda>q who. Some (log_request_clr_match_none q who tags));
          (s4, _) \<leftarrow> walk_all_entries clear_non_matching_callback (s3, tags);
          Some (STATUS_OK, s4)
        }
      | CLEAR_MODE_MATCH_ALL \<Rightarrow> do {
          s3 \<leftarrow> log_with s2 c (\<lambda>q who. Some (log_request_clr_match_all q who tags));
          (keys, s4) \<leftarrow> keys_matching True s3 tags;
          s5 \<leftarrow> delete_keys s4 keys;
          s6 \<leftarrow> free_key_list s5 keys;
          Some (STATUS_OK, s6)
        }
      | CLEAR_MODE_MATCH_ANY \<Rightarrow> do {
          s3 \<leftarrow> log_with s2 c (\<lambda>q who. Some (log_request_clr_match_any q who tags));
          (keys, s4) \<leftarrow> keys_matching False s3 tags;
          s5 \<leftarrow> delete_keys s4 keys;
          s6 \<leftarrow> free_key_list s5 keys;
          Some (STATUS_OK, s6)
        })"
  using assms by (simp add: handle_clr_request_def Let_def split_def split: ClearMode.split)

definition clr_done :: "nat \<Rightarrow> u8 list \<Rightarrow> ClearMode \<Rightarrow> u8 list list \<Rightarrow> state \<Rightarrow> state \<Rightarrow> bool" where
  "clr_done c rest mode tags s s' \<longleftrightarrow> sys_inv s' \<and> served c s s' \<and> bufs_kept s s' \<and> loose s' = loose s \<and> unread s' c = rest \<and>
     clr_post (clr_selects mode (tag_tree s) tags (clock s (clock_calls s))) (cache s) (cache s')"

text \<open>Between the log entry and the answer.\<close>

definition clr_begun :: "nat \<Rightarrow> nat \<Rightarrow> u8 list \<Rightarrow> state \<Rightarrow> state \<Rightarrow> bool" where
  "clr_begun c w rest s s3 \<longleftrightarrow> quiet c s s3 \<and> unread s3 c = rest \<and> sys_inv s \<and> current_client s = Some c \<and> worker (clients s c) = Some w"

lemma clr_begunD:
  assumes "clr_begun c w rest s s3"
  shows "sys_inv s3" "current_client s3 = Some c" "worker (clients s3 c) = Some w" "tag_tree s3 = tag_tree s" "mem s3 = mem s"
    "cache s3 = cache s" "quiet c s s3" "unread s3 c = rest"
  using assms quietD [of c s s3] by (simp_all add: same_core_def clr_begun_def)

lemma clr_logged:
  assumes "clr_begun c w rest s t"
  obtains s3 where "log_with t c (\<lambda>q who. Some (f q who)) = Some s3" "clr_begun c w rest s s3"
proof -
  note B = clr_begunD [OF assms]
  from log_with_ok [OF B(3), of "\<lambda>q who. Some (f q who)"]
  obtain s3 where l: "log_with t c (\<lambda>q who. Some (f q who)) = Some s3" "io_kept t s3" by blast
  moreover have "quiet c s s3" by (rule quiet_trans [OF B(7) log_with_any [OF l(1)]])
  moreover have "unread s3 c = rest" using B(8) unread_cong [OF io_keptD(1) [OF l(2)]] by simp
  ultimately show thesis using that assms by (simp add: clr_begun_def)
qed

lemma clr_finish:
  assumes b: "clr_begun c w rest s s3" and s4: "sys_inv s4" "io_kept s3 s4" "loose s4 = loose s3"
    and p: "clr_post (clr_selects mode (tag_tree s) tags (clock s (clock_calls s))) (cache s3) (cache s4)"
  shows "clr_done c rest mode tags s s4"
proof -
  note B = clr_begunD [OF b]
  note Q = quietD [OF B(7)]
  have "served c s s4" by (rule served_trans [OF Q(2) served_eq [OF io_keptD(1) [OF s4(2)]]])
  moreover have "bufs_kept s s4" by (rule bufs_kept_trans [OF Q(3) bufs_kept_io [OF s4(2)]])
  moreover have "unread s4 c = rest" using B(8) unread_cong [OF io_keptD(1) [OF s4(2)]] by simp
  ultimately show ?thesis using s4 Q(8) p B(6) by (simp add: clr_done_def)
qed

lemma clr_walk:
  assumes b: "clr_begun c w rest s s3" and cb: "clears P cb d"
    and P: "clr_selects mode (tag_tree s) tags (clock s (clock_calls s)) = (\<lambda>_. P)"
  obtains s4 where "walk_all_entries cb (s3, d) = Some (s4, d)" "clr_done c rest mode tags s s4"
proof -
  note B = clr_begunD [OF b]
  obtain s4 where s4: "walk_all_entries cb (s3, d) = Some (s4, d)" "sys_inv s4" "io_kept s3 s4" "loose s4 = loose s3"
    "clr_post (\<lambda>_. P) (cache s3) (cache s4)" by (rule walk_post [OF B(1) cb B(2,3)])
  show thesis by (rule that [OF s4(1) clr_finish [OF b s4(2-4)]]) (use s4(5) in \<open>simp add: P\<close>)
qed

lemma clr_query:
  assumes b: "clr_begun c w rest s s3" and rm: "room (mem s) (query_cost (tag_tree s) tags)"
    and P: "\<And>key e. clr_selects mode (tag_tree s) tags (clock s (clock_calls s)) key e \<longleftrightarrow>
      key \<in> (if every then all_keys (tag_tree s) tags else any_keys (tag_tree s) tags)"
  obtains keys s4 s5 s6 where "keys_matching every s3 tags = Some (keys, s4)" "delete_keys s4 keys = Some s5"
    "free_key_list s5 keys = Some s6" "clr_done c rest mode tags s s6"
proof -
  note B = clr_begunD [OF b]
  have rm3: "room (mem s3) (query_cost (tag_tree s3) tags)" using rm B(4,5) by simp
  obtain keys s4 s5 s6 where d: "keys_matching every s3 tags = Some (keys, s4)" "delete_keys s4 keys = Some s5"
    "free_key_list s5 keys = Some s6" "sys_inv s6" "io_kept s3 s6" "loose s6 = loose s3"
    "cache s6 = (\<lambda>key. if key \<in> (if every then all_keys (tag_tree s3) tags else any_keys (tag_tree s3) tags) then None else cache s3 key)"
    by (rule query_deletes [OF B(1-3) rm3, of every]) blast
  show thesis
    by (rule that [OF d(1-3) clr_finish [OF b d(4-6)]]) (use d(7) P in \<open>auto simp: clr_post_def B(4) split: if_splits\<close>)
qed

lemma clr_ok:
  assumes inv: "sys_inv s" and cc: "current_client s = Some c" and t: "tags_arrive s c w r tags rest"
    and m: "to_ClearMode (req_c_mode r) = Some mode"
    and rm: "mode \<in> {CLEAR_MODE_MATCH_ALL, CLEAR_MODE_MATCH_ANY} \<Longrightarrow> room (mem s) (query_cost (tag_tree s) tags)"
  shows "\<exists>s'. handle_clr_request s c r = Some (STATUS_OK, s') \<and> clr_done c rest mode tags s s'"
proof -
  have w: "worker (clients s c) = Some w" using t by (simp add: tags_arrive_def)
  obtain refs s1 where s1: "read_tags_using_payload_buffer s c (req_c_ntags r) = Some (STATUS_OK, refs, s1)"
    "tag_bytes (payload_data (payload_buffer (workers s1 w))) refs = tags" "quiet c s s1" "unread s1 c = rest" "clock s1 = clock s"
    "clock_calls s1 = clock_calls s" by (rule tags_arriveE [OF t inv])
  define s2 where "s2 = upd_counters c (c_clr_update (\<lambda>n. n + 1)) s1"
  have tb: "tag_bytes (payload_data (payload_buffer (workers s2 w))) refs = tags" using s1(2) by (simp add: s2_def upd_counters_def)
  note run = clr_run [OF w s1(1) m s2_def tb]
  have b2: "clr_begun c w rest s s2" using quiet_trans [OF s1(3) quiet_counters] s1(4) inv cc w
    by (simp add: clr_begun_def s2_def upd_counters_def upd_client_def unread_def)
  then have b2': "clr_begun c w rest s (snd (time_now s2))"
    using quiet_trans [OF _ quiet_clock] by (simp add: clr_begun_def time_now_def unread_def)
  have now: "fst (time_now s2) = clock s (clock_calls s)"
    using s1(5,6) by (simp add: time_now_def s2_def upd_counters_def upd_client_def)
  show ?thesis
  proof (cases mode)
    case CLEAR_MODE_ALL
    obtain s3 where s3: "log_with s2 c (\<lambda>q who. Some (log_request_clr_all q who)) = Some s3" "clr_begun c w rest s s3"
      by (rule clr_logged [OF b2])
    show ?thesis
      by (rule clr_walk [OF s3(2) clears_callbacks(1) [of "()"], of mode tags])
        (use run s3(1) in \<open>auto simp: CLEAR_MODE_ALL clr_selects_def fun_eq_iff\<close>)
  next
    case CLEAR_MODE_MATCH_NONE
    obtain s3 where s3: "log_with s2 c (\<lambda>q who. Some (log_request_clr_match_none q who tags)) = Some s3" "clr_begun c w rest s s3"
      by (rule clr_logged [OF b2])
    show ?thesis
      by (rule clr_walk [OF s3(2) clears_callbacks(3) [of tags], of mode tags])
        (use run s3(1) in \<open>auto simp: CLEAR_MODE_MATCH_NONE clr_selects_def fun_eq_iff tags_match_iff\<close>)
  next
    case CLEAR_MODE_MATCH_ALL
    obtain s3 where s3: "log_with s2 c (\<lambda>q who. Some (log_request_clr_match_all q who tags)) = Some s3" "clr_begun c w rest s s3"
      by (rule clr_logged [OF b2])
    show ?thesis
      by (rule clr_query [OF s3(2), of tags mode True]) (use rm run s3(1) in \<open>simp_all add: CLEAR_MODE_MATCH_ALL clr_selects_def\<close>)
  next
    case CLEAR_MODE_MATCH_ANY
    obtain s3 where s3: "log_with s2 c (\<lambda>q who. Some (log_request_clr_match_any q who tags)) = Some s3" "clr_begun c w rest s s3"
      by (rule clr_logged [OF b2])
    show ?thesis
      by (rule clr_query [OF s3(2), of tags mode False]) (use rm run s3(1) in \<open>simp_all add: CLEAR_MODE_MATCH_ANY clr_selects_def\<close>)
  next
    case CLEAR_MODE_OLD
    obtain s3 where s3: "log_with (snd (time_now s2)) c (\<lambda>q who. Some (log_request_clr_old q who)) = Some s3" "clr_begun c w rest s s3"
      by (rule clr_logged [OF b2'])
    show ?thesis
      by (rule clr_walk [OF s3(2) clears_callbacks(2), of mode tags])
        (use run s3(1) now in \<open>auto simp: CLEAR_MODE_OLD clr_selects_def fun_eq_iff\<close>)
  qed
qed

section \<open>On the wire\<close>

lemma clr_served:
  assumes inv: "sys_inv (st sv)" and w: "worker (clients (st sv) c) = Some w" "worker_ready (st sv) w"
    and r: "request_ok CMD_BYTE_CLR r" "to_ClearMode (req_c_mode r) = Some mode"
    and str: "unread (st sv) c = r @ tag_stream tags @ rest" "tags_ok tags" "length tags = unat (req_c_ntags r)"
      "sum_list (map length tags) \<le> MAX_BUCKET_SIZE"
    and rm: "mode \<in> {CLEAR_MODE_MATCH_ALL, CLEAR_MODE_MATCH_ANY} \<Longrightarrow> room (mem (st sv)) (query_cost (tag_tree (st sv)) tags)"
    and will: "willing (accepting (sock (clients (st sv) c))) (8 + n)"
  shows "\<exists>s'. process_request c sv = Some (sv\<lparr>st := s'\<rparr>) \<and> sys_inv s' \<and> loose s' = loose (st sv) \<and> bufs_kept (st sv) s' \<and>
    clr_post (clr_selects mode (tag_tree (st sv)) tags (clock (st sv) (clock_calls (st sv)))) (cache (st sv)) (cache s') \<and>
    talked c (reply STATUS_OK []) rest (st sv) s' \<and> willing (accepting (sock (clients s' c))) n"
proof -
  let ?s = "st sv"
  have R: "length r = sizeof_Request" "req_cik r = [CONTROL_BYTE_1, CONTROL_BYTE_2, CONTROL_BYTE_3]" "req_op r = CMD_BYTE_CLR"
    using r by (simp_all add: request_ok_def)
  obtain s1 start where s1: "arrived c (tag_stream tags @ rest) ?s s1" "current_client s1 = Some c"
    "process_request c sv = Option.bind (dispatch w c start r s1) (conclude c sv)"
    using request_received [of sv c r "tag_stream tags @ rest" w] str(1) R(1,2) w(1) by metis
  note A = arrivedD [OF s1(1)]
  have inv1: "sys_inv s1" using same_core_inv [OF A(1)] inv by simp
  have core1: "mem s1 = mem ?s" "tag_tree s1 = tag_tree ?s" using A(1) by (simp_all add: same_core_def)
  have t: "tags_arrive s1 c w r tags rest"
    using A(2,5,6) w str(2-4) by (simp add: tags_arrive_def worker_ready_def)
  obtain s2 where h: "handle_clr_request s1 c r = Some (STATUS_OK, s2)" "clr_done c rest mode tags s1 s2"
    using clr_ok [OF inv1 s1(2) t r(2)] rm core1 by auto
  then have d: "sys_inv s2" "served c s1 s2" "bufs_kept s1 s2" "loose s2 = loose s1" "unread s2 c = rest"
    "clr_post (clr_selects mode (tag_tree ?s) tags (clock ?s (clock_calls ?s))) (cache ?s) (cache s2)"
    using A(3,4) core1 same_core_cache [OF A(1)] by (simp_all add: clr_done_def)
  have run: "process_request c sv = conclude c sv (STATUS_OK, NullPayload, account w start t_clr_update n_clr_update s2)"
    using s1(3) h(1) by (simp add: dispatch_def R(3) command_byte_defs)
  have st: "\<not> closes_connection STATUS_OK" by (simp add: closes_connection_iff)
  have will': "willing (accepting (sock (clients ?s c))) (length (reply STATUS_OK []) + n)" using will by (simp add: reply_def)
  obtain s3 where s3: "process_request c sv = Some (sv\<lparr>st := s3\<rparr>)" "same_core s2 s3" "bufs_kept ?s s3"
    "talked c (reply STATUS_OK []) (unread s2 c) ?s s3" "willing (accepting (sock (clients s3 c))) n"
    by (rule plain_served [OF s1(1) w(1) d(2,3) st run will']) blast
  have "loose s3 = loose ?s" using s3(2) d(4) A(1) by (simp add: loose_def same_core_def)
  then show ?thesis
    using s3 d same_core_inv [OF s3(2)] same_core_cache [OF s3(2)] by (intro exI [of _ s3]) simp
qed

text \<open>With an index that is complete, clearing by any tag leaves no entry with one of the tags.\<close>

lemma match_any_clears_tags:
  assumes "indexed s" and "clr_post (clr_selects CLEAR_MODE_MATCH_ANY (tag_tree s) tags now) (cache s) C" and "C key = Some e"
    and "cache s key = Some e"
  shows "set tags \<inter> set (e_tags e) = {}"
proof -
  have "key \<notin> any_keys (tag_tree s) tags" using assms(2,3) by (auto simp: clr_post_def clr_selects_def)
  then show ?thesis using assms(1,4) by (auto simp: indexed_def any_keys_def)
qed

section \<open>Properties\<close>

text \<open>C7. \<open>CLR\<close> on the wire, in every mode: all entries, those that have expired, those with none of the
  tags, and those that the index lists under all or any of the tags can no longer be had; every other entry is as
  before, no key appears, nothing leaks, and the answer is success. (With a complete index, what is left
  after clearing by any tag has none of the tags.) For the last two modes the allocator has the blocks for the
  copies of the keys that the query makes.\<close>

theorem clr_request_correct:
  assumes "sys_inv (st sv)" and "worker (clients (st sv) c) = Some w" "worker_ready (st sv) w"
    and "request_ok CMD_BYTE_CLR r" "to_ClearMode (req_c_mode r) = Some mode"
    and "unread (st sv) c = r @ tag_stream tags @ rest" "tags_ok tags" "length tags = unat (req_c_ntags r)"
      "sum_list (map length tags) \<le> MAX_BUCKET_SIZE"
    and "mode \<in> {CLEAR_MODE_MATCH_ALL, CLEAR_MODE_MATCH_ANY} \<Longrightarrow> room (mem (st sv)) (query_cost (tag_tree (st sv)) tags)"
    and "willing (accepting (sock (clients (st sv) c))) (8 + n)"
  shows "\<exists>s'. process_request c sv = Some (sv\<lparr>st := s'\<rparr>) \<and> sys_inv s' \<and> loose s' = loose (st sv) \<and> bufs_kept (st sv) s' \<and>
    clr_post (clr_selects mode (tag_tree (st sv)) tags (clock (st sv) (clock_calls (st sv)))) (cache (st sv)) (cache s') \<and>
    (indexed (st sv) \<longrightarrow> mode = CLEAR_MODE_MATCH_ANY \<longrightarrow>
      (\<forall>key e. cache s' key = Some e \<longrightarrow> cache (st sv) key = Some e \<longrightarrow> set tags \<inter> set (e_tags e) = {})) \<and>
    talked c (reply STATUS_OK []) rest (st sv) s' \<and> willing (accepting (sock (clients s' c))) n"
  using clr_served [OF assms] match_any_clears_tags by blast

text \<open>\<open>CLR\<close> of all entries.\<close>

definition sample_clr :: Request where
  "sample_clr = [0x43, 0x69, 0x4B, 0x63, 0, 0, 0, 0, 0, 0, 0, 0, 0, 0, 0, 0]"

theorem clr_request_correct_witness:
  "\<exists>sv s' s''. sample_server (sample_set @ [7] @ [1, 9] @ [1, 2] @ sample_clr) = Some sv \<and>
     process_request 0 sv = Some (sv\<lparr>st := s'\<rparr>) \<and> cache s' [7] \<noteq> None \<and>
     process_request 0 (sv\<lparr>st := s'\<rparr>) = Some (sv\<lparr>st := s''\<rparr>) \<and> cache s'' = Map.empty"
proof -
  let ?bs = "sample_set @ [7] @ [1, 9] @ [1, 2] @ sample_clr"
  obtain sv where sv: "sample_server ?bs = Some sv" "sys_inv (st sv)" "room (mem (st sv)) 6000000"
    "worker (clients (st sv) 0) = Some 0" "worker_ready (st sv) 0" "unread (st sv) 0 = ?bs"
    "willing (accepting (sock (clients (st sv) 0))) (8 + (8 + 0))" "\<not> map_full (st sv) [7]"
    by (rule sample_server_ok [of ?bs "8 + (8 + 0)" "[7]"]) simp
  have rm: "room (mem (st sv)) (2 * length [[9 :: u8]] + BIG)" by (rule bmem.room_mono [OF sv(3)]) (simp add: BIG_def)
  have str: "unread (st sv) 0 = sample_set @ rev [7] @ tag_stream [[9]] @ [1, 2] @ sample_clr" using sv(6) by simp
  define e where "e = set_entry sample_set [7] [[9]] [1, 2] (clock (st sv) (clock_calls (st sv) + 1))"
  obtain s' where s': "process_request 0 sv = Some (sv\<lparr>st := s'\<rparr>)" "sys_inv s'" "bufs_kept (st sv) s'"
    "talked 0 (reply STATUS_OK []) (sample_clr) (st sv) s'" "willing (accepting (sock (clients s' 0))) (8 + 0)"
    "cache s' = (cache (st sv))([7] \<mapsto> e)"
    using set_served [OF sv(2,4,5) sample_requests(4) str rm sv(7)] sv(8) unfolding e_def by blast
  let ?sv = "sv\<lparr>st := s'\<rparr>"
  have w: "worker (clients (st ?sv) 0) = Some 0" "worker_ready (st ?sv) 0" "unread (st ?sv) 0 = sample_clr @ tag_stream [] @ []"
    using s'(4) sv(4,5) worker_ready_kept [OF s'(3)] by (simp_all add: talked_def)
  have r: "request_ok CMD_BYTE_CLR sample_clr" "to_ClearMode (req_c_mode sample_clr) = Some CLEAR_MODE_ALL"
    "length ([] :: u8 list list) = unat (req_c_ntags sample_clr)" "tags_ok []" "sum_list (map length ([] :: u8 list list)) \<le> MAX_BUCKET_SIZE"
    by (simp_all add: request_ok_def sample_clr_def sample_request_defs to_ClearMode_def tags_ok_def MAX_BUCKET_SIZE_def)
  obtain s'' where s'': "process_request 0 ?sv = Some (?sv\<lparr>st := s''\<rparr>)"
    "clr_post (clr_selects CLEAR_MODE_ALL (tag_tree s') [] (clock s' (clock_calls s'))) (cache s') (cache s'')"
    using clr_request_correct [of ?sv 0 0 sample_clr CLEAR_MODE_ALL "[]" "[]" 0] s'(2,5) w r by auto
  then have "cache s'' key = None" for key by (cases "cache s'' key") (auto simp: clr_post_def clr_selects_def)
  then have "cache s'' = Map.empty" by (rule ext)
  then show ?thesis using sv(1) s'(1,6) s''(1) by auto
qed

end
