(* ===== verification/Cik_List_Props.thy ===== *)
theory Cik_List_Props
  imports Cik_Clear_Props
begin

text \<open>
  What \<open>LST\<close> answers: the names it lists, each behind its length and reversed as on the wire, as many as
  the worker's buffer takes.
\<close>

section \<open>Filling the buffer\<close>

text \<open>The names that fit, one after the other, into \<open>n\<close> bytes; the first that does not ends the list.\<close>

fun fitting :: "nat \<Rightarrow> u8 list list \<Rightarrow> u8 list list" where
  "fitting n [] = []"
| "fitting n (x # xs) = (if 1 + length x \<le> n then x # fitting (n - 1 - length x) xs else [])"

lemma fitting_snoc:
  "fitting n (xs @ [x]) = (if fitting n xs = xs \<and> length (tag_stream xs) + 1 + length x \<le> n then xs @ [x] else fitting n xs)"
  by (induction n xs rule: fitting.induct) auto

lemma fitting_length: "length (tag_stream (fitting n xs)) \<le> n"
  by (induction n xs rule: fitting.induct) auto

lemma fitting_shorter: "fitting n xs \<noteq> xs @ [x]"
proof -
  have "length (fitting n xs) \<le> length xs" by (induction n xs rule: fitting.induct) auto
  then show ?thesis by auto
qed

definition listed :: "u8 list list \<Rightarrow> list_data \<Rightarrow> bool" where
  "listed names d \<longleftrightarrow> l_base d = 0 \<and> l_cap d = of_nat MAX_BUCKET_SIZE \<and>
     (let bs = tag_stream (fitting MAX_BUCKET_SIZE names)
      in unat (l_nmemb d) = length bs \<and> load_bytes (l_buf d) 0 (length bs) = bs) \<and>
     l_status d = (if fitting MAX_BUCKET_SIZE names = names then STATUS_OK else STATUS_OUT_OF_MEMORY)"

lemma store_bytes_over: "length xs = length ys \<Longrightarrow> store_bytes (store_bytes f off xs) off ys = store_bytes f off ys"
  by (simp add: store_bytes_def fun_eq_iff)

text \<open>What every one of the loops does with a name.\<close>

definition list_step :: "u8 list \<Rightarrow> list_data \<Rightarrow> list_data option" where
  "list_step name d = (if l_status d \<noteq> STATUS_OK then Some d else put_name d name)"

lemma put_name_fits:
  assumes "l_base d = 0" "l_cap d = of_nat MAX_BUCKET_SIZE" "name_fine name" "unat (l_nmemb d) \<le> MAX_BUCKET_SIZE"
    and fit: "unat (l_nmemb d) + 1 + length name \<le> MAX_BUCKET_SIZE"
  obtains d' where "put_name d name = Some d'" "l_base d' = 0" "l_cap d' = l_cap d" "l_status d' = l_status d"
    "unat (l_nmemb d') = unat (l_nmemb d) + 1 + length name"
    "load_bytes (l_buf d') 0 (unat (l_nmemb d) + (1 + length name)) =
       load_bytes (l_buf d) 0 (unat (l_nmemb d)) @ (of_nat (length name) # rev name)"
proof -
  let ?n = "unat (l_nmemb d)"
  have len: "1 \<le> length name" "length name \<le> 255" using assms(3) by (cases name; simp add: name_fine_def)+
  have n1: "unat (l_nmemb d + 1) = ?n + 1" using fit by (simp add: unat_word_ariths MAX_BUCKET_SIZE_def)
  have n2: "unat (l_nmemb d + 1 + of_nat (length name)) = ?n + 1 + length name"
    using fit by (simp add: unat_word_ariths MAX_BUCKET_SIZE_def unat_of_nat n1 [unfolded unat_word_ariths])
  have cap: "unat (l_cap d) = MAX_BUCKET_SIZE" by (simp add: assms(2) MAX_BUCKET_SIZE_def)
  have roomy: "\<not> l_nmemb d + 1 + of_nat (length name) > l_cap d" using n2 cap fit by (simp add: word_less_nat_alt)
  have w: "unat (of_nat (length name) :: u32) = length name" using len(2) by (simp add: unat_of_nat)
  have pos: "0 < (of_nat (length name) :: u32)" using w len(1) by (auto simp: word_less_nat_alt)
  define b1 where "b1 = (l_buf d)(?n := of_nat (length name))"
  have rv: "reverse_bytes (unat (l_cap d)) (store_bytes b1 (?n + 1) name) (?n + 1) (of_nat (length name)) =
      Some (store_bytes b1 (?n + 1) (rev name))"
    using reverse_bytes_eq [OF pos, of "?n + 1" "unat (l_cap d)" "store_bytes b1 (?n + 1) name"] w fit cap
    by (simp add: load_store_same store_bytes_over)
  let ?d = "d\<lparr>l_buf := store_bytes b1 (?n + 1) (rev name), l_nmemb := l_nmemb d + 1 + of_nat (length name)\<rparr>"
  have p: "put_name d name = Some ?d"
    using roomy rv n1 assms(1) by (simp add: put_name_def Let_def b1_def)
  have "load_bytes (store_bytes b1 (?n + 1) (rev name)) 0 (?n + (1 + length name)) =
      load_bytes (l_buf d) 0 ?n @ (of_nat (length name) # rev name)"
  proof (rule nth_equalityI)
    fix i
    assume i: "i < length (load_bytes (store_bytes b1 (?n + 1) (rev name)) 0 (?n + (1 + length name)))"
    consider "i < ?n" | "i = ?n" | j where "i = Suc (?n + j)" using less_imp_Suc_add linorder_neqE_nat by blast
    then show "load_bytes (store_bytes b1 (?n + 1) (rev name)) 0 (?n + (1 + length name)) ! i =
        (load_bytes (l_buf d) 0 ?n @ (of_nat (length name) # rev name)) ! i"
      using i by cases (simp_all add: nth_append b1_def store_bytes_def)
  qed simp
  then show thesis using that [OF p] assms(1) n2 by simp
qed

lemma list_step_ok:
  assumes l: "listed names d" and n: "name_fine name"
  obtains d' where "list_step name d = Some d'" "listed (names @ [name]) d'"
proof -
  let ?fit = "fitting MAX_BUCKET_SIZE names" and ?bs = "tag_stream (fitting MAX_BUCKET_SIZE names)"
  have d: "l_base d = 0" "l_cap d = of_nat MAX_BUCKET_SIZE" "unat (l_nmemb d) = length ?bs" "load_bytes (l_buf d) 0 (length ?bs) = ?bs"
    "l_status d = (if ?fit = names then STATUS_OK else STATUS_OUT_OF_MEMORY)"
    using l by (simp_all add: listed_def Let_def)
  have le: "length ?bs \<le> MAX_BUCKET_SIZE" by (rule fitting_length)
  show thesis
  proof (cases "?fit = names")
    case False
    then show ?thesis using l that [of d] by (auto simp: list_step_def listed_def Let_def fitting_snoc fitting_shorter)
  next
    case fit: True
    then have step: "list_step name d = put_name d name" using d(5) by (simp add: list_step_def)
    show ?thesis
    proof (cases "length ?bs + 1 + length name \<le> MAX_BUCKET_SIZE")
      case True
      then obtain d' where d': "put_name d name = Some d'" "l_base d' = 0" "l_cap d' = l_cap d" "l_status d' = l_status d"
        "unat (l_nmemb d') = length ?bs + 1 + length name"
        "load_bytes (l_buf d') 0 (length ?bs + (1 + length name)) = load_bytes (l_buf d) 0 (length ?bs) @ (of_nat (length name) # rev name)"
        using put_name_fits [OF d(1,2) n, unfolded d(3), OF le] by blast
      have f: "fitting MAX_BUCKET_SIZE (names @ [name]) = names @ [name]" using True fit by (simp add: fitting_snoc)
      have "tag_stream (names @ [name]) = ?bs @ (of_nat (length name) # rev name)" by (simp add: fit tag_stream_def)
      then have "listed (names @ [name]) d'"
        using d' d(2,4,5) fit by (simp add: listed_def Let_def f)
      then show ?thesis using that step d'(1) by simp
    next
      case False
      have len: "length name \<le> 255" using n by (simp add: name_fine_def)
      have n2: "unat (l_nmemb d + 1 + of_nat (length name)) = length ?bs + 1 + length name"
        using le len d(3) by (simp add: unat_word_ariths MAX_BUCKET_SIZE_def unat_of_nat)
      have "unat (l_cap d) = MAX_BUCKET_SIZE" by (simp add: d(2) MAX_BUCKET_SIZE_def)
      then have "l_nmemb d + 1 + of_nat (length name) > l_cap d" using n2 False by (simp add: word_less_nat_alt)
      then have p: "put_name d name = Some (d\<lparr>l_status := STATUS_OUT_OF_MEMORY\<rparr>)" by (simp add: put_name_def)
      have f: "fitting MAX_BUCKET_SIZE (names @ [name]) = names" using False fit by (simp add: fitting_snoc)
      have "listed (names @ [name]) (d\<lparr>l_status := STATUS_OUT_OF_MEMORY\<rparr>)"
        using d fit by (simp add: listed_def Let_def f)
      then show ?thesis using that step p by simp
    qed
  qed
qed

lemma list_steps_ok:
  assumes "listed names d" and "\<forall>name \<in> set new. name_fine name"
  shows "\<exists>d'. fold_opt list_step new d = Some d' \<and> listed (names @ new) d'"
  using assms
proof (induction new arbitrary: names d)
  case (Cons x xs)
  have "name_fine x" using Cons.prems(2) by simp
  from list_step_ok [OF Cons.prems(1) this] obtain d1 where d1: "list_step x d = Some d1" "listed (names @ [x]) d1" .
  from Cons.IH [OF d1(2)] Cons.prems(2) d1(1) show ?case by simp
qed simp

lemma listed_open:
  assumes "worker_ready s w"
  shows "listed [] (open_list s w)"
  using assms by (simp add: listed_def open_list_def worker_ready_def Let_def)

lemma list_keys_loop_eq: "l_status d = STATUS_OK \<or> es = [] \<Longrightarrow> list_keys_loop es d = fold_opt list_step (map snd es) d"
proof (induction es arbitrary: d)
  case (Cons e es)
  have skip: "fold_opt list_step xs x = Some x" if "l_status x \<noteq> STATUS_OK" for xs x
    using that by (induction xs) (simp_all add: list_step_def)
  have s: "list_step (snd e) d = put_name d (snd e)" using Cons.prems by (simp add: list_step_def)
  show ?case
  proof (cases "put_name d (snd e)")
    case (Some d')
    then show ?thesis using Cons.IH [of d'] s skip [of d'] by (cases "l_status d' = STATUS_OK") auto
  qed (simp add: s)
qed simp

section \<open>Walking the maps\<close>

lemma walk_entries_show:
  assumes ok: "hm_ok (m, h)"
    and cb: "\<And>as a e u. h a = Some e \<Longrightarrow> I as u \<Longrightarrow>
      \<exists>u'. callback a (set_guard True a h) u = Some (False, set_guard True a h, u') \<and> I (as @ [a]) u'"
    and "I [] u"
  shows "\<exists>u'. walk_entries callback (m, h, u) = Some (m, h, u') \<and> I (slot_entries m) u'"
proof -
  have mok: "map_ok m h" and un: "unlocked h (occupants m)" using ok by (auto simp: hm_ok_def)
  let ?J = "\<lambda>p s. \<exists>u'. s = (m, h, u') \<and> I (entries_upto m p) u'"
  have "\<exists>s'. walk_step callback p s = Some s' \<and> ?J (Suc p) s'" if p: "p < CACHE_ENTRY_MAP_SIZE" and J: "?J p s" for p s
  proof -
    obtain u' where s: "s = (m, h, u')" "I (entries_upto m p) u'" using J by blast
    show ?thesis
    proof (cases "mask m p")
      case False
      then show ?thesis using slot_relock' [OF mok p] s by (simp add: walk_step_def)
    next
      case True
      then obtain a e where ae: "entries m p = Some a" "h a = Some e" using map_okD(2) [OF mok p] by auto
      then have occ: "a \<in> occupants m" using p True by (auto simp: occupants_def)
      then have ng: "\<not> guard e" using un ae by (auto simp: unlocked_def)
      obtain u2 where "callback a (set_guard True a h) u' = Some (False, set_guard True a h, u2)" "I (entries_upto m p @ [a]) u2"
        using cb [OF ae(2) s(2)] by blast
      then show ?thesis
        using ng slot_relock' [OF mok p] s True ae relock_id [OF un occ]
        by (simp add: walk_step_def LOCK_ENTRY_eq set_guard_same UNLOCK_ENTRY_eq [where e = "e\<lparr>guard := True\<rparr>"])
    qed
  qed
  from walk_entries_rule [of ?J callback, OF this, of "(m, h, u)"] assms(3) show ?thesis
    by (auto simp: slot_entries_def)
qed

definition keys_in_map :: "state \<Rightarrow> nat \<Rightarrow> u8 list list" where
  "keys_in_map s i = map (\<lambda>a. e_key (the (heap s a))) (slot_entries (entry_maps s i))"

text \<open>The keys of all entries, map after map, slot after slot.\<close>

definition stored_keys :: "state \<Rightarrow> u8 list list" where
  "stored_keys s = concat (map (keys_in_map s) [0..<NUM_CACHE_ENTRY_MAPS])"

lemma list_map:
  assumes inv: "sys_inv s" and i: "i < NUM_CACHE_ENTRY_MAPS" and l: "listed names d"
  obtains d' where "walk_map list_all_keys_callback i (s, d) = Some (s, d')" "listed (names @ keys_in_map s i) d'"
proof -
  let ?wcb = "\<lambda>a h (s, d). do { (b, s', d') \<leftarrow> list_all_keys_callback a (s\<lparr>heap := h\<rparr>, d); Some (b, heap s', s', d') }"
  define I :: "addr list \<Rightarrow> state \<times> list_data \<Rightarrow> bool" where
    "I = (\<lambda>as (sx, d). sx\<lparr>heap := heap s\<rparr> = s \<and> listed (names @ map (\<lambda>a. e_key (the (heap s a))) as) d)"
  have ok: "hm_ok (entry_maps s i, heap s)" by (rule hm_ok_map [OF inv i]) simp
  have step: "\<exists>u'. ?wcb a (set_guard True a (heap s)) u = Some (False, set_guard True a (heap s), u') \<and> I (as @ [a]) u'"
    if a: "heap s a = Some e" and u: "I as u" for as a e u
  proof -
    obtain sx d where u0: "u = (sx, d)" "sx\<lparr>heap := heap s\<rparr> = s" "listed (names @ map (\<lambda>a. e_key (the (heap s a))) as) d"
      using u by (cases u) (auto simp: I_def)
    have "name_fine (e_key e)" by (rule fine_names(1) [OF core_invD(7) [OF inv a]])
    from list_step_ok [OF u0(3) this] obtain d' where d': "list_step (e_key e) d = Some d'"
      "listed ((names @ map (\<lambda>a. e_key (the (heap s a))) as) @ [e_key e]) d'" .
    have "set_guard True a (heap s) a = Some (e\<lparr>guard := True\<rparr>)" using a by (simp add: set_guard_same)
    then have "list_all_keys_callback a (sx\<lparr>heap := set_guard True a (heap s)\<rparr>, d) =
        Some (False, sx\<lparr>heap := set_guard True a (heap s)\<rparr>, d')"
      using d'(1) by (auto simp: list_all_keys_callback_def list_step_def split: if_splits)
    then show ?thesis using u0 d'(2) a by (simp add: I_def)
  qed
  have start: "I [] (s, d)" using l by (simp add: I_def)
  have "\<exists>u'. walk_entries ?wcb (entry_maps s i, heap s, s, d) = Some (entry_maps s i, heap s, u') \<and> I (slot_entries (entry_maps s i)) u'"
    by (rule walk_entries_show [where I = I, OF ok]) (rule step, assumption+, rule start)
  then obtain sx d' where
    w: "walk_entries ?wcb (entry_maps s i, heap s, s, d) = Some (entry_maps s i, heap s, sx, d')" "I (slot_entries (entry_maps s i)) (sx, d')"
    by auto
  have e: "sx\<lparr>heap := heap s\<rparr> = s" using w(2) by (simp add: I_def)
  have "entry_maps sx = entry_maps s" using arg_cong [OF e, of entry_maps] by simp
  then have "sx\<lparr>entry_maps := (entry_maps sx)(i := entry_maps s i), heap := heap s\<rparr> =
      (sx\<lparr>heap := heap s\<rparr>)\<lparr>entry_maps := entry_maps s\<rparr>" by simp
  then have "sx\<lparr>entry_maps := (entry_maps sx)(i := entry_maps s i), heap := heap s\<rparr> = s" unfolding e by simp
  then have "walk_map list_all_keys_callback i (s, d) = Some (s, d')" using w(1) by (simp add: walk_map_def)
  then show thesis using that w(2) by (simp add: I_def keys_in_map_def)
qed

lemma list_maps:
  assumes inv: "sys_inv s" and l: "listed [] d"
  obtains d' where "walk_all_entries list_all_keys_callback (s, d) = Some (s, d')" "listed (stored_keys s) d'"
proof -
  have "\<exists>d'. fold_opt (walk_map list_all_keys_callback) [0..<n] (s, d) = Some (s, d') \<and> listed (concat (map (keys_in_map s) [0..<n])) d'"
    if "n \<le> NUM_CACHE_ENTRY_MAPS" for n
    using that
  proof (induction n)
    case (Suc n)
    then obtain d1 where d1: "fold_opt (walk_map list_all_keys_callback) [0..<n] (s, d) = Some (s, d1)"
      "listed (concat (map (keys_in_map s) [0..<n])) d1" by auto
    obtain d2 where "walk_map list_all_keys_callback n (s, d1) = Some (s, d2)" "listed (concat (map (keys_in_map s) [0..<n]) @ keys_in_map s n) d2"
      by (rule list_map [OF inv _ d1(2), of n]) (use Suc.prems in simp_all)
    then show ?case using d1(1) by (simp add: fold_opt_append)
  qed (use l in simp)
  from this [of NUM_CACHE_ENTRY_MAPS] that show thesis by (auto simp: walk_all_entries_def stored_keys_def)
qed

lemma set_stored_keys:
  assumes "sys_inv s"
  shows "set (stored_keys s) = dom (cache s)"
proof -
  have "set (stored_keys s) = (\<lambda>a. e_key (the (heap s a))) ` occupied s"
    by (simp add: stored_keys_def keys_in_map_def set_slot_entries occupied_def image_UN atLeast0LessThan)
  also have "\<dots> = dom (cache s)"
  proof (intro equalityI subsetI)
    fix key
    assume "key \<in> (\<lambda>a. e_key (the (heap s a))) ` occupied s"
    then obtain a where "a \<in> occupied s" "key = e_key (the (heap s a))" by blast
    moreover from this obtain e where "heap s a = Some e" using core_invD(4) [OF assms] by blast
    ultimately have "heap s a = Some e" "key = e_key e" by simp_all
    then show "key \<in> dom (cache s)" using stored_found [OF assms] by auto
  next
    fix key
    assume "key \<in> dom (cache s)"
    then obtain a where "entry_of s key = Some a" using entry_of_None [of s key] by (cases "entry_of s key") auto
    then show "key \<in> (\<lambda>a. e_key (the (heap s a))) ` occupied s"
      by (rule entry_of_Some) (auto intro!: image_eqI [of _ _ a])
  qed
  finally show ?thesis .
qed

section \<open>The names of the index\<close>

lemma tags_with_keys:
  assumes "tag_inv m t"
  shows "set (map t_tag (filter (\<lambda>n. t_keys n \<noteq> []) (inorder t))) = {tag. keys_of t tag \<noteq> []}"
proof -
  have ok: "nodes_ok (inorder t)" using assms by (simp add: tag_inv_def)
  have here: "tag_map t (t_tag n) = Some (t_keys n)" if n: "n \<in> set (inorder t)" for n
  proof -
    obtain xs ys where "inorder t = xs @ n # ys" using in_set_conv_decomp [THEN iffD1, OF n] by blast
    then show ?thesis using ok map_of_split [of xs n ys] by (simp add: tag_map_def nodes_ok_split)
  qed
  have there: "\<exists>n \<in> set (inorder t). t_tag n = tag \<and> t_keys n = ks" if "tag_map t tag = Some ks" for tag ks
    using that by (auto simp: tag_map_def dest!: map_of_SomeD)
  show "set (map t_tag (filter (\<lambda>n. t_keys n \<noteq> []) (inorder t))) = {tag. keys_of t tag \<noteq> []}"
  proof (intro equalityI subsetI)
    fix tag
    assume "tag \<in> set (map t_tag (filter (\<lambda>n. t_keys n \<noteq> []) (inorder t)))"
    then show "tag \<in> {tag. keys_of t tag \<noteq> []}" using here by (auto simp: keys_of_def)
  next
    fix tag
    assume "tag \<in> {tag. keys_of t tag \<noteq> []}"
    then show "tag \<in> set (map t_tag (filter (\<lambda>n. t_keys n \<noteq> []) (inorder t)))"
      using there by (force simp: keys_of_def split: option.splits)
  qed
qed

lemma index_names_fine:
  assumes "tag_inv m t"
  shows "keys_of t tag \<noteq> [] \<Longrightarrow> name_fine tag" and "key \<in> all_keys t tags \<Longrightarrow> name_fine key"
    and "key \<in> any_keys t tags \<Longrightarrow> name_fine key"
proof -
  show "keys_of t tag \<noteq> [] \<Longrightarrow> name_fine tag" by (rule inv_keys_of(4) [OF assms])
  show "name_fine key" if "key \<in> all_keys t tags"
    using that inv_keys_of(3) [OF assms] by (cases tags) (auto simp: all_keys_def)
  show "name_fine key" if "key \<in> any_keys t tags" using that inv_keys_of(3) [OF assms] by (auto simp: any_keys_def)
qed

section \<open>The handler\<close>

text \<open>What a mode lists: keys of the cache, tags of the index, or the keys that the index has under the tags.\<close>

definition lst_names :: "ListMode \<Rightarrow> tags \<Rightarrow> u8 list list \<Rightarrow> (u8 list \<rightharpoonup> CacheEntry) \<Rightarrow> u8 list set" where
  "lst_names mode index tags C = (case mode of
     LIST_MODE_ALL_KEYS \<Rightarrow> dom C
   | LIST_MODE_ALL_TAGS \<Rightarrow> {tag. keys_of index tag \<noteq> []}
   | LIST_MODE_MATCH_NONE \<Rightarrow> {key. \<exists>e. C key = Some e \<and> set tags \<inter> set (e_tags e) = {}}
   | LIST_MODE_MATCH_ALL \<Rightarrow> all_keys index tags
   | LIST_MODE_MATCH_ANY \<Rightarrow> any_keys index tags)"

text \<open>The blocks that a mode asks the allocator for.\<close>

definition lst_cost :: "ListMode \<Rightarrow> tags \<Rightarrow> u8 list list \<Rightarrow> nat" where
  "lst_cost mode index tags = (case mode of
     LIST_MODE_ALL_TAGS \<Rightarrow> size index
   | LIST_MODE_MATCH_ALL \<Rightarrow> query_cost index tags
   | LIST_MODE_MATCH_ANY \<Rightarrow> query_cost index tags
   | _ \<Rightarrow> 0)"

definition lst_status :: "u8 list list \<Rightarrow> StatusCode" where
  "lst_status names = (if fitting MAX_BUCKET_SIZE names = names then STATUS_OK else STATUS_OUT_OF_MEMORY)"

definition lst_done :: "nat \<Rightarrow> nat \<Rightarrow> u8 list \<Rightarrow> u8 list list \<Rightarrow> state \<Rightarrow> state \<Rightarrow> bool" where
  "lst_done c w rest names s s' \<longleftrightarrow> cache s' = cache s \<and> tag_tree s' = tag_tree s \<and> unread s' c = rest \<and>
     payload_bytes s' w WorkerPayload = tag_stream (fitting MAX_BUCKET_SIZE names)"

lemma listed_status: "listed names d \<Longrightarrow> l_status d = lst_status names"
  by (simp add: listed_def lst_status_def)

lemma lst_finish:
  assumes b: "clr_begun c w rest s s3" and l: "listed names d"
    and s': "workers s' = workers (close_list s3 w d)" "clients s' = clients s3" "heap s' = heap s3" "entry_maps s' = entry_maps s3"
      "tag_tree s' = tag_tree s3"
  shows "lst_done c w rest names s s'"
proof -
  note B = clr_begunD [OF b]
  have "cache s' = cache s3" by (rule ext) (simp add: cache_def entry_of_def s'(3,4))
  moreover have "payload_bytes s' w WorkerPayload = load_bytes (l_buf d) 0 (unat (l_nmemb d))"
    by (simp add: payload_bytes_def s'(1) close_list_def set_payload_nmemb_def set_payload_data_def upd_worker_def Let_def)
  ultimately show ?thesis using l B(4,6,8) s'(2,5) by (simp add: lst_done_def listed_def Let_def unread_def)
qed

text \<open>Once the tags have been read.\<close>

lemma lst_run:
  assumes "worker (clients s c) = Some w" and "read_tags_using_payload_buffer s c (req_c_ntags r) = Some (STATUS_OK, refs, s1)"
    and "to_ListMode (req_c_mode r) = Some mode" and "s2 = upd_counters c (c_lst_update (\<lambda>n. n + 1)) s1"
    and "tag_bytes (payload_data (payload_buffer (workers s2 w))) refs = tags" and "mode \<noteq> LIST_MODE_MATCH_NONE"
  shows "handle_lst_request s c r = (case mode of
        LIST_MODE_ALL_KEYS \<Rightarrow> do {
          s3 \<leftarrow> log_with s2 c (\<lambda>q who. Some (log_request_lst_all_keys q who));
          (s4, d') \<leftarrow> walk_all_entries list_all_keys_callback (s3, open_list s2 w);
          Some (l_status d', WorkerPayload, close_list s4 w d')
        }
      | LIST_MODE_ALL_TAGS \<Rightarrow> do {
          s3 \<leftarrow> log_with s2 c (\<lambda>q who. Some (log_request_lst_all_tags q who));
          (m, d') \<leftarrow> walk_all_tags list_all_tags_callback (mem s3) (tag_tree s3) (open_list s2 w);
          Some (l_status d', WorkerPayload, close_list (s3\<lparr>mem := m\<rparr>) w d')
        }
      | LIST_MODE_MATCH_ALL \<Rightarrow> do {
          s3 \<leftarrow> log_with s2 c (\<lambda>q who. Some (log_request_lst_match_all q who tags));
          (keys, s4) \<leftarrow> keys_matching True s3 tags;
          d' \<leftarrow> list_keys_loop keys (open_list s4 w);
          s5 \<leftarrow> free_key_list (close_list s4 w d') keys;
          Some (l_status d', WorkerPayload, s5)
        }
      | _ \<Rightarrow> do {
          s3 \<leftarrow> log_with s2 c (\<lambda>q who. Some (log_request_lst_match_any q who tags));
          (keys, s4) \<leftarrow> keys_matching False s3 tags;
          d' \<leftarrow> list_keys_loop keys (open_list s4 w);
          s5 \<leftarrow> free_key_list (close_list s4 w d') keys;
          Some (l_status d', WorkerPayload, s5)
        })"
  using assms by (simp add: handle_lst_request_def Let_def split_def split: ListMode.split)

lemma lst_all_keys:
  assumes b: "clr_begun c w rest s s3" and l: "listed [] d"
  obtains d' names where "walk_all_entries list_all_keys_callback (s3, d) = Some (s3, d')" "l_status d' = lst_status names"
    "lst_done c w rest names s (close_list s3 w d')" "set names = dom (cache s)"
proof -
  note B = clr_begunD [OF b]
  obtain d' where d': "walk_all_entries list_all_keys_callback (s3, d) = Some (s3, d')" "listed (stored_keys s3) d'"
    by (rule list_maps [OF B(1) l])
  have "lst_done c w rest (stored_keys s3) s (close_list s3 w d')"
    by (rule lst_finish [OF b d'(2)]) (simp_all add: close_list_def set_payload_nmemb_def set_payload_data_def)
  then show thesis using that [OF d'(1)] listed_status [OF d'(2)] set_stored_keys [OF B(1)] B(6) by simp
qed

lemma lst_all_tags:
  assumes b: "clr_begun c w rest s s3" and l: "listed [] d"
    and rm: "room (mem s) (size (tag_tree s))"
  obtains m d' names where "walk_all_tags list_all_tags_callback (mem s3) (tag_tree s3) d = Some (m, d')" "l_status d' = lst_status names"
    "lst_done c w rest names s (close_list (s3\<lparr>mem := m\<rparr>) w d')" "set names = {tag. keys_of (tag_tree s) tag \<noteq> []}"
proof -
  note B = clr_begunD [OF b]
  note D = core_invD [OF B(1)]
  define names where "names = map t_tag (filter (\<lambda>n. t_keys n \<noteq> []) (inorder (tag_tree s)))"
  have names: "set names = {tag. keys_of (tag_tree s) tag \<noteq> []}"
    using tags_with_keys(1) [OF D(2)] B(4) by (simp add: names_def)
  then have "\<forall>name \<in> set names. name_fine name" using index_names_fine(1) [OF D(2)] B(4) by simp
  from list_steps_ok [OF l this] obtain d' where d': "fold_opt list_step names d = Some d'" "listed names d'" by auto
  have cb: "list_all_tags_callback = list_step" by (intro ext) (simp add: list_all_tags_callback_def list_step_def)
  have "room (mem s3) (size (tag_tree s3))" using rm B(4,5) by simp
  from walk_all_tags_spec [OF D(1,2) this, of list_all_tags_callback d] d'(1) obtain m where
    m: "walk_all_tags list_all_tags_callback (mem s3) (tag_tree s3) d = Some (m, d')" by (auto simp: cb names_def B(4))
  have "lst_done c w rest names s (close_list (s3\<lparr>mem := m\<rparr>) w d')"
    by (rule lst_finish [OF b d'(2)]) (simp_all add: close_list_def set_payload_nmemb_def set_payload_data_def upd_worker_def)
  then show thesis using that [OF m listed_status [OF d'(2)]] names by blast
qed

lemma lst_query:
  assumes b: "clr_begun c w rest s s3" and wr: "worker_ready s3 w"
    and rm: "room (mem s) (query_cost (tag_tree s) tags)"
  obtains keys s4 d' s5 names where "keys_matching every s3 tags = Some (keys, s4)" "list_keys_loop keys (open_list s4 w) = Some d'"
    "free_key_list (close_list s4 w d') keys = Some s5" "l_status d' = lst_status names" "lst_done c w rest names s s5"
    "set names = (if every then all_keys (tag_tree s) tags else any_keys (tag_tree s) tags)"
proof -
  note B = clr_begunD [OF b]
  note D = core_invD [OF B(1)]
  have "room (mem s3) (query_cost (tag_tree s3) tags)" using rm B(4,5) by simp
  then obtain keys m where q: "keys_matching every s3 tags = Some (keys, s3\<lparr>mem := m\<rparr>)"
    "snd ` set keys = (if every then all_keys (tag_tree s3) tags else any_keys (tag_tree s3) tags)"
    by (rule query_ok [OF B(1)]) blast
  let ?s4 = "s3\<lparr>mem := m\<rparr>"
  have o: "listed [] (open_list ?s4 w)" by (rule listed_open) (use wr in \<open>simp add: worker_ready_def\<close>)
  have "\<forall>name \<in> set (map snd keys). name_fine name"
    using q(2) index_names_fine(2,3) [OF D(2), unfolded B(4)] B(4) by (auto split: if_splits)
  from list_steps_ok [OF o this] obtain d' where d': "fold_opt list_step (map snd keys) (open_list ?s4 w) = Some d'"
    "listed (map snd keys) d'" by auto
  have loop: "list_keys_loop keys (open_list ?s4 w) = Some d'"
    using list_keys_loop_eq [of "open_list ?s4 w" keys] d'(1) by (simp add: open_list_def Let_def)
  note L = lent_query [OF held_refl [where c = c, OF B(1)] q(1)]
  have inv4: "sys_inv ?s4" using L(1) by (simp add: lent_def)
  note L2 = lent_safe [OF L(1) held_quiet [OF held_refl [where c = c, OF inv4] quiet_close_list]]
  obtain m' where m': "free_key_list (close_list ?s4 w d') keys = Some ((close_list ?s4 w d')\<lparr>mem := m'\<rparr>)"
    by (rule lent_release [OF L2 L(2)])
  have "lst_done c w rest (map snd keys) s ((close_list ?s4 w d')\<lparr>mem := m'\<rparr>)"
    by (rule lst_finish [OF b d'(2)]) (simp_all add: close_list_def set_payload_nmemb_def set_payload_data_def upd_worker_def)
  then show thesis using that [OF q(1) loop m' listed_status [OF d'(2)]] q(2) B(4) by simp
qed

lemma lst_ok:
  assumes inv: "sys_inv s" and cc: "current_client s = Some c" and t: "tags_arrive s c w r tags rest"
    and m: "to_ListMode (req_c_mode r) = Some mode" "mode \<noteq> LIST_MODE_MATCH_NONE"
    and rm: "mode \<noteq> LIST_MODE_ALL_KEYS \<Longrightarrow> room (mem s) (lst_cost mode (tag_tree s) tags)"
  shows "\<exists>names s'. handle_lst_request s c r = Some (lst_status names, WorkerPayload, s') \<and> lst_done c w rest names s s' \<and>
    set names = lst_names mode (tag_tree s) tags (cache s)"
proof -
  have w: "worker (clients s c) = Some w" "worker_ready s w" using t by (simp_all add: tags_arrive_def)
  obtain refs s1 where s1: "read_tags_using_payload_buffer s c (req_c_ntags r) = Some (STATUS_OK, refs, s1)"
    "tag_bytes (payload_data (payload_buffer (workers s1 w))) refs = tags" "quiet c s s1" "unread s1 c = rest"
    by (rule tags_arriveE [OF t inv])
  define s2 where "s2 = upd_counters c (c_lst_update (\<lambda>n. n + 1)) s1"
  have tb: "tag_bytes (payload_data (payload_buffer (workers s2 w))) refs = tags" using s1(2) by (simp add: s2_def upd_counters_def)
  note run = lst_run [OF w(1) s1(1) m(1) s2_def tb m(2)]
  have b2: "clr_begun c w rest s s2" using quiet_trans [OF s1(3) quiet_counters] s1(4) inv cc w
    by (simp add: clr_begun_def s2_def upd_counters_def upd_client_def unread_def)
  have wr: "worker_ready x w" if "clr_begun c w rest s x" for x
    using worker_ready_kept [OF quietD(3) [OF clr_begunD(7) [OF that]]] w(2) by simp
  have o: "listed [] (open_list s2 w)" by (rule listed_open [OF wr [OF b2]])
  show ?thesis
  proof (cases mode)
    case LIST_MODE_ALL_KEYS
    obtain s3 where s3: "log_with s2 c (\<lambda>q who. Some (log_request_lst_all_keys q who)) = Some s3" "clr_begun c w rest s s3"
      by (rule clr_logged [OF b2])
    show ?thesis
      by (rule lst_all_keys [OF s3(2) o]) (use run s3(1) in \<open>auto simp: LIST_MODE_ALL_KEYS lst_names_def\<close>)
  next
    case LIST_MODE_ALL_TAGS
    obtain s3 where s3: "log_with s2 c (\<lambda>q who. Some (log_request_lst_all_tags q who)) = Some s3" "clr_begun c w rest s s3"
      by (rule clr_logged [OF b2])
    have "room (mem s) (size (tag_tree s))" using rm by (simp add: LIST_MODE_ALL_TAGS lst_cost_def)
    then show ?thesis
      by (rule lst_all_tags [OF s3(2) o]) (use run s3(1) in \<open>auto simp: LIST_MODE_ALL_TAGS lst_names_def\<close>)
  next
    case LIST_MODE_MATCH_ALL
    obtain s3 where s3: "log_with s2 c (\<lambda>q who. Some (log_request_lst_match_all q who tags)) = Some s3" "clr_begun c w rest s s3"
      by (rule clr_logged [OF b2])
    have "room (mem s) (query_cost (tag_tree s) tags)" using rm by (simp add: LIST_MODE_MATCH_ALL lst_cost_def)
    then show ?thesis
      by (rule lst_query [OF s3(2) wr [OF s3(2)], of _ True]) (use run s3(1) in \<open>auto simp: LIST_MODE_MATCH_ALL lst_names_def\<close>)
  next
    case LIST_MODE_MATCH_ANY
    obtain s3 where s3: "log_with s2 c (\<lambda>q who. Some (log_request_lst_match_any q who tags)) = Some s3" "clr_begun c w rest s s3"
      by (rule clr_logged [OF b2])
    have "room (mem s) (query_cost (tag_tree s) tags)" using rm by (simp add: LIST_MODE_MATCH_ANY lst_cost_def)
    then show ?thesis
      by (rule lst_query [OF s3(2) wr [OF s3(2)], of _ False]) (use run s3(1) in \<open>auto simp: LIST_MODE_MATCH_ANY lst_names_def\<close>)
  qed (use m(2) in simp)
qed

section \<open>On the wire\<close>

lemma lst_served:
  assumes inv: "sys_inv (st sv)" and w: "worker (clients (st sv) c) = Some w" "worker_ready (st sv) w"
    and r: "request_ok CMD_BYTE_LST r" "to_ListMode (req_c_mode r) = Some mode" "mode \<noteq> LIST_MODE_MATCH_NONE"
    and str: "unread (st sv) c = r @ tag_stream tags @ rest" "tags_ok tags" "length tags = unat (req_c_ntags r)"
      "sum_list (map length tags) \<le> MAX_BUCKET_SIZE"
    and rm: "mode \<noteq> LIST_MODE_ALL_KEYS \<Longrightarrow> room (mem (st sv)) (lst_cost mode (tag_tree (st sv)) tags)"
    and will: "willing (accepting (sock (clients (st sv) c))) (8 + MAX_BUCKET_SIZE + n)"
  shows "\<exists>names s'. process_request c sv = Some (sv\<lparr>st := s'\<rparr>) \<and>
    set names = lst_names mode (tag_tree (st sv)) tags (cache (st sv)) \<and>
    talked c (reply (lst_status names) (tag_stream (fitting MAX_BUCKET_SIZE names))) rest (st sv) s' \<and>
    sys_inv s' \<and> cache s' = cache (st sv) \<and> tag_tree s' = tag_tree (st sv) \<and> loose s' = loose (st sv) \<and> bufs_kept (st sv) s' \<and>
    willing (accepting (sock (clients s' c))) n"
proof -
  let ?s = "st sv"
  have R: "length r = sizeof_Request" "req_cik r = [CONTROL_BYTE_1, CONTROL_BYTE_2, CONTROL_BYTE_3]" "req_op r = CMD_BYTE_LST"
    using r by (simp_all add: request_ok_def)
  obtain s1 start where s1: "arrived c (tag_stream tags @ rest) ?s s1" "current_client s1 = Some c"
    "process_request c sv = Option.bind (dispatch w c start r s1) (conclude c sv)"
    using request_received [of sv c r "tag_stream tags @ rest" w] str(1) R(1,2) w(1) by metis
  note A = arrivedD [OF s1(1)]
  have inv1: "sys_inv s1" using same_core_inv [OF A(1)] inv by simp
  have core1: "mem s1 = mem ?s" "tag_tree s1 = tag_tree ?s" using A(1) by (simp_all add: same_core_def)
  have t: "tags_arrive s1 c w r tags rest"
    using A(2,5,6) w str(2-4) by (simp add: tags_arrive_def worker_ready_def)
  obtain names s2 where h: "handle_lst_request s1 c r = Some (lst_status names, WorkerPayload, s2)" "lst_done c w rest names s1 s2"
    "set names = lst_names mode (tag_tree ?s) tags (cache ?s)"
    using lst_ok [OF inv1 s1(2) t r(2,3)] rm core1 same_core_cache [OF A(1)] by auto
  note H = heldD [OF lst_safe [OF held_refl [where c = c, OF inv1] h(1)]]
  define x where "x = account w start t_lst_update n_lst_update s2"
  have run: "process_request c sv = conclude c sv (lst_status names, WorkerPayload, x)"
    using s1(3) h(1) by (simp add: dispatch_def R(3) command_byte_defs x_def)
  let ?body = "tag_stream (fitting MAX_BUCKET_SIZE names)"
  have pb: "payload_bytes x w WorkerPayload = ?body" "unread x c = rest" using h(2) by (simp_all add: lst_done_def x_def)
  have bx: "bufs_kept ?s x" using bufs_kept_trans [OF _ H(4)] A(2) by (simp add: bufs_kept_def x_def)
  then have base: "payload_base (payload_buffer (workers x w)) \<noteq> None" using w(2) by (simp add: bufs_kept_def worker_ready_def)
  have sx: "served c s1 x" by (rule served_trans [OF H(3) served_eq]) (simp add: x_def)
  have st: "\<not> closes_connection (lst_status names)" by (simp add: lst_status_def closes_connection_iff)
  have len: "length ?body \<le> MAX_BUCKET_SIZE" by (rule fitting_length)
  then have "willing (accepting (sock (clients ?s c)))
      (length (reply (lst_status names) (payload_bytes x w WorkerPayload)) + (MAX_BUCKET_SIZE - length ?body + n))"
    by (intro willing_mono [OF will]) (simp add: reply_def pb(1))
  from conclude_ok [OF s1(1) w(1) sx st _ _ this] base obtain s3 where s3:
    "conclude c sv (lst_status names, WorkerPayload, x) = Some (sv\<lparr>st := s3\<rparr>)" "same_core x s3" "workers s3 = workers x"
    "talked c (reply (lst_status names) ?body) rest ?s s3" "willing (accepting (sock (clients s3 c))) (MAX_BUCKET_SIZE - length ?body + n)"
    unfolding pb by auto
  have c3: "same_core s2 s3" by (rule same_core_trans [OF _ s3(2)]) (simp add: x_def)
  have "bufs_kept ?s s3" using bx s3(3) by (simp add: bufs_kept_def)
  moreover have "sys_inv s3" using same_core_inv [OF c3] H(1) by simp
  moreover have "loose s3 = loose ?s" using c3 H(2) A(1) by (simp add: loose_def same_core_def)
  moreover have "cache s3 = cache ?s" "tag_tree s3 = tag_tree ?s"
    using same_core_cache [OF c3] same_core_cache [OF A(1)] c3 h(2) core1 by (simp_all add: lst_done_def same_core_def)
  moreover have "willing (accepting (sock (clients s3 c))) n" by (rule willing_mono [OF s3(5)]) simp
  ultimately show ?thesis using run s3(1,4) h(3) by (intro exI [of _ names] exI [of _ s3]) simp
qed

section \<open>The keys without the tags\<close>

lemma walk_data_partial:
  fixes cb :: "addr \<Rightarrow> state \<times> 'd \<Rightarrow> (bool \<times> state \<times> 'd) option"
  assumes cb: "\<And>a s d b s' d'. cb a (s, d) = Some (b, s', d') \<Longrightarrow> Q d \<Longrightarrow> Q d'"
    and "Q d" and w: "walk_all_entries cb (s, d) = Some (s', d')"
  shows "Q d'"
proof -
  have map: "Q d'" if Q: "Q d" and m: "walk_map cb i (s, d) = Some (s', d')" for i s d s' d'
  proof -
    let ?wcb = "\<lambda>a h (s, d). do { (b, s', d') \<leftarrow> cb a (s\<lparr>heap := h\<rparr>, d); Some (b, heap s', s', d') }"
    define I :: "CacheEntryHashMap \<times> store \<times> state \<times> 'd \<Rightarrow> bool" where "I = (\<lambda>(m, h, sx, d). Q d)"
    have step: "I u'" if "I u" "walk_step ?wcb p u = Some u'" for p u u'
      using that cb by (cases u) (auto simp: I_def walk_step_def split: if_splits prod.splits option.splits elim!: bind_SomeE)
    obtain mp h sx where e: "walk_entries ?wcb (entry_maps s i, heap s, s, d) = Some (mp, h, sx, d')"
      using m by (auto simp: walk_map_def elim!: bind_SomeE)
    have "I (mp, h, sx, d')"
      by (rule walk_loop_partial [OF _ _ e [unfolded walk_entries_def]]) (use step Q in \<open>auto simp: I_def\<close>)
    then show ?thesis by (simp add: I_def)
  qed
  have "Q d'" if "fold_opt (walk_map cb) js (s, d) = Some (s', d')" "Q d" for js s d
    using that
  proof (induction js arbitrary: s d)
    case (Cons j js)
    then obtain s1 d1 where "walk_map cb j (s, d) = Some (s1, d1)" "fold_opt (walk_map cb) js (s1, d1) = Some (s', d')"
      by (auto elim!: bind_SomeE)
    then show ?case using Cons.IH map Cons.prems(2) by blast
  qed simp
  then show ?thesis using assms(2) w by (auto simp: walk_all_entries_def)
qed

text \<open>The callbacks only ever set one status.\<close>

lemma put_name_status: "put_name d name = Some d' \<Longrightarrow> l_status d' = l_status d \<or> l_status d' = STATUS_OUT_OF_MEMORY"
  by (auto simp: put_name_def Let_def split: if_splits elim!: bind_SomeE)

lemma non_matching_status:
  assumes "list_non_matching_callback a (s, d, refs) = Some (b, s', d', refs')" and "l_status d \<in> {STATUS_OK, STATUS_OUT_OF_MEMORY}"
  shows "l_status d' \<in> {STATUS_OK, STATUS_OUT_OF_MEMORY}"
  using assms put_name_status [of d _ d']
  by (auto simp: list_non_matching_callback_def list_all_keys_callback_def split: if_splits elim!: bind_SomeE)

lemma lst_match_none:
  assumes inv: "sys_inv s" and t: "tags_arrive s c w r tags rest" and m: "to_ListMode (req_c_mode r) = Some LIST_MODE_MATCH_NONE"
    and h: "handle_lst_request s c r = Some (status, p, s')"
  shows "p = DeadPayload" and "status \<in> {STATUS_OK, STATUS_OUT_OF_MEMORY}"
proof -
  have w: "worker (clients s c) = Some w" using t by (simp add: tags_arrive_def)
  obtain refs s1 where s1: "read_tags_using_payload_buffer s c (req_c_ntags r) = Some (STATUS_OK, refs, s1)"
    by (rule tags_arriveE [OF t inv])
  obtain s3 s4 d d' refs' where o: "walk_all_entries list_non_matching_callback (s3, d, refs) = Some (s4, d', refs')"
    "l_status d = STATUS_OK" "status = l_status d'" "p = DeadPayload"
    using h w s1 m by (auto simp: handle_lst_request_def Let_def elim!: bind_SomeE)
  have "l_status (fst (d', refs')) \<in> {STATUS_OK, STATUS_OUT_OF_MEMORY}"
  proof (rule walk_data_partial [where Q = "\<lambda>x. l_status (fst x) \<in> {STATUS_OK, STATUS_OUT_OF_MEMORY}", OF _ _ o(1)])
    fix a s x b s' y
    assume "list_non_matching_callback a (s, x) = Some (b, s', y)" "l_status (fst x) \<in> {STATUS_OK, STATUS_OUT_OF_MEMORY}"
    then show "l_status (fst y) \<in> {STATUS_OK, STATUS_OUT_OF_MEMORY}"
      using non_matching_status [of a s "fst x" "snd x" b s' "fst y" "snd y"] by simp
  qed (simp add: o(2))
  then show "p = DeadPayload" "status \<in> {STATUS_OK, STATUS_OUT_OF_MEMORY}" using o(3,4) by auto
qed

lemma dead_answer:
  assumes "willing (accepting (sock (clients s c))) 8"
  shows "answer c status DeadPayload (sv\<lparr>st := s\<rparr>) = None"
proof (cases "sends_failure status")
  case True
  have "willing (accepting (sock (clients s c))) (length (MAKE_FAILURE_RESPONSE status) + 0)" using assms by simp
  then obtain s1 where "client_write s c (MAKE_FAILURE_RESPONSE status) = Some (STATUS_OK, s1)"
    by (rule client_write_all) blast
  then show ?thesis
    using True by (simp add: answer_def make_response_def write_payload_def payload_of_def closes_connection_iff)
qed (simp add: answer_def make_response_def payload_of_def)

section \<open>Properties\<close>

text \<open>C8. \<open>LST\<close> on the wire, for all keys, all tags, and the keys under all or any of some tags: the answer
  consists of exactly these names, each as its length and its bytes in wire order, and it is a success when they
  all fit into the worker's buffer of eight megabytes. When they do not, the answer is the failure
  \<open>OUT_OF_MEMORY\<close>, behind which the names that did fit are sent without being announced. Nothing is changed
  and nothing leaks. Except for all keys, the allocator has the blocks for the copies of the query or the stack
  of the walk.\<close>

theorem lst_request_correct:
  assumes "sys_inv (st sv)" and "worker (clients (st sv) c) = Some w" "worker_ready (st sv) w"
    and "request_ok CMD_BYTE_LST r" "to_ListMode (req_c_mode r) = Some mode" "mode \<noteq> LIST_MODE_MATCH_NONE"
    and "unread (st sv) c = r @ tag_stream tags @ rest" "tags_ok tags" "length tags = unat (req_c_ntags r)"
      "sum_list (map length tags) \<le> MAX_BUCKET_SIZE"
    and "mode \<noteq> LIST_MODE_ALL_KEYS \<Longrightarrow> room (mem (st sv)) (lst_cost mode (tag_tree (st sv)) tags)"
    and "willing (accepting (sock (clients (st sv) c))) (8 + MAX_BUCKET_SIZE + n)"
  shows "\<exists>names s'. process_request c sv = Some (sv\<lparr>st := s'\<rparr>) \<and>
    set names = lst_names mode (tag_tree (st sv)) tags (cache (st sv)) \<and>
    talked c (reply (lst_status names) (tag_stream (fitting MAX_BUCKET_SIZE names))) rest (st sv) s' \<and>
    sys_inv s' \<and> cache s' = cache (st sv) \<and> tag_tree s' = tag_tree (st sv) \<and> loose s' = loose (st sv) \<and> bufs_kept (st sv) s' \<and>
    willing (accepting (sock (clients s' c))) n"
  by (rule lst_served [OF assms])

text \<open>\<open>LST\<close> of all keys, and of those without any of no tags.\<close>

definition sample_lst :: Request where
  "sample_lst = [0x43, 0x69, 0x4B, 0x6C, 0, 0, 0, 0, 0, 0, 0, 0, 0, 0, 0, 0]"

definition sample_lst_none :: Request where
  "sample_lst_none = [0x43, 0x69, 0x4B, 0x6C, 3, 0, 0, 0, 0, 0, 0, 0, 0, 0, 0, 0]"

text \<open>A server that was sent a \<open>SET\<close> and then \<open>bs\<close>, after the \<open>SET\<close>.\<close>

lemma sample_after_set:
  assumes "n \<le> 8999000"
  obtains sv s' e where "sample_server (sample_set @ [7] @ [1, 9] @ [1, 2] @ bs) = Some sv" "process_request 0 sv = Some (sv\<lparr>st := s'\<rparr>)"
    "sys_inv s'" "worker (clients s' 0) = Some 0" "worker_ready s' 0" "unread s' 0 = bs" "cache s' = [[7] \<mapsto> e]"
    "willing (accepting (sock (clients s' 0))) n" "sent (sock (clients s' 0)) = reply STATUS_OK []"
proof -
  let ?bs = "sample_set @ [7] @ [1, 9] @ [1, 2] @ bs"
  obtain sv where sv: "sample_server ?bs = Some sv" "sys_inv (st sv)" "room (mem (st sv)) 6000000"
    "worker (clients (st sv) 0) = Some 0" "worker_ready (st sv) 0" "unread (st sv) 0 = ?bs"
    "willing (accepting (sock (clients (st sv) 0))) (8 + n)" "\<not> map_full (st sv) [7]" "cache (st sv) = Map.empty"
    "sent (sock (clients (st sv) 0)) = []"
    by (rule sample_server_ok [of ?bs "8 + n" "[7]"]) (use assms in simp)
  have rm: "room (mem (st sv)) (2 * length [[9 :: u8]] + BIG)" by (rule bmem.room_mono [OF sv(3)]) (simp add: BIG_def)
  have str: "unread (st sv) 0 = sample_set @ rev [7] @ tag_stream [[9]] @ [1, 2] @ bs" using sv(6) by simp
  define e where "e = set_entry sample_set [7] [[9]] [1, 2] (clock (st sv) (clock_calls (st sv) + 1))"
  obtain s' where s': "process_request 0 sv = Some (sv\<lparr>st := s'\<rparr>)" "sys_inv s'" "bufs_kept (st sv) s'"
    "talked 0 (reply STATUS_OK []) bs (st sv) s'" "willing (accepting (sock (clients s' 0))) n"
    "cache s' = (cache (st sv))([7] \<mapsto> e)"
    using set_served [OF sv(2,4,5) sample_requests(4) str rm sv(7)] sv(8) unfolding e_def by blast
  show thesis
    by (rule that [OF sv(1) s'(1,2) _ _ _ _ s'(5)])
      (use s'(3,4,6) sv(4,5,9,10) worker_ready_kept in \<open>simp_all add: talked_def\<close>)
qed

theorem lst_request_correct_witness:
  "\<exists>sv s' s'' names. sample_server (sample_set @ [7] @ [1, 9] @ [1, 2] @ sample_lst) = Some sv \<and>
     process_request 0 sv = Some (sv\<lparr>st := s'\<rparr>) \<and> process_request 0 (sv\<lparr>st := s'\<rparr>) = Some (sv\<lparr>st := s''\<rparr>) \<and>
     set names = {[7]} \<and> sent (sock (clients s'' 0)) =
       reply STATUS_OK [] @ reply (lst_status names) (tag_stream (fitting MAX_BUCKET_SIZE names))"
proof -
  obtain sv s' e where s': "sample_server (sample_set @ [7] @ [1, 9] @ [1, 2] @ sample_lst) = Some sv"
    "process_request 0 sv = Some (sv\<lparr>st := s'\<rparr>)" "sys_inv s'" "worker (clients s' 0) = Some 0" "worker_ready s' 0"
    "unread s' 0 = sample_lst" "cache s' = [[7] \<mapsto> e]" "willing (accepting (sock (clients s' 0))) (8 + MAX_BUCKET_SIZE + 0)"
    "sent (sock (clients s' 0)) = reply STATUS_OK []"
    by (rule sample_after_set [of "8 + MAX_BUCKET_SIZE + 0" sample_lst]) (simp add: MAX_BUCKET_SIZE_def)
  let ?sv = "sv\<lparr>st := s'\<rparr>"
  have u: "unread (st ?sv) 0 = sample_lst @ tag_stream [] @ []" using s'(6) by simp
  have r: "request_ok CMD_BYTE_LST sample_lst" "to_ListMode (req_c_mode sample_lst) = Some LIST_MODE_ALL_KEYS"
    "length ([] :: u8 list list) = unat (req_c_ntags sample_lst)" "tags_ok []" "sum_list (map length ([] :: u8 list list)) \<le> MAX_BUCKET_SIZE"
    by (simp_all add: request_ok_def sample_lst_def sample_request_defs to_ListMode_def tags_ok_def)
  have m: "LIST_MODE_ALL_KEYS \<noteq> LIST_MODE_MATCH_NONE" by simp
  obtain names s'' where s'': "process_request 0 ?sv = Some (?sv\<lparr>st := s''\<rparr>)"
    "set names = lst_names LIST_MODE_ALL_KEYS (tag_tree (st ?sv)) [] (cache (st ?sv))"
    "talked 0 (reply (lst_status names) (tag_stream (fitting MAX_BUCKET_SIZE names))) [] (st ?sv) s''"
    using lst_request_correct [of ?sv 0 0, OF _ _ _ r(1,2) m u r(4,3,5), of 0] s'(3-5,8) by auto
  have "set names = {[7]}" using s''(2) s'(7) by (simp add: lst_names_def)
  moreover have "sent (sock (clients s'' 0)) = reply STATUS_OK [] @ reply (lst_status names) (tag_stream (fitting MAX_BUCKET_SIZE names))"
    using s''(3) s'(9) by (simp add: talked_def)
  moreover have "process_request 0 ?sv = Some (sv\<lparr>st := s''\<rparr>)" using s''(1) by simp
  ultimately show ?thesis using s'(1,2) by blast
qed

text \<open>C36. The list of the keys without some tags cannot be had: the handler's answer points at a variable of a
  block that it has left, and whatever the cache and the tags are, the answer reads it (once the client has taken
  the response header, when that is a failure).\<close>

theorem lst_match_none_undefined:
  assumes "sys_inv (st sv)" and "worker (clients (st sv) c) = Some w" "worker_ready (st sv) w"
    and "request_ok CMD_BYTE_LST r" "to_ListMode (req_c_mode r) = Some LIST_MODE_MATCH_NONE"
    and "unread (st sv) c = r @ tag_stream tags @ rest" "tags_ok tags" "length tags = unat (req_c_ntags r)"
      "sum_list (map length tags) \<le> MAX_BUCKET_SIZE"
    and "willing (accepting (sock (clients (st sv) c))) 8"
  shows "process_request c sv = None"
proof -
  let ?s = "st sv"
  have R: "length r = sizeof_Request" "req_cik r = [CONTROL_BYTE_1, CONTROL_BYTE_2, CONTROL_BYTE_3]" "req_op r = CMD_BYTE_LST"
    using assms(4) by (simp_all add: request_ok_def)
  obtain s1 start where s1: "arrived c (tag_stream tags @ rest) ?s s1" "current_client s1 = Some c"
    "process_request c sv = Option.bind (dispatch w c start r s1) (conclude c sv)"
    using request_received [of sv c r "tag_stream tags @ rest" w] assms(2,6) R(1,2) by metis
  note A = arrivedD [OF s1(1)]
  have inv1: "sys_inv s1" using same_core_inv [OF A(1)] assms(1) by simp
  have t: "tags_arrive s1 c w r tags rest"
    using A(2,5,6) assms(2,3,7-9) by (simp add: tags_arrive_def worker_ready_def)
  show ?thesis
  proof (cases "handle_lst_request s1 c r")
    case None
    then show ?thesis using s1(3) by (simp add: dispatch_def R(3) command_byte_defs)
  next
    case (Some h)
    then obtain status p s2 where h: "handle_lst_request s1 c r = Some (status, p, s2)" by (cases h) auto
    note L = lst_match_none [OF inv1 t assms(5) h]
    have S: "served c s1 s2" by (rule heldD(3) [OF lst_safe [OF held_refl [where c = c, OF inv1] h]])
    define x where "x = account w start t_lst_update n_lst_update s2"
    have "accepting (sock (clients x c)) = accepting (sock (clients ?s c))"
      using servedD(5) [OF S, of c] A(11) by (simp add: x_def)
    then have "answer c status DeadPayload (sv\<lparr>st := x\<rparr>) = None" using dead_answer assms(10) by simp
    moreover have "\<not> closes_connection status" using L(2) by (auto simp: closes_connection_iff)
    ultimately show ?thesis
      using s1(3) h L(1) by (simp add: dispatch_def R(3) command_byte_defs conclude_def x_def)
  qed
qed

theorem lst_match_none_undefined_witness:
  "\<exists>sv s'. sample_server (sample_set @ [7] @ [1, 9] @ [1, 2] @ sample_lst_none) = Some sv \<and>
     process_request 0 sv = Some (sv\<lparr>st := s'\<rparr>) \<and> process_request 0 (sv\<lparr>st := s'\<rparr>) = None"
proof -
  obtain sv s' e where s': "sample_server (sample_set @ [7] @ [1, 9] @ [1, 2] @ sample_lst_none) = Some sv"
    "process_request 0 sv = Some (sv\<lparr>st := s'\<rparr>)" "sys_inv s'" "worker (clients s' 0) = Some 0" "worker_ready s' 0"
    "unread s' 0 = sample_lst_none" "cache s' = [[7] \<mapsto> e]" "willing (accepting (sock (clients s' 0))) 8"
    by (rule sample_after_set [of 8 sample_lst_none]) simp
  let ?sv = "sv\<lparr>st := s'\<rparr>"
  have u: "unread (st ?sv) 0 = sample_lst_none @ tag_stream [] @ []" using s'(6) by simp
  have r: "request_ok CMD_BYTE_LST sample_lst_none" "to_ListMode (req_c_mode sample_lst_none) = Some LIST_MODE_MATCH_NONE"
    "length ([] :: u8 list list) = unat (req_c_ntags sample_lst_none)" "tags_ok []" "sum_list (map length ([] :: u8 list list)) \<le> MAX_BUCKET_SIZE"
    by (simp_all add: request_ok_def sample_lst_none_def sample_request_defs to_ListMode_def tags_ok_def)
  have "process_request 0 ?sv = None"
    by (rule lst_match_none_undefined [OF _ _ _ r(1,2) u r(4,3,5)]) (use s' in simp_all)
  then show ?thesis using s'(1,2) by blast
qed

end
