(* ===== verification/Cik_Info.thy ===== *)
theory Cik_Info
  imports Cik_List_Props
begin

text \<open>
  What an information request finds, on the cache and on the server: the handler comes to its end, and what it
  puts into the payload stays inside the buffer of the worker.
\<close>

section \<open>The tags of an entry\<close>

lemma put_tags_inside:
  assumes "\<forall>tag \<in> set tags. name_fine tag" and "unat nmemb \<le> unat cap" and "unat cap < 2 ^ 31"
  shows "\<exists>fits b' n. put_tags b nmemb cap tags = Some (fits, b', n) \<and> unat n \<le> unat cap"
  using assms(1,2)
proof (induction tags arbitrary: b nmemb)
  case (Cons tag tags)
  let ?n = "nmemb + 1 + of_nat (length tag)"
  have len: "0 < length tag" "length tag \<le> 255" using Cons.prems(1) by (auto simp: name_fine_def)
  have u: "unat (of_nat (length tag) :: u32) = length tag" using len(2) by (intro unat_of_nat_u32) simp
  have "?n = of_nat (unat nmemb + 1 + length tag)" by simp
  moreover have "unat nmemb + 1 + length tag < 2 ^ 32" using Cons.prems(2) assms(3) len(2) by simp
  ultimately have n: "unat ?n = unat nmemb + 1 + length tag" by (simp only: unat_of_nat_u32)
  show ?case
  proof (cases "?n > cap")
    case True
    then show ?thesis using Cons.prems(2) by (auto simp: Let_def)
  next
    case False
    then have fits: "unat nmemb + 1 + length tag \<le> unat cap" using n by (simp add: word_less_nat_alt)
    have pos: "0 < (of_nat (length tag) :: u32)" using len(1) u by (simp add: word_less_nat_alt)
    let ?b = "store_bytes (b(unat nmemb := of_nat (length tag))) (unat nmemb + 1) tag"
    obtain b3 where b3: "reverse_bytes (unat cap) ?b (unat nmemb + 1) (of_nat (length tag)) = Some b3"
      using reverse_bytes_eq [OF pos, of "unat nmemb + 1" "unat cap" ?b] fits u by simp
    have "unat ?n \<le> unat cap" using fits n by simp
    from Cons.IH [OF _ this, of b3] Cons.prems(1) b3 False show ?thesis by (simp add: Let_def)
  qed
qed (simp, blast)

section \<open>The handler\<close>

text \<open>That it ends, and how.\<close>

definition nfo_defined :: "state \<Rightarrow> nat \<Rightarrow> nat \<Rightarrow> Request \<Rightarrow> bool" where
  "nfo_defined s c w r \<longleftrightarrow> (\<exists>status s'. handle_nfo_request s c r = Some (status, WorkerPayload, s') \<and>
     served c s s' \<and> bufs_kept s s' \<and> unat (payload_nmemb (payload_buffer (workers s' w))) \<le> MAX_BUCKET_SIZE)"

lemma nfo_definedI:
  assumes "handle_nfo_request s c r = Some (status, WorkerPayload, s')"
    and "served c s s'" "bufs_kept s s'" "unat (payload_nmemb (payload_buffer (workers s' w))) \<le> MAX_BUCKET_SIZE"
  shows "nfo_defined s c w r"
  using assms unfolding nfo_defined_def by blast

lemma nfo_server_defined:
  assumes w: "worker (clients s c) = Some w" "worker_ready s w" and r: "req_n_klen r = 0"
  shows "nfo_defined s c w r"
proof -
  let ?s1 = "upd_counters c (c_nfo_update (\<lambda>n. n + 1)) (set_payload_nmemb w (of_nat sizeof_NFOResponsePayload) s)"
  have w1: "worker (clients ?s1 c) = Some w" using w(1) by simp
  obtain s2 where s2: "log_with ?s1 c (\<lambda>q who. Some (log_request_nfo q who)) = Some s2" "same_core ?s1 s2" "io_kept ?s1 s2"
    by (rule log_with_ok [where f = "\<lambda>q who. Some (log_request_nfo q who)", OF w1]) auto
  have pl: "payload_buffer (workers s2 w) = payload_buffer (workers ?s1 w)" using io_keptD(3) [OF s2(3)] by simp
  obtain a where a: "payload_base (payload_buffer (workers s2 w)) = Some a" using w(2) by (auto simp: pl worker_ready_def)
  let ?s3 = "set_payload_data w (store_bytes (payload_data (payload_buffer (workers s2 w))) 0
    (nfo_server_bytes (populate_nfo_response (mem s2)))) s2"
  have run: "handle_nfo_request s c r = Some (STATUS_OK, WorkerPayload, ?s3)"
    using w(1) s2(1) a by (simp add: handle_nfo_request_def r Let_def)
  have "served c s ?s1" by (rule served_trans [OF served_eq served_counters]) simp
  then have "served c s ?s3" by (rule served_trans [OF _ served_eq]) (simp add: io_keptD(1) [OF s2(3)])
  moreover have "bufs_kept s ?s3" using bufs_kept_io [OF s2(3)] by (simp add: bufs_kept_def)
  moreover have "unat (payload_nmemb (payload_buffer (workers ?s3 w))) \<le> MAX_BUCKET_SIZE"
    by (simp add: pl set_payload_data_def upd_worker_def sizeof_NFOResponsePayload_def MAX_BUCKET_SIZE_def)
  ultimately show ?thesis by (intro nfo_definedI [OF run]) simp
qed

lemma nfo_found_defined:
  assumes inv: "sys_inv s" and w: "worker (clients s c) = Some w" "worker_ready s w"
    and key: "unread s c = rev key @ rest" "length key = unat (req_n_klen r)" "key \<noteq> []" and e: "cache s key = Some e"
  shows "nfo_defined s c w r"
proof -
  let ?s1 = "upd_counters c (c_nfo_update (\<lambda>n. n + 1)) (set_payload_nmemb w (of_nat sizeof_NFOResponsePayload) s)"
  have sc1: "same_core s ?s1" by (simp add: same_core_def upd_counters_def)
  have str: "unread ?s1 c = rev key @ rest" using key(1) by simp
  obtain s2 where s2: "read_request_key ?s1 c (req_n_klen r) = Some (STATUS_OK, key, s2)" "read_to c rest ?s1 s2"
    by (rule read_request_key_ok [OF str key(2,3)])
  note R = read_toD [OF s2(2)]
  have "length key \<le> 255" unfolding key(2) by (rule unat_u8_le)
  note log = log_key_defined [OF this]
  obtain s3 where s3: "log_with s2 c (\<lambda>q who. log_request_nfo_key q who key) = Some s3" "same_core s2 s3" "io_kept s2 s3"
    by (rule log_with_ok [where f = "\<lambda>q who. log_request_nfo_key q who key" and s = s2 and c = c and w = w])
      (use R w log in auto)
  have sc: "same_core s s3" using sc1 R(1) s3(2) same_core_trans by blast
  have inv3: "sys_inv s3" and c3: "cache s3 key = Some e" using same_core_inv [OF sc] same_core_cache [OF sc] inv e by simp_all
  obtain a where a: "map_get s3 key = Some (Some a, s3\<lparr>heap := set_guard True a (heap s3)\<rparr>)" "heap s3 a = Some e" "entry_fine e"
    by (rule found_entry [OF inv3 c3])
  let ?s4 = "s3\<lparr>heap := set_guard True a (heap s3)\<rparr>"
  have h4: "heap ?s4 a = Some (e\<lparr>guard := True\<rparr>)" using a(2) by (simp add: set_guard_same)
  have pl: "payload_buffer (workers s3 w) = payload_buffer (workers ?s1 w)" using io_keptD(3) [OF s3(3)] R(2) by simp
  then have P: "payload_nmemb (payload_buffer (workers s3 w)) = of_nat sizeof_NFOResponsePayload"
    "payload_cap (payload_buffer (workers s3 w)) = of_nat MAX_BUCKET_SIZE" "payload_base (payload_buffer (workers s3 w)) \<noteq> None"
    using w(2) by (simp_all add: worker_ready_def)
  then obtain pb where pb: "payload_base (payload_buffer (workers s3 w)) = Some pb" by blast
  have small: "unat (payload_nmemb (payload_buffer (workers s3 w))) \<le> unat (payload_cap (payload_buffer (workers s3 w)))"
    "unat (payload_cap (payload_buffer (workers s3 w))) < 2 ^ 31"
    "unat (payload_cap (payload_buffer (workers s3 w))) = MAX_BUCKET_SIZE"
    by (simp_all add: P(1,2) sizeof_NFOResponsePayload_def MAX_BUCKET_SIZE_def)
  let ?b = "store_bytes (payload_data (payload_buffer (workers s3 w))) 0 (u64_bytes (htonll (expires e)) @ u64_bytes (htonll (mtime e)))"
  obtain fits b' n where put: "put_tags ?b (payload_nmemb (payload_buffer (workers s3 w))) (payload_cap (payload_buffer (workers s3 w)))
      (e_tags e) = Some (fits, b', n)" "unat n \<le> MAX_BUCKET_SIZE"
    using put_tags_inside [OF fine_names(2) [OF a(3)] small(1,2), of ?b] small(3) by auto
  let ?x = "set_payload_nmemb w n (set_payload_data w b' ?s4)"
  obtain h5 where u: "unlock_entry ?x a = Some (?x\<lparr>heap := h5\<rparr>)"
    using h4 UNLOCK_ENTRY_eq [of "heap ?x" a "e\<lparr>guard := True\<rparr>"] by (simp add: unlock_entry_def)
  let ?s5 = "?x\<lparr>heap := h5\<rparr>"
  have pos: "0 < req_n_klen r" using key(2,3) by (metis length_greater_0_conv unat_0 word_less_nat_alt)
  have run: "handle_nfo_request s c r = Some (if fits then STATUS_OK else STATUS_BUG, WorkerPayload, ?s5)"
    using w(1) s2(1) s3(1) a(1) h4 pb put(1) u pos by (simp add: handle_nfo_request_def Let_def)
  have "served c s ?s1" by (rule served_trans [OF served_eq served_counters]) simp
  then have "served c s ?s5" by (rule served_trans [OF _ served_trans [OF R(9) served_eq]]) (simp add: io_keptD(1) [OF s3(3)])
  moreover have "bufs_kept s ?s5" using bufs_kept_io [OF s3(3)] R(2) by (simp add: bufs_kept_def)
  moreover have "unat (payload_nmemb (payload_buffer (workers ?s5 w))) \<le> MAX_BUCKET_SIZE"
    using put(2) by (simp add: set_payload_nmemb_def upd_worker_def)
  ultimately show ?thesis by (intro nfo_definedI [OF run]) simp
qed

lemma nfo_absent_defined:
  assumes inv: "sys_inv s" and w: "worker (clients s c) = Some w" "worker_ready s w"
    and key: "unread s c = rev key @ rest" "length key = unat (req_n_klen r)" "key \<noteq> []" and absent: "cache s key = None"
  shows "nfo_defined s c w r"
proof -
  let ?pl = "payload_buffer (workers s w)"
  obtain s' where s': "handle_nfo_request s c r = Some (STATUS_NOT_FOUND, WorkerPayload, s')" "served c s s'" "bufs_kept s s'"
    "payload_bytes s' w WorkerPayload = load_bytes (payload_data ?pl) 0 16"
    using nfo_miss [OF inv w(1) key absent] by blast
  have "length (payload_bytes s' w WorkerPayload) = 16" by (simp only: s'(4)) simp
  then have "unat (payload_nmemb (payload_buffer (workers s' w))) = 16" by (simp add: payload_bytes_def Let_def)
  then show ?thesis using s'(1-3) by (intro nfo_definedI [OF s'(1)]) (simp_all add: MAX_BUCKET_SIZE_def)
qed

text \<open>An information request, with a key or without one.\<close>

lemma nfo_served:
  assumes inv: "sys_inv (st sv)" and w: "worker (clients (st sv) c) = Some w" "worker_ready (st sv) w"
    and r: "request_ok CMD_BYTE_NFO r" and str: "unread (st sv) c = r @ rev key @ rest" "length key = unat (req_n_klen r)"
    and will: "willing (accepting (sock (clients (st sv) c))) (8 + MAX_BUCKET_SIZE)"
  shows "\<exists>sv'. process_request c sv = Some sv'"
proof -
  have R: "length r = sizeof_Request" "req_cik r = [CONTROL_BYTE_1, CONTROL_BYTE_2, CONTROL_BYTE_3]" "req_op r = CMD_BYTE_NFO"
    using r by (simp_all add: request_ok_def)
  obtain s1 start where s1: "arrived c (rev key @ rest) (st sv) s1"
    "process_request c sv = Option.bind (dispatch w c start r s1) (conclude c sv)"
    using request_received [of sv c r "rev key @ rest" w] str(1) R(1,2) w(1) by metis
  note A = arrivedD [OF s1(1)]
  have inv1: "sys_inv s1" using same_core_inv [OF A(1)] inv by simp
  have w1: "worker (clients s1 c) = Some w" "worker_ready s1 w" using A(2,6) w by (simp_all add: worker_ready_def)
  have "nfo_defined s1 c w r"
  proof (cases "key = []")
    case True
    then have "req_n_klen r = 0" using str(2) by (simp add: unat_eq_0)
    then show ?thesis by (rule nfo_server_defined [OF w1])
  next
    case False
    show ?thesis
      by (cases "cache s1 key") (use nfo_absent_defined nfo_found_defined inv1 w1 A(5) str(2) False in blast)+
  qed
  then obtain status s2 where h: "handle_nfo_request s1 c r = Some (status, WorkerPayload, s2)"
    "served c s1 s2" "bufs_kept s1 s2" "unat (payload_nmemb (payload_buffer (workers s2 w))) \<le> MAX_BUCKET_SIZE"
    unfolding nfo_defined_def by blast
  note S = h(2) and B = h(3) and len = h(4)
  define x where "x = account w start t_nfo_update n_nfo_update s2"
  have other: "CMD_BYTE_NFO \<noteq> CMD_BYTE_GET" "CMD_BYTE_NFO \<noteq> CMD_BYTE_SET" "CMD_BYTE_NFO \<noteq> CMD_BYTE_DEL"
    "CMD_BYTE_NFO \<noteq> CMD_BYTE_CLR" "CMD_BYTE_NFO \<noteq> CMD_BYTE_LST" by (simp_all add: command_byte_defs)
  have run: "dispatch w c start r s1 = Some (status, WorkerPayload, x)"
    using other h(1) by (simp add: dispatch_def R(3) x_def)
  have short: "length (reply status (payload_bytes x w WorkerPayload)) \<le> 8 + MAX_BUCKET_SIZE"
    using len by (simp add: reply_def x_def payload_bytes_def Let_def)
  show ?thesis
  proof (cases "closes_connection status")
    case True
    then show ?thesis using s1(2) run by (simp add: conclude_def)
  next
    case ok: False
    have "\<exists>s3. conclude c sv (status, WorkerPayload, x) = Some (sv\<lparr>st := s3\<rparr>) \<and> same_core x s3 \<and> workers s3 = workers x \<and>
      clock s3 = clock x \<and> clock_calls s3 = clock_calls x \<and>
      talked c (reply status (payload_bytes x w WorkerPayload)) (unread x c) (st sv) s3 \<and> willing (accepting (sock (clients s3 c))) 0"
    proof (rule conclude_ok [OF s1(1) w(1) _ ok])
      show "served c s1 x" by (rule served_trans [OF S served_eq]) (simp add: x_def)
      show "payload_base (payload_buffer (workers x w)) \<noteq> None"
        using B A(2) w(2) by (simp add: x_def bufs_kept_def worker_ready_def)
      show "willing (accepting (sock (clients (st sv) c))) (length (reply status (payload_bytes x w WorkerPayload)) + 0)"
        by (rule willing_mono [OF will]) (use short in simp)
    qed simp
    then show ?thesis using s1(2) run by auto
  qed
qed

end
