(* ===== verification/Cik_Protocol.thy ===== *)
theory Cik_Protocol
  imports Cik_Info
begin

text \<open>
  The requests that are always served: those the protocol has, given the memory they take, and those that are
  cut off or make no sense.
\<close>

section \<open>What a client may send\<close>

text \<open>
  The bytes of client \<open>c\<close> that are still to be read begin with the header \<open>r\<close>. The memory is what the
  tags and the entry of a \<open>SET\<close> take, and the copies a query of the tags makes. A \<open>SET\<close> may break
  off in its value, and the connection before a whole header has come. The last two rules: control bytes that are
  wrong, and an operation that does not exist.
\<close>

inductive protocol_request :: "state \<Rightarrow> nat \<Rightarrow> bool" for s c where
  Get: "request_ok CMD_BYTE_GET r \<Longrightarrow> unread s c = r @ rev key @ rest \<Longrightarrow> length key = unat (req_g_klen r) \<Longrightarrow> key \<noteq> [] \<Longrightarrow>
    protocol_request s c"
| Set: "set_wire r key tags val \<Longrightarrow> unread s c = r @ rev key @ tag_stream tags @ val @ rest \<Longrightarrow>
    room (mem s) (2 * length tags + BIG) \<Longrightarrow> protocol_request s c"
| Ttl: "request_ok CMD_BYTE_SET r \<Longrightarrow> req_s_flags r AND SET_FLAG_ONLY_TTL \<noteq> 0 \<Longrightarrow> unread s c = r @ rev key @ rest \<Longrightarrow>
    length key = unat (req_s_klen r) \<Longrightarrow> key \<noteq> [] \<Longrightarrow> protocol_request s c"
| SetCut: "set_wire r key tags val \<Longrightarrow> unread s c = r @ rev key @ tag_stream tags @ part \<Longrightarrow> length part < length val \<Longrightarrow>
    at_eof (sock (clients s c)) \<Longrightarrow> room (mem s) BIG \<Longrightarrow> protocol_request s c"
| Del: "request_ok CMD_BYTE_DEL r \<Longrightarrow> unread s c = r @ rev key @ rest \<Longrightarrow> length key = unat (req_d_klen r) \<Longrightarrow> key \<noteq> [] \<Longrightarrow>
    protocol_request s c"
| Clr: "request_ok CMD_BYTE_CLR r \<Longrightarrow> to_ClearMode (req_c_mode r) = Some mode \<Longrightarrow> unread s c = r @ tag_stream tags @ rest \<Longrightarrow>
    tags_ok tags \<Longrightarrow> length tags = unat (req_c_ntags r) \<Longrightarrow> sum_list (map length tags) \<le> MAX_BUCKET_SIZE \<Longrightarrow>
    mode \<in> {CLEAR_MODE_MATCH_ALL, CLEAR_MODE_MATCH_ANY} \<longrightarrow> room (mem s) (query_cost (tag_tree s) tags) \<Longrightarrow>
    protocol_request s c"
| Lst: "request_ok CMD_BYTE_LST r \<Longrightarrow> to_ListMode (req_c_mode r) = Some mode \<Longrightarrow> mode \<noteq> LIST_MODE_MATCH_NONE \<Longrightarrow>
    unread s c = r @ tag_stream tags @ rest \<Longrightarrow> tags_ok tags \<Longrightarrow> length tags = unat (req_c_ntags r) \<Longrightarrow>
    sum_list (map length tags) \<le> MAX_BUCKET_SIZE \<Longrightarrow>
    mode \<noteq> LIST_MODE_ALL_KEYS \<longrightarrow> room (mem s) (lst_cost mode (tag_tree s) tags) \<Longrightarrow> protocol_request s c"
| Nfo: "request_ok CMD_BYTE_NFO r \<Longrightarrow> unread s c = r @ rev key @ rest \<Longrightarrow> length key = unat (req_n_klen r) \<Longrightarrow> protocol_request s c"
| Cut: "length (unread s c) < sizeof_Request \<Longrightarrow> at_eof (sock (clients s c)) \<Longrightarrow> protocol_request s c"
| Garbage: "unread s c = r @ rest \<Longrightarrow> length r = sizeof_Request \<Longrightarrow>
    req_cik r \<noteq> [CONTROL_BYTE_1, CONTROL_BYTE_2, CONTROL_BYTE_3] \<Longrightarrow> protocol_request s c"
| Unknown: "request_ok op r \<Longrightarrow> op \<notin> {CMD_BYTE_GET, CMD_BYTE_SET, CMD_BYTE_DEL, CMD_BYTE_CLR, CMD_BYTE_LST, CMD_BYTE_NFO} \<Longrightarrow>
    unread s c = r @ rest \<Longrightarrow> protocol_request s c"

section \<open>Requests that make no sense\<close>

lemma cut_served:
  assumes "length (unread (st sv) c) < sizeof_Request" and "at_eof (sock (clients (st sv) c))"
  shows "\<exists>sv'. process_request c sv = Some sv'"
proof -
  let ?s = "st sv"
  let ?begun = "upd_client c (last_request_start_tick_update (\<lambda>_. ticks ?s (tick_calls ?s))) (?s\<lparr>tick_calls := tick_calls ?s + 1\<rparr>)"
  let ?sk = "sock (clients ?begun c)"
  have "length (stream (incoming ?sk)) < unat (of_nat sizeof_Request :: u32)" "at_eof ?sk"
    using assms by (simp_all add: unread_def upd_client_def sizeof_Request_def)
  from read_short [OF this(1), of sizeof_Request] this(2) obtain sk' where
    "read_request_payload ?sk sizeof_Request (of_nat sizeof_Request) =
      Some (if broken (incoming ?sk) then STATUS_NETWORK_ERROR else STATUS_CONNECTION_CLOSED, stream (incoming ?sk), sk')"
    by (auto simp: sizeof_Request_def)
  then show ?thesis
    by (auto simp: process_request_def read_request_def get_performance_counter_def closes_connection_iff Let_def)
qed

lemma garbage_served:
  assumes w: "worker (clients (st sv) c) = Some w" and str: "unread (st sv) c = r @ rest" "length r = sizeof_Request"
    and cik: "req_cik r \<noteq> [CONTROL_BYTE_1, CONTROL_BYTE_2, CONTROL_BYTE_3]"
    and will: "willing (accepting (sock (clients (st sv) c))) (8 + MAX_BUCKET_SIZE)"
  shows "\<exists>sv'. process_request c sv = Some sv'"
proof -
  let ?s = "st sv"
  let ?begun = "upd_client c (last_request_start_tick_update (\<lambda>_. ticks ?s (tick_calls ?s))) (?s\<lparr>tick_calls := tick_calls ?s + 1\<rparr>)"
  have "unread ?begun c = r @ rest" using str(1) by (simp add: unread_def upd_client_def)
  then obtain ds where ds: "read_request (sock (clients ?begun c)) = Some (STATUS_OK, r, sock (clients ?begun c)\<lparr>incoming := ds\<rparr>)"
    by (rule read_request_ok [OF _ str(2)])
  let ?s2 = "upd_client c (sock_update (\<lambda>_. sock (clients ?begun c)\<lparr>incoming := ds\<rparr>)) ?begun"
  have w2: "worker (clients ?s2 c) = Some w" using w by (simp add: upd_client_def)
  have h: "handle_request ?s2 c r = Some (STATUS_PROTOCOL_ERROR, NullPayload, ?s2)"
    using w2 cik by (simp add: handle_request_def)
  have pb: "payload_bytes ?s2 w NullPayload = []" by (simp add: payload_bytes_def)
  have will2: "willing (accepting (sock (clients ?s2 c))) (length (reply STATUS_PROTOCOL_ERROR (payload_bytes ?s2 w NullPayload)) + 0)"
    unfolding pb by (rule willing_mono [of _ "8 + MAX_BUCKET_SIZE"]) (use will in \<open>simp_all add: reply_def upd_client_def\<close>)
  obtain s3 where "answer c STATUS_PROTOCOL_ERROR NullPayload (sv\<lparr>st := ?s2\<rparr>) = Some (sv\<lparr>st := s3\<rparr>)"
    using answer_ok [OF w2 _ _ will2, of sv] pb by auto
  then show ?thesis
    using ds h by (simp add: process_request_def get_performance_counter_def closes_connection_iff Let_def)
qed

lemma unknown_served:
  assumes w: "worker (clients (st sv) c) = Some w" and r: "request_ok op r"
    "op \<notin> {CMD_BYTE_GET, CMD_BYTE_SET, CMD_BYTE_DEL, CMD_BYTE_CLR, CMD_BYTE_LST, CMD_BYTE_NFO}"
    and str: "unread (st sv) c = r @ rest"
    and will: "willing (accepting (sock (clients (st sv) c))) (8 + MAX_BUCKET_SIZE)"
  shows "\<exists>sv'. process_request c sv = Some sv'"
proof -
  have R: "length r = sizeof_Request" "req_cik r = [CONTROL_BYTE_1, CONTROL_BYTE_2, CONTROL_BYTE_3]" "req_op r = op"
    using r by (simp_all add: request_ok_def)
  obtain s1 start where s1: "arrived c rest (st sv) s1"
    "process_request c sv = Option.bind (dispatch w c start r s1) (conclude c sv)"
    using request_received [OF str R(1) w R(2)] by metis
  have d: "dispatch w c start r s1 = Some (STATUS_PROTOCOL_ERROR, NullPayload, s1)" using r(2) by (simp add: dispatch_def R(3))
  have pb: "payload_bytes s1 w NullPayload = []" by (simp add: payload_bytes_def)
  have "willing (accepting (sock (clients (st sv) c))) (length (reply STATUS_PROTOCOL_ERROR (payload_bytes s1 w NullPayload)) + 0)"
    unfolding pb by (rule willing_mono [OF will]) (simp add: reply_def)
  then obtain s3 where "conclude c sv (STATUS_PROTOCOL_ERROR, NullPayload, s1) = Some (sv\<lparr>st := s3\<rparr>)"
    using conclude_ok [OF s1(1) w served_eq [OF refl], of STATUS_PROTOCOL_ERROR NullPayload 0] pb
    by (auto simp: closes_connection_iff)
  then show ?thesis using s1(2) d by simp
qed

section \<open>Only the time of expiry\<close>

lemma ttl_served:
  assumes inv: "sys_inv (st sv)" and w: "worker (clients (st sv) c) = Some w"
    and r: "request_ok CMD_BYTE_SET r" "req_s_flags r AND SET_FLAG_ONLY_TTL \<noteq> 0"
    and key: "unread (st sv) c = r @ rev key @ rest" "length key = unat (req_s_klen r)" "key \<noteq> []"
    and will: "willing (accepting (sock (clients (st sv) c))) (8 + MAX_BUCKET_SIZE)"
  shows "\<exists>sv'. process_request c sv = Some sv'"
proof -
  have R: "length r = sizeof_Request" "req_cik r = [CONTROL_BYTE_1, CONTROL_BYTE_2, CONTROL_BYTE_3]" "req_op r = CMD_BYTE_SET"
    using r by (simp_all add: request_ok_def)
  obtain s1 start where s1: "arrived c (rev key @ rest) (st sv) s1"
    "process_request c sv = Option.bind (dispatch w c start r s1) (conclude c sv)"
    using request_received [OF key(1) R(1) w R(2)] by metis
  note A = arrivedD [OF s1(1)]
  have w1: "worker (clients s1 c) = Some w" using A(6) w by simp
  obtain s2 where s2: "read_request_key s1 c (req_s_klen r) = Some (STATUS_OK, key, s2)" "read_to c rest s1 s2"
    by (rule read_request_key_ok [OF A(5) key(2,3)])
  note T = read_toD [OF s2(2)]
  let ?s3 = "upd_counters c (c_set_update (\<lambda>n. n + 1)) s2"
  have "length key \<le> 255" unfolding key(2) by (rule unat_u8_le)
  note log = log_key_defined [OF this]
  have w3: "worker (clients ?s3 c) = Some w" using T(3) w1 by simp
  obtain s4 where s4: "log_with ?s3 c (\<lambda>q who. log_request_set q who key) = Some s4" "same_core ?s3 s4" "io_kept ?s3 s4"
    by (rule log_with_ok [where f = "\<lambda>q who. log_request_set q who key", OF w3]) (use log in auto)
  have sc: "same_core (st sv) s4"
    by (rule same_core_trans [OF A(1) same_core_trans [OF T(1) same_core_trans [OF same_core_upds(2) s4(2)]]])
  have inv4: "sys_inv s4" using same_core_inv [OF sc] inv by simp
  define status where "status = (if cache s4 key = None then STATUS_NOT_FOUND else STATUS_OK)"
  from set_only_ttl_ok [OF inv4, of key "ntohl (req_s_ttl r)"] obtain s5 where
    s5: "set_only_ttl s4 key (ntohl (req_s_ttl r)) = Some (status, s5)" "clients s5 = clients s4"
    unfolding status_def by blast
  have open_status: "\<not> closes_connection status" by (simp add: status_def closes_connection_iff)
  have h: "handle_set_request s1 c r = Some (status, s5)"
    using w1 s2(1) s4(1) s5(1) r(2) by (simp add: handle_set_request_def Let_def)
  define x where "x = account w start t_set_update n_set_update s5"
  have other: "CMD_BYTE_SET \<noteq> CMD_BYTE_GET" by (simp add: command_byte_defs)
  have d: "dispatch w c start r s1 = Some (status, NullPayload, x)" using h other by (simp add: dispatch_def R(3) x_def)
  have sv: "served c s1 x"
    by (rule served_trans [OF T(9) served_trans [OF served_counters served_eq]]) (simp add: x_def s5(2) io_keptD(1) [OF s4(3)])
  have pb: "payload_bytes x w NullPayload = []" by (simp add: payload_bytes_def)
  have "willing (accepting (sock (clients (st sv) c))) (length (reply status (payload_bytes x w NullPayload)) + 0)"
    unfolding pb by (rule willing_mono [OF will]) (simp add: reply_def)
  then obtain s6 where "conclude c sv (status, NullPayload, x) = Some (sv\<lparr>st := s6\<rparr>)"
    using conclude_ok [OF s1(1) w sv, of status NullPayload 0] pb open_status by auto
  then show ?thesis using s1(2) d by simp
qed

section \<open>They are served\<close>

lemma get_reply_length:
  assumes "sys_inv s"
  shows "length (get_reply flags now (cache s key)) \<le> 8 + MAX_BUCKET_SIZE"
    and "cache s key = Some e \<Longrightarrow> length (e_value e) \<le> MAX_BUCKET_SIZE"
proof -
  have fits: "length (e_value e) \<le> MAX_BUCKET_SIZE" if "cache s key = Some e" for e
  proof -
    have "entry_fine e" by (rule found_entry [OF assms that])
    then show ?thesis by (simp add: entry_fine_def entry_size_def)
  qed
  show "length (get_reply flags now (cache s key)) \<le> 8 + MAX_BUCKET_SIZE"
    using fits by (cases "cache s key") (simp_all add: get_reply_def reply_def)
  show "cache s key = Some e \<Longrightarrow> length (e_value e) \<le> MAX_BUCKET_SIZE" by (rule fits)
qed

lemma protocol_request_served:
  assumes inv: "sys_inv (st sv)" and w: "worker (clients (st sv) c) = Some w" "worker_ready (st sv) w"
    and opened: "0 \<le> fd (clients (st sv) c)"
    and will: "willing (accepting (sock (clients (st sv) c))) (8 + MAX_BUCKET_SIZE)"
    and "protocol_request (st sv) c"
  shows "\<exists>sv'. process_request c sv = Some sv'"
proof -
  have will8: "willing (accepting (sock (clients (st sv) c))) (8 + 0)" by (rule willing_mono [OF will]) simp
  have will0: "willing (accepting (sock (clients (st sv) c))) (8 + MAX_BUCKET_SIZE + 0)" using will by simp
  from assms(6) show ?thesis
  proof (cases rule: protocol_request.cases)
    case (Get r key rest)
    have buf: "payload_base (payload_buffer (workers (st sv) w)) \<noteq> None"
      "\<forall>e. cache (st sv) key = Some e \<longrightarrow> length (e_value e) \<le> unat (payload_cap (payload_buffer (workers (st sv) w)))"
      using w(2) get_reply_length(2) [OF inv] by (auto simp: worker_ready_def MAX_BUCKET_SIZE_def)
    have "willing (accepting (sock (clients (st sv) c)))
        (length (get_reply (req_g_flags r) (clock (st sv) (clock_calls (st sv))) (cache (st sv) key)) + 0)"
      by (rule willing_mono [OF will]) (use get_reply_length(1) [OF inv] in simp)
    from get_served [OF inv w(1) Get(1-4) buf this] show ?thesis by blast
  next
    case (Set r key tags val rest)
    from set_served [OF inv w Set(1,2,3) will8] show ?thesis by blast
  next
    case (Ttl r key rest)
    then show ?thesis by (rule ttl_served [OF inv w(1) _ _ _ _ _ will])
  next
    case (SetCut r key tags val part)
    from set_aborted_served [OF inv w SetCut(1-5) opened] show ?thesis by blast
  next
    case (Del r key rest)
    from del_served [OF inv w(1) Del will8] show ?thesis by blast
  next
    case (Clr r mode tags rest)
    from clr_served [OF inv w Clr(1-6) _ will8] Clr(7) show ?thesis by blast
  next
    case (Lst r mode tags rest)
    from lst_served [OF inv w Lst(1-7) _ will0] Lst(8) show ?thesis by blast
  next
    case (Nfo r key rest)
    then show ?thesis by (rule nfo_served [OF inv w _ _ _ will])
  next
    case Cut
    then show ?thesis by (rule cut_served)
  next
    case (Garbage r rest)
    then show ?thesis by (rule garbage_served [OF w(1) _ _ _ will])
  next
    case (Unknown op r rest)
    then show ?thesis by (rule unknown_served [OF w(1) _ _ _ will])
  qed
qed

end
