(* ===== verification/Cik_Safe_Server.thy ===== *)
theory Cik_Safe_Server
  imports Cik_Safe Cik_Startup Cik_Main_Laws Cik_Protocol Cik_Race
begin

text \<open>
  The server under any load: whatever its clients send and in whatever order its threads serve them, the
  invariant of \<open>Cik_Core\<close> holds and no memory is lost, also when connections are closed while others
  are accepted; and the table of clients (\<open>Cik_Connections\<close>) is consistent as long as these two do not
  overlap.
\<close>

section \<open>One event\<close>

definition tame :: "nat \<Rightarrow> state \<Rightarrow> state \<Rightarrow> bool" where
  "tame c s s' \<longleftrightarrow> sys_inv s' \<and> loose s' = loose s \<and> bufs_kept s s' \<and> (\<forall>d. d \<noteq> c \<longrightarrow> clients s' d = clients s d) \<and>
     fd (clients s' c) = fd (clients s c) \<and> worker (clients s' c) = worker (clients s c)"

lemma tameD:
  assumes "tame c s s'"
  shows "sys_inv s'" "loose s' = loose s" "bufs_kept s s'" "d \<noteq> c \<Longrightarrow> clients s' d = clients s d"
    "fd (clients s' d) = fd (clients s d)" "worker (clients s' d) = worker (clients s d)"
  using assms unfolding tame_def by (simp_all, (metis (no_types))+)

lemma tame_trans: "tame c s t \<Longrightarrow> tame c t u \<Longrightarrow> tame c s u"
  unfolding tame_def using bufs_kept_trans by metis

lemma tame_client:
  assumes "sys_inv s" and "\<And>cl. fd (f cl) = fd cl \<and> worker (f cl) = worker cl"
  shows "tame c s (upd_client c f s)"
  using assms same_core_inv [of s "upd_client c f s" "{}" "{}"]
  by (simp add: tame_def same_core_def loose_def bufs_kept_def) (simp add: upd_client_def)

lemma tame_ticks: "sys_inv s \<Longrightarrow> tame c s (s\<lparr>tick_calls := n\<rparr>)"
  using same_core_inv [of s "s\<lparr>tick_calls := n\<rparr>" "{}" "{}"] by (simp add: tame_def same_core_def loose_def bufs_kept_def)

lemma tame_handle:
  assumes "sys_inv s" and "handle_request s c rq = Some (status, p, s')"
  shows "tame c s s'"
proof -
  note H = handle_safe [OF assms]
  then show ?thesis by (auto simp: tame_def served_def)
qed

lemma tame_write:
  assumes "sys_inv s" and "client_write s c bs = Some (status, s')"
  shows "tame c s s'"
  using assms(2) by (auto simp: client_write_def intro!: tame_client [OF assms(1)] elim!: bind_SomeE)

lemma tame_write_payload:
  assumes "sys_inv s" and "write_payload s c p = Some (status, s')"
  shows "tame c s s'"
proof -
  have "tame c s s" using assms(1) by (simp add: tame_def bufs_kept_def)
  then show ?thesis
    using assms(2) tame_write [OF assms(1)] by (auto simp: write_payload_def split: option.splits if_splits elim!: bind_SomeE)
qed

text \<open>What one event may do to the server.\<close>

definition contained :: "nat \<Rightarrow> server \<Rightarrow> server \<Rightarrow> bool" where
  "contained c sv sv' \<longleftrightarrow> sys_inv (st sv') \<and> conn_inv sv' \<and> loose (st sv') = loose (st sv) \<and>
     bufs_kept (st sv) (st sv') \<and> (\<forall>d. d \<noteq> c \<longrightarrow> clients (st sv') d = clients (st sv) d) \<and>
     (in_use sv' c \<longrightarrow> in_use sv c \<and> fd (clients (st sv') c) = fd (clients (st sv) c)) \<and> is_running sv' = is_running sv"

lemma conn_inv_st:
  assumes "conn_inv sv" and "\<And>d. fd (clients s d) = fd (clients (st sv) d) \<and> worker (clients s d) = worker (clients (st sv) d)"
  shows "conn_inv (sv\<lparr>st := s\<rparr>)"
  using assms unfolding conn_inv_def in_use_def by simp

lemma tame_contained:
  assumes "conn_inv sv" and "tame c (st sv) s"
  shows "contained c sv (sv\<lparr>st := s\<rparr>)"
  using conn_inv_st [OF assms(1), of s] tameD [OF assms(2)] by (simp add: contained_def in_use_def)

lemma contained_close:
  assumes "contained c sv sv1" and "c < MAX_NUM_CLIENTS"
  shows "contained c sv (close_client c sv1)"
proof -
  have inv: "sys_inv (st sv1)" "conn_inv sv1" using assms(1) by (simp_all add: contained_def)
  note C = close_client_conn [OF inv(2) assms(2)]
  have sc: "same_core (st sv1) (st (close_client c sv1))" and w: "workers (st (close_client c sv1)) = workers (st sv1)"
    and r: "is_running (close_client c sv1) = is_running sv1"
    by (simp_all add: close_client_def same_core_def upd_st_def close_fd_def)
  have "loose (st (close_client c sv1)) = loose (st sv1)" using sc by (simp add: loose_def same_core_def)
  moreover have "bufs_kept (st sv1) (st (close_client c sv1))" using w by (rule bufs_kept_eq)
  ultimately show ?thesis
    using assms(1) C same_core_inv [OF sc] bufs_kept_trans r unfolding contained_def by (metis (no_types))
qed

lemma contained_refl: "sys_inv (st sv) \<Longrightarrow> conn_inv sv \<Longrightarrow> contained c sv sv"
  by (simp add: contained_def bufs_kept_def)

text \<open>
  An event up to the point at which its client is to be closed, if it is: every handler of an event calls
  \<open>close_client\<close> as the last thing it does.
\<close>

definition answer_open :: "nat \<Rightarrow> StatusCode \<Rightarrow> payload_ptr \<Rightarrow> server \<Rightarrow> (bool \<times> server) option" where
  "answer_open c status p sv = do {
     response \<leftarrow> make_response (st sv) c status p;
     (status1, s1) \<leftarrow> client_write (st sv) c response;
     if closes_connection status1 then Some (True, sv\<lparr>st := s1\<rparr>)
     else do {
       (status2, s2) \<leftarrow> write_payload s1 c p;
       if closes_connection status2 then Some (True, sv\<lparr>st := s2\<rparr>)
       else let (now, s3) = get_performance_counter s2
            in Some (False, sv\<lparr>st := upd_client c (last_request_end_tick_update (\<lambda>_. now)) s3\<rparr>)
     }
   }"

definition request_open :: "nat \<Rightarrow> server \<Rightarrow> (bool \<times> server) option" where
  "request_open c sv = do {
     let (start, s0) = get_performance_counter (st sv);
     let s1 = upd_client c (last_request_start_tick_update (\<lambda>_. start)) s0;
     (status, request, sk) \<leftarrow> read_request (sock (clients s1 c));
     let s2 = upd_client c (sock_update (\<lambda>_. sk)) s1;
     if closes_connection status then Some (True, sv\<lparr>st := s2\<rparr>)
     else do {
       (status, p, s3) \<leftarrow> handle_request s2 c request;
       if closes_connection status then Some (True, sv\<lparr>st := s3\<rparr>)
       else answer_open c status p (sv\<lparr>st := s3\<rparr>)
     }
   }"

definition event_open :: "nat \<times> u32 \<Rightarrow> server \<Rightarrow> (bool \<times> server) option" where
  "event_open = (\<lambda>(c, events) sv.
     if events AND (EPOLLERR OR EPOLLHUP) \<noteq> 0 then Some (True, sv)
     else if events AND EPOLLIN \<noteq> 0 then request_open c sv
     else Some (False, sv))"

definition close_if :: "nat \<Rightarrow> bool \<times> server \<Rightarrow> server" where
  "close_if c = (\<lambda>(b, sv). if b then close_client c sv else sv)"

lemma answer_open_eq: "answer c status p sv = map_option (close_if c) (answer_open c status p sv)"
  by (simp add: answer_def answer_open_def close_if_def get_performance_counter_def Let_def split: Option.bind_split)

lemma request_open_eq: "process_request c sv = map_option (close_if c) (request_open c sv)"
  by (simp add: process_request_def request_open_def answer_open_eq close_if_def get_performance_counter_def Let_def
      split: Option.bind_split)

lemma event_open_eq: "process_event (c, events) sv = map_option (close_if c) (event_open (c, events) sv)"
  by (simp add: process_event_def event_open_def request_open_eq close_if_def)

lemma answer_open_tame:
  assumes inv: "sys_inv (st sv)" and r: "answer_open c status p sv = Some (b, sv')"
  obtains s where "sv' = sv\<lparr>st := s\<rparr>" "tame c (st sv) s"
proof -
  obtain rs st1 s1 where w: "make_response (st sv) c status p = Some rs" "client_write (st sv) c rs = Some (st1, s1)"
    using r by (auto simp: answer_open_def elim!: bind_SomeE)
  note t1 = tame_write [OF inv w(2)]
  show thesis
  proof (cases "closes_connection st1")
    case True
    then show thesis using that [of s1] t1 r w by (simp add: answer_open_def)
  next
    case False
    obtain st2 s2 where p: "write_payload s1 c p = Some (st2, s2)" using r w False by (auto simp: answer_open_def elim!: bind_SomeE)
    note t2 = tame_trans [OF t1 tame_write_payload [OF tameD(1) [OF t1] p]]
    show thesis
    proof (cases "closes_connection st2")
      case True
      then show thesis using that [of s2] t2 r w p False by (simp add: answer_open_def)
    next
      case ok: False
      let ?s3 = "s2\<lparr>tick_calls := tick_calls s2 + 1\<rparr>"
      have "tame c (st sv) ?s3" by (rule tame_trans [OF t2 tame_ticks [OF tameD(1) [OF t2]]])
      from tame_trans [OF this tame_client [OF tameD(1) [OF this]]]
      have t4: "tame c (st sv) (upd_client c (last_request_end_tick_update (\<lambda>_. ticks s2 (tick_calls s2))) ?s3)" by simp
      have "sv' = sv\<lparr>st := upd_client c (last_request_end_tick_update (\<lambda>_. ticks s2 (tick_calls s2))) ?s3\<rparr>"
        using r w p False ok by (simp add: answer_open_def get_performance_counter_def Let_def)
      then show thesis by (rule that [OF _ t4])
    qed
  qed
qed

lemma request_open_tame:
  assumes inv: "sys_inv (st sv)" and r: "request_open c sv = Some (b, sv')"
  obtains s where "sv' = sv\<lparr>st := s\<rparr>" "tame c (st sv) s"
proof -
  let ?s0 = "(st sv)\<lparr>tick_calls := tick_calls (st sv) + 1\<rparr>"
  let ?s1 = "upd_client c (last_request_start_tick_update (\<lambda>_. ticks (st sv) (tick_calls (st sv)))) ?s0"
  have "tame c (st sv) ?s0" by (rule tame_ticks [OF inv])
  from tame_trans [OF this tame_client [OF tameD(1) [OF this]]] have t1: "tame c (st sv) ?s1" by simp
  obtain st1 rq sk where q: "read_request (sock (clients ?s1 c)) = Some (st1, rq, sk)"
    using r by (auto simp: request_open_def get_performance_counter_def Let_def elim!: bind_SomeE)
  let ?s2 = "upd_client c (sock_update (\<lambda>_. sk)) ?s1"
  from tame_trans [OF t1 tame_client [OF tameD(1) [OF t1]]] have t2: "tame c (st sv) ?s2" by simp
  show thesis
  proof (cases "closes_connection st1")
    case True
    then show thesis using that [of ?s2] t2 r q by (simp add: request_open_def get_performance_counter_def Let_def)
  next
    case False
    obtain st2 p s3 where h: "handle_request ?s2 c rq = Some (st2, p, s3)"
      using r q False by (auto simp: request_open_def get_performance_counter_def Let_def elim!: bind_SomeE)
    note t3 = tame_trans [OF t2 tame_handle [OF tameD(1) [OF t2] h]]
    show thesis
    proof (cases "closes_connection st2")
      case True
      then show thesis using that [of s3] t3 r q h False by (simp add: request_open_def get_performance_counter_def Let_def)
    next
      case ok: False
      then have a: "answer_open c st2 p (sv\<lparr>st := s3\<rparr>) = Some (b, sv')"
        using r q h False by (simp add: request_open_def get_performance_counter_def Let_def)
      have "sys_inv (st (sv\<lparr>st := s3\<rparr>))" using tameD(1) [OF t3] by simp
      from answer_open_tame [OF this a] obtain s where "sv' = (sv\<lparr>st := s3\<rparr>)\<lparr>st := s\<rparr>" "tame c s3 s" by auto
      then show thesis using that [of s] tame_trans [OF t3] by simp
    qed
  qed
qed

lemma event_open_tame:
  assumes inv: "sys_inv (st sv)" and r: "event_open (c, events) sv = Some (b, sv')"
  obtains s where "sv' = sv\<lparr>st := s\<rparr>" "tame c (st sv) s"
proof (cases "request_open c sv = Some (b, sv')")
  case True
  then show thesis by (rule request_open_tame [OF inv _ that])
next
  case False
  then have "sv' = sv\<lparr>st := st sv\<rparr>" using r by (auto simp: event_open_def split: if_splits)
  moreover have "tame c (st sv) (st sv)" using inv by (simp add: tame_def bufs_kept_def)
  ultimately show thesis by (rule that)
qed

lemma event_contained:
  assumes "sys_inv (st sv)" "conn_inv sv" "c < MAX_NUM_CLIENTS" and "process_event (c, events) sv = Some sv'"
  shows "contained c sv sv'"
proof -
  obtain b sv1 where e: "event_open (c, events) sv = Some (b, sv1)" "sv' = close_if c (b, sv1)"
    using assms(4) by (auto simp: event_open_eq)
  obtain s where "sv1 = sv\<lparr>st := s\<rparr>" "tame c (st sv) s" by (rule event_open_tame [OF assms(1) e(1)])
  with tame_contained [OF assms(2)] have "contained c sv sv1" by simp
  then show ?thesis using contained_close [OF _ assms(3)] by (simp add: e(2) close_if_def)
qed

section \<open>Any run\<close>

text \<open>
  What can happen next: a client connects, or does not, whatever \<open>accept\<close> and \<open>epoll_ctl\<close> return
  (a descriptor that is open is not handed out again); a client sends something, takes something or hangs up;
  a worker gets an event for a client it watches; the logging thread empties the queues.
\<close>

inductive server_step :: "server \<Rightarrow> server \<Rightarrow> bool" where
  Connect: "-1 \<le> accept_result k \<Longrightarrow> accept_result k \<notin> set (open_fds sv) \<Longrightarrow>
    server_step sv (snd (wait_for_new_connection poll k sv))"
| Peer: "server_step sv (upd_st (upd_client c (sock_update (\<lambda>_. sk))) sv)"
| Serve: "(w, c) \<in> set (watched sv) \<Longrightarrow> process_event (c, events) sv = Some sv' \<Longrightarrow> server_step sv sv'"
| Flush: "flush_worker_logs (st sv) = Some (lines, s) \<Longrightarrow> server_step sv (sv\<lparr>st := s\<rparr>)"

definition server_safe :: "server \<Rightarrow> server \<Rightarrow> bool" where
  "server_safe sv0 sv \<longleftrightarrow> sys_inv (st sv) \<and> conn_inv sv \<and> loose (st sv) = loose (st sv0) \<and> bufs_kept (st sv0) (st sv)"

lemma server_safe_step:
  assumes "server_safe sv0 sv" and "sys_inv (st sv')" "conn_inv sv'" "loose (st sv') = loose (st sv)" "bufs_kept (st sv) (st sv')"
  shows "server_safe sv0 sv'"
  using assms bufs_kept_trans [of "st sv0" "st sv" "st sv'"] by (simp add: server_safe_def)

lemma wait_core: "same_core (st sv) (st (snd (wait_for_new_connection poll k sv)))"
  "workers (st (snd (wait_for_new_connection poll k sv))) = workers (st sv)"
  by (auto simp: wait_for_new_connection_def same_core_def Let_def upd_st_def close_client_def close_fd_def
      split: poll_result.splits option.splits)

lemma flush_only:
  assumes "flush_worker_logs s = Some (lines, s')"
  shows "only_queues s s'"
proof -
  let ?step = "\<lambda>w (lines, s). do {
       (new, q) \<leftarrow> flush_queue (log_queue (workers s w));
       Some (lines @ new, upd_worker w (log_queue_update (\<lambda>_. q)) s)
     }"
  have "\<exists>q. x = x\<lparr>log_queue := q\<rparr>" for x :: Worker by (cases x) auto
  then have "only_queues s s" unfolding only_queues_def by (intro exI [of _ "workers s"]) simp
  moreover have "only_queues s t'" if "only_queues s t" "fold_opt ?step ws (ls, t) = Some (ls', t')" for ws ls t ls' t'
    using that
  proof (induction ws arbitrary: ls t)
    case (Cons w ws)
    then obtain new q where "fold_opt ?step ws (ls @ new, upd_worker w (log_queue_update (\<lambda>_. q)) t) = Some (ls', t')"
      by (auto elim!: bind_SomeE)
    from Cons.IH [OF only_queues_upd [OF Cons.prems(1)] this] show ?case .
  qed simp
  ultimately show ?thesis using assms unfolding flush_worker_logs_def by blast
qed

lemma only_queuesD:
  assumes "only_queues s s'"
  shows "same_core s s'" "clients s' = clients s" "bufs_kept s s'"
proof -
  obtain ws where ws: "s' = s\<lparr>workers := ws\<rparr>" "\<And>w. \<exists>q. ws w = (workers s w)\<lparr>log_queue := q\<rparr>"
    using assms by (auto simp: only_queues_def)
  have "payload_buffer (ws w) = payload_buffer (workers s w)" for w using ws(2) [of w] by auto
  then show "same_core s s'" "clients s' = clients s" "bufs_kept s s'" by (simp_all add: ws(1) same_core_def bufs_kept_def)
qed

lemma server_safe_next:
  assumes "server_safe sv0 sv" and "server_step sv sv'"
  shows "server_safe sv0 sv'"
proof -
  have inv: "sys_inv (st sv)" "conn_inv sv" using assms(1) by (simp_all add: server_safe_def)
  note step = server_safe_step [OF assms(1)]
  from assms(2) show ?thesis
  proof (cases rule: server_step.cases)
    case (Connect k poll)
    note C = wait_post [OF inv(2) Connect(2,3), of poll]
    note W = wait_core [where sv = sv and poll = poll and k = k]
    show ?thesis using C same_core_inv [OF W(1)] inv(1) W bufs_kept_eq [OF W(2)] unfolding Connect(1)
      by (intro step) (auto simp: accept_post_def loose_def same_core_def)
  next
    case (Peer c sk)
    let ?s = "upd_client c (sock_update (\<lambda>_. sk)) (st sv)"
    have "tame c (st sv) ?s" by (rule tame_client [OF inv(1)]) simp
    from tame_contained [OF inv(2) this] show ?thesis
      unfolding Peer by (intro step) (simp_all add: contained_def upd_st_def)
  next
    case (Serve w c events)
    have "c < MAX_NUM_CLIENTS" using conn_invD(4) [OF inv(2) Serve(1)] by (simp add: in_use_def)
    from event_contained [OF inv this Serve(2)] show ?thesis by (intro step) (simp_all add: contained_def)
  next
    case (Flush lines s)
    note F = only_queuesD [OF flush_only [OF Flush(2)]]
    have "conn_inv (sv\<lparr>st := s\<rparr>)" by (rule conn_inv_st [OF inv(2)]) (simp add: F(2))
    then show ?thesis
      unfolding Flush(1) using F same_core_inv [OF F(1)] inv(1) by (intro step) (simp_all add: loose_def same_core_def)
  qed
qed

lemma server_safe_run:
  assumes "server_step\<^sup>*\<^sup>* sv0 sv" and "sys_inv (st sv0)" "conn_inv sv0"
  shows "server_safe sv0 sv"
  using assms(1)
proof (induction rule: rtranclp_induct)
  case base
  show ?case using assms(2,3) by (simp add: server_safe_def bufs_kept_def)
qed (rule server_safe_next)

section \<open>Any interleaving\<close>

text \<open>
  The threads one beside the other. Every worker serves a request, up to the point at which its connection is to
  be closed; the closing then goes on statement by statement (\<open>closer_step\<close>), and so does the accept thread
  (\<open>accepter_step\<close>), whatever the calls return. The event may be a stale one, of a client that is
  connected no longer. The state has the client that each worker is closing, and how far the accept thread is.
\<close>

type_synonym running = "(nat \<Rightarrow> (nat \<times> closer) option) \<times> accepter \<times> server"

inductive thread_step :: "running \<Rightarrow> running \<Rightarrow> bool" where
  Serving: "w < NUM_WORKERS \<Longrightarrow> C w = None \<Longrightarrow> c < MAX_NUM_CLIENTS \<Longrightarrow> event_open (c, events) sv = Some (b, sv') \<Longrightarrow>
    thread_step (C, a, sv) (C(w := if b then Some (c, CClose) else None), a, sv')"
| Closing: "C w = Some (c, p) \<Longrightarrow> closer_step c (p, sv) (p', sv') \<Longrightarrow> thread_step (C, a, sv) (C(w := Some (c, p')), a, sv')"
| Closed: "C w = Some (c, CReturn) \<Longrightarrow> thread_step (C, a, sv) (C(w := None), a, sv)"
| Accepting: "accepter_step k (a, sv) (a', sv') \<Longrightarrow> thread_step (C, a, sv) (C, a', sv')"
| Again: "thread_step (C, AReturn, sv) (C, AFind, sv)"
| Arriving: "thread_step (C, a, sv) (C, a, upd_st (upd_client c (sock_update (\<lambda>_. sk))) sv)"
| Flushing: "flush_worker_logs (st sv) = Some (lines, s) \<Longrightarrow> thread_step (C, a, sv) (C, a, sv\<lparr>st := s\<rparr>)"

definition threads_safe :: "server \<Rightarrow> server \<Rightarrow> bool" where
  "threads_safe sv0 sv \<longleftrightarrow> sys_inv (st sv) \<and> loose (st sv) = loose (st sv0) \<and> bufs_kept (st sv0) (st sv)"

lemma threads_safe_core:
  assumes "threads_safe sv0 sv" and "same_core (st sv) (st sv')" and "bufs_kept (st sv) (st sv')"
  shows "threads_safe sv0 sv'"
  using assms same_core_inv [OF assms(2)] bufs_kept_trans [of "st sv0"]
  unfolding threads_safe_def loose_def same_core_def by auto

lemma closer_core:
  assumes "closer_step c (p, sv) (p', sv')"
  shows "same_core (st sv) (st sv')" and "workers (st sv') = workers (st sv)"
  using assms by (auto elim!: closer_step.cases simp: same_core_def upd_st_def close_fd_def)

lemma accepter_core:
  assumes "accepter_step k (a, sv) (a', sv')"
  shows "same_core (st sv) (st sv')" and "workers (st sv') = workers (st sv)"
  using assms by (auto elim!: accepter_step.cases simp: same_core_def upd_st_def close_fd_def close_client_def)

lemma threads_safe_step:
  assumes "threads_safe sv0 sv" and "thread_step (C, a, sv) (C', a', sv')"
  shows "threads_safe sv0 sv'"
proof -
  have inv: "sys_inv (st sv)" using assms(1) by (simp add: threads_safe_def)
  note core = threads_safe_core [OF assms(1)]
  from assms(2) show ?thesis
  proof (cases rule: thread_step.cases)
    case (Serving w c events b)
    obtain s where "sv' = sv\<lparr>st := s\<rparr>" "tame c (st sv) s" by (rule event_open_tame [OF inv Serving(6)])
    then show ?thesis using assms(1) bufs_kept_trans [of "st sv0" "st sv" s] by (simp add: threads_safe_def tame_def)
  next
    case (Closing w c p p')
    then show ?thesis using core closer_core bufs_kept_eq by blast
  next
    case (Accepting k)
    then show ?thesis using core accepter_core bufs_kept_eq by blast
  next
    case (Arriving c sk)
    show ?thesis unfolding Arriving by (rule core) (simp_all add: same_core_def upd_st_def bufs_kept_def)
  next
    case (Flushing lines s)
    show ?thesis using core [of sv'] only_queuesD(1,3) [OF flush_only [OF Flushing(4)]] by (simp add: Flushing(3))
  qed (use assms(1) in simp_all)
qed

lemma threads_safe_run:
  assumes "thread_step\<^sup>*\<^sup>* (C, a, sv0) (C', a', sv')" and "sys_inv (st sv0)"
  shows "threads_safe sv0 sv'"
proof -
  have "threads_safe sv0 (snd (snd x))" if "thread_step\<^sup>*\<^sup>* (C, a, sv0) x" for x
    using that
  proof (induction rule: rtranclp_induct)
    case base
    show ?case using assms(2) by (simp add: threads_safe_def bufs_kept_def)
  next
    case (step y z)
    then show ?case using threads_safe_step by (metis prod.collapse)
  qed
  from this [OF assms(1)] show ?thesis by simp
qed

text \<open>The steps in which nothing overlaps are among them.\<close>

abbreviation nobody :: "nat \<Rightarrow> (nat \<times> closer) option" where
  "nobody \<equiv> (\<lambda>_. None)"

lemma closing_runs:
  assumes "(closer_step c)\<^sup>*\<^sup>* x y" and "C w = Some (c, fst x)"
  shows "thread_step\<^sup>*\<^sup>* (C, a, snd x) (C(w := Some (c, fst y)), a, snd y)"
  using assms
proof (induction rule: rtranclp_induct)
  case base
  then have "C(w := Some (c, fst x)) = C" by auto
  then show ?case by simp
next
  case (step y z)
  have "thread_step (C(w := Some (c, fst y)), a, snd y) ((C(w := Some (c, fst y)))(w := Some (c, fst z)), a, snd z)"
    using step.hyps(2) by (intro Closing [of _ _ _ "fst y"]) simp_all
  then have "thread_step (C(w := Some (c, fst y)), a, snd y) (C(w := Some (c, fst z)), a, snd z)" by (simp only: fun_upd_upd)
  with step.IH [OF step.prems] show ?case by (rule rtranclp.rtrancl_into_rtrancl)
qed

lemma accepting_runs:
  assumes "(accepter_step k)\<^sup>*\<^sup>* x y"
  shows "thread_step\<^sup>*\<^sup>* (C, fst x, snd x) (C, fst y, snd y)"
  using assms
proof (induction rule: rtranclp_induct)
  case (step y z)
  have "thread_step (C, fst y, snd y) (C, fst z, snd z)" using step.hyps(2) by (intro Accepting) simp
  with step.IH show ?case by simp
qed simp

lemma event_runs:
  assumes "c < MAX_NUM_CLIENTS" and "process_event (c, events) sv = Some sv'"
  shows "thread_step\<^sup>*\<^sup>* (nobody, a, sv) (nobody, a, sv')"
proof -
  obtain b sv1 where e: "event_open (c, events) sv = Some (b, sv1)" "sv' = close_if c (b, sv1)"
    using assms(2) by (auto simp: event_open_eq)
  have w: "0 < NUM_WORKERS" by (simp add: NUM_WORKERS_def)
  have s: "thread_step (nobody, a, sv) (nobody(0 := if b then Some (c, CClose) else None), a, sv1)"
    by (rule Serving [OF w _ assms(1) e(1)]) simp
  show ?thesis
  proof (cases b)
    case False
    then show ?thesis using s e(2) by (simp add: close_if_def fun_upd_idem)
  next
    case True
    let ?C = "nobody(0 := Some (c, CClose))" and ?D = "nobody(0 := Some (c, CReturn))"
    have "thread_step\<^sup>*\<^sup>* (?C, a, sv1) (?D, a, close_client c sv1)"
      using closing_runs [OF closer_run [of c sv1], of ?C 0 a] by simp
    moreover have "thread_step (?D, a, close_client c sv1) (?D(0 := None), a, close_client c sv1)" by (rule Closed) simp
    ultimately have "thread_step\<^sup>*\<^sup>* (nobody, a, sv) (?D(0 := None), a, close_client c sv1)"
      using s True by (simp add: converse_rtranclp_into_rtranclp rtranclp.rtrancl_into_rtrancl)
    moreover have "?D(0 := None) = nobody" by auto
    ultimately show ?thesis using True e(2) by (simp add: close_if_def)
  qed
qed

lemma connect_runs: "thread_step\<^sup>*\<^sup>* (nobody, AFind, sv) (nobody, AFind, snd (wait_for_new_connection poll k sv))"
proof (cases "\<exists>events. poll = PollEvent events \<and> NOT events AND EPOLLIN = 0")
  case True
  then obtain events where ev: "poll = PollEvent events" "NOT events AND EPOLLIN = 0" by blast
  from accepting_runs [OF accepter_run [OF ev(2)], where C = nobody] show ?thesis
    unfolding ev(1) using Again rtranclp.rtrancl_into_rtrancl by (metis fst_conv snd_conv)
next
  case False
  then show ?thesis by (cases poll) (simp_all add: wait_eq)
qed

lemma server_step_runs:
  assumes "conn_inv sv" and "server_step sv sv'"
  shows "thread_step\<^sup>*\<^sup>* (nobody, AFind, sv) (nobody, AFind, sv')"
  using assms(2)
proof (cases rule: server_step.cases)
  case (Connect k poll)
  then show ?thesis using connect_runs by simp
next
  case (Peer c sk)
  then show ?thesis using Arriving by blast
next
  case (Serve w c events)
  have "c < MAX_NUM_CLIENTS" using conn_invD(4) [OF assms(1) Serve(1)] by (simp add: in_use_def)
  then show ?thesis using event_runs Serve(2) by blast
next
  case (Flush lines s)
  then show ?thesis using Flushing by blast
qed

lemma server_run_runs:
  assumes "server_step\<^sup>*\<^sup>* sv0 sv" and "sys_inv (st sv0)" "conn_inv sv0"
  shows "thread_step\<^sup>*\<^sup>* (nobody, AFind, sv0) (nobody, AFind, sv)"
  using assms(1)
proof (induction rule: rtranclp_induct)
  case (step y z)
  have "conn_inv y" using server_safe_run [OF step.hyps(1) assms(2,3)] by (simp add: server_safe_def)
  from rtranclp_trans [OF step.IH server_step_runs [OF this step.hyps(2)]] show ?case .
qed simp

section \<open>Properties\<close>

text \<open>C2. What any bytes on a connection can do. First: every event that is served, whatever bytes have arrived,
  in whatever pieces, wherever they break off, whatever the operation, and however little memory is left, leaves the
  allocator, the maps and the tag index consistent with each other, every lock released, every block accounted
  for, the table of clients consistent and all other clients untouched; the client itself keeps its slot or is
  closed. Second: which events are served. \<open>protocol_request\<close> has the requests of every operation of the
  protocol, with the memory that they take, a value or a header that breaks off, control bytes that are wrong and
  operations that do not exist; they are all served, when the client takes the answer. Other events need not be
  served: the code has undefined behaviour, which is no result in the model and of which the first part says
  nothing, for an empty key or tag, a value of almost \<open>2 ^ 32\<close> bytes, no memory for a node of the tag index,
  and the list of the keys without any of some tags (C36).\<close>

theorem any_request_is_contained:
  assumes "sys_inv (st sv)" and "conn_inv sv" and "c < MAX_NUM_CLIENTS"
  shows "(\<forall>events sv'. process_event (c, events) sv = Some sv' \<longrightarrow> contained c sv sv') \<and>
    (\<forall>w. worker (clients (st sv) c) = Some w \<longrightarrow> worker_ready (st sv) w \<longrightarrow> protocol_request (st sv) c \<longrightarrow>
      willing (accepting (sock (clients (st sv) c))) (8 + MAX_BUCKET_SIZE) \<longrightarrow> (\<exists>sv'. process_event (c, EPOLLIN) sv = Some sv'))"
proof (intro conjI allI impI)
  show "contained c sv sv'" if "process_event (c, events) sv = Some sv'" for events sv' by (rule event_contained [OF assms that])
  fix w
  assume w: "worker (clients (st sv) c) = Some w" "worker_ready (st sv) w" and r: "protocol_request (st sv) c"
    and will: "willing (accepting (sock (clients (st sv) c))) (8 + MAX_BUCKET_SIZE)"
  have "in_use sv c" using conn_invD(2) [OF assms(2,3)] w(1) by auto
  then have "0 \<le> fd (clients (st sv) c)" using conn_invD(3) [OF assms(2)] by blast
  from protocol_request_served [OF assms(1) w this will r]
  show "\<exists>sv'. process_event (c, EPOLLIN) sv = Some sv'" by (simp add: process_event_def EPOLLIN_def EPOLLERR_def EPOLLHUP_def)
qed

definition bad_request :: Request where
  "bad_request = [CONTROL_BYTE_1, CONTROL_BYTE_2, CONTROL_BYTE_3, 0, 0, 0, 0, 0, 0, 0, 0, 0, 0, 0, 0, 0]"

text \<open>An operation that does not exist is refused, and the connection stays.\<close>

lemma bad_request_served:
  obtains sv s' where "sample_server bad_request = Some sv" "sys_inv (st sv)" "conn_inv sv"
    "process_event (0, EPOLLIN) sv = Some (sv\<lparr>st := s'\<rparr>)"
    "sent (sock (clients s' 0)) = MAKE_FAILURE_RESPONSE STATUS_PROTOCOL_ERROR" "worker (clients (st sv) 0) = Some 0"
proof -
  obtain sv where sv: "sample_server bad_request = Some sv" "sys_inv (st sv)" "conn_inv sv"
    "worker (clients (st sv) 0) = Some 0" "unread (st sv) 0 = bad_request"
    "willing (accepting (sock (clients (st sv) 0))) 20" "sent (sock (clients (st sv) 0)) = []"
    by (rule sample_server_ok [of bad_request 20]) simp
  have q: "length bad_request = sizeof_Request" "req_cik bad_request = [CONTROL_BYTE_1, CONTROL_BYTE_2, CONTROL_BYTE_3]"
    "req_op bad_request = 0"
    by (simp_all add: bad_request_def sizeof_Request_def req_cik_def req_op_def eval_nat_numeral)
  obtain s1 start where s1: "arrived 0 [] (st sv) s1"
    "process_request 0 sv = Option.bind (dispatch 0 0 start bad_request s1) (conclude 0 sv)"
    using request_received [of sv 0 bad_request "[]" 0] sv(4,5) q(1,2) by (metis append_Nil2)
  have d: "dispatch 0 0 start bad_request s1 = Some (STATUS_PROTOCOL_ERROR, NullPayload, s1)"
    by (simp add: dispatch_def q(3) CMD_BYTE_GET_def CMD_BYTE_SET_def CMD_BYTE_DEL_def CMD_BYTE_CLR_def CMD_BYTE_LST_def CMD_BYTE_NFO_def)
  have rp: "reply STATUS_PROTOCOL_ERROR (payload_bytes s1 0 NullPayload) = MAKE_FAILURE_RESPONSE STATUS_PROTOCOL_ERROR"
    by (simp add: reply_def payload_bytes_def sends_failure_iff)
  have nb: "payload_bytes s1 0 NullPayload = []" by (simp add: payload_bytes_def)
  have will: "willing (accepting (sock (clients (st sv) 0))) (length (reply STATUS_PROTOCOL_ERROR (payload_bytes s1 0 NullPayload)) + 0)"
    by (rule willing_mono [OF sv(6)]) (simp add: rp)
  obtain s' where s': "conclude 0 sv (STATUS_PROTOCOL_ERROR, NullPayload, s1) = Some (sv\<lparr>st := s'\<rparr>)"
    "talked 0 (reply STATUS_PROTOCOL_ERROR (payload_bytes s1 0 NullPayload)) (unread s1 0) (st sv) s'"
    using conclude_ok [OF s1(1) sv(4) served_eq [OF refl] _ _ _ will] nb by (auto simp: closes_connection_iff)
  have "process_event (0, EPOLLIN) sv = Some (sv\<lparr>st := s'\<rparr>)"
    using s1(2) d s'(1) by (simp add: process_event_def EPOLLIN_def EPOLLERR_def EPOLLHUP_def)
  moreover have "sent (sock (clients s' 0)) = MAKE_FAILURE_RESPONSE STATUS_PROTOCOL_ERROR"
    using s'(2) sv(7) unfolding rp talked_def by simp
  ultimately show thesis using that sv(1-4) by blast
qed

theorem any_request_is_contained_witness:
  "\<exists>sv sv'. sample_server bad_request = Some sv \<and> process_event (0, EPOLLIN) sv = Some sv' \<and> contained 0 sv sv' \<and>
     sent (sock (clients (st sv') 0)) = MAKE_FAILURE_RESPONSE STATUS_PROTOCOL_ERROR"
proof -
  obtain sv s' where sv: "sample_server bad_request = Some sv" "sys_inv (st sv)" "conn_inv sv"
    "process_event (0, EPOLLIN) sv = Some (sv\<lparr>st := s'\<rparr>)"
    "sent (sock (clients s' 0)) = MAKE_FAILURE_RESPONSE STATUS_PROTOCOL_ERROR" by (rule bad_request_served)
  have "0 < MAX_NUM_CLIENTS" by (simp add: MAX_NUM_CLIENTS_def)
  from conjunct1 [OF any_request_is_contained [OF sv(2,3) this]] sv show ?thesis
    by (intro exI [of _ sv] exI [of _ "sv\<lparr>st := s'\<rparr>"]) simp
qed



end
