(* ===== verification/Cik_Profiler.thy ===== *)
theory Cik_Profiler
  imports Cik_Prelude
begin

text \<open>
  \<open>src/src/profiler.c\<close>: named scopes that may be nested, the time spent in each, and how much of it was
  not spent in the scopes inside. The macro that would open the scopes is switched off in
  \<open>profiler.h\<close>, and with it the body of \<open>debug_print_profilers\<close>; the functions are there.
  \<open>None\<close> is an assertion that fails.
\<close>

section \<open>State\<close>

datatype Profiler = PROF_MAIN | PROF_MAIN_LOOP | PROF_SERVER_ACCEPT | PROF_HANDLE_GET_REQUEST | PROF_HANDLE_SET_REQUEST
  | PROF_HANDLE_DEL_REQUEST | PROF_HANDLE_CLR_REQUEST | PROF_HANDLE_REQUEST | PROF_SERVER_READ | PROF_CLOSE_CLIENT

instantiation Profiler :: enum
begin

definition enum_Profiler :: "Profiler list" where
  "enum_Profiler = [PROF_MAIN, PROF_MAIN_LOOP, PROF_SERVER_ACCEPT, PROF_HANDLE_GET_REQUEST, PROF_HANDLE_SET_REQUEST,
     PROF_HANDLE_DEL_REQUEST, PROF_HANDLE_CLR_REQUEST, PROF_HANDLE_REQUEST, PROF_SERVER_READ, PROF_CLOSE_CLIENT]"

definition enum_all_Profiler :: "(Profiler \<Rightarrow> bool) \<Rightarrow> bool" where
  "enum_all_Profiler P \<longleftrightarrow> list_all P enum_class.enum"

definition enum_ex_Profiler :: "(Profiler \<Rightarrow> bool) \<Rightarrow> bool" where
  "enum_ex_Profiler P \<longleftrightarrow> list_ex P enum_class.enum"

instance
proof
  have all: "p \<in> set (enum_class.enum :: Profiler list)" for p :: Profiler by (cases p) (simp_all add: enum_Profiler_def)
  then show univ: "UNIV = set (enum_class.enum :: Profiler list)" by blast
  show "distinct (enum_class.enum :: Profiler list)" by (simp add: enum_Profiler_def)
  show "enum_class.enum_all P = Ball UNIV P" "enum_class.enum_ex P = Bex UNIV P" for P :: "Profiler \<Rightarrow> bool"
    unfolding univ by (simp_all add: enum_all_Profiler_def enum_ex_Profiler_def list_all_iff list_ex_iff)
qed

end

record ProfilerData =
  pd_profiler :: Profiler
  pd_parent :: Profiler
  num_invocations :: u64
  start_tick :: u64
  num_ticks :: u64
  num_child_ticks :: u64
  total_num_ticks :: u64
  total_self_cost :: u64
  is_open :: bool

text \<open>The readings of \<open>CLOCK_MONOTONIC\<close> (seconds and nanoseconds), and how many were taken.\<close>

record profilers =
  profiler_data :: "Profiler \<Rightarrow> ProfilerData"
  current_profiler :: Profiler
  monotonic :: "nat \<Rightarrow> int \<times> int"
  num_readings :: nat

definition performance_counter :: "int \<times> int \<Rightarrow> u64" where
  "performance_counter = (\<lambda>(tv_sec, tv_nsec). of_int tv_sec * 1000000000 + of_int tv_nsec)"

definition get_performance_frequency :: u64 where "get_performance_frequency = 1000000000"

definition read_counter :: "profilers \<Rightarrow> u64 \<times> profilers" where
  "read_counter s = (performance_counter (monotonic s (num_readings s)), s\<lparr>num_readings := num_readings s + 1\<rparr>)"

definition upd_profiler :: "Profiler \<Rightarrow> (ProfilerData \<Rightarrow> ProfilerData) \<Rightarrow> profilers \<Rightarrow> profilers" where
  "upd_profiler p f s = s\<lparr>profiler_data := (profiler_data s)(p := f (profiler_data s p))\<rparr>"

section \<open>Scopes\<close>

definition first_use :: "Profiler \<Rightarrow> ProfilerData \<Rightarrow> ProfilerData" where
  "first_use p d =
     (if pd_profiler d \<noteq> p then d\<lparr>pd_profiler := p, pd_parent := PROF_MAIN, is_open := False, num_invocations := 0,
        total_num_ticks := 0, total_self_cost := 0\<rparr>
      else d)"

definition profile_scope_enter :: "Profiler \<Rightarrow> profilers \<Rightarrow> profilers option" where
  "profile_scope_enter p s =
     (if p = PROF_MAIN then None
      else let s1 = upd_profiler p (first_use p) s
      in if is_open (profiler_data s1 p) then None
      else let s2 = upd_profiler p (\<lambda>d. d\<lparr>is_open := True, pd_parent := current_profiler s1\<rparr>) s1\<lparr>current_profiler := p\<rparr>;
               (now, s3) = read_counter s2
           in Some (upd_profiler p (\<lambda>d. d\<lparr>num_invocations := num_invocations d + 1, start_tick := now, num_child_ticks := 0\<rparr>) s3))"

definition profile_scope_exit :: "Profiler \<Rightarrow> profilers \<Rightarrow> profilers option" where
  "profile_scope_exit p s =
     (if p \<noteq> current_profiler s then None
      else let (now, s1) = read_counter s;
               s2 = upd_profiler p (\<lambda>d. d\<lparr>num_ticks := now - start_tick d\<rparr>) s1;
               spent = num_ticks (profiler_data s2 p);
               parent = pd_parent (profiler_data s2 p);
               s3 = (if parent \<noteq> PROF_MAIN then upd_profiler parent (\<lambda>d. d\<lparr>num_child_ticks := num_child_ticks d + spent\<rparr>) s2 else s2);
               s4 = upd_profiler p (\<lambda>d. d\<lparr>total_num_ticks := total_num_ticks d + num_ticks d,
                      total_self_cost := total_self_cost d + (num_ticks d - num_child_ticks d), is_open := False\<rparr>) s3
           in Some (s4\<lparr>current_profiler := pd_parent (profiler_data s4 p)\<rparr>))"

section \<open>Runs\<close>

text \<open>What a thread of the program does: it enters scopes and leaves them, nested.\<close>

datatype scope = Scope Profiler "scope list"

fun run_scope :: "scope \<Rightarrow> profilers \<Rightarrow> profilers option"
  and run_scopes :: "scope list \<Rightarrow> profilers \<Rightarrow> profilers option" where
  "run_scope (Scope p xs) s = do { s1 \<leftarrow> profile_scope_enter p s; s2 \<leftarrow> run_scopes xs s1; profile_scope_exit p s2 }"
| "run_scopes [] s = Some s"
| "run_scopes (x # xs) s = do { s1 \<leftarrow> run_scope x s; run_scopes xs s1 }"

text \<open>No scope inside itself.\<close>

fun proper :: "Profiler set \<Rightarrow> scope \<Rightarrow> bool" where
  "proper outer (Scope p xs) \<longleftrightarrow> p \<noteq> PROF_MAIN \<and> p \<notin> outer \<and> (\<forall>x \<in> set xs. proper (insert p outer) x)"

fun readings_of :: "scope \<Rightarrow> nat" where
  "readings_of (Scope p xs) = 2 + sum_list (map readings_of xs)"

text \<open>The time from the entry of each outermost scope to its exit, the first one entered at reading \<open>n\<close>.\<close>

fun elapsed :: "(nat \<Rightarrow> u64) \<Rightarrow> nat \<Rightarrow> scope list \<Rightarrow> u64" where
  "elapsed c n [] = 0"
| "elapsed c n (x # xs) = (c (n + readings_of x - 1) - c n) + elapsed c (n + readings_of x) xs"

definition counter :: "profilers \<Rightarrow> nat \<Rightarrow> u64" where
  "counter s n = performance_counter (monotonic s n)"

definition total_self :: "profilers \<Rightarrow> u64" where
  "total_self s = sum_list (map (\<lambda>p. total_self_cost (profiler_data s p)) enum_class.enum)"

text \<open>A profiler that was never used is as the program starts with it.\<close>

definition prof_ok :: "profilers \<Rightarrow> bool" where
  "prof_ok s \<longleftrightarrow> (\<forall>p. pd_profiler (profiler_data s p) \<noteq> p \<longrightarrow>
     \<not> is_open (profiler_data s p) \<and> total_self_cost (profiler_data s p) = 0) \<and> \<not> is_open (profiler_data s PROF_MAIN)"

definition opened :: "profilers \<Rightarrow> Profiler set" where
  "opened s = {p. is_open (profiler_data s p)}"

lemma total_self_upd:
  assumes "\<And>q. q \<noteq> p \<Longrightarrow> total_self_cost (profiler_data s' q) = total_self_cost (profiler_data s q)"
  shows "total_self s' = total_self s + (total_self_cost (profiler_data s' p) - total_self_cost (profiler_data s p))"
  using assms by (cases p) (simp_all add: total_self_def enum_Profiler_def)

section \<open>What a run does\<close>

text \<open>From \<open>s\<close> to \<open>s'\<close>: \<open>T\<close> ticks were spent, \<open>k\<close> readings taken, and everything closed
  that was opened.\<close>

definition ran :: "u64 \<Rightarrow> nat \<Rightarrow> profilers \<Rightarrow> profilers \<Rightarrow> bool" where
  "ran T k s s' \<longleftrightarrow> prof_ok s' \<and> opened s' = opened s \<and> current_profiler s' = current_profiler s \<and>
     monotonic s' = monotonic s \<and> num_readings s' = num_readings s + k \<and> total_self s' = total_self s + T \<and>
     (\<forall>r \<in> opened s. profiler_data s' r = (profiler_data s r)
        \<lparr>num_child_ticks := num_child_ticks (profiler_data s r) + (if r = current_profiler s then T else 0)\<rparr>)"

lemma ran_refl: "prof_ok s \<Longrightarrow> ran 0 0 s s"
  by (simp add: ran_def)

lemma ran_trans:
  assumes "ran T k s t" and "ran T' k' t u"
  shows "ran (T + T') (k + k') s u"
  using assms by (simp add: ran_def add.assoc)

lemma enter_scope:
  assumes "prof_ok s" and "p \<noteq> PROF_MAIN" and "p \<notin> opened s"
  obtains s1 where "profile_scope_enter p s = Some s1" "prof_ok s1" "opened s1 = insert p (opened s)" "current_profiler s1 = p"
    "monotonic s1 = monotonic s" "num_readings s1 = num_readings s + 1" "total_self s1 = total_self s"
    "\<forall>r. r \<noteq> p \<longrightarrow> profiler_data s1 r = profiler_data s r" "pd_parent (profiler_data s1 p) = current_profiler s"
    "start_tick (profiler_data s1 p) = counter s (num_readings s)" "num_child_ticks (profiler_data s1 p) = 0"
proof -
  define s1 where "s1 = the (profile_scope_enter p s)"
  have shut: "\<not> is_open (first_use p (profiler_data s p))" using assms(3) by (simp add: first_use_def opened_def)
  then have run: "profile_scope_enter p s = Some s1"
    using assms(2) by (simp add: profile_scope_enter_def upd_profiler_def read_counter_def s1_def)
  have D: "profiler_data s1 r = (if r = p then (first_use p (profiler_data s p))
      \<lparr>is_open := True, pd_parent := current_profiler s, num_invocations := num_invocations (first_use p (profiler_data s p)) + 1,
       start_tick := counter s (num_readings s), num_child_ticks := 0\<rparr> else profiler_data s r)" for r
    using shut assms(2) by (simp add: profile_scope_enter_def upd_profiler_def read_counter_def s1_def counter_def)
  have O: "current_profiler s1 = p" "monotonic s1 = monotonic s" "num_readings s1 = num_readings s + 1"
    using shut assms(2) by (simp_all add: profile_scope_enter_def upd_profiler_def read_counter_def s1_def)
  have self: "total_self_cost (first_use p (profiler_data s p)) = total_self_cost (profiler_data s p)"
    using assms(1) by (simp add: first_use_def prof_ok_def)
  have "total_self s1 = total_self s + (total_self_cost (profiler_data s1 p) - total_self_cost (profiler_data s p))"
    by (rule total_self_upd) (simp add: D)
  then have "total_self s1 = total_self s" by (simp add: D self)
  moreover have "prof_ok s1" using assms(1,2) by (simp add: prof_ok_def D first_use_def)
  moreover have "opened s1 = insert p (opened s)" by (auto simp: opened_def D)
  ultimately show thesis using that run O D by simp
qed

lemma exit_scope:
  assumes "prof_ok s" and "current_profiler s = p" and "p \<noteq> PROF_MAIN" and "pd_profiler (profiler_data s p) = p"
    and "pd_parent (profiler_data s p) = q" and "q \<noteq> p" and "q \<noteq> PROF_MAIN \<Longrightarrow> pd_profiler (profiler_data s q) = q"
  obtains s1 where "profile_scope_exit p s = Some s1" "prof_ok s1" "opened s1 = opened s - {p}" "current_profiler s1 = q"
    "monotonic s1 = monotonic s" "num_readings s1 = num_readings s + 1"
    "total_self s1 = total_self s + (counter s (num_readings s) - start_tick (profiler_data s p) - num_child_ticks (profiler_data s p))"
    "\<forall>r. r \<noteq> p \<longrightarrow> profiler_data s1 r = (if r = q \<and> q \<noteq> PROF_MAIN then (profiler_data s q)\<lparr>num_child_ticks :=
       num_child_ticks (profiler_data s q) + (counter s (num_readings s) - start_tick (profiler_data s p))\<rparr> else profiler_data s r)"
proof -
  define s1 where "s1 = the (profile_scope_exit p s)"
  have run: "profile_scope_exit p s = Some s1"
    using assms(2) by (simp add: profile_scope_exit_def read_counter_def s1_def Let_def)
  have D: "profiler_data s1 r = (if r = p then (profiler_data s p)\<lparr>num_ticks := counter s (num_readings s) - start_tick (profiler_data s p),
       total_num_ticks := total_num_ticks (profiler_data s p) + (counter s (num_readings s) - start_tick (profiler_data s p)),
       total_self_cost := total_self_cost (profiler_data s p) +
         (counter s (num_readings s) - start_tick (profiler_data s p) - num_child_ticks (profiler_data s p)), is_open := False\<rparr>
     else if r = q \<and> q \<noteq> PROF_MAIN then (profiler_data s q)\<lparr>num_child_ticks :=
       num_child_ticks (profiler_data s q) + (counter s (num_readings s) - start_tick (profiler_data s p))\<rparr> else profiler_data s r)" for r
    using assms(2,5,6) by (cases "q = PROF_MAIN") (simp_all add: profile_scope_exit_def read_counter_def s1_def upd_profiler_def counter_def Let_def)
  have O: "current_profiler s1 = q" "monotonic s1 = monotonic s" "num_readings s1 = num_readings s + 1"
    using assms(2,5,6) by (simp_all add: profile_scope_exit_def read_counter_def s1_def upd_profiler_def Let_def)
  have "total_self s1 = total_self s + (total_self_cost (profiler_data s1 p) - total_self_cost (profiler_data s p))"
    by (rule total_self_upd) (simp add: D)
  then have "total_self s1 = total_self s + (counter s (num_readings s) - start_tick (profiler_data s p) - num_child_ticks (profiler_data s p))"
    by (simp add: D)
  moreover have "prof_ok s1" using assms(1,3,4,7) by (auto simp: prof_ok_def D)
  moreover have "opened s1 = opened s - {p}" by (auto simp: opened_def D)
  ultimately show thesis using that run O D by simp
qed

lemma prof_ok_opened: "prof_ok s \<Longrightarrow> r \<in> opened s \<Longrightarrow> pd_profiler (profiler_data s r) = r \<and> r \<noteq> PROF_MAIN"
  by (auto simp: prof_ok_def opened_def)

lemma run_scopes_ran:
  "prof_ok s \<Longrightarrow> proper (opened s) x \<Longrightarrow> current_profiler s \<in> insert PROF_MAIN (opened s) \<Longrightarrow>
     \<exists>s'. run_scope x s = Some s' \<and> ran (elapsed (counter s) (num_readings s) [x]) (readings_of x) s s'"
  "prof_ok s \<Longrightarrow> \<forall>x \<in> set xs. proper (opened s) x \<Longrightarrow> current_profiler s \<in> insert PROF_MAIN (opened s) \<Longrightarrow>
     \<exists>s'. run_scopes xs s = Some s' \<and> ran (elapsed (counter s) (num_readings s) xs) (sum_list (map readings_of xs)) s s'"
proof (induction x s and xs s rule: run_scope_run_scopes.induct)
  case (1 p xs s)
  have p: "p \<noteq> PROF_MAIN" "p \<notin> opened s" "\<forall>x \<in> set xs. proper (insert p (opened s)) x" using "1.prems"(2) by auto
  obtain s1 where s1: "profile_scope_enter p s = Some s1" "prof_ok s1" "opened s1 = insert p (opened s)" "current_profiler s1 = p"
    "monotonic s1 = monotonic s" "num_readings s1 = num_readings s + 1" "total_self s1 = total_self s"
    "\<forall>r. r \<noteq> p \<longrightarrow> profiler_data s1 r = profiler_data s r" "pd_parent (profiler_data s1 p) = current_profiler s"
    "start_tick (profiler_data s1 p) = counter s (num_readings s)" "num_child_ticks (profiler_data s1 p) = 0"
    by (rule enter_scope [OF "1.prems"(1) p(1,2)])
  define T where "T = elapsed (counter s1) (num_readings s1) xs"
  obtain s2 where s2: "run_scopes xs s1 = Some s2" "ran T (sum_list (map readings_of xs)) s1 s2"
    using "1.IH" [OF s1(1,2)] s1(3,4) p(3) by (auto simp: T_def)
  have R: "prof_ok s2" "opened s2 = insert p (opened s)" "current_profiler s2 = p" "monotonic s2 = monotonic s"
    "num_readings s2 = num_readings s + 1 + sum_list (map readings_of xs)" "total_self s2 = total_self s + T"
    using s2(2) s1(3-7) by (simp_all add: ran_def)
  have dp: "profiler_data s2 p = (profiler_data s1 p)\<lparr>num_child_ticks := T\<rparr>"
    and dr: "r \<in> opened s \<Longrightarrow> profiler_data s2 r = profiler_data s r" for r
    using s2(2) s1(3,4,8,11) p(2) by (auto simp: ran_def)
  let ?q = "current_profiler s"
  let ?e = "counter s (num_readings s + 1 + sum_list (map readings_of xs)) - counter s (num_readings s)"
  have q: "pd_parent (profiler_data s2 p) = ?q" "?q \<noteq> p" using s1(9) dp p(1,2) "1.prems"(3) by auto
  have own: "pd_profiler (profiler_data s2 p) = p" using prof_ok_opened [OF R(1)] R(2) by simp
  have own': "?q \<noteq> PROF_MAIN \<Longrightarrow> pd_profiler (profiler_data s2 ?q) = ?q"
    using prof_ok_opened [OF R(1)] R(2) "1.prems"(3) by simp
  have c: "counter s2 (num_readings s2) - start_tick (profiler_data s2 p) = ?e" using R(4,5) dp s1(10) by (simp add: counter_def)
  obtain s3 where s3: "profile_scope_exit p s2 = Some s3" "prof_ok s3" "opened s3 = opened s2 - {p}" "current_profiler s3 = ?q"
    "monotonic s3 = monotonic s2" "num_readings s3 = num_readings s2 + 1"
    "total_self s3 = total_self s2 + (?e - num_child_ticks (profiler_data s2 p))"
    "\<forall>r. r \<noteq> p \<longrightarrow> profiler_data s3 r = (if r = ?q \<and> ?q \<noteq> PROF_MAIN then (profiler_data s2 ?q)\<lparr>num_child_ticks :=
       num_child_ticks (profiler_data s2 ?q) + ?e\<rparr> else profiler_data s2 r)"
    by (rule exit_scope [OF R(1,3) p(1) own q own', unfolded c])
  have e: "elapsed (counter s) (num_readings s) [Scope p xs] = ?e" by (simp add: algebra_simps)
  have "profiler_data s3 r = (profiler_data s r)\<lparr>num_child_ticks := num_child_ticks (profiler_data s r) + (if r = ?q then ?e else 0)\<rparr>"
    if "r \<in> opened s" for r
    using s3(8) dr [OF that] that p(2) prof_ok_opened [OF "1.prems"(1) that] by auto
  moreover have "opened s3 = opened s" using s3(3) R(2) p(2) by auto
  moreover have "total_self s3 = total_self s + ?e" using s3(7) R(6) dp by simp
  ultimately have "ran ?e (2 + sum_list (map readings_of xs)) s s3" using s3(2,4-6) R(4,5) by (simp add: ran_def)
  then show ?case using s1(1) s2(1) s3(1) unfolding e by simp
next
  case (2 s)
  then show ?case using ran_refl by simp
next
  case (3 x xs s)
  from "3.IH"(1) "3.prems" obtain s1 where s1: "run_scope x s = Some s1"
    "ran (elapsed (counter s) (num_readings s) [x]) (readings_of x) s s1" by auto
  have same: "prof_ok s1" "opened s1 = opened s" "current_profiler s1 = current_profiler s" "counter s1 = counter s"
    "num_readings s1 = num_readings s + readings_of x" using s1(2) by (auto simp: ran_def counter_def)
  from "3.IH"(2) [OF s1(1)] "3.prems" same obtain s2 where s2: "run_scopes xs s1 = Some s2"
    "ran (elapsed (counter s) (num_readings s + readings_of x) xs) (sum_list (map readings_of xs)) s1 s2" by auto
  from ran_trans [OF s1(2) s2(2)] s1(1) s2(1) show ?case by simp
qed

section \<open>Property\<close>

text \<open>C40. Scopes that are properly nested are never refused, and the books balance: when the run is over no
  scope is open that was not before, and the self costs of all profilers together have grown by exactly the
  time from the entry of each outermost scope to its exit, in the arithmetic of 64 bits.\<close>

theorem profiler_books_balance:
  assumes "prof_ok s" and "opened s = {}" and "current_profiler s = PROF_MAIN" and "\<forall>x \<in> set xs. proper {} x"
  shows "\<exists>s'. run_scopes xs s = Some s' \<and> prof_ok s' \<and> opened s' = {} \<and> current_profiler s' = PROF_MAIN \<and>
    total_self s' = total_self s + elapsed (counter s) (num_readings s) xs"
  using run_scopes_ran(2) [OF assms(1), of xs] assms(2-4) by (auto simp: ran_def)

text \<open>The state the program starts with, and a request that is read and handled.\<close>

definition zero_profilers :: "(nat \<Rightarrow> int \<times> int) \<Rightarrow> profilers" where
  "zero_profilers c = \<lparr>profiler_data = (\<lambda>_. \<lparr>pd_profiler = PROF_MAIN, pd_parent = PROF_MAIN, num_invocations = 0, start_tick = 0,
     num_ticks = 0, num_child_ticks = 0, total_num_ticks = 0, total_self_cost = 0, is_open = False\<rparr>),
     current_profiler = PROF_MAIN, monotonic = c, num_readings = 0\<rparr>"

theorem profiler_books_balance_witness:
  "\<exists>s'. run_scopes [Scope PROF_SERVER_READ [], Scope PROF_HANDLE_REQUEST [Scope PROF_HANDLE_GET_REQUEST []]]
      (zero_profilers (\<lambda>n. (int n, 7))) = Some s' \<and> opened s' = {} \<and> total_self s' = 4000000000"
proof -
  let ?s = "zero_profilers (\<lambda>n. (int n, 7))"
  let ?xs = "[Scope PROF_SERVER_READ [], Scope PROF_HANDLE_REQUEST [Scope PROF_HANDLE_GET_REQUEST []]]"
  have s: "prof_ok ?s" "opened ?s = {}" "current_profiler ?s = PROF_MAIN" "total_self ?s = 0"
    "elapsed (counter ?s) (num_readings ?s) ?xs = 4000000000"
    by (simp_all add: zero_profilers_def prof_ok_def opened_def total_self_def enum_Profiler_def counter_def performance_counter_def)
  have "\<forall>x \<in> set ?xs. proper {} x" by simp
  from profiler_books_balance [OF s(1-3) this] s(4,5) show ?thesis by auto
qed

end
