(* ===== verification/Cik_Persist.thy ===== *)
theory Cik_Persist
  imports Cik_List_Props Cik_Main_Laws
begin

text \<open>
  What is persisted when the server ends, and what the next one makes of it: the file is a sequence of
  \<open>SET\<close> requests, one for every entry that has not expired, and reading it gives a cache with these
  entries, each the last of its key.
\<close>

section \<open>The file\<close>

text \<open>The entries that are written, each with the time it has left, and how many times the clock has been read.\<close>

definition persist_step :: "(nat \<Rightarrow> time_t) \<Rightarrow> CacheEntry \<Rightarrow> (CacheEntry \<times> u32) list \<times> nat \<Rightarrow> (CacheEntry \<times> u32) list \<times> nat" where
  "persist_step clk e = (\<lambda>(recs, n).
     if expires e = CACHE_EXPIRES_INIT then (recs @ [(e, 0xFFFFFFFF)], n)
     else if sint (expires e) < sint (clk n) then (recs, n + 1)
     else (recs @ [(e, ucast (expires e - clk n))], n + 1))"

definition persisted :: "(nat \<Rightarrow> time_t) \<Rightarrow> nat \<Rightarrow> CacheEntry list \<Rightarrow> (CacheEntry \<times> u32) list" where
  "persisted clk n es = fst (fold (persist_step clk) es ([], n))"

definition record_bytes :: "CacheEntry \<times> u32 \<Rightarrow> u8 list" where
  "record_bytes = (\<lambda>(e, ttl). set_request e (htonl ttl) @ rev (e_key e) @ tag_stream (e_tags e) @ e_value e)"

definition entries_in_map :: "state \<Rightarrow> nat \<Rightarrow> CacheEntry list" where
  "entries_in_map s i = map (\<lambda>a. the (heap s a)) (slot_entries (entry_maps s i))"

text \<open>How often the clock is read for some entries: once for each that has a time of expiry.\<close>

definition clock_reads :: "CacheEntry list \<Rightarrow> nat" where
  "clock_reads es = length (filter (\<lambda>e. expires e \<noteq> CACHE_EXPIRES_INIT) es)"

lemma persist_fold_clock: "snd (fold (persist_step clk) es x) = snd x + clock_reads es"
  by (induction es arbitrary: x) (auto simp: clock_reads_def persist_step_def split_beta)

text \<open>All entries, map after map, slot after slot.\<close>

definition stored_entries :: "state \<Rightarrow> CacheEntry list" where
  "stored_entries s = concat (map (entries_in_map s) [0..<NUM_CACHE_ENTRY_MAPS])"

lemma persist_fold_entries: "fst ` set (fst (fold (persist_step clk) es x)) \<subseteq> set es \<union> fst ` set (fst x)"
proof (induction es arbitrary: x)
  case (Cons e es)
  have "fst ` set (fst (persist_step clk e x)) \<subseteq> insert e (fst ` set (fst x))"
    by (cases x) (auto simp: persist_step_def)
  then show ?case using Cons.IH [of "persist_step clk e x"] by (simp only: fold_simps comp_def list.set) blast
qed simp

lemma persist_fold_grows: "set (fst x) \<subseteq> set (fst (fold (persist_step clk) es x))"
proof (induction es arbitrary: x)
  case (Cons e es)
  have "set (fst x) \<subseteq> set (fst (persist_step clk e x))" by (cases x) (auto simp: persist_step_def)
  with Cons.IH [of "persist_step clk e x"] show ?case by simp
qed simp

lemma persisted_entries: "fst ` set (persisted clk n es) \<subseteq> set es"
  using persist_fold_entries [of clk es "([], n)"] by (simp add: persisted_def)

section \<open>Writing an entry\<close>

lemma reversed_in_place_eq:
  assumes "name_fine bs"
  shows "reversed_in_place bs = Some (rev bs)"
proof -
  have len: "length bs \<in> {1..255}" using assms by (cases bs) (auto simp: name_fine_def)
  then have u: "unat (of_nat (length bs) :: u32) = length bs" by (simp add: unat_of_nat)
  then have pos: "0 < (of_nat (length bs) :: u32)" using len by (auto simp: word_less_nat_alt)
  show ?thesis
    using reverse_bytes_eq [OF pos, of 0 "length bs" "store_bytes (\<lambda>_. 0) 0 bs"] u
    by (simp add: reversed_in_place_def load_store_same store_bytes_over)
qed

text \<open>A disk that takes all that is written, and what is then in the file.\<close>

definition takes_all :: "(nat \<Rightarrow> nat \<Rightarrow> nat) \<Rightarrow> bool" where
  "takes_all acc \<longleftrightarrow> (\<forall>i n. n \<le> acc i n)"

definition disk_ok :: "file_calls \<Rightarrow> bool" where
  "disk_ok calls \<longleftrightarrow> ftruncate_result calls = 0 \<and> takes_all (write_accepts calls)"

definition holds :: "outfile \<Rightarrow> u8 list \<Rightarrow> bool" where
  "holds f bs \<longleftrightarrow> file_bytes f = bs \<and> takes_all (accepts f)"

lemma write_file_holds: "holds f bs \<Longrightarrow> holds (write_file new f) (bs @ new)"
  by (simp add: holds_def write_file_def takes_all_def)

lemma write_tags_eq:
  assumes "\<forall>tag \<in> set tags. name_fine tag" and "holds f bs"
  shows "\<exists>f'. write_tags tags f = Some (f', map rev tags) \<and> holds f' (bs @ tag_stream tags)"
  using assms
proof (induction tags arbitrary: f bs)
  case (Cons tag tags)
  have "holds (write_file (rev tag) (write_file [of_nat (length tag)] f)) (bs @ [of_nat (length tag)] @ rev tag)"
    using write_file_holds [OF write_file_holds [OF Cons.prems(2)]] by (simp only: append_assoc)
  from Cons.IH [OF _ this] Cons.prems(1) show ?case by (auto simp: reversed_in_place_eq Let_def)
qed simp

text \<open>What the callback does with a fine entry.\<close>

lemma write_entry_eq:
  assumes e: "heap s a = Some (e\<lparr>guard := True\<rparr>)" and fine: "entry_fine e" and f: "holds f bs"
  shows "\<exists>b h n' new f'. write_entry_as_set_request_callback a (s, f) = Some (b, s\<lparr>heap := h, clock_calls := n'\<rparr>, f') \<and>
    holds f' (bs @ concat (map record_bytes new)) \<and>
    (\<forall>recs. persist_step (clock s) e (recs, clock_calls s) = (recs @ new, n')) \<and> (\<forall>c. c \<noteq> a \<longrightarrow> h c = heap s c) \<and>
    (\<not> b \<longrightarrow> h = heap s)"
proof -
  note names = fine_names [OF fine]
  have rk: "reversed_in_place (e_key e) = Some (rev (e_key e))" by (rule reversed_in_place_eq [OF names(1)])
  have out: "\<exists>f2. write_tags (e_tags e) (write_file (rev (e_key e)) (write_file (set_request e (htonl ttl)) f)) = Some (f2, map rev (e_tags e)) \<and>
      holds (write_file (e_value e) f2) (bs @ concat (map record_bytes [(e, ttl)]))" for ttl
  proof -
    have "holds (write_file (rev (e_key e)) (write_file (set_request e (htonl ttl)) f)) (bs @ set_request e (htonl ttl) @ rev (e_key e))"
      using write_file_holds [OF write_file_holds [OF f]] by (simp only: append_assoc)
    from write_tags_eq [OF names(2) this] obtain f2 where f2:
      "write_tags (e_tags e) (write_file (rev (e_key e)) (write_file (set_request e (htonl ttl)) f)) = Some (f2, map rev (e_tags e))"
      "holds f2 ((bs @ set_request e (htonl ttl) @ rev (e_key e)) @ tag_stream (e_tags e))" by blast
    with write_file_holds [OF f2(2), of "e_value e"] show ?thesis by (auto simp: record_bytes_def)
  qed
  have req: "set_request (e\<lparr>guard := True\<rparr>) ttl = set_request e ttl" for ttl by (simp add: set_request_def)
  let ?now = "clock s (clock_calls s)"
  let ?f = "\<lambda>e. e\<lparr>e_key := rev (e_key e), e_tags := map rev (e_tags e)\<rparr>"
  consider "expires e = CACHE_EXPIRES_INIT" | "expires e \<noteq> CACHE_EXPIRES_INIT" "sint (expires e) < sint ?now"
    | "expires e \<noteq> CACHE_EXPIRES_INIT" "\<not> sint (expires e) < sint ?now" by blast
  then show ?thesis
  proof cases
    case 1
    let ?h = "(heap s)(a \<mapsto> e\<lparr>guard := True, e_key := rev (e_key e), e_tags := map rev (e_tags e)\<rparr>)"
    obtain f2 where f2: "write_tags (e_tags e) (write_file (rev (e_key e)) (write_file (set_request e (htonl 0xFFFFFFFF)) f)) =
        Some (f2, map rev (e_tags e))" "holds (write_file (e_value e) f2) (bs @ concat (map record_bytes [(e, 0xFFFFFFFF)]))"
      using out by blast
    have "write_entry_as_set_request_callback a (s, f) =
        Some (True, s\<lparr>heap := ?h, clock_calls := clock_calls s\<rparr>, write_file (e_value e) f2)"
      using 1 e rk f2(1) req
      by (simp add: write_entry_as_set_request_callback_def persisted_ttl_def upd_entry_def)
    moreover note f2(2)
    moreover have "\<forall>recs. persist_step (clock s) e (recs, clock_calls s) = (recs @ [(e, 0xFFFFFFFF)], clock_calls s)"
      using 1 by (simp add: persist_step_def)
    ultimately show ?thesis by (intro exI conjI) (assumption | simp)+
  next
    case 2
    then have "write_entry_as_set_request_callback a (s, f) =
        Some (False, s\<lparr>heap := heap s, clock_calls := clock_calls s + 1\<rparr>, f)"
      using e by (simp add: write_entry_as_set_request_callback_def persisted_ttl_def)
    moreover have "holds f (bs @ concat (map record_bytes []))" using f by simp
    moreover have "\<forall>recs. persist_step (clock s) e (recs, clock_calls s) = (recs @ [], clock_calls s + 1)"
      using 2 by (simp add: persist_step_def)
    ultimately show ?thesis by (intro exI conjI) (assumption | simp)+
  next
    case 3
    let ?h = "(heap s)(a \<mapsto> e\<lparr>guard := True, e_key := rev (e_key e), e_tags := map rev (e_tags e)\<rparr>)"
    obtain f2 where f2: "write_tags (e_tags e) (write_file (rev (e_key e)) (write_file (set_request e (htonl (ucast (expires e - ?now)))) f)) =
        Some (f2, map rev (e_tags e))" "holds (write_file (e_value e) f2) (bs @ concat (map record_bytes [(e, ucast (expires e - ?now))]))"
      using out by blast
    have "write_entry_as_set_request_callback a (s, f) =
        Some (True, s\<lparr>heap := ?h, clock_calls := clock_calls s + 1\<rparr>, write_file (e_value e) f2)"
      using 3 e rk f2(1) req
      by (simp add: write_entry_as_set_request_callback_def persisted_ttl_def upd_entry_def)
    moreover note f2(2)
    moreover have "\<forall>recs. persist_step (clock s) e (recs, clock_calls s) = (recs @ [(e, ucast (expires e - ?now))], clock_calls s + 1)"
      using 3 by (simp add: persist_step_def)
    ultimately show ?thesis by (intro exI conjI) (assumption | simp)+
  qed
qed

section \<open>Walking the maps\<close>

text \<open>A slot of a map in which nothing from this slot on has been touched: the map \<open>m\<close> and the heap
  \<open>h\<close> have become \<open>m'\<close> and \<open>h'\<close>.\<close>

definition untouched_from :: "nat \<Rightarrow> CacheEntryHashMap \<Rightarrow> store \<Rightarrow> CacheEntryHashMap \<Rightarrow> store \<Rightarrow> bool" where
  "untouched_from p m h m' h' \<longleftrightarrow> (\<forall>q. p \<le> q \<longrightarrow> q < CACHE_ENTRY_MAP_SIZE \<longrightarrow>
       mask m' q = mask m q \<and> entries m' q = entries m q \<and> \<not> guards m' q) \<and>
     (\<forall>a. a \<notin> set (entries_upto m p) \<longrightarrow> h' a = h a)"

text \<open>What has been written after some entries, and how often the clock was read.\<close>

definition written :: "state \<Rightarrow> (CacheEntry \<times> u32) list \<Rightarrow> CacheEntry list \<Rightarrow> state \<Rightarrow> outfile \<Rightarrow> bool" where
  "written s recs es s' file \<longleftrightarrow> clock s' = clock s \<and> entry_maps s' = entry_maps s \<and>
     (\<exists>out. fold (persist_step (clock s)) es (recs, clock_calls s) = (recs @ out, clock_calls s') \<and>
       holds file (concat (map record_bytes (recs @ out))))"

lemma write_step:
  assumes ok: "hm_ok (m, heap s)" and fine: "\<forall>a \<in> occupants m. \<forall>e. heap s a = Some e \<longrightarrow> entry_fine e"
    and p: "p < CACHE_ENTRY_MAP_SIZE" and un: "untouched_from p m (heap s) m' h'"
    and w: "written s recs (map (\<lambda>a. the (heap s a)) (entries_upto m p)) sx file"
  defines "wcb \<equiv> \<lambda>a st (s, d). do { (b, s', d') \<leftarrow> write_entry_as_set_request_callback a (s\<lparr>heap := st\<rparr>, d); Some (b, heap s', s', d') }"
  shows "\<exists>m2 h2 s2 file2. walk_step wcb p (m', h', sx, file) = Some (m2, h2, s2, file2) \<and>
    untouched_from (Suc p) m (heap s) m2 h2 \<and> written s recs (map (\<lambda>a. the (heap s a)) (entries_upto m (Suc p))) s2 file2"
proof -
  have mok: "map_ok m (heap s)" using ok by (simp add: hm_ok_def)
  have slot: "mask m' p = mask m p" "entries m' p = entries m p" "\<not> guards m' p" using un p by (auto simp: untouched_from_def)
  note re = slot_relock [OF slot(3)]
  show ?thesis
  proof (cases "mask m p")
    case False
    then have "walk_step wcb p (m', h', sx, file) = Some (m', h', sx, file)" using slot re by (simp add: walk_step_def)
    moreover have "untouched_from (Suc p) m (heap s) m' h'" using un False by (auto simp: untouched_from_def)
    ultimately show ?thesis using w False by simp
  next
    case True
    then obtain a e where ae: "entries m p = Some a" "heap s a = Some e" using map_okD(2) [OF mok p] by auto
    have occ: "a \<in> occupants m" using p True ae by (auto simp: occupants_def)
    have ng: "\<not> guard e" using ok occ ae by (auto simp: hm_ok_def unlocked_def)
    have "a \<notin> set (entries_upto m p)"
    proof
      assume "a \<in> set (entries_upto m p)"
      then obtain q where q: "q < p" "mask m q" "entries m q = Some a" by (auto simp: set_entries_upto)
      then show False using map_ok_inj [OF mok p, of q] True ae(1) p by simp
    qed
    then have ha: "h' a = Some e" using un ae(2) by (simp add: untouched_from_def)
    let ?s = "sx\<lparr>heap := set_guard True a h'\<rparr>"
    have hg: "heap ?s a = Some (e\<lparr>guard := True\<rparr>)" using ha by (simp add: set_guard_same)
    obtain out where out: "clock sx = clock s" "entry_maps sx = entry_maps s"
      "fold (persist_step (clock s)) (map (\<lambda>a. the (heap s a)) (entries_upto m p)) (recs, clock_calls s) = (recs @ out, clock_calls sx)"
      "holds file (concat (map record_bytes (recs @ out)))" using w by (auto simp: written_def)
    have fine_e: "entry_fine e" using fine occ ae(2) by blast
    from write_entry_eq [OF hg fine_e out(4)] obtain b h n' new f2 where cb: "write_entry_as_set_request_callback a (?s, file) =
        Some (b, ?s\<lparr>heap := h, clock_calls := n'\<rparr>, f2)"
      "\<And>recs. persist_step (clock ?s) e (recs, clock_calls ?s) = (recs @ new, n')" "\<And>c. c \<noteq> a \<Longrightarrow> h c = heap ?s c"
      "\<not> b \<Longrightarrow> h = heap ?s" "holds f2 (concat (map record_bytes (recs @ out)) @ concat (map record_bytes new))"
      by blast
    let ?s2 = "?s\<lparr>heap := h, clock_calls := n'\<rparr>" and ?f2 = "f2"
    have w2: "written s recs (map (\<lambda>a. the (heap s a)) (entries_upto m (Suc p))) ?s2 ?f2"
      using cb(2,5) out(1-3) True ae by (auto simp: written_def)
    have un2: "untouched_from (Suc p) m (heap s) m2 h2"
      if "\<And>q. q \<noteq> p \<Longrightarrow> mask m2 q = mask m' q \<and> entries m2 q = entries m' q \<and> guards m2 q = guards m' q" "\<And>c. c \<noteq> a \<Longrightarrow> h2 c = h' c" for m2 h2
      using un that True ae(1) by (auto simp: untouched_from_def)
    show ?thesis
    proof (cases b)
      case True
      have "walk_step wcb p (m', h', sx, file) = Some (unset_slot m' p, h, ?s2, ?f2)"
        using slot re True \<open>mask m p\<close> ae ha ng cb(1) UNLOCK_unset_slot [OF slot(3)]
        by (simp add: walk_step_def wcb_def LOCK_ENTRY_eq)
      moreover have "untouched_from (Suc p) m (heap s) (unset_slot m' p) h"
        by (rule un2) (use cb(3) in \<open>simp_all add: unset_slot_def\<close>)
      ultimately show ?thesis using w2 by blast
    next
      case False
      have "heap ?s2 a = Some (e\<lparr>guard := True\<rparr>)" using cb(4) [OF False] hg by simp
      then have "walk_step wcb p (m', h', sx, file) = Some (m', set_guard False a h, ?s2, ?f2)"
        using slot re False \<open>mask m p\<close> ae ha ng cb(1) UNLOCK_ENTRY_eq [where st = h]
        by (simp add: walk_step_def wcb_def LOCK_ENTRY_eq)
      moreover have "untouched_from (Suc p) m (heap s) m' (set_guard False a h)"
        by (rule un2) (use cb(3) in \<open>simp_all\<close>)
      ultimately show ?thesis using w2 by blast
    qed
  qed
qed

lemma write_map:
  assumes ok: "hm_ok (entry_maps s i, heap s)" and fine: "\<forall>a \<in> occupants (entry_maps s i). \<forall>e. heap s a = Some e \<longrightarrow> entry_fine e"
    and f: "holds f (concat (map record_bytes recs))"
  obtains s' f' out where "walk_map write_entry_as_set_request_callback i (s, f) = Some (s', f')"
    "holds f' (concat (map record_bytes (recs @ out)))"
    "fold (persist_step (clock s)) (entries_in_map s i) (recs, clock_calls s) = (recs @ out, clock_calls s')"
    "clock s' = clock s" "\<forall>j. j \<noteq> i \<longrightarrow> entry_maps s' j = entry_maps s j"
    "\<forall>a. a \<notin> occupants (entry_maps s i) \<longrightarrow> heap s' a = heap s a"
proof -
  let ?m = "entry_maps s i"
  let ?wcb = "\<lambda>a st (s, d). do { (b, s', d') \<leftarrow> write_entry_as_set_request_callback a (s\<lparr>heap := st\<rparr>, d); Some (b, heap s', s', d') }"
  define I where "I p = (\<lambda>(m', h', sx, d). untouched_from p ?m (heap s) m' h' \<and>
    written s recs (map (\<lambda>a. the (heap s a)) (entries_upto ?m p)) sx d)" for p
  have step: "\<exists>u'. walk_step ?wcb p u = Some u' \<and> I (Suc p) u'" if "p < CACHE_ENTRY_MAP_SIZE" "I p u" for p u
  proof (cases u)
    case (fields m' h' sx d)
    with write_step [OF ok fine that(1), of m' h' recs sx d] that(2) show ?thesis by (auto simp: I_def)
  qed
  have mok: "map_ok ?m (heap s)" using ok by (simp add: hm_ok_def)
  have "I 0 (?m, heap s, s, f)"
    using map_okD(1) [OF mok] f by (auto simp: I_def untouched_from_def written_def)
  from walk_entries_rule [of I ?wcb, OF step this] obtain u' where
    u': "walk_entries ?wcb (?m, heap s, s, f) = Some u'" "I CACHE_ENTRY_MAP_SIZE u'" by blast
  obtain m' h' sx d where u: "u' = (m', h', sx, d)" by (cases u')
  obtain out where W: "clock sx = clock s" "entry_maps sx = entry_maps s"
    "fold (persist_step (clock s)) (entries_in_map s i) (recs, clock_calls s) = (recs @ out, clock_calls sx)"
    "holds d (concat (map record_bytes (recs @ out)))"
    using u'(2) by (auto simp: I_def u written_def entries_in_map_def slot_entries_def)
  have "\<forall>a. a \<notin> occupants ?m \<longrightarrow> h' a = heap s a"
    using u'(2) by (simp add: I_def u untouched_from_def set_slot_entries [unfolded slot_entries_def])
  with W u'(1) show thesis
    by (intro that [of "sx\<lparr>entry_maps := (entry_maps sx)(i := m'), heap := h'\<rparr>" d out]) (simp_all add: walk_map_def u)
qed

text \<open>The maps that are still to be walked are as they were.\<close>

definition pending :: "state \<Rightarrow> nat list \<Rightarrow> state \<Rightarrow> bool" where
  "pending s0 js s \<longleftrightarrow> (\<forall>j \<in> set js. entry_maps s j = entry_maps s0 j \<and> (\<forall>a \<in> occupants (entry_maps s0 j). heap s a = heap s0 a))"

lemma pending_map:
  assumes inv: "sys_inv s0" and j: "j < NUM_CACHE_ENTRY_MAPS" and p: "pending s0 (j # js) s"
  shows "hm_ok (entry_maps s j, heap s)" and "\<forall>a \<in> occupants (entry_maps s j). \<forall>e. heap s a = Some e \<longrightarrow> entry_fine e"
    and "entries_in_map s j = entries_in_map s0 j"
proof -
  have m: "entry_maps s j = entry_maps s0 j" and h: "\<And>a. a \<in> occupants (entry_maps s0 j) \<Longrightarrow> heap s a = heap s0 a"
    using p by (auto simp: pending_def)
  have ok: "hm_ok (entry_maps s0 j, heap s0)" by (rule hm_ok_map [OF inv j]) simp
  have "map_ok (entry_maps s0 j) (heap s)"
    by (rule map_ok_heap_cong [of _ _ "heap s0"]) (use h ok in \<open>auto simp: hm_ok_def\<close>)
  moreover have "unlocked (heap s) (occupants (entry_maps s0 j))" using ok h by (simp add: hm_ok_def unlocked_def)
  ultimately show "hm_ok (entry_maps s j, heap s)" by (simp add: hm_ok_def m)
  show "\<forall>a \<in> occupants (entry_maps s j). \<forall>e. heap s a = Some e \<longrightarrow> entry_fine e"
    using h core_invD(7) [OF inv] by (simp add: m)
  show "entries_in_map s j = entries_in_map s0 j"
    using h by (simp add: entries_in_map_def m set_slot_entries cong: map_cong)
qed

lemma write_maps:
  assumes inv: "sys_inv s0" and "set js \<subseteq> {..<NUM_CACHE_ENTRY_MAPS}" and "distinct js" and "pending s0 js s"
    and "holds f (concat (map record_bytes recs))"
  shows "\<exists>s' f' out. fold_opt (walk_map write_entry_as_set_request_callback) js (s, f) = Some (s', f') \<and>
    holds f' (concat (map record_bytes (recs @ out))) \<and>
    fold (persist_step (clock s)) (concat (map (entries_in_map s0) js)) (recs, clock_calls s) = (recs @ out, clock_calls s')"
  using assms(2-5)
proof (induction js arbitrary: s f recs)
  case Nil
  then show ?case by (intro exI [of _ s] exI [of _ f] exI [of _ "[]"]) simp
next
  case (Cons j js)
  have j: "j < NUM_CACHE_ENTRY_MAPS" using Cons.prems(1) by simp
  note P = pending_map [OF inv j Cons.prems(3)]
  obtain s1 f1 out where s1: "walk_map write_entry_as_set_request_callback j (s, f) = Some (s1, f1)"
    "fold (persist_step (clock s)) (entries_in_map s j) (recs, clock_calls s) = (recs @ out, clock_calls s1)"
    "clock s1 = clock s" "\<forall>i. i \<noteq> j \<longrightarrow> entry_maps s1 i = entry_maps s i"
    "\<forall>a. a \<notin> occupants (entry_maps s j) \<longrightarrow> heap s1 a = heap s a" and f1: "holds f1 (concat (map record_bytes (recs @ out)))"
    by (rule write_map [OF P(1,2) Cons.prems(4)])
  have em: "entry_maps s j = entry_maps s0 j" using Cons.prems(3) by (simp add: pending_def)
  have "pending s0 js s1"
    unfolding pending_def
  proof (intro ballI conjI)
    fix i assume i: "i \<in> set js"
    then have ij: "i \<noteq> j" using Cons.prems(2) by auto
    show "entry_maps s1 i = entry_maps s0 i" using s1(4) ij i Cons.prems(3) by (simp add: pending_def)
    fix a assume a: "a \<in> occupants (entry_maps s0 i)"
    then have "a \<notin> occupants (entry_maps s0 j)"
      using occupants_disjoint [OF core_invD(3) [OF inv], of i j] ij i j Cons.prems(1) by auto
    then show "heap s1 a = heap s0 a" using s1(5) i a Cons.prems(3) by (simp add: em pending_def)
  qed
  then obtain s' f' out' where "fold_opt (walk_map write_entry_as_set_request_callback) js (s1, f1) = Some (s', f')"
    "holds f' (concat (map record_bytes ((recs @ out) @ out')))"
    "fold (persist_step (clock s1)) (concat (map (entries_in_map s0) js)) (recs @ out, clock_calls s1) = ((recs @ out) @ out', clock_calls s')"
    using Cons.IH [of s1 f1 "recs @ out"] Cons.prems(1,2) f1 by auto
  then show ?case using s1(1-3) P(3) by (intro exI [of _ s'] exI [of _ f'] exI [of _ "out @ out'"]) simp
qed

lemma persist_eq:
  assumes inv: "sys_inv s" and disk: "disk_ok calls"
  shows "\<exists>s'. persist calls s = Some (concat (map record_bytes (persisted (clock s) (clock_calls s) (stored_entries s))), s') \<and>
    clock_calls s' = clock_calls s + clock_reads (stored_entries s)"
proof -
  let ?f = "\<lparr>file_bytes = [], writes = 0, accepts = write_accepts calls\<rparr>"
  have "holds ?f (concat (map record_bytes []))" using disk by (simp add: holds_def disk_ok_def)
  moreover have "pending s [0..<NUM_CACHE_ENTRY_MAPS] s" by (simp add: pending_def)
  moreover have "set [0..<NUM_CACHE_ENTRY_MAPS] \<subseteq> {..<NUM_CACHE_ENTRY_MAPS}" by (simp add: atLeast0LessThan)
  ultimately obtain s' f' out where
    "walk_all_entries write_entry_as_set_request_callback (s, ?f) = Some (s', f')" "holds f' (concat (map record_bytes out))"
    "fold (persist_step (clock s)) (stored_entries s) ([], clock_calls s) = (out, clock_calls s')"
    using write_maps [OF inv, of "[0..<NUM_CACHE_ENTRY_MAPS]" s ?f "[]"] by (auto simp: walk_all_entries_def stored_entries_def)
  moreover have "clock_calls s' = clock_calls s + clock_reads (stored_entries s)"
    using persist_fold_clock [of "clock s" "stored_entries s" "([], clock_calls s)"] calculation(3) by simp
  ultimately show ?thesis using disk by (simp add: persist_def persisted_def holds_def disk_ok_def overwrite_def)
qed

section \<open>Reading the file\<close>

definition reloaded_entry :: "CacheEntry \<Rightarrow> u32 \<Rightarrow> time_t \<Rightarrow> CacheEntry" where
  "reloaded_entry e ttl now = e\<lparr>mtime := now, expires := (if ttl = 0xFFFFFFFF then CACHE_EXPIRES_INIT else now + ucast ttl),
     nhits := 0, guard := False\<rparr>"

text \<open>The cache after reading records: a \<open>SET\<close> reads the clock twice.\<close>

fun reload :: "(nat \<Rightarrow> time_t) \<Rightarrow> nat \<Rightarrow> (CacheEntry \<times> u32) list \<Rightarrow> (u8 list \<rightharpoonup> CacheEntry) \<Rightarrow> (u8 list \<rightharpoonup> CacheEntry)" where
  "reload clk n [] C = C"
| "reload clk n ((e, ttl) # recs) C = reload clk (n + 2) recs (C(e_key e \<mapsto> reloaded_entry e ttl (clk (n + 1))))"

lemma record_wire:
  assumes "entry_fine e"
  shows "set_wire (set_request e (htonl ttl)) (e_key e) (e_tags e) (e_value e)"
    and "set_entry (set_request e (htonl ttl)) (e_key e) (e_tags e) (e_value e) now = reloaded_entry e ttl now"
proof -
  let ?r = "set_request e (htonl ttl)"
  have v: "length (e_value e) < 2 ^ 32" "length (e_key e) \<le> 255" "length (e_tags e) \<le> 255" "e_key e \<noteq> []"
    and tags: "tags_ok (e_tags e)" and size: "entry_size e \<le> MAX_BUCKET_SIZE"
    using assms by (auto simp: entry_fine_def entry_size_def MAX_BUCKET_SIZE_def tags_ok_def)
  have f: "length ?r = sizeof_Request" "req_cik ?r = [CONTROL_BYTE_1, CONTROL_BYTE_2, CONTROL_BYTE_3]" "req_op ?r = CMD_BYTE_SET"
    "req_s_flags ?r = SET_FLAG_NONE" "unat (req_s_klen ?r) = length (e_key e)" "unat (req_s_ntags ?r) = length (e_tags e)"
    using v by (simp_all add: set_request_def sizeof_Request_def request_field_defs unat_of_nat be32_def)
  have "req_s_vlen ?r = htonl (of_nat (length (e_value e)))" "req_s_ttl ?r = htonl ttl"
    by (simp_all add: set_request_def request_field_defs htonl_def be32_def)
  then have g: "ntohl (req_s_vlen ?r) = of_nat (length (e_value e))" "ntohl (req_s_ttl ?r) = ttl" by simp_all
  have "unat (of_nat (length (e_value e)) :: u32) = length (e_value e)" using v(1) by (rule unat_of_nat_u32)
  then show "set_wire ?r (e_key e) (e_tags e) (e_value e)"
    using f g v(4) tags size
    by (simp add: set_wire_def request_ok_def SET_FLAG_NONE_def entry_size_def set_total_def algebra_simps)
  show "set_entry ?r (e_key e) (e_tags e) (e_value e) now = reloaded_entry e ttl now"
    unfolding set_entry_def set_expires_def g reloaded_entry_def by (cases e) simp
qed

text \<open>The blocks that reading a record takes, for the entry and for its tags.\<close>

definition entry_budget :: "CacheEntry \<Rightarrow> nat" where
  "entry_budget e = 2 * length (e_tags e) + block_budget (entry_size e)"

text \<open>How many of some entries belong to a map.\<close>

definition map_share :: "nat \<Rightarrow> CacheEntry list \<Rightarrow> nat" where
  "map_share i es = (\<Sum>e\<leftarrow>es. if map_for_key (e_key e) = i then 1 else 0)"

text \<open>The state of the loop before it reads these records, with a budget of \<open>k\<close> blocks beyond them.\<close>

definition loading :: "nat \<Rightarrow> (CacheEntry \<times> u32) list \<Rightarrow> state \<Rightarrow> bool" where
  "loading k recs s \<longleftrightarrow> sys_inv s \<and> worker (clients s log_client) = Some log_worker \<and> worker_ready s log_worker \<and>
     at_eof (sock (clients s log_client)) \<and> whole (incoming (sock (clients s log_client))) \<and>
     unread s log_client = concat (map record_bytes recs) \<and> (\<forall>(e, ttl) \<in> set recs. entry_fine e) \<and>
     room (mem s) (k + sum_list (map entry_budget (map fst recs))) \<and>
     (\<forall>i. fill s i + map_share i (map fst recs) \<le> CACHE_ENTRY_MAP_SIZE)"

lemma load_step:
  assumes l: "loading k ((e, ttl) # recs) s" and len: "length request = sizeof_Request"
  obtains s' where "load_loop request s = load_loop (set_request e (htonl ttl)) s'" "loading k recs s'" "loose s' = loose s"
    "bufs_kept s s'" "indexed s \<longrightarrow> indexed s'" "clock s' = clock s" "clock_calls s' = clock_calls s + 2"
    "cache s' = (cache s)(e_key e \<mapsto> reloaded_entry e ttl (clock s (clock_calls s + 1)))"
    "\<forall>i. fill s' i \<le> fill s i + (if i = map_for_key (e_key e) then 1 else 0)"
proof -
  let ?r = "set_request e (htonl ttl)" and ?rest = "concat (map record_bytes recs)"
  have L: "sys_inv s" "worker (clients s log_client) = Some log_worker" "worker_ready s log_worker"
    "at_eof (sock (clients s log_client))" "whole (incoming (sock (clients s log_client)))"
    "unread s log_client = ?r @ rev (e_key e) @ tag_stream (e_tags e) @ e_value e @ ?rest"
    "entry_fine e" "\<forall>(e, ttl) \<in> set recs. entry_fine e"
    "room (mem s) (2 * length (e_tags e) + (k + sum_list (map entry_budget (map fst recs))) + block_budget (entry_size e))"
    "\<forall>i. fill s i + map_share i (map fst ((e, ttl) # recs)) \<le> CACHE_ENTRY_MAP_SIZE"
    using l by (simp_all add: loading_def record_bytes_def entry_budget_def algebra_simps)
  note wire = record_wire [OF L(7), of ttl]
  have R: "length ?r = sizeof_Request" "req_cik ?r = [CONTROL_BYTE_1, CONTROL_BYTE_2, CONTROL_BYTE_3]" "req_op ?r = CMD_BYTE_SET"
    and vlen: "length (e_value e) = unat (ntohl (req_s_vlen ?r))" using wire(1) by (simp_all add: set_wire_def request_ok_def)
  have pos: "0 < sizeof_Request" by (simp add: sizeof_Request_def)
  obtain ds where ds: "sys_read (incoming (sock (clients s log_client))) (at_eof (sock (clients s log_client))) sizeof_Request = Some (io_result.Got ?r, ds)"
    "whole ds" "stream ds = rev (e_key e) @ tag_stream (e_tags e) @ e_value e @ ?rest"
    by (rule sys_read_record [OF L(5) _ R(1) pos]) (use L(6) in \<open>simp add: unread_def\<close>)
  define s1 where "s1 = upd_client log_client (sock_update (incoming_update (\<lambda>_. ds))) s"
  define s2 where "s2 = s1\<lparr>current_client := Some log_client, current_log_queue := Some log_worker, tick_calls := tick_calls s1 + 1\<rparr>"
  have read: "read_to log_client (rev (e_key e) @ tag_stream (e_tags e) @ e_value e @ ?rest) s s1"
    using ds(2,3) by (auto simp: read_to_def s1_def)
  note T = read_toD [OF read]
  have sc: "same_core s s2" using T(1) by (simp add: same_core_def s2_def)
  have inv2: "sys_inv s2" "cache s2 = cache s" using same_core_inv [OF sc] same_core_cache [OF sc] L(1) by simp_all
  have core2: "mem s2 = mem s" "entry_maps s2 = entry_maps s" "tag_tree s2 = tag_tree s" "loose s2 = loose s"
    using sc by (simp_all add: same_core_def loose_def)
  have io2: "worker (clients s2 log_client) = Some log_worker" "workers s2 = workers s" "clock s2 = clock s" "clock_calls s2 = clock_calls s"
    "clients s2 = clients s1" "unread s2 log_client = rev (e_key e) @ tag_stream (e_tags e) @ e_value e @ ?rest"
    using T(2-7) L(2) by (simp_all add: s2_def unread_def)
  have ok: "set_request_ok s2 log_client log_worker ?r (e_key e) (e_tags e) (e_value e @ ?rest)"
    by (rule set_wire_ok [OF wire(1) _ io2(1,6)]) (use L(3) io2(2) in \<open>simp add: worker_ready_def\<close>)
  have size: "sizeof_CacheEntry + set_total (e_tags e) (e_key e) (length (e_value e)) = entry_size e"
    by (simp add: entry_size_def set_total_def)
  have rm: "room (mem s2) (2 * length (e_tags e) + (k + sum_list (map entry_budget (map fst recs))) +
      block_budget (sizeof_CacheEntry + set_total (e_tags e) (e_key e) (length (e_value e))))"
    using L(9) by (simp add: core2 size)
  have "\<not> map_full s2 (e_key e)"
    using L(10) [rule_format, of "map_for_key (e_key e)"] fill_full [of s2 "e_key e"] fill_cong [of s2 "map_for_key (e_key e)" s]
    by (auto simp: map_share_def core2)
  moreover have "\<not> MAX_BUCKET_SIZE < entry_size e" using L(7) by (simp add: entry_fine_def)
  ultimately obtain s3 where h: "handle_set_request s2 log_client ?r = Some (STATUS_OK, s3)" "sys_inv s3" "loose s3 = loose s2"
    "served log_client s2 s3" "bufs_kept s2 s3" "indexed s2 \<longrightarrow> indexed s3" "unread s3 log_client = ?rest"
    "cache s3 = (cache s2)(e_key e \<mapsto> reloaded_entry e ttl (clock s2 (clock_calls s2 + 1)))"
    "clock s3 = clock s2" "clock_calls s3 = clock_calls s2 + 2" "room (mem s3) (k + sum_list (map entry_budget (map fst recs)))"
    "\<forall>i. fill s3 i \<le> fill s2 i + (if i = map_for_key (e_key e) then 1 else 0)"
    using set_ok_room [OF inv2(1) ok vlen rm] unfolding size wire(2) by blast
  define s4 where "s4 = account log_worker (ticks s1 (tick_calls s1)) t_set_update n_set_update s3"
  have w1: "worker (clients s1 log_client) = Some log_worker" using T(3) L(2) by simp
  have "CMD_BYTE_SET \<noteq> CMD_BYTE_GET" by (simp add: command_byte_defs)
  then have "handle_request s1 log_client ?r = Some (STATUS_OK, NullPayload, s4)"
    using handle_request_dispatch [OF w1 R(2)] h(1) by (simp add: dispatch_def R(3) s2_def s4_def)
  moreover have "overwrite ?r request = ?r" using len R(1) by (simp add: overwrite_def)
  ultimately have run: "load_loop request s = load_loop ?r s4"
    using ds(1) by (subst load_loop.simps) (simp add: s1_def Let_def)
  have sc4: "same_core s3 s4" by (simp add: s4_def)
  have inv4: "sys_inv s4" "cache s4 = cache s3" using same_core_inv [OF sc4] same_core_cache [OF sc4] h(2) by simp_all
  have core4: "mem s4 = mem s3" "loose s4 = loose s3" "tag_tree s4 = tag_tree s3" "fill s4 i = fill s3 i" for i
    using sc4 by (simp_all add: same_core_def loose_def fill_def)
  have bk: "bufs_kept s s4" using h(5) io2(2) by (simp add: bufs_kept_def s4_def)
  have f2: "fill s2 i = fill s i" for i by (simp add: fill_def core2)
  have fill4: "\<forall>i. fill s4 i \<le> fill s i + (if i = map_for_key (e_key e) then 1 else 0)" using h(12) by (simp add: core4 f2)
  have io4: "clients s4 = clients s3" "unread s4 log_client = ?rest" using h(7) by (simp_all add: s4_def)
  have sv: "served log_client s s3" using served_trans [OF T(9)] h(4) served_eq [OF io2(5)] served_trans by blast
  have "loading k recs s4"
    unfolding loading_def io4
  proof (intro conjI)
    show "worker (clients s3 log_client) = Some log_worker" "at_eof (sock (clients s3 log_client))"
      "whole (incoming (sock (clients s3 log_client)))"
      using servedD(1,3,7) [OF sv] L(2,4,5) by simp_all
    show "worker_ready s4 log_worker" using worker_ready_kept [OF bk] L(3) by simp
    show "\<forall>i. fill s4 i + map_share i (map fst recs) \<le> CACHE_ENTRY_MAP_SIZE"
    proof
      fix i
      show "fill s4 i + map_share i (map fst recs) \<le> CACHE_ENTRY_MAP_SIZE"
        using fill4 [rule_format, of i] L(10) [rule_format, of i] by (simp add: map_share_def split: if_splits)
    qed
  qed (use inv4 h(11) core4 L(8) in simp_all)
  moreover have "indexed s \<longrightarrow> indexed s4" using h(6) inv2(2) inv4(2) core2(3) core4(3) by (simp add: indexed_def)
  moreover have "clock s4 = clock s" "clock_calls s4 = clock_calls s + 2" using h(9,10) io2(3,4) by (simp_all add: s4_def)
  ultimately show thesis
    using that [of s4] run bk fill4 inv4(2) h(3,8) core2(4) core4(2) inv2(2) io2(3,4) by simp
qed

lemma load_records:
  assumes "loading k recs s" and "length request = sizeof_Request"
  shows "\<exists>s'. load_loop request s = Some s' \<and> sys_inv s' \<and> loose s' = loose s \<and> bufs_kept s s' \<and> (indexed s \<longrightarrow> indexed s') \<and>
    cache s' = reload (clock s) (clock_calls s) recs (cache s) \<and> room (mem s') k \<and>
    (\<forall>i. fill s' i \<le> fill s i + map_share i (map fst recs))"
  using assms
proof (induction recs arbitrary: s request)
  case Nil
  let ?sk = "sock (clients s log_client)"
  have "whole (incoming ?sk)" "at_eof ?sk" "stream (incoming ?sk) = []" using Nil.prems(1) by (simp_all add: loading_def unread_def)
  then have r: "sys_read (incoming ?sk) (at_eof ?sk) sizeof_Request = Some (Eof, [])"
    using sys_read_end [of "incoming ?sk" "at_eof ?sk" sizeof_Request] whole_not_broken by simp
  let ?s = "upd_client log_client (sock_update (incoming_update (\<lambda>_. []))) s"
  have "load_loop request s = Some ?s" using r by (subst load_loop.simps) simp
  moreover have "same_core s ?s" by (simp add: same_core_def)
  moreover have "indexed ?s = indexed s" "fill ?s i = fill s i" for i
    using same_core_cache [OF \<open>same_core s ?s\<close>] by (simp_all add: indexed_def fill_def)
  ultimately show ?case
    using Nil.prems(1) same_core_inv [of s ?s "{}" "{}"] same_core_cache [of s ?s]
    by (intro exI [of _ ?s]) (simp add: loading_def map_share_def bufs_kept_def loose_def)
next
  case (Cons rec recs)
  obtain e ttl where rec: "rec = (e, ttl)" by (cases rec)
  obtain s1 where s1: "load_loop request s = load_loop (set_request e (htonl ttl)) s1" "loading k recs s1" "loose s1 = loose s"
    "bufs_kept s s1" "indexed s \<longrightarrow> indexed s1" "clock s1 = clock s" "clock_calls s1 = clock_calls s + 2"
    "cache s1 = (cache s)(e_key e \<mapsto> reloaded_entry e ttl (clock s (clock_calls s + 1)))"
    "\<forall>i. fill s1 i \<le> fill s i + (if i = map_for_key (e_key e) then 1 else 0)"
    by (rule load_step [OF Cons.prems(1) [unfolded rec] Cons.prems(2)])
  have "length (set_request e (htonl ttl)) = sizeof_Request" by (simp add: set_request_def sizeof_Request_def)
  from Cons.IH [OF s1(2) this] obtain s' where s': "load_loop (set_request e (htonl ttl)) s1 = Some s'" "sys_inv s'" "loose s' = loose s1"
    "bufs_kept s1 s'" "indexed s1 \<longrightarrow> indexed s'" "cache s' = reload (clock s1) (clock_calls s1) recs (cache s1)" "room (mem s') k"
    "\<forall>i. fill s' i \<le> fill s1 i + map_share i (map fst recs)" by blast
  have "\<forall>i. fill s' i \<le> fill s i + map_share i (map fst (rec # recs))"
  proof
    fix i
    show "fill s' i \<le> fill s i + map_share i (map fst (rec # recs))"
      using s1(9) [rule_format, of i] s'(8) [rule_format, of i] by (simp add: rec map_share_def split: if_splits)
  qed
  then show ?case
    using s1 s' bufs_kept_trans [OF s1(4) s'(4)] by (intro exI [of _ s']) (simp add: rec)
qed

text \<open>\<open>load_request_log\<close>: the buffer that it reserves goes back in the end.\<close>

lemma release_loose:
  assumes inv: "sys_inv s" and a: "a \<in> loose s"
  obtains m where "release_memory (mem s) a = Some m" "sys_inv (s\<lparr>mem := m\<rparr>)" "loose (s\<lparr>mem := m\<rparr>) = loose s - {a}"
    "\<forall>k. room (mem s) k \<longrightarrow> room m k"
proof -
  note D = core_invD [OF inv]
  have a': "a \<in> live (mem s)" "a \<notin> tag_blocks (tag_tree s)" "a \<notin> dom (heap s)" using a by (auto simp: loose_def)
  from bmem.release_roomE [OF D(1) a'(1)] obtain m where m: "release_memory (mem s) a = Some m" "mem_inv m"
    "live m = live (mem s) - {a}" "\<And>k. room (mem s) k \<Longrightarrow> room m k" by metis
  have "tag_inv m (tag_tree s)" using D(2) a'(2) m(3) unfolding tag_inv_def by blast
  moreover have "heap_inv {} {} (s\<lparr>mem := m\<rparr>)"
    using D(4-8) a'(3) m(3) unfolding heap_inv_def occupied_def by (simp, blast)
  ultimately have "sys_inv (s\<lparr>mem := m\<rparr>)" using m(2) D(3) by (simp add: core_inv_def maps_inv_def)
  moreover have "loose (s\<lparr>mem := m\<rparr>) = loose s - {a}" by (auto simp: loose_def m(3))
  ultimately show thesis using that m(1,4) by blast
qed

lemma load_ok:
  assumes inv: "sys_inv s" and fine: "\<forall>(e, ttl) \<in> set recs. entry_fine e"
    and rm: "room (mem s) (k + sum_list (map entry_budget (map fst recs)) + BIG)"
    and fit: "\<forall>i. fill s i + map_share i (map fst recs) \<le> CACHE_ENTRY_MAP_SIZE"
    and len: "length request = sizeof_Request"
  shows "\<exists>s'. load_request_log (concat (map record_bytes recs)) n request s = Some s' \<and> sys_inv s' \<and> loose s' = loose s \<and>
    (indexed s \<longrightarrow> indexed s') \<and> cache s' = reload (clock s) (clock_calls s) recs (cache s) \<and> room (mem s') k \<and>
    (\<forall>i. fill s' i \<le> fill s i + map_share i (map fst recs))"
proof -
  let ?file = "concat (map record_bytes recs)"
  obtain a m where am: "reserve_biggest_possible_payload (mem s) (payload_buffer (workers s log_worker)) =
      (True, (payload_buffer (workers s log_worker))\<lparr>payload_base := Some a, payload_nmemb := 0, payload_cap := of_nat MAX_BUCKET_SIZE\<rparr>, m)"
    "reserve_memory (mem s) (of_nat MAX_BUCKET_SIZE) = (Some a, m)" "room m (k + sum_list (map entry_budget (map fst recs)))"
    by (rule reserve_payload_ok [OF inv rm])
  let ?t = "open_log ?file n s"
  have mt: "mem ?t = m" using am(1) by (simp add: open_log_def)
  have sc: "same_core (s\<lparr>mem := m\<rparr>) ?t" using am(1) by (simp add: open_log_def same_core_def upd_client_def upd_worker_def)
  note K = reserve_keeps [OF inv am(2)]
  have new: "a \<notin> loose s" using mem.reserve_Some [OF core_invD(1) [OF inv] am(2)] by (auto simp: loose_def)
  have ct: "cache ?t = cache s" using same_core_cache [OF sc] by (simp add: cache_def entry_of_def fun_eq_iff)
  have tt: "tag_tree ?t = tag_tree s" "fill ?t i = fill s i" for i using sc by (simp_all add: same_core_def fill_def)
  have lt: "loose ?t = insert a (loose s)" using K(2) sc by (simp add: loose_def same_core_def)
  have io: "clock ?t = clock s" "clock_calls ?t = clock_calls s" using am(1) by (simp_all add: open_log_def upd_client_def upd_worker_def)
  have sk: "worker (clients ?t log_client) = Some log_worker" "sock (clients ?t log_client) = file_socket ?file"
    "payload_base (payload_buffer (workers ?t log_worker)) = Some a" "worker_ready ?t log_worker"
    using am(1) by (simp_all add: open_log_def upd_client_def upd_worker_def worker_ready_def)
  have "loading k recs ?t"
    unfolding loading_def
    using sk am(3) fine fit same_core_inv [OF sc] K(1) by (simp add: mt tt file_socket_def unread_def whole_def)
  from load_records [OF this len] obtain s1 where s1: "load_loop request ?t = Some s1" "sys_inv s1" "loose s1 = loose ?t"
    "bufs_kept ?t s1" "indexed ?t \<longrightarrow> indexed s1" "cache s1 = reload (clock ?t) (clock_calls ?t) recs (cache ?t)" "room (mem s1) k"
    "\<forall>i. fill s1 i \<le> fill ?t i + map_share i (map fst recs)" by blast
  have pb: "payload_base (payload_buffer (workers s1 log_worker)) = Some a" using s1(4) sk(3) by (simp add: bufs_kept_def)
  have al: "a \<in> loose s1" by (simp add: s1(3) lt)
  obtain m' where m': "release_memory (mem s1) a = Some m'" "sys_inv (s1\<lparr>mem := m'\<rparr>)" "loose (s1\<lparr>mem := m'\<rparr>) = loose s1 - {a}"
    "\<forall>k. room (mem s1) k \<longrightarrow> room m' k"
    by (rule release_loose [OF s1(2) al])
  let ?s' = "s1\<lparr>mem := m'\<rparr>"
  have c': "cache ?s' = cache s1" by (simp add: cache_def entry_of_def fun_eq_iff)
  have "load_request_log ?file n request s = Some ?s'" using s1(1) pb m'(1) by (simp add: load_request_log_def)
  moreover have "loose ?s' = loose s" using m'(3) s1(3) lt new by simp
  moreover have "indexed s \<longrightarrow> indexed ?s'" using s1(5) c' ct by (simp add: indexed_def tt)
  moreover have "fill ?s' i = fill s1 i" for i by (simp add: fill_def)
  ultimately show ?thesis using m'(2,4) s1(6-8) c' ct tt(2) io by (intro exI [of _ ?s']) simp
qed

section \<open>From one run to the next\<close>

lemma persisted_sum: "(\<Sum>e\<leftarrow>map fst (persisted clk n es). f e) \<le> (\<Sum>e\<leftarrow>es. f e)" for f :: "CacheEntry \<Rightarrow> nat"
proof -
  have "(\<Sum>e\<leftarrow>map fst (fst (fold (persist_step clk) es x)). f e) \<le> (\<Sum>e\<leftarrow>map fst (fst x). f e) + (\<Sum>e\<leftarrow>es. f e)" for x
  proof (induction es arbitrary: x)
    case (Cons e es)
    have "(\<Sum>e\<leftarrow>map fst (fst (persist_step clk e x)). f e) \<le> (\<Sum>e\<leftarrow>map fst (fst x). f e) + f e"
      by (cases x) (simp add: persist_step_def)
    with Cons.IH [of "persist_step clk e x"] show ?case by simp
  qed simp
  from this [of "([], n)"] show ?thesis by (simp add: persisted_def)
qed

lemma entries_upto_length: "length (entries_upto m n) \<le> n"
proof (induction n)
  case (Suc n)
  then show ?case by (cases "entries m n") auto
qed simp

lemma stored_share:
  assumes inv: "sys_inv s"
  shows "map_share i (stored_entries s) \<le> (if i < NUM_CACHE_ENTRY_MAPS then CACHE_ENTRY_MAP_SIZE else 0)"
proof -
  have in_map: "map_share i (entries_in_map s j) \<le> (if j = i then CACHE_ENTRY_MAP_SIZE else 0)" if j: "j < NUM_CACHE_ENTRY_MAPS" for j
  proof -
    have key: "map_for_key (e_key e) = j" if "e \<in> set (entries_in_map s j)" for e
      using that core_invD(3) [OF inv] j by (fastforce simp: entries_in_map_def set_slot_entries maps_inv_def)
    then have "map_share i (entries_in_map s j) = (if j = i then length (entries_in_map s j) else 0)"
      unfolding map_share_def by (subst map_cong [OF refl, where g = "\<lambda>_. if j = i then 1 else 0"]) (auto simp: sum_list_triv)
    then show ?thesis using entries_upto_length [of "entry_maps s i"] by (simp add: entries_in_map_def slot_entries_def)
  qed
  have "map_share i (concat (map (entries_in_map s) [0..<n])) \<le> (if i < n then CACHE_ENTRY_MAP_SIZE else 0)"
    if "n \<le> NUM_CACHE_ENTRY_MAPS" for n
    using that
  proof (induction n)
    case (Suc n)
    have "map_share i (concat (map (entries_in_map s) [0..<Suc n])) =
        map_share i (concat (map (entries_in_map s) [0..<n])) + map_share i (entries_in_map s n)" by (simp add: map_share_def)
    moreover have "map_share i (entries_in_map s n) \<le> (if n = i then CACHE_ENTRY_MAP_SIZE else 0)" using in_map Suc.prems by simp
    moreover have "map_share i (concat (map (entries_in_map s) [0..<n])) \<le> (if i < n then CACHE_ENTRY_MAP_SIZE else 0)" using Suc by simp
    ultimately show ?case by (cases "i < n"; cases "i = n") simp_all
  qed (simp add: map_share_def)
  then show ?thesis by (simp add: stored_entries_def)
qed

lemma fill_le: "fill s i \<le> CACHE_ENTRY_MAP_SIZE"
proof -
  have "fill s i \<le> card {..<CACHE_ENTRY_MAP_SIZE}" unfolding fill_def by (rule card_mono) auto
  then show ?thesis by simp
qed

lemma stored_fine:
  assumes inv: "sys_inv s" and e: "e \<in> set (stored_entries s)"
  shows "entry_fine e"
proof -
  obtain i a where i: "i < NUM_CACHE_ENTRY_MAPS" "a \<in> occupants (entry_maps s i)" "e = the (heap s a)"
    using e by (auto simp: stored_entries_def entries_in_map_def set_slot_entries)
  then obtain f where "heap s a = Some f" using core_invD(3) [OF inv] unfolding maps_inv_def by blast
  with i(3) core_invD(7) [OF inv this] show ?thesis by simp
qed

text \<open>The budget of blocks in which a cache can be read back: its entries, their tags, and the buffer.\<close>

definition reload_budget :: "state \<Rightarrow> nat" where
  "reload_budget s = (\<Sum>e\<leftarrow>stored_entries s. entry_budget e) + BIG"

lemma restart_ok:
  assumes inv: "sys_inv s" and inv0: "sys_inv s0" and empty: "\<forall>i < NUM_CACHE_ENTRY_MAPS. fill s0 i = 0"
    and rm: "room (mem s0) (k + reload_budget s)" and len: "length request = sizeof_Request" and disk: "disk_ok calls"
  shows "\<exists>file s1 s2. persist calls s = Some (file, s1) \<and> clock_calls s1 = clock_calls s + clock_reads (stored_entries s) \<and>
    load_request_log file n request s0 = Some s2 \<and>
    sys_inv s2 \<and> loose s2 = loose s0 \<and> (indexed s0 \<longrightarrow> indexed s2) \<and> room (mem s2) k \<and>
    cache s2 = reload (clock s0) (clock_calls s0) (persisted (clock s) (clock_calls s) (stored_entries s)) (cache s0)"
proof -
  let ?recs = "persisted (clock s) (clock_calls s) (stored_entries s)"
  have fine: "\<forall>(e, ttl) \<in> set ?recs. entry_fine e"
    using persisted_entries [of "clock s" "clock_calls s" "stored_entries s"] stored_fine [OF inv] by fastforce
  have room: "room (mem s0) (k + sum_list (map entry_budget (map fst ?recs)) + BIG)"
    by (rule bmem.room_mono [OF rm]) (use persisted_sum [of entry_budget "clock s" "clock_calls s" "stored_entries s"] in \<open>simp add: reload_budget_def\<close>)
  have fit: "\<forall>i. fill s0 i + map_share i (map fst ?recs) \<le> CACHE_ENTRY_MAP_SIZE"
  proof
    fix i
    have "map_share i (map fst ?recs) \<le> map_share i (stored_entries s)" unfolding map_share_def by (rule persisted_sum)
    also note stored_share [OF inv]
    finally show "fill s0 i + map_share i (map fst ?recs) \<le> CACHE_ENTRY_MAP_SIZE"
      using empty fill_le [of s0 i] by (cases "i < NUM_CACHE_ENTRY_MAPS") simp_all
  qed
  from persist_eq [OF inv disk] load_ok [OF inv0 fine room fit len, of n] show ?thesis by blast
qed

text \<open>Reading records with different keys: each has its entry.\<close>

lemma reload_absent: "key \<notin> e_key ` fst ` set recs \<Longrightarrow> reload clk n recs C key = C key"
proof (induction recs arbitrary: n C)
  case (Cons rec recs)
  then show ?case by (cases rec) simp
qed simp

lemma reload_present:
  assumes "distinct (map (e_key \<circ> fst) recs)" and "(e, ttl) \<in> set recs"
  shows "reload clk n recs C (e_key e) =
    Some (reloaded_entry e ttl (clk (n + 2 * length (takeWhile (\<lambda>(x, _). e_key x \<noteq> e_key e) recs) + 1)))"
  using assms
proof (induction recs arbitrary: n C)
  case (Cons rec recs)
  obtain x t where rec: "rec = (x, t)" by (cases rec)
  show ?case
  proof (cases "rec = (e, ttl)")
    case True
    then have "e_key e \<notin> e_key ` fst ` set recs" using Cons.prems(1) by (simp add: image_comp)
    then show ?thesis using True by (simp add: reload_absent)
  next
    case False
    then have there: "(e, ttl) \<in> set recs" using Cons.prems(2) by auto
    then have "e_key x \<noteq> e_key e" using Cons.prems(1) by (force simp: rec)
    moreover have "reload clk (n + 2) recs D (e_key e) =
        Some (reloaded_entry e ttl (clk (n + 2 + 2 * length (takeWhile (\<lambda>(x, _). e_key x \<noteq> e_key e) recs) + 1)))" for D
      by (rule Cons.IH) (use Cons.prems(1) there in \<open>simp_all add: comp_def\<close>)
    ultimately show ?thesis by (simp add: rec)
  qed
qed simp

lemma persisted_distinct:
  assumes "distinct (map e_key es)"
  shows "distinct (map (e_key \<circ> fst) (persisted clk n es))"
proof -
  have "distinct (map (e_key \<circ> fst) (fst (fold (persist_step clk) es x)))"
    if "distinct (map (e_key \<circ> fst) (fst x))" "distinct (map e_key es)" "(e_key \<circ> fst) ` set (fst x) \<inter> e_key ` set es = {}" for x
    using that
  proof (induction es arbitrary: x)
    case (Cons e es)
    obtain recs m where x: "x = (recs, m)" by (cases x)
    have "fst (persist_step clk e x) = recs \<or> (\<exists>ttl. fst (persist_step clk e x) = recs @ [(e, ttl)])" by (simp add: x persist_step_def)
    then consider "fst (persist_step clk e x) = recs" | ttl where "fst (persist_step clk e x) = recs @ [(e, ttl)]" by blast
    then have "distinct (map (e_key \<circ> fst) (fst (persist_step clk e x))) \<and>
        (e_key \<circ> fst) ` set (fst (persist_step clk e x)) \<inter> e_key ` set es = {}"
      using Cons.prems by cases (auto simp: x comp_def)
    with Cons.IH [of "persist_step clk e x"] Cons.prems(2) show ?case by (simp add: comp_def)
  qed simp
  from this [of "([], n)"] assms show ?thesis by (simp add: persisted_def)
qed

text \<open>When an entry is written, and with what time: the clock is read once for every entry before it that has a
  time of expiry.\<close>

abbreviation others_before :: "CacheEntry \<Rightarrow> CacheEntry list \<Rightarrow> CacheEntry list" where
  "others_before e es \<equiv> takeWhile (\<lambda>x. e_key x \<noteq> e_key e) es"

lemma persisted_cases:
  fixes clk :: "nat \<Rightarrow> time_t" and n :: nat
  assumes e: "e \<in> set es" and d: "distinct (map e_key es)"
  defines "w \<equiv> clk (n + clock_reads (others_before e es))"
  obtains (forever) "expires e = CACHE_EXPIRES_INIT" "(e, 0xFFFFFFFF) \<in> set (persisted clk n es)"
  | (expired) "expires e \<noteq> CACHE_EXPIRES_INIT" "sint (expires e) < sint w" "e_key e \<notin> e_key ` fst ` set (persisted clk n es)"
  | (kept) "expires e \<noteq> CACHE_EXPIRES_INIT" "\<not> sint (expires e) < sint w"
      "(e, ucast (expires e - w)) \<in> set (persisted clk n es)"
proof -
  obtain as bs where es: "es = as @ e # bs" using e by (auto simp: in_set_conv_decomp)
  have "e_key x \<noteq> e_key e" if "x \<in> set as" for x
  proof -
    have "e_key e \<notin> e_key ` set as" using d by (simp add: es)
    then show ?thesis using imageI [OF that, of e_key] by metis
  qed
  then have ob: "others_before e es = as" by (simp add: es takeWhile_append)
  obtain recs j where r: "fold (persist_step clk) as ([], n) = (recs, j)" by fastforce
  have w: "w = clk j" using persist_fold_clock [of clk as "([], n)"] by (simp add: w_def ob r)
  have p: "persisted clk n es = fst (fold (persist_step clk) bs (persist_step clk e (recs, j)))"
    by (simp add: persisted_def es r)
  note grows = persist_fold_grows [of "persist_step clk e (recs, j)" clk bs]
  consider "expires e = CACHE_EXPIRES_INIT" | "expires e \<noteq> CACHE_EXPIRES_INIT" "sint (expires e) < sint (clk j)"
    | "expires e \<noteq> CACHE_EXPIRES_INIT" "\<not> sint (expires e) < sint (clk j)" by blast
  then show thesis
  proof cases
    case 1
    then show thesis using forever grows by (auto simp: p persist_step_def)
  next
    case 2
    have "fst ` set recs \<subseteq> set as" using persist_fold_entries [of clk as "([], n)"] r by simp
    moreover have "fst ` set (persisted clk n es) \<subseteq> set bs \<union> fst ` set recs"
      using persist_fold_entries [of clk bs "(recs, j + 1)"] 2 by (simp add: p persist_step_def)
    moreover have "e_key e \<notin> e_key ` (set as \<union> set bs)" using d by (auto simp: es)
    ultimately have "e_key e \<notin> e_key ` fst ` set (persisted clk n es)" by blast
    then show thesis using expired 2 by (simp add: w)
  next
    case 3
    then have "(e, ucast (expires e - clk j)) \<in> set (persisted clk n es)" using grows by (auto simp: p persist_step_def)
    then show thesis using kept 3 by (simp add: w)
  qed
qed

lemma keys_stored:
  assumes inv: "sys_inv s"
  shows "e_key ` set (stored_entries s) = dom (cache s)"
proof -
  have "set (stored_keys s) = e_key ` set (stored_entries s)"
    by (auto simp: stored_keys_def stored_entries_def keys_in_map_def entries_in_map_def)
  then show ?thesis using set_stored_keys [OF inv] by simp
qed

lemma cached_stored:
  assumes inv: "sys_inv s" and c: "cache s key = Some e"
  shows "e \<in> set (stored_entries s)" and "e_key e = key" and "guard e = False"
proof -
  obtain a where a: "entry_of s key = Some a" "heap s a = Some e" "\<not> guard e" "e_key e = key"
    by (rule found_entry [OF inv c]) blast
  obtain f where "a \<in> occupied s" by (rule entry_of_Some [OF a(1)]) blast
  then obtain i where "i < NUM_CACHE_ENTRY_MAPS" "a \<in> set (slot_entries (entry_maps s i))"
    by (auto simp: occupied_def set_slot_entries)
  moreover have "e = the (heap s a)" using a(2) by simp
  ultimately show "e \<in> set (stored_entries s)" unfolding stored_entries_def entries_in_map_def by (auto intro!: image_eqI)
  show "e_key e = key" "guard e = False" using a by simp_all
qed

text \<open>What the clock of the old run says when an entry is written, and the clock of the new run when it is
  read.\<close>

definition written_at :: "state \<Rightarrow> CacheEntry \<Rightarrow> time_t" where
  "written_at s e = clock s (clock_calls s + clock_reads (others_before e (stored_entries s)))"

definition read_at :: "state \<Rightarrow> state \<Rightarrow> CacheEntry \<Rightarrow> time_t" where
  "read_at s s0 e = clock s0 (clock_calls s0 +
     2 * length (takeWhile (\<lambda>(x, _). e_key x \<noteq> e_key e) (persisted (clock s) (clock_calls s) (stored_entries s))) + 1)"

text \<open>An entry in the next run, when it was written at \<open>w\<close> and read at \<open>r\<close>: gone if it had
  expired at \<open>w\<close>, and otherwise the same but for the times and the hits, which start again. The time that was
  left at \<open>w\<close> passes through the 32 bits of the \<open>ttl\<close> field, in which all ones mean no expiry.\<close>

definition restarted :: "time_t \<Rightarrow> time_t \<Rightarrow> CacheEntry \<Rightarrow> CacheEntry option" where
  "restarted w r e =
     (if expires e = CACHE_EXPIRES_INIT then Some (e\<lparr>mtime := r, nhits := 0\<rparr>)
      else if sint (expires e) < sint w then None
      else let left = (ucast (expires e - w) :: u32)
        in Some (e\<lparr>mtime := r, nhits := 0, expires := (if left = 0xFFFFFFFF then CACHE_EXPIRES_INIT else r + ucast left)\<rparr>))"

lemma restart_entries:
  assumes inv: "sys_inv s" and d: "distinct (map e_key (stored_entries s))"
    and c2: "cache s2 = reload (clock s0) (clock_calls s0) (persisted (clock s) (clock_calls s) (stored_entries s)) Map.empty"
  shows "cache s key = None \<Longrightarrow> cache s2 key = None"
    and "cache s key = Some e \<Longrightarrow> cache s2 key = restarted (written_at s e) (read_at s s0 e) e"
proof -
  let ?recs = "persisted (clock s) (clock_calls s) (stored_entries s)"
  note P = persisted_entries [of "clock s" "clock_calls s" "stored_entries s"]
  show "cache s2 key = None" if "cache s key = None"
  proof -
    have "key \<notin> e_key ` fst ` set ?recs" using that keys_stored [OF inv] P by blast
    then show ?thesis by (simp add: c2 reload_absent)
  qed
  assume c: "cache s key = Some e"
  note S = cached_stored [OF inv c]
  note there = reload_present [OF persisted_distinct [OF d], of e, folded c2, unfolded S(2)]
  show "cache s2 key = restarted (written_at s e) (read_at s s0 e) e"
  proof (cases rule: persisted_cases [OF S(1) d, where clk = "clock s" and n = "clock_calls s", folded written_at_def])
    case 1
    have "cache s2 key = Some (reloaded_entry e 0xFFFFFFFF (read_at s s0 e))" using there [OF 1(2)] by (simp add: read_at_def S(2) c2)
    moreover have "reloaded_entry e 0xFFFFFFFF (read_at s s0 e) = e\<lparr>mtime := read_at s s0 e, nhits := 0\<rparr>"
      using S(3) 1(1) by (cases e) (simp add: reloaded_entry_def)
    ultimately show ?thesis using 1(1) by (simp add: restarted_def)
  next
    case 2
    then have "cache s2 key = None" by (simp add: c2 reload_absent S(2))
    then show ?thesis using 2(1,2) by (simp add: restarted_def)
  next
    case 3
    have "cache s2 key = Some (reloaded_entry e (ucast (expires e - written_at s e)) (read_at s s0 e))"
      using there [OF 3(3)] by (simp add: read_at_def S(2) c2)
    then show ?thesis using 3(1,2) S(3) by (cases e) (simp add: restarted_def reloaded_entry_def Let_def)
  qed
qed

section \<open>A server that has one entry\<close>

lemma stored_length:
  assumes "\<forall>i < NUM_CACHE_ENTRY_MAPS. fill s i \<le> f i"
  shows "length (stored_entries s) \<le> (\<Sum>i < NUM_CACHE_ENTRY_MAPS. f i)"
proof -
  have upto: "length (entries_upto m n) \<le> card {p. p < n \<and> mask m p}" for m n
  proof (induction n)
    case (Suc n)
    have "{p. p < Suc n \<and> mask m p} = (if mask m n then insert n {p. p < n \<and> mask m p} else {p. p < n \<and> mask m p})"
      by (auto simp: less_Suc_eq)
    then show ?case using Suc by (cases "entries m n") auto
  qed simp
  have "length (entries_in_map s i) \<le> f i" if "i < NUM_CACHE_ENTRY_MAPS" for i
    using upto [of "entry_maps s i" CACHE_ENTRY_MAP_SIZE] assms that
    by (fastforce simp: entries_in_map_def slot_entries_def fill_def)
  then have "length (concat (map (entries_in_map s) [0..<n])) \<le> (\<Sum>i < n. f i)" if "n \<le> NUM_CACHE_ENTRY_MAPS" for n
    using that by (induction n) (simp_all add: add_mono)
  then show ?thesis by (simp add: stored_entries_def)
qed

definition stored_sample :: CacheEntry where
  "stored_sample = \<lparr>e_key = [7], e_tags = [[9]], e_value = [1, 2], mtime = 0, expires = CACHE_EXPIRES_INIT, nhits = 0, guard = False\<rparr>"

definition sample_disk :: file_calls where
  "sample_disk = \<lparr>old_content = [1, 2, 3], ftruncate_result = 0, write_accepts = (\<lambda>_ n. n)\<rparr>"

lemma sample_disk_ok: "disk_ok sample_disk"
  by (simp add: sample_disk_def disk_ok_def takes_all_def)

text \<open>The server as it has just started, and after it has read a file with the entry.\<close>

lemma sample_runs:
  obtains s0 s e where "sys_inv s0" "cache s0 = Map.empty" "indexed s0" "\<forall>i < NUM_CACHE_ENTRY_MAPS. fill s0 i = 0"
    "room (mem s0) (reload_budget s)" "sys_inv s" "stored_entries s = [e]" "cache s [7] = Some e"
    "e_value e = [1, 2]" "expires e = CACHE_EXPIRES_INIT"
proof -
  have c: "the_config sample_calls = Some runtime_config" by (simp add: sample_calls_def)
  obtain sv where sv: "started sv 6000000" "\<forall>i < NUM_CACHE_ENTRY_MAPS. entry_maps (st sv) i = init_cache_entry_map"
    by (rule start_up_ok [OF c sample_calls_ok statics_pristine])
  let ?s0 = "st sv"
  have s0: "sys_inv ?s0" "cache ?s0 = Map.empty" "indexed ?s0" "room (mem ?s0) 6000000" using sv(1) by (simp_all add: started_def)
  have empty: "\<forall>i < NUM_CACHE_ENTRY_MAPS. fill ?s0 i = 0" using sv(2) by (simp add: fill_def init_cache_entry_map_def)
  have fine: "entry_fine stored_sample"
    by (simp add: entry_fine_def stored_sample_def entry_size_def sizeof_CacheEntry_def sizeof_CacheTag_def MAX_BUCKET_SIZE_def)
  let ?recs = "[(stored_sample, 0xFFFFFFFF :: u32)]"
  have budget: "entry_budget e \<le> 2 + BIG" if "length (e_tags e) = 1" for e
    using that block_budget_le(1) [of "entry_size e"] by (simp add: entry_budget_def)
  have rm: "room (mem ?s0) (0 + sum_list (map entry_budget (map fst ?recs)) + BIG)"
    by (rule bmem.room_mono [OF s0(4)]) (use budget [of stored_sample] in \<open>simp add: stored_sample_def BIG_def\<close>)
  have fit: "\<forall>i. fill ?s0 i + map_share i (map fst ?recs) \<le> CACHE_ENTRY_MAP_SIZE"
  proof
    fix i
    have pos: "1 \<le> CACHE_ENTRY_MAP_SIZE" by (simp add: CACHE_ENTRY_MAP_SIZE_def)
    show "fill ?s0 i + map_share i (map fst ?recs) \<le> CACHE_ENTRY_MAP_SIZE"
      using empty fill_le [of ?s0 i] pos by (cases "i < NUM_CACHE_ENTRY_MAPS") (auto simp: map_share_def)
  qed
  have fines: "\<forall>(e, ttl) \<in> set ?recs. entry_fine e" using fine by simp
  have len: "length (replicate sizeof_Request (0 :: u8)) = sizeof_Request" by simp
  from load_ok [OF s0(1) fines rm fit len, of 0] obtain s where
    s: "sys_inv s" "cache s = reload (clock ?s0) (clock_calls ?s0) ?recs (cache ?s0)"
    "\<forall>i. fill s i \<le> fill ?s0 i + map_share i (map fst ?recs)" by blast
  let ?e = "reloaded_entry stored_sample 0xFFFFFFFF (clock ?s0 (clock_calls ?s0 + 1))"
  have ce: "cache s [7] = Some ?e" by (simp add: s(2)) (simp add: stored_sample_def)
  have "length (stored_entries s) \<le> (\<Sum>i < NUM_CACHE_ENTRY_MAPS. if i = map_for_key [7] then 1 else 0)"
  proof (rule stored_length, intro allI impI)
    fix i
    assume "i < NUM_CACHE_ENTRY_MAPS"
    then show "fill s i \<le> (if i = map_for_key [7] then 1 else 0)"
      using s(3) [rule_format, of i] empty by (cases "i = map_for_key [7]") (simp_all add: map_share_def stored_sample_def)
  qed
  then have "length (stored_entries s) \<le> 1" by simp
  moreover note cached_stored(1) [OF s(1) ce]
  ultimately have st: "stored_entries s = [?e]" by (cases "stored_entries s") auto
  have "reload_budget s \<le> 6000000"
    using budget [of ?e] by (simp add: reload_budget_def st reloaded_entry_def stored_sample_def BIG_def)
  then show thesis
    using that [of ?s0 s ?e] s0 empty s(1) st ce bmem.room_mono [OF s0(4)]
    by (simp add: reloaded_entry_def stored_sample_def)
qed

section \<open>Properties\<close>

text \<open>C10. A run that ends and the run that follows it, when the disk takes all that is written: ending writes a
  file of \<open>SET\<close> requests, one for every entry that has not expired, in the order of the maps and their
  slots, and the start reads it back without a failure, provided the memory is there: the cache is then the one in
  which these entries were set one after the other, with the time they had left, each by the clock of its own
  request. All invariants hold, and nothing leaks.\<close>

theorem restart_reads_what_was_written:
  assumes "sys_inv s" and "sys_inv s0" and "cache s0 = Map.empty" and "indexed s0" and "\<forall>i < NUM_CACHE_ENTRY_MAPS. fill s0 i = 0"
    and "room (mem s0) (reload_budget s)" and "length request = sizeof_Request" and "disk_ok calls"
  shows "\<exists>s1 s2. persist calls s = Some (concat (map record_bytes (persisted (clock s) (clock_calls s) (stored_entries s))), s1) \<and>
    load_request_log (concat (map record_bytes (persisted (clock s) (clock_calls s) (stored_entries s)))) n request s0 = Some s2 \<and>
    sys_inv s2 \<and> indexed s2 \<and> loose s2 = loose s0 \<and>
    cache s2 = reload (clock s0) (clock_calls s0) (persisted (clock s) (clock_calls s) (stored_entries s)) Map.empty"
proof -
  have "room (mem s0) (0 + reload_budget s)" using assms(6) by simp
  from restart_ok [OF assms(1,2,5) this assms(7,8), of n] persist_eq [OF assms(1,8)] show ?thesis
    using assms(3,4) by fastforce
qed

theorem restart_reads_what_was_written_witness:
  "\<exists>s s0 e content s1 s2. persist sample_disk s = Some (content, s1) \<and>
     load_request_log content 5 (replicate 16 0) s0 = Some s2 \<and> stored_entries s = [e] \<and>
     cache s2 = reload (clock s0) (clock_calls s0) (persisted (clock s) (clock_calls s) [e]) Map.empty"
proof -
  obtain s0 s e where S: "sys_inv s0" "cache s0 = Map.empty" "indexed s0" "\<forall>i < NUM_CACHE_ENTRY_MAPS. fill s0 i = 0"
    "room (mem s0) (reload_budget s)" "sys_inv s" "stored_entries s = [e]" by (rule sample_runs)
  have "length (replicate 16 (0 :: u8)) = sizeof_Request" by (simp add: sizeof_Request_def)
  from restart_reads_what_was_written [OF S(6,1-5) this sample_disk_ok, of 5] S(7) show ?thesis by metis
qed

text \<open>C9. What a client finds after a restart, when the disk takes all that is written and the memory is there to
  read it back. When no key has an older copy of its entry beside it, then a key that was absent stays absent, an
  entry without a time of expiry is there again with its value and its tags, and one with a time of expiry is gone
  if that lay before \<open>written_at\<close>, the time at which the clock was read to write this very entry, and
  otherwise there, to live for as long as it had left then (in the 32 bits of the \<open>ttl\<close> field), counted from
  \<open>read_at\<close>, when it was read back. The clock is read for nothing else while the file is written.\<close>

theorem restart_keeps_entries:
  assumes "sys_inv s" and "sys_inv s0" and "cache s0 = Map.empty" and "indexed s0" and "\<forall>i < NUM_CACHE_ENTRY_MAPS. fill s0 i = 0"
    and "room (mem s0) (reload_budget s)" and "length request = sizeof_Request" and "disk_ok calls"
    and "distinct (map e_key (stored_entries s))"
  shows "\<exists>content s1 s2. persist calls s = Some (content, s1) \<and> clock_calls s1 = clock_calls s + clock_reads (stored_entries s) \<and>
    load_request_log content n request s0 = Some s2 \<and>
    (\<forall>key. cache s2 key = (case cache s key of None \<Rightarrow> None | Some e \<Rightarrow> restarted (written_at s e) (read_at s s0 e) e))"
proof -
  have "room (mem s0) (0 + reload_budget s)" using assms(6) by simp
  from restart_ok [OF assms(1,2,5) this assms(7,8), of n] obtain content s1 s2 where
    r: "persist calls s = Some (content, s1)" "clock_calls s1 = clock_calls s + clock_reads (stored_entries s)"
    "load_request_log content n request s0 = Some s2"
    "cache s2 = reload (clock s0) (clock_calls s0) (persisted (clock s) (clock_calls s) (stored_entries s)) Map.empty"
    using assms(3) by auto
  have "cache s2 key = (case cache s key of None \<Rightarrow> None | Some e \<Rightarrow> restarted (written_at s e) (read_at s s0 e) e)" for key
    using restart_entries [OF assms(1,9) r(4), of key] by (cases "cache s key") simp_all
  with r(1-3) show ?thesis by blast
qed

theorem restart_keeps_entries_witness:
  "\<exists>s s0 content s1 s2 e e'. persist sample_disk s = Some (content, s1) \<and> load_request_log content 5 (replicate 16 0) s0 = Some s2 \<and>
     cache s [7] = Some e \<and> e_value e = [1, 2] \<and> cache s2 [7] = Some e' \<and> e_value e' = [1, 2]"
proof -
  obtain s0 s e where S: "sys_inv s0" "cache s0 = Map.empty" "indexed s0" "\<forall>i < NUM_CACHE_ENTRY_MAPS. fill s0 i = 0"
    "room (mem s0) (reload_budget s)" "sys_inv s" "stored_entries s = [e]" "cache s [7] = Some e" "e_value e = [1, 2]"
    "expires e = CACHE_EXPIRES_INIT" by (rule sample_runs)
  have len: "length (replicate 16 (0 :: u8)) = sizeof_Request" by (simp add: sizeof_Request_def)
  have d: "distinct (map e_key (stored_entries s))" by (simp add: S(7))
  obtain content s1 s2 where r: "persist sample_disk s = Some (content, s1)" "load_request_log content 5 (replicate 16 0) s0 = Some s2"
    "\<forall>key. cache s2 key = (case cache s key of None \<Rightarrow> None | Some e \<Rightarrow> restarted (written_at s e) (read_at s s0 e) e)"
    using restart_keeps_entries [OF S(6,1-5) len sample_disk_ok d, of 5] by blast
  have "cache s2 [7] = restarted (written_at s e) (read_at s s0 e) e" using r(3) [rule_format, of "[7]"] S(8) by simp
  then have "cache s2 [7] = Some (e\<lparr>mtime := read_at s s0 e, nhits := 0\<rparr>)" using S(10) by (simp add: restarted_def)
  then show ?thesis using r(1,2) S(8,9) by fastforce
qed

end
