(* ===== verification/Cik_Text.thy ===== *)
theory Cik_Text
  imports Cik_Budget Cik_Util
begin

text \<open>
  The thread-specific side of \<open>key2str\<close> and \<open>tag2str\<close> in \<open>src/src/util.c\<close>: the buffers that
  each thread reserves in the region with its first text and gives back when it ends.
\<close>

section \<open>The buffers of a thread\<close>

text \<open>What \<open>tss_get\<close> gives for the two keys: the block, and what is in it.\<close>

record text_buffers =
  key2str_buffer :: "(addr \<times> buffer) option"
  tag2str_buffer :: "(addr \<times> buffer) option"

text \<open>The values that \<open>init_util\<close> sets, and with which every thread starts.\<close>

definition no_text_buffers :: text_buffers where
  "no_text_buffers = \<lparr>key2str_buffer = None, tag2str_buffer = None\<rparr>"

text \<open>\<open>garbage\<close> is what a block holds that has just been reserved.\<close>

definition obtain_buffer :: "buffer \<Rightarrow> (addr \<times> buffer) option \<Rightarrow> memory \<Rightarrow> (addr \<times> buffer) option \<times> memory" where
  "obtain_buffer garbage b m = (case b of
     Some x \<Rightarrow> (b, m)
   | None \<Rightarrow> (let (r, m') = reserve_memory m 0x100 in (map_option (\<lambda>a. (a, garbage)) r, m')))"

text \<open>The result is \<open>NULL\<close> (\<open>None\<close>) or the block with the text.\<close>

definition key2str_call :: "buffer \<Rightarrow> text_buffers \<Rightarrow> memory \<Rightarrow> u8 list \<Rightarrow> ((addr \<times> buffer) option \<times> text_buffers \<times> memory) option" where
  "key2str_call garbage t m key =
     (case obtain_buffer garbage (key2str_buffer t) m of
        (None, m') \<Rightarrow> Some (None, t\<lparr>key2str_buffer := None\<rparr>, m')
      | (Some (a, buf), m') \<Rightarrow> do {
          buf' \<leftarrow> key2str buf key;
          Some (Some (a, buf'), t\<lparr>key2str_buffer := Some (a, buf')\<rparr>, m')
        })"

definition tag2str_call :: "buffer \<Rightarrow> text_buffers \<Rightarrow> memory \<Rightarrow> u8 list \<Rightarrow> ((addr \<times> buffer) option \<times> text_buffers \<times> memory) option" where
  "tag2str_call garbage t m tag =
     (case obtain_buffer garbage (tag2str_buffer t) m of
        (None, m') \<Rightarrow> Some (None, t\<lparr>tag2str_buffer := None\<rparr>, m')
      | (Some (a, buf), m') \<Rightarrow> do {
          buf' \<leftarrow> tag2str buf tag;
          Some (Some (a, buf'), t\<lparr>tag2str_buffer := Some (a, buf')\<rparr>, m')
        })"

text \<open>The end of a thread: \<open>release_memory\<close> is the destructor of both keys, called for what is not null.\<close>

definition destroy_buffer :: "(addr \<times> buffer) option \<Rightarrow> memory \<Rightarrow> memory option" where
  "destroy_buffer b m = (case b of None \<Rightarrow> Some m | Some (a, _) \<Rightarrow> release_memory m a)"

definition thread_exit :: "text_buffers \<Rightarrow> memory \<Rightarrow> memory option" where
  "thread_exit t m = do { m1 \<leftarrow> destroy_buffer (key2str_buffer t) m; destroy_buffer (tag2str_buffer t) m1 }"

section \<open>What they do\<close>

text \<open>A thread's buffers are two live blocks of their own.\<close>

definition text_blocks :: "text_buffers \<Rightarrow> addr set" where
  "text_blocks t = fst ` (set_option (key2str_buffer t) \<union> set_option (tag2str_buffer t))"

definition text_inv :: "text_buffers \<Rightarrow> memory \<Rightarrow> bool" where
  "text_inv t m \<longleftrightarrow> mem_inv m \<and> text_blocks t \<subseteq> live m \<and>
     (\<forall>a b x y. key2str_buffer t = Some (a, x) \<longrightarrow> tag2str_buffer t = Some (b, y) \<longrightarrow> a \<noteq> b)"

definition the_text :: "buffer \<Rightarrow> nat \<Rightarrow> u8 list" where
  "the_text buf n = load_bytes buf 0 (n + 1)"

lemma obtain_buffer_cases:
  assumes inv: "mem_inv m" and rm: "room m (Suc k)"
  obtains (there) x where "b = Some x" "obtain_buffer garbage b m = (Some x, m)"
  | (new) a m' where "b = None" "obtain_buffer garbage b m = (Some (a, garbage), m')" "mem_inv m'" "a \<notin> live m"
      "live m' = insert a (live m)" "room m' k"
proof (cases b)
  case None
  have "(0x100 :: u32) \<le> SMALL_BLOCK" by (simp add: SMALL_BLOCK_def)
  from bmem.reserve_roomE [OF inv this rm] obtain a m' where
    "reserve_memory m 0x100 = (Some a, m')" "mem_inv m'" "live m' = insert a (live m)" "a \<notin> live m" "room m' k" by metis
  then show thesis using None new by (simp add: obtain_buffer_def)
next
  case (Some x)
  then have "obtain_buffer garbage b m = (Some x, m)" by (simp add: obtain_buffer_def)
  with Some show thesis by (rule there)
qed

text \<open>With room for a block a call gives the text, back in the client's order and terminated; the block is the
  thread's for all of its calls, and nothing else is reserved.\<close>

lemma key2str_call_correct:
  assumes t: "text_inv t m" and rm: "room m (Suc k)" and len: "length key < 0x100"
  shows "\<exists>a buf t' m'. key2str_call garbage t m key = Some (Some (a, buf), t', m') \<and> the_text buf (length key) = rev key @ [0] \<and>
    text_inv t' m' \<and> key2str_buffer t' = Some (a, buf) \<and> tag2str_buffer t' = tag2str_buffer t \<and>
    live m' = live m \<union> text_blocks t' \<and> room m' k"
proof -
  have inv: "mem_inv m" using t by (simp add: text_inv_def)
  have shown: "the_text (copy_back (buf(length key := 0)) key 0 (length key)) (length key) = rev key @ [0]" for buf
    unfolding the_text_def by (rule copy_back_string)
  show ?thesis
  proof (cases rule: obtain_buffer_cases [OF inv rm, of "key2str_buffer t" garbage])
    case (1 x)
    have "room m k" by (rule bmem.room_mono [OF rm]) simp
    then show ?thesis
      using 1 t len shown by (cases x) (auto simp: key2str_call_def key2str_def text_inv_def text_blocks_def)
  next
    case (2 a m')
    have "a \<noteq> b" if "tag2str_buffer t = Some (b, y)" for b y using 2(4) t that by (auto simp: text_inv_def text_blocks_def)
    then show ?thesis
      using 2 t len shown by (auto simp: key2str_call_def key2str_def text_inv_def text_blocks_def)
  qed
qed

lemma tag2str_call_correct:
  assumes t: "text_inv t m" and rm: "room m (Suc k)" and len: "length tag < 0x100"
  shows "\<exists>a buf t' m'. tag2str_call garbage t m tag = Some (Some (a, buf), t', m') \<and> the_text buf (length tag) = rev tag @ [0] \<and>
    text_inv t' m' \<and> tag2str_buffer t' = Some (a, buf) \<and> key2str_buffer t' = key2str_buffer t \<and>
    live m' = live m \<union> text_blocks t' \<and> room m' k"
proof -
  have inv: "mem_inv m" using t by (simp add: text_inv_def)
  have shown: "the_text (copy_back (buf(length tag := 0)) tag 0 (length tag)) (length tag) = rev tag @ [0]" for buf
    unfolding the_text_def by (rule copy_back_string)
  show ?thesis
  proof (cases rule: obtain_buffer_cases [OF inv rm, of "tag2str_buffer t" garbage])
    case (1 x)
    have "room m k" by (rule bmem.room_mono [OF rm]) simp
    then show ?thesis
      using 1 t len shown by (cases x) (auto simp: tag2str_call_def tag2str_def text_inv_def text_blocks_def)
  next
    case (2 a m')
    have "a \<noteq> b" if "key2str_buffer t = Some (b, y)" for b y using 2(4) t that by (auto simp: text_inv_def text_blocks_def)
    then show ?thesis
      using 2 t len shown by (auto simp: tag2str_call_def tag2str_def text_inv_def text_blocks_def)
  qed
qed

text \<open>The end of the thread gives both back.\<close>

lemma destroy_buffer_ok:
  assumes "mem_inv m" and "fst ` set_option b \<subseteq> live m"
  obtains m' where "destroy_buffer b m = Some m'" "mem_inv m'" "live m' = live m - fst ` set_option b"
proof (cases b)
  case (Some x)
  then have "fst x \<in> live m" using assms(2) by auto
  from bmem.release_roomE [OF assms(1) this] obtain m' where "release_memory m (fst x) = Some m'" "mem_inv m'" "live m' = live m - {fst x}"
    by metis
  then show thesis using that Some by (simp add: destroy_buffer_def split_def)
qed (use assms(1) that in \<open>simp add: destroy_buffer_def\<close>)

lemma thread_exit_correct:
  assumes "text_inv t m"
  shows "\<exists>m'. thread_exit t m = Some m' \<and> mem_inv m' \<and> live m' = live m - text_blocks t"
proof -
  have k: "mem_inv m" "fst ` set_option (key2str_buffer t) \<subseteq> live m" using assms by (auto simp: text_inv_def text_blocks_def)
  obtain m1 where m1: "destroy_buffer (key2str_buffer t) m = Some m1" "mem_inv m1"
    "live m1 = live m - fst ` set_option (key2str_buffer t)" by (rule destroy_buffer_ok [OF k])
  have "fst ` set_option (tag2str_buffer t) \<subseteq> live m1"
    using assms unfolding text_inv_def text_blocks_def m1(3) by (cases "key2str_buffer t"; cases "tag2str_buffer t") auto
  then obtain m2 where "destroy_buffer (tag2str_buffer t) m1 = Some m2" "mem_inv m2"
    "live m2 = live m1 - fst ` set_option (tag2str_buffer t)" by (rule destroy_buffer_ok [OF m1(2)])
  then show ?thesis using m1(1,3) by (auto simp: thread_exit_def text_blocks_def image_Un)
qed

end
