(* ===== verification/Spec2Isabelle.thy ===== *)
theory Spec2Isabelle
  imports Cik_Allocator_Props Cik_Map_Laws Cik_Tag_Ops Cik_Log_Laws Cik_Config_Laws Cik_Serving_Props
    Cik_Race Cik_Safe_Server Cik_Protocol Cik_List_Props Cik_Profiler Cik_Persist Cik_Text
begin

text \<open>
  A verification development for cik, a key-value cache server in C (\<open>src/src/\<close>).

  \<^bold>\<open>The program.\<close> One process keeps entries (a key, a value, a time of expiry, tags) in a region of
  four gigabytes and serves them over TCP in a binary protocol of six operations: \<open>GET\<close>, \<open>SET\<close>,
  \<open>DEL\<close>, \<open>CLR\<close> (all entries, expired ones, or by tags), \<open>LST\<close> (keys or tags) and
  \<open>NFO\<close>. The main thread starts the others, writes reports when it is signalled, and persists the cache
  when it is told to leave; the accept thread fills a table of 256 clients and gives each to one of sixteen workers;
  a worker reads a request, has it handled and answers; the logging thread prints what the workers queue for it.
  The handlers work on three structures that share one allocator: 6421 hash maps with pointers to the entries, the
  index from tags to keys, and the entries themselves, which the maps, the handlers and the locks share by address.

  \<^bold>\<open>Conventions\<close> (\<open>Cik_Prelude\<close>). A C function that may run into undefined behaviour, fail an
  assertion that is compiled in, or never return is a function into an \<open>option\<close> type, with \<open>None\<close>
  for those executions; errors that the code reports are values inside \<open>Some\<close>. Machine integers are words
  of their width. State is passed explicitly. What a system call or a clock answers is an argument or a field of
  the state, and so is what a peer sends and takes. The conditions of \<open>cik_assert\<close>, which is empty in the
  release build, have no counterpart.

  \<^bold>\<open>The model\<close>, in the order of the code.
  \<^item> \<open>Cik_Types\<close>: \<open>config.h\<close> and \<open>types.h\<close>, the constants, the status codes and modes, the
    packed request and response, and the sizes of the structures that are put into the region.
  \<^item> \<open>Cik_Util\<close>: \<open>util.h\<close>, \<open>util.c\<close>, the reversal of keys and tags in place and the
    printable copies; \<open>Cik_Text\<close> has the buffers that a thread reserves for them and gives back at its end.
  \<^item> \<open>Cik_Memory\<close>: \<open>memory.c\<close>. \<open>memory\<close> is the region with its cursor, the partitions with
    their free lists, and the class of every bucket ever cut.
  \<^item> \<open>Cik_Thread\<close>: \<open>thrd-compat.h\<close>, threads with the block that each has in the region.
  \<^item> \<open>Cik_Entry\<close>: \<open>entry.h\<close>, \<open>entry.c\<close>. \<open>CacheEntryHashMap\<close> has the four
    parallel arrays of the code, \<open>store\<close> the entries by address.
  \<^item> \<open>Cik_Tag\<close>: \<open>tag.c\<close>, a binary search tree of tag nodes with their lists of keys.
  \<^item> \<open>Cik_Log\<close>: \<open>log.h\<close>, \<open>log.c\<close>, the ring of 256 entries per worker.
  \<^item> \<open>Cik_Net\<close>: reading and writing a connection (\<open>server.c\<close>).
  \<^item> \<open>Cik_State\<close>: the record \<open>state\<close> with all of these, the workers, the clients and the clocks, and
    the access of the handlers to them.
  \<^item> \<open>Cik_Controller\<close>: \<open>controller.c\<close>, a definition per handler and callback.
  \<^item> \<open>Cik_Server\<close>: \<open>server.c\<close>. \<open>server\<close> adds the descriptors, the table of what each worker
    watches, and the threads.
  \<^item> \<open>Cik_Config\<close>, \<open>Cik_Main\<close>: \<open>config.c\<close> and \<open>main.c\<close>, the configuration file, the
    start with all of its exits, the signals, the loops of the main and the logging thread, the reports, and the
    end.
  \<^item> \<open>Cik_Profiler\<close>: \<open>profiler.c\<close>.

  \<^bold>\<open>The components.\<close> Each has a contract as a locale, the client's lemmas in it, and an interpretation
  on the model.
  \<^item> \<open>allocator\<close> and \<open>budgeted_allocator\<close> (\<open>Cik_Allocator\<close>, \<open>Cik_Budget\<close>,
    \<open>Cik_Allocator_Props\<close>): under \<open>mem_inv\<close> a block that is reserved is inside the region, large
    enough and disjoint from all that are live. \<open>room m k\<close> is a budget: \<open>k\<close> more blocks of at most
    512 bytes can be had for sure. A bucket of the largest class counts as \<open>BIG = 16384\<close> of them, a bucket for
    \<open>n\<close> bytes as \<open>block_budget n\<close>, one per 256 bytes, and a fresh region has room for seven million.
  \<^item> \<open>entry_index\<close> (\<open>Cik_Hash_Map\<close>, \<open>Cik_Map_Laws\<close>): a hash map as a finite map from keys to
    addresses, with the number of copies of a key (the code can store a key twice).
  \<^item> \<open>tag_index\<close> (\<open>Cik_Tag_Index\<close>, \<open>Cik_Tag_Ops\<close>): the tree as a function from tags to
    lists of keys; its queries are union and intersection. The costs of the queries and of the walk in blocks are
    \<open>query_cost\<close> and the size of the tree.
  \<^item> \<open>bounded_queue\<close> (\<open>Cik_Log_Laws\<close>): the ring refines a first-in first-out queue of 255; what is
    logged is what is printed.
  \<^item> \<open>Cik_Config_Laws\<close>: a file of comments, empty lines and settings (\<open>config_item\<close>), with any
    white space in them, is read as meant; and whatever the file, a configuration that is accepted has the values of
    the last assignments, which are valid.

  \<^bold>\<open>The composition.\<close> \<open>sys_inv\<close> (\<open>Cik_Core\<close>) ties allocator, maps, entries and index
  together, and bounds every entry (\<open>entry_fine\<close>: what it holds fits the largest bucket); \<open>cache s\<close> is the finite map from keys to entries that a state stands for, \<open>indexed s\<close> says
  that the index knows every tag of every entry, \<open>loose s\<close> are the blocks that belong to neither.
  \<^item> \<open>Cik_Core_Ops\<close>, \<open>Cik_Cache_Ops\<close>, \<open>Cik_Clear\<close>: the steps of the handlers (deleting,
    publishing, indexing, walks that clear) as changes of \<open>cache\<close>.
  \<^item> \<open>Cik_Reading\<close>, \<open>Cik_Get\<close>, \<open>Cik_Set\<close>: reading keys and tags that have arrived, and the
    handlers of \<open>GET\<close>, \<open>DEL\<close> and \<open>SET\<close>.
  \<^item> \<open>Cik_Serving\<close>, \<open>Cik_Serving_Props\<close>, \<open>Cik_Clear_Props\<close>, \<open>Cik_List_Props\<close>: each
    operation from the bytes on the connection to the bytes of the answer. \<open>talked c bs rest s s'\<close> says that
    client \<open>c\<close> got \<open>bs\<close>, that its stream goes on with \<open>rest\<close>, and that no other client noticed.
  \<^item> \<open>Cik_Safe_Reading\<close>, \<open>Cik_Safe_Steps\<close>, \<open>Cik_Safe_Lists\<close>, \<open>Cik_Safe\<close>,
    \<open>Cik_Safe_Server\<close>: the same handlers without any assumption on the input or on the memory that is left.
    Every event that is served keeps the invariant, frees every lock, and loses no block; and so does every run from
    a start that succeeded. \<open>server_step\<close> has whole events one after the other, and keeps the table of
    clients consistent too; \<open>thread_step\<close> interleaves every statement of \<open>close_client\<close> and of
    \<open>wait_for_new_connection\<close> with them, and has the runs of \<open>server_step\<close> among its own.
  \<^item> \<open>Cik_Info\<close>, \<open>Cik_Protocol\<close>: \<open>NFO\<close>, and the requests that are always served
    (\<open>protocol_request\<close>).
  \<^item> \<open>Cik_Boot\<close>, \<open>Cik_Startup\<close>, \<open>Cik_Connections\<close>: what the start leaves behind, every way in which
    it fails (without a region the initialisers still run and may end it, before the first use of a map is a fault),
    and the table of clients (\<open>conn_inv\<close>). \<open>sample_server\<close> is a server that has come up and
    has accepted a client; the witnesses run requests on it.
  \<^item> \<open>Cik_Main_Laws\<close>, \<open>Cik_Race\<close>: signals and the logging thread; and the accept thread against a worker
    that closes a connection, statement by statement.
  \<^item> \<open>Cik_Persist\<close>: one run and the next. \<open>persisted\<close> is the list of the entries that
    \<open>persist\<close> writes, with the time each has left, \<open>reload\<close> the cache that \<open>load_request_log\<close>
    makes of such a list, and \<open>restarted\<close> is what a client finds of an entry afterwards, by the readings of the
    clock when it was written (\<open>written_at\<close>) and read back (\<open>read_at\<close>). An \<open>outfile\<close> takes as
    much of each \<open>write\<close> as it likes, which the code does not look at; the theorems are for one that takes
    all (\<open>disk_ok\<close>).

  \<^bold>\<open>Loops.\<close> Probing, walking and copying are structural or have a measure. \<open>flush_queue\<close> and
  \<open>load_loop\<close> are partial functions (the first is shown to end, and the second on every file that
  \<open>persist\<close> writes). The event loops take the list of what
  \<open>epoll_wait\<close> will answer. A write needs as many acceptances as bytes in the worst case (\<open>willing\<close>).

  \<^bold>\<open>Bounds.\<close> Addresses are natural numbers: the cursor is of 64 bits and grows by at most eight megabytes and
  a header per call. A list of \<open>LST\<close> is bounded by the worker's buffer, \<open>MAX_BUCKET_SIZE\<close>;
  \<open>fitting\<close> cuts it there.

  \<^bold>\<open>Not modelled.\<close>
  \<^item> Threads inside a handler: a worker serves an event in one step, and a spin lock that is held has no
    continuation. The interleavings that are modelled are those of requests as wholes (\<open>server_step\<close>), of the signals
    with the main loop, and of \<open>close_client\<close> and \<open>wait_for_new_connection\<close>, statement by statement,
    with each other and with the requests (\<open>race_step\<close>, \<open>thread_step\<close>). In particular the
    compare-and-swap of a new tag node and the push on a free list succeed at the first attempt.
  \<^item> The text of messages: colours, alignment, file and line; the notices to systemd; the pid in its file; the
    options of the sockets.
  \<^item> What becomes of a line when \<open>key2str\<close> or \<open>tag2str\<close> finds no memory: the reports and the
    printed log entries take it that the buffers of their thread are there.
  \<^item> Code that is switched off: the body of \<open>debug_print_profilers\<close> and the macro \<open>PROFILE\<close>.
\<close>

end
